(* ===== verification/Prelude.thy ===== *)
theory Prelude
  imports "HOL-Library.Word" "HOL-Library.Multiset"
begin

text \<open>
  Shared vocabulary of the development: the machine types of the Rust code as
  words, byte strings, big-endian conversions (\<^verbatim>\<open>to_be_bytes\<close> /
  \<^verbatim>\<open>from_be_bytes\<close>), checked slices (\<^verbatim>\<open>get(a..b)\<close>), in-place copies
  (\<^verbatim>\<open>copy_from_slice\<close>), \<^verbatim>\<open>chunks(n)\<close>, saturating arithmetic and sums over
  finite maps (the model of \<^verbatim>\<open>HashMap\<close>).

  A \<^verbatim>\<open>usize\<close> that measures memory is a \<^typ>\<open>nat\<close>; counters whose
  wrap-around or saturation the code depends on keep their width.
\<close>

unbundle bit_operations_syntax

type_synonym u8 = "8 word"
type_synonym u16 = "16 word"
type_synonym u32 = "32 word"
type_synonym u64 = "64 word"
type_synonym bytes = "u8 list"

named_theorems be_simps \<open>big-endian conversions and their lengths\<close>
named_theorems slice_simps \<open>checked slices and in-place copies\<close>
named_theorems acct_simps \<open>accounting sums over finite maps\<close>

section \<open>Big-endian conversions\<close>

definition u16_to_be :: "u16 \<Rightarrow> bytes" where
  "u16_to_be w = [ucast (drop_bit 8 w), ucast w]"

definition u16_from_be :: "u8 \<Rightarrow> u8 \<Rightarrow> u16" where
  "u16_from_be a b = push_bit 8 (ucast a) OR ucast b"

definition u32_to_be :: "u32 \<Rightarrow> bytes" where
  "u32_to_be w = [ucast (drop_bit 24 w), ucast (drop_bit 16 w), ucast (drop_bit 8 w), ucast w]"

definition u32_from_be :: "u8 \<Rightarrow> u8 \<Rightarrow> u8 \<Rightarrow> u8 \<Rightarrow> u32" where
  "u32_from_be a b c d =
     push_bit 24 (ucast a) OR push_bit 16 (ucast b) OR push_bit 8 (ucast c) OR ucast d"

lemma length_u16_to_be [simp, be_simps]: "length (u16_to_be w) = 2"
  by (simp add: u16_to_be_def)

lemma length_u32_to_be [simp, be_simps]: "length (u32_to_be w) = 4"
  by (simp add: u32_to_be_def)

lemma u16_from_to_be [simp, be_simps]:
  "u16_from_be (ucast (drop_bit 8 w)) (ucast w) = w"
  unfolding u16_from_be_def
  by (rule bit_word_eqI) (auto simp: bit_simps)

lemma u16_from_be_hi [simp, be_simps]: "ucast (drop_bit 8 (u16_from_be a b)) = a"
  unfolding u16_from_be_def
  by (rule bit_word_eqI) (auto simp: bit_simps dest: bit_imp_le_length)

lemma u16_from_be_lo [simp, be_simps]: "ucast (u16_from_be a b) = b"
  unfolding u16_from_be_def
  by (rule bit_word_eqI) (auto simp: bit_simps)

lemma u16_to_from_be [simp, be_simps]: "u16_to_be (u16_from_be a b) = [a, b]"
  by (simp add: u16_to_be_def)

lemma byte_cases:
  "n < 32 \<Longrightarrow> n < 8 \<or> (\<exists>k. n = 8 + k \<and> k < 8) \<or> (\<exists>k. n = 16 + k \<and> k < 8) \<or>
     (\<exists>k. n = 24 + k \<and> k < (8::nat))"
  by presburger

lemma u32_from_to_be [simp, be_simps]:
  "u32_from_be (ucast (drop_bit 24 w)) (ucast (drop_bit 16 w)) (ucast (drop_bit 8 w)) (ucast w) = w"
  unfolding u32_from_be_def
proof (rule bit_word_eqI)
  fix n
  assume "n < LENGTH(32)"
  then consider "n < 8" | k where "n = 8 + k" "k < 8" | k where "n = 16 + k" "k < 8"
    | k where "n = 24 + k" "k < 8"
    using byte_cases [of n] by auto
  then show "bit (push_bit 24 (ucast (ucast (drop_bit 24 w) :: u8)) OR
        push_bit 16 (ucast (ucast (drop_bit 16 w) :: u8)) OR
        push_bit 8 (ucast (ucast (drop_bit 8 w) :: u8)) OR ucast (ucast w :: u8) :: u32) n = bit w n"
    by cases (auto simp: bit_simps)
qed

lemma u32_to_from_be [simp, be_simps]: "u32_to_be (u32_from_be a b c d) = [a, b, c, d]"
proof -
  have "ucast (drop_bit 24 (u32_from_be a b c d)) = a"
    unfolding u32_from_be_def by (rule bit_word_eqI) (auto simp: bit_simps dest: bit_imp_le_length)
  moreover have "ucast (drop_bit 16 (u32_from_be a b c d)) = b"
    unfolding u32_from_be_def by (rule bit_word_eqI) (auto simp: bit_simps dest: bit_imp_le_length)
  moreover have "ucast (drop_bit 8 (u32_from_be a b c d)) = c"
    unfolding u32_from_be_def by (rule bit_word_eqI) (auto simp: bit_simps dest: bit_imp_le_length)
  moreover have "ucast (u32_from_be a b c d) = d"
    unfolding u32_from_be_def by (rule bit_word_eqI) (auto simp: bit_simps dest: bit_imp_le_length)
  ultimately show ?thesis by (simp add: u32_to_be_def)
qed

lemma unat_of_nat_u16 [simp]: "n \<le> 65535 \<Longrightarrow> unat (of_nat n :: u16) = n"
  by (simp add: unat_of_nat)

lemma unat_u16_le [simp]: "unat (w :: u16) \<le> 65535"
  using unsigned_less [of w, where ?'a = nat] by simp

definition u64_to_be :: "u64 \<Rightarrow> bytes" where
  "u64_to_be w = u32_to_be (ucast (drop_bit 32 w)) @ u32_to_be (ucast w)"

definition u64_from_be :: "bytes \<Rightarrow> u64" where
  "u64_from_be bs =
     push_bit 32 (ucast (u32_from_be (bs ! 0) (bs ! 1) (bs ! 2) (bs ! 3))) OR
     ucast (u32_from_be (bs ! 4) (bs ! 5) (bs ! 6) (bs ! 7))"

lemma length_u64_to_be [simp, be_simps]: "length (u64_to_be w) = 8"
  by (simp add: u64_to_be_def)

lemma u64_halves: "push_bit 32 (ucast (ucast (drop_bit 32 w) :: u32)) OR ucast (ucast w :: u32) = (w :: u64)"
  by (rule bit_word_eqI) (auto simp: bit_simps)

lemma u64_from_to_be [simp, be_simps]: "u64_from_be (u64_to_be w) = w"
  by (simp add: u64_from_be_def u64_to_be_def u32_to_be_def [of "ucast w"]
      u32_to_be_def [of "ucast (drop_bit 32 w)"] u64_halves del: drop_bit_drop_bit)

section \<open>Slices\<close>

definition get_range :: "'a list \<Rightarrow> nat \<Rightarrow> nat \<Rightarrow> 'a list option" where
  "get_range xs a b = (if a \<le> b \<and> b \<le> length xs then Some (take (b - a) (drop a xs)) else None)"

definition copy_at :: "'a list \<Rightarrow> nat \<Rightarrow> 'a list \<Rightarrow> 'a list" where
  "copy_at xs i ys = take i xs @ ys @ drop (i + length ys) xs"

lemma length_copy_at [simp, slice_simps]:
  "i + length ys \<le> length xs \<Longrightarrow> length (copy_at xs i ys) = length xs"
  by (simp add: copy_at_def)

lemma get_range_copy_at [slice_simps]:
  "i + length ys \<le> length xs \<Longrightarrow> get_range (copy_at xs i ys) i (i + length ys) = Some ys"
  by (simp add: copy_at_def get_range_def)

lemma take_copy_at [slice_simps]:
  "n \<le> i \<Longrightarrow> i \<le> length xs \<Longrightarrow> take n (copy_at xs i ys) = take n xs"
  by (simp add: copy_at_def)

lemma drop_copy_at [slice_simps]:
  "i + length ys \<le> n \<Longrightarrow> i + length ys \<le> length xs \<Longrightarrow> drop n (copy_at xs i ys) = drop n xs"
  by (simp add: copy_at_def)

text \<open>\<^verbatim>\<open>slice.chunks(n)\<close>: pieces of \<^term>\<open>n\<close> elements, the last one possibly shorter.\<close>

function chunks :: "nat \<Rightarrow> 'a list \<Rightarrow> 'a list list" where
  "chunks n xs = (if xs = [] \<or> n = 0 then [] else take n xs # chunks n (drop n xs))"
  by pat_completeness auto
termination
  by (relation "measure (\<lambda>(n, xs). length xs)") auto

declare chunks.simps [simp del]

lemma chunks_Nil [simp]: "chunks n [] = []"
  by (simp add: chunks.simps)

lemma concat_chunks [simp]: "0 < n \<Longrightarrow> concat (chunks n xs) = xs"
  by (induction n xs rule: chunks.induct) (subst chunks.simps, auto)

lemma chunks_length_le: "c \<in> set (chunks n xs) \<Longrightarrow> length c \<le> n \<and> c \<noteq> []"
proof (induction n xs rule: chunks.induct)
  case (1 n xs)
  show ?case
  proof (cases "xs = [] \<or> n = 0")
    case True
    then show ?thesis using 1 by (simp add: chunks.simps [of n])
  next
    case False
    then have "c = take n xs \<or> c \<in> set (chunks n (drop n xs))"
      using "1.prems" by (simp add: chunks.simps [of n xs])
    then show ?thesis using "1.IH" False by auto
  qed
qed

lemma length_chunks: "0 < n \<Longrightarrow> length (chunks n xs) = (length xs + n - 1) div n"
proof (induction n xs rule: chunks.induct)
  case (1 n xs)
  show ?case
  proof (cases "xs = []")
    case True
    then show ?thesis using 1 by simp
  next
    case False
    then have "length (chunks n xs) = Suc ((length (drop n xs) + n - 1) div n)"
      using 1 by (subst chunks.simps) simp
    also have "\<dots> = (length xs + n - 1) div n"
    proof (cases "n \<le> length xs")
      case True
      then have e: "length xs + n - 1 = (length (drop n xs) + n - 1) + n"
        using \<open>0 < n\<close> by simp
      show ?thesis unfolding e by (subst div_add_self2) (use \<open>0 < n\<close> in auto)
    next
      case False
      moreover have "0 < length xs" using \<open>xs \<noteq> []\<close> by simp
      ultimately have e: "length xs + n - 1 = n + (length xs - 1)" and r: "length xs - 1 < n"
        by linarith+
      show ?thesis unfolding e using r False \<open>0 < n\<close> by (subst div_add_self1) auto
    qed
    finally show ?thesis .
  qed
qed

section \<open>Saturating arithmetic\<close>

text \<open>\<^verbatim>\<open>a.saturating_sub(b)\<close> on \<^verbatim>\<open>usize\<close> is truncated subtraction on \<^typ>\<open>nat\<close>;
  on words it is written out.\<close>

definition sat_add :: "'a::len word \<Rightarrow> 'a word \<Rightarrow> 'a word" where
  "sat_add a b = (if unat a + unat b < 2 ^ LENGTH('a) then a + b else - 1)"

definition sat_sub :: "'a::len word \<Rightarrow> 'a word \<Rightarrow> 'a word" where
  "sat_sub a b = (if a < b then 0 else a - b)"

lemma unat_sat_add: "unat (sat_add (a :: 'a::len word) b) = min (unat a + unat b) (2 ^ LENGTH('a) - 1)"
  using unat_add_lem [of a b]
  by (auto simp: sat_add_def unsigned_minus_1_eq_mask mask_eq_exp_minus_1)

lemma unat_sat_sub: "unat (sat_sub a b) = unat a - unat b"
  by (auto simp: sat_sub_def word_less_nat_alt unat_sub word_le_nat_alt)

text \<open>\<^verbatim>\<open>a - b\<close> on \<^verbatim>\<open>usize\<close> in a release build wraps modulo \<^term>\<open>2 ^ 64 :: nat\<close>; the
  invariants below show where that never happens.\<close>

definition usize_sub :: "nat \<Rightarrow> nat \<Rightarrow> nat" where
  "usize_sub a b = (if b \<le> a then a - b else a + 2 ^ 64 - b)"

lemma usize_sub_le [simp]: "b \<le> a \<Longrightarrow> usize_sub a b = a - b"
  by (simp add: usize_sub_def)

section \<open>Sums over finite maps\<close>

definition msum :: "('v \<Rightarrow> nat) \<Rightarrow> ('k \<rightharpoonup> 'v) \<Rightarrow> nat" where
  "msum f m = (\<Sum>k\<in>dom m. f (the (m k)))"

lemma msum_empty [simp, acct_simps]: "msum f Map.empty = 0"
  by (simp add: msum_def)

lemma msum_remove [acct_simps]:
  assumes "finite (dom m)" "m k = Some v"
  shows "msum f m = f v + msum f (m(k := None))"
proof -
  have "k \<in> dom m" using assms by auto
  then have "msum f m = f (the (m k)) + (\<Sum>j\<in>dom m - {k}. f (the (m j)))"
    using assms(1) by (simp add: msum_def sum.remove)
  also have "(\<Sum>j\<in>dom m - {k}. f (the (m j))) = msum f (m(k := None))"
    unfolding msum_def by (rule sum.cong) auto
  finally show ?thesis using assms(2) by simp
qed

lemma msum_upd [acct_simps]:
  assumes "finite (dom m)"
  shows "msum f (m(k \<mapsto> v)) = f v + msum f (m(k := None))"
  using assms msum_remove [of "m(k \<mapsto> v)" k v f] by simp

lemma msum_ge: "finite (dom m) \<Longrightarrow> m k = Some v \<Longrightarrow> f v \<le> msum f m"
  by (simp add: msum_remove)

lemma msum_delete_none: "m k = None \<Longrightarrow> msum f (m(k := None)) = msum f m"
  by (simp add: fun_upd_idem)

section \<open>Incremental decoders\<close>

text \<open>
  Several readers of the program reassemble messages from a byte stream: they append
  what the transport delivers to a buffer and decode from its front until the decoder
  says that more bytes are needed. The interface below is the contract such a decoder
  keeps; the client lemma is that the segmentation of the stream does not matter.
\<close>

fun feed :: "('b list \<Rightarrow> 'f list \<times> 'b list) \<Rightarrow> 'b list \<Rightarrow> 'b list list \<Rightarrow> 'f list \<times> 'b list" where
  "feed drain buf [] = ([], buf)"
| "feed drain buf (c # cs) =
     (let (fs, buf') = drain (buf @ c); (gs, buf'') = feed drain buf' cs in (fs @ gs, buf''))"

locale incremental_decoder =
  fixes dec :: "'b list \<Rightarrow> 'f option \<times> 'b list"
    and drain :: "'b list \<Rightarrow> 'f list \<times> 'b list"
  assumes dec_none: "dec s = (None, s') \<Longrightarrow> s' = s"
    and dec_shrinks: "dec s = (Some f, s') \<Longrightarrow> length s' < length s"
    and dec_append: "dec s = (Some f, s') \<Longrightarrow> dec (s @ t) = (Some f, s' @ t)"
    and drain_none: "dec s = (None, s') \<Longrightarrow> drain s = ([], s')"
    and drain_some: "dec s = (Some f, s') \<Longrightarrow> drain s = (f # fst (drain s'), snd (drain s'))"
begin

lemma drain_append:
  "drain (s @ t) = (fst (drain s) @ fst (drain (snd (drain s) @ t)), snd (drain (snd (drain s) @ t)))"
proof (induction s rule: length_induct)
  case (1 s)
  obtain r s' where d: "dec s = (r, s')" by (cases "dec s")
  show ?case
  proof (cases r)
    case None
    then have "drain s = ([], s)" using d dec_none drain_none by blast
    then show ?thesis by simp
  next
    case (Some f)
    then have "dec (s @ t) = (Some f, s' @ t)" and "length s' < length s"
      using d dec_append dec_shrinks by blast+
    then show ?thesis
      using "1.IH" d Some drain_some [of s f s'] drain_some [of "s @ t" f "s' @ t"] by simp
  qed
qed

lemma drain_idle: "drain (snd (drain s)) = ([], snd (drain s))"
proof (induction s rule: length_induct)
  case (1 s)
  obtain r s' where d: "dec s = (r, s')" by (cases "dec s")
  show ?case
  proof (cases r)
    case None
    then have "drain s = ([], s)" using d dec_none drain_none by blast
    then show ?thesis by simp
  next
    case (Some f)
    then show ?thesis using "1.IH" d drain_some dec_shrinks by fastforce
  qed
qed

lemma feed_eq_drain:
  assumes "drain buf = ([], buf)"
  shows "feed drain buf cs = drain (buf @ concat cs)"
  using assms
proof (induction cs arbitrary: buf)
  case Nil
  then show ?case by simp
next
  case (Cons c cs)
  let ?d = "drain (buf @ c)"
  have "feed drain (snd ?d) cs = drain (snd ?d @ concat cs)"
    by (rule Cons.IH) (rule drain_idle)
  then show ?case
    using drain_append [of "buf @ c" "concat cs"] by (simp add: case_prod_beta Let_def)
qed

lemma drain_encoded:
  assumes "\<And>f. f \<in> set fs \<Longrightarrow> \<forall>t. dec (enc f @ t) = (Some f, t)" and "dec t = (None, t)"
  shows "drain (concat (map enc fs) @ t) = (fs, t)"
  using assms
proof (induction fs)
  case Nil
  then show ?case by (simp add: drain_none)
next
  case (Cons f fs)
  then show ?case by (simp add: drain_some [where f = f and s' = "concat (map enc fs) @ t"])
qed

end

end
