(* ===== verification/Frame.thy ===== *)
theory Frame
  imports Prelude
begin

text \<open>
  The multiplexing frame codec of \<^verbatim>\<open>crates/session/src/frame.rs\<close>: a 7-byte header
  \<^verbatim>\<open>[cmd][stream_id u32][len u16]\<close> followed by the payload, the self-sized padding
  frames that carry GOAWAY and WINDOW\_UPDATE, the chunking of application data into PSH
  frames, and the coalescing of encoded frames into packets. The lemmas show the round
  trip, that reassembly does not depend on segmentation, that a padding frame hits the
  wire size it was asked for, and that coalescing keeps the byte stream.
\<close>

section \<open>Constants and data\<close>

definition FRAME_HEADER_SIZE :: nat where "FRAME_HEADER_SIZE = 7"
definition MAX_PAYLOAD_LEN :: nat where "MAX_PAYLOAD_LEN = 65535"
definition ZERO_COPY_PAYLOAD_MIN :: nat where "ZERO_COPY_PAYLOAD_MIN = 16384"

definition CMD_SYN :: u8 where "CMD_SYN = 1"
definition CMD_PSH :: u8 where "CMD_PSH = 2"
definition CMD_FIN :: u8 where "CMD_FIN = 3"
definition CMD_SETTINGS :: u8 where "CMD_SETTINGS = 4"
definition CMD_SYNACK :: u8 where "CMD_SYNACK = 7"
definition CMD_PADDING :: u8 where "CMD_PADDING = 8"

lemmas cmd_defs = CMD_SYN_def CMD_PSH_def CMD_FIN_def CMD_SETTINGS_def CMD_SYNACK_def CMD_PADDING_def

record frame =
  f_cmd :: u8
  f_stream_id :: u32
  f_payload :: bytes

datatype frame_error = PayloadTooLarge nat nat

definition Frame_new :: "u8 \<Rightarrow> u32 \<Rightarrow> bytes \<Rightarrow> frame" where
  "Frame_new c sid p = \<lparr>f_cmd = c, f_stream_id = sid, f_payload = p\<rparr>"

text \<open>The payload of \<^verbatim>\<open>cmd_settings\<close> is the ASCII string \<^verbatim>\<open>v=2;fc=1\<close>.\<close>

definition SETTINGS_PAYLOAD :: bytes where
  "SETTINGS_PAYLOAD = map (\<lambda>c. of_nat (of_char c)) ''v=2;fc=1''"

definition Frame_cmd_settings :: frame where
  "Frame_cmd_settings = Frame_new CMD_SETTINGS 0 SETTINGS_PAYLOAD"

definition Frame_syn :: "u32 \<Rightarrow> frame" where "Frame_syn sid = Frame_new CMD_SYN sid []"
definition Frame_psh :: "u32 \<Rightarrow> bytes \<Rightarrow> frame" where "Frame_psh sid d = Frame_new CMD_PSH sid d"
definition Frame_fin :: "u32 \<Rightarrow> frame" where "Frame_fin sid = Frame_new CMD_FIN sid []"

lemmas frame_ctor_defs = Frame_new_def Frame_cmd_settings_def Frame_syn_def Frame_psh_def Frame_fin_def

section \<open>Encoding and decoding\<close>

definition Frame_encode :: "frame \<Rightarrow> frame_error + bytes" where
  "Frame_encode f =
     (if length (f_payload f) > MAX_PAYLOAD_LEN
      then Inl (PayloadTooLarge (length (f_payload f)) MAX_PAYLOAD_LEN)
      else let data_len = (of_nat (length (f_payload f)) :: u16) in
        Inr ([f_cmd f] @ u32_to_be (f_stream_id f) @ u16_to_be data_len @ f_payload f))"

definition encode_psh_into :: "bytes \<Rightarrow> u32 \<Rightarrow> bytes \<Rightarrow> frame_error + bytes" where
  "encode_psh_into dst sid p =
     (if length p > MAX_PAYLOAD_LEN then Inl (PayloadTooLarge (length p) MAX_PAYLOAD_LEN)
      else Inr (dst @ [CMD_PSH] @ u32_to_be sid @ u16_to_be (of_nat (length p)) @ p))"

definition encode_psh :: "u32 \<Rightarrow> bytes \<Rightarrow> frame_error + bytes" where
  "encode_psh sid p = encode_psh_into [] sid p"

definition encoded_len :: "nat \<Rightarrow> nat" where
  "encoded_len payload_len = FRAME_HEADER_SIZE + payload_len"

text \<open>\<^verbatim>\<open>Frame::decode\<close> consumes from the front of the buffer; the result is paired with
  the buffer it leaves behind. The two payload branches (reference-counted split and
  copy) are kept as the code has them.\<close>

definition Frame_decode :: "bytes \<Rightarrow> frame option \<times> bytes" where
  "Frame_decode src =
     (if length src < FRAME_HEADER_SIZE then (None, src)
      else
        let c = src ! 0;
            sid = u32_from_be (src ! 1) (src ! 2) (src ! 3) (src ! 4);
            data_len = unat (u16_from_be (src ! 5) (src ! 6)) in
        if length src < FRAME_HEADER_SIZE + data_len then (None, src)
        else
          let src1 = drop FRAME_HEADER_SIZE src;
              (p, src2) =
                (if data_len \<ge> ZERO_COPY_PAYLOAD_MIN
                 then (take data_len src1, drop data_len src1)
                 else let copied = take data_len src1 in (copied, drop data_len src1)) in
          (Some \<lparr>f_cmd = c, f_stream_id = sid, f_payload = p\<rparr>, src2))"

text \<open>The reassembly loop of \<^verbatim>\<open>Session::run_read_loop\<close>: decode until the buffer holds
  no complete frame.\<close>

lemma Frame_decode_shrinks: "Frame_decode s = (Some f, s') \<Longrightarrow> length s' < length s"
  by (auto simp: Frame_decode_def Let_def FRAME_HEADER_SIZE_def split: if_splits)

function decode_frames :: "bytes \<Rightarrow> frame list \<times> bytes" where
  "decode_frames src =
     (case Frame_decode src of
        (None, src') \<Rightarrow> ([], src')
      | (Some f, src') \<Rightarrow> let (fs, rest) = decode_frames src' in (f # fs, rest))"
  by pat_completeness auto
termination
  by (relation "measure length") (auto dest: Frame_decode_shrinks [OF sym])

declare decode_frames.simps [simp del]

section \<open>Padding frames\<close>

definition PADDING_HEADER_LEN :: nat where "PADDING_HEADER_LEN = 2"
definition PADDING_FLAG_REQUEST :: u8 where "PADDING_FLAG_REQUEST = 0"
definition PADDING_FLAG_REPLY :: u8 where "PADDING_FLAG_REPLY = 1"
definition PADDING_FLAG_GOAWAY :: u8 where "PADDING_FLAG_GOAWAY = 2"
definition PADDING_FLAG_WINDOW_UPDATE :: u8 where "PADDING_FLAG_WINDOW_UPDATE = 3"
definition GOAWAY_LAST_STREAM_ID_LEN :: nat where "GOAWAY_LAST_STREAM_ID_LEN = 4"
definition WINDOW_UPDATE_INCREMENT_LEN :: nat where "WINDOW_UPDATE_INCREMENT_LEN = 4"

text \<open>Block length prefix, TLS record header, AEAD tag and inner content type
  (\<^verbatim>\<open>crates/tunnel/src/common.rs\<close>).\<close>

definition BLOCK_LEN_PREFIX_SIZE :: nat where "BLOCK_LEN_PREFIX_SIZE = 2"
definition TLS_RECORD_HEADER_LEN :: nat where "TLS_RECORD_HEADER_LEN = 5"
definition AEAD_TAG_LEN :: nat where "AEAD_TAG_LEN = 16"
definition INNER_CONTENT_TYPE_LEN :: nat where "INNER_CONTENT_TYPE_LEN = 1"

definition CONTROL_RECORD_MIN_OVERHEAD :: nat where
  "CONTROL_RECORD_MIN_OVERHEAD =
     BLOCK_LEN_PREFIX_SIZE + TLS_RECORD_HEADER_LEN + AEAD_TAG_LEN + INNER_CONTENT_TYPE_LEN"

definition MIN_PADDING_RECORD_WIRE_LEN :: nat where
  "MIN_PADDING_RECORD_WIRE_LEN = CONTROL_RECORD_MIN_OVERHEAD + FRAME_HEADER_SIZE + PADDING_HEADER_LEN"

definition MIN_GOAWAY_RECORD_WIRE_LEN :: nat where
  "MIN_GOAWAY_RECORD_WIRE_LEN = MIN_PADDING_RECORD_WIRE_LEN + GOAWAY_LAST_STREAM_ID_LEN"

lemmas frame_const_defs =
  FRAME_HEADER_SIZE_def MAX_PAYLOAD_LEN_def PADDING_HEADER_LEN_def
  GOAWAY_LAST_STREAM_ID_LEN_def WINDOW_UPDATE_INCREMENT_LEN_def
  BLOCK_LEN_PREFIX_SIZE_def TLS_RECORD_HEADER_LEN_def AEAD_TAG_LEN_def INNER_CONTENT_TYPE_LEN_def
  CONTROL_RECORD_MIN_OVERHEAD_def MIN_PADDING_RECORD_WIRE_LEN_def MIN_GOAWAY_RECORD_WIRE_LEN_def

lemmas padding_flag_defs =
  PADDING_FLAG_REQUEST_def PADDING_FLAG_REPLY_def PADDING_FLAG_GOAWAY_def PADDING_FLAG_WINDOW_UPDATE_def

definition padding_junk_len_for_wire :: "nat \<Rightarrow> nat" where
  "padding_junk_len_for_wire target = target - MIN_PADDING_RECORD_WIRE_LEN"

definition encode_padding_frame_sized :: "u8 \<Rightarrow> u8 \<Rightarrow> nat \<Rightarrow> bytes" where
  "encode_padding_frame_sized flag m target =
     (let payload_len = PADDING_HEADER_LEN + padding_junk_len_for_wire target;
          dst0 = replicate (FRAME_HEADER_SIZE + payload_len) 0;
          dst1 = dst0[0 := CMD_PADDING];
          dst2 = copy_at dst1 1 (u32_to_be 0);
          dst3 = copy_at dst2 5 (u16_to_be (of_nat payload_len));
          dst4 = dst3[7 := flag];
          dst5 = dst4[8 := m]
      in dst5)"

definition encode_padding_request_sized :: "u8 \<Rightarrow> nat \<Rightarrow> bytes" where
  "encode_padding_request_sized m target = encode_padding_frame_sized PADDING_FLAG_REQUEST m target"

definition encode_padding_reply_sized :: "nat \<Rightarrow> bytes" where
  "encode_padding_reply_sized target = encode_padding_frame_sized PADDING_FLAG_REPLY 0 target"

definition encode_padding_goaway_sized :: "u32 \<Rightarrow> nat \<Rightarrow> bytes" where
  "encode_padding_goaway_sized last_stream_id target =
     (let dst = encode_padding_frame_sized PADDING_FLAG_GOAWAY 0 target;
          start = FRAME_HEADER_SIZE + PADDING_HEADER_LEN in
      case get_range dst start (start + GOAWAY_LAST_STREAM_ID_LEN) of
        Some _ \<Rightarrow> copy_at dst start (u32_to_be last_stream_id)
      | None \<Rightarrow> dst)"

definition encode_padding_window_update_sized :: "u32 \<Rightarrow> u32 \<Rightarrow> nat \<Rightarrow> bytes" where
  "encode_padding_window_update_sized sid inc target =
     (let dst0 = encode_padding_frame_sized PADDING_FLAG_WINDOW_UPDATE 0 target;
          dst = copy_at dst0 1 (u32_to_be sid);
          start = FRAME_HEADER_SIZE + PADDING_HEADER_LEN in
      case get_range dst start (start + WINDOW_UPDATE_INCREMENT_LEN) of
        Some _ \<Rightarrow> copy_at dst start (u32_to_be inc)
      | None \<Rightarrow> dst)"

definition decode_padding_goaway :: "bytes \<Rightarrow> u32 option" where
  "decode_padding_goaway p =
     (case p of [] \<Rightarrow> None
      | flag # _ \<Rightarrow>
          if flag \<noteq> PADDING_FLAG_GOAWAY then None
          else case get_range p PADDING_HEADER_LEN (PADDING_HEADER_LEN + GOAWAY_LAST_STREAM_ID_LEN) of
                 None \<Rightarrow> None
               | Some raw \<Rightarrow> Some (u32_from_be (raw ! 0) (raw ! 1) (raw ! 2) (raw ! 3)))"

definition decode_padding_window_update :: "bytes \<Rightarrow> u32 option" where
  "decode_padding_window_update p =
     (case p of [] \<Rightarrow> None
      | flag # _ \<Rightarrow>
          if flag \<noteq> PADDING_FLAG_WINDOW_UPDATE then None
          else case get_range p PADDING_HEADER_LEN (PADDING_HEADER_LEN + WINDOW_UPDATE_INCREMENT_LEN) of
                 None \<Rightarrow> None
               | Some raw \<Rightarrow> Some (u32_from_be (raw ! 0) (raw ! 1) (raw ! 2) (raw ! 3)))"

definition self_sized_padding_wire_len :: "bytes \<Rightarrow> nat option" where
  "self_sized_padding_wire_len packet =
     (if length packet < FRAME_HEADER_SIZE \<or> packet ! 0 \<noteq> CMD_PADDING then None
      else
        let payload_len = unat (u16_from_be (packet ! 5) (packet ! 6)) in
        if FRAME_HEADER_SIZE + payload_len \<noteq> length packet \<or> payload_len < PADDING_HEADER_LEN then None
        else Some (length packet + CONTROL_RECORD_MIN_OVERHEAD))"

section \<open>Chunking and coalescing\<close>

fun encode_psh_chunks :: "u32 \<Rightarrow> bytes list \<Rightarrow> frame_error + bytes list" where
  "encode_psh_chunks sid [] = Inr []"
| "encode_psh_chunks sid (c # cs) =
     (case encode_psh_into [] sid c of
        Inl e \<Rightarrow> Inl e
      | Inr pkt \<Rightarrow> (case encode_psh_chunks sid cs of Inl e \<Rightarrow> Inl e | Inr pkts \<Rightarrow> Inr (pkt # pkts)))"

definition encode_psh_frames :: "u32 \<Rightarrow> bytes \<Rightarrow> frame_error + bytes list" where
  "encode_psh_frames sid data = encode_psh_chunks sid (chunks MAX_PAYLOAD_LEN data)"

fun coalesce_loop :: "nat \<Rightarrow> bytes list \<Rightarrow> bytes \<Rightarrow> bytes list \<Rightarrow> bytes list" where
  "coalesce_loop mx out current [] = (if current \<noteq> [] then out @ [current] else out)"
| "coalesce_loop mx out current (f # fs) =
     (if length f > mx
      then coalesce_loop mx ((if current \<noteq> [] then out @ [current] else out) @ [f]) [] fs
      else if length current + length f > mx \<and> current \<noteq> []
      then coalesce_loop mx (out @ [current]) f fs
      else coalesce_loop mx out (current @ f) fs)"

definition coalesce_encoded_frames :: "bytes list \<Rightarrow> nat \<Rightarrow> bytes list" where
  "coalesce_encoded_frames frames max_packet_len =
     (if length frames = 1 \<and> frames ! 0 \<noteq> [] then frames
      else coalesce_loop max_packet_len [] [] frames)"

section \<open>The decoder keeps the incremental contract\<close>

lemma Frame_decode_None: "Frame_decode s = (None, s') \<Longrightarrow> s' = s"
  by (auto simp: Frame_decode_def Let_def split: if_splits)

lemma Frame_decode_append:
  assumes "Frame_decode s = (Some f, s')"
  shows "Frame_decode (s @ t) = (Some f, s' @ t)"
proof -
  let ?n = "unat (u16_from_be (s ! 5) (s ! 6))"
  have "7 + ?n \<le> length s" and "s' = drop (7 + ?n) s"
    and "f = \<lparr>f_cmd = s ! 0, f_stream_id = u32_from_be (s ! 1) (s ! 2) (s ! 3) (s ! 4),
              f_payload = take ?n (drop 7 s)\<rparr>"
    using assms by (auto simp: Frame_decode_def Let_def FRAME_HEADER_SIZE_def add.commute split: if_splits)
  then show ?thesis
    by (auto simp: Frame_decode_def Let_def FRAME_HEADER_SIZE_def nth_append add.commute)
qed

interpretation frames: incremental_decoder Frame_decode decode_frames
proof
  show "decode_frames s = ([], s')" if "Frame_decode s = (None, s')" for s s'
    using that by (subst decode_frames.simps) simp
  show "decode_frames s = (f # fst (decode_frames s'), snd (decode_frames s'))"
    if "Frame_decode s = (Some f, s')" for s f s'
    using that by (subst decode_frames.simps) (simp add: case_prod_beta)
qed (auto intro: Frame_decode_None Frame_decode_shrinks Frame_decode_append)

text \<open>What the encoders write, as a header followed by the payload.\<close>

definition frame_bytes :: "u8 \<Rightarrow> u32 \<Rightarrow> bytes \<Rightarrow> bytes" where
  "frame_bytes c sid p = [c] @ u32_to_be sid @ u16_to_be (of_nat (length p)) @ p"

lemma Frame_decode_frame_bytes:
  assumes "length p \<le> MAX_PAYLOAD_LEN"
  shows "Frame_decode (frame_bytes c sid p @ t) =
    (Some \<lparr>f_cmd = c, f_stream_id = sid, f_payload = p\<rparr>, t)"
  using assms
  by (simp add: Frame_decode_def frame_bytes_def Let_def u32_to_be_def u16_to_be_def
      FRAME_HEADER_SIZE_def MAX_PAYLOAD_LEN_def)

lemma Frame_encode_Inr:
  "Frame_encode f = Inr b \<longleftrightarrow>
     length (f_payload f) \<le> MAX_PAYLOAD_LEN \<and> b = frame_bytes (f_cmd f) (f_stream_id f) (f_payload f)"
  by (auto simp: Frame_encode_def frame_bytes_def Let_def)

lemma Frame_encode_fits:
  "length (f_payload f) \<le> MAX_PAYLOAD_LEN \<Longrightarrow>
   Frame_encode f = Inr (frame_bytes (f_cmd f) (f_stream_id f) (f_payload f))"
  by (simp add: Frame_encode_Inr)

lemma Frame_decode_encode:
  "Frame_encode f = Inr b \<Longrightarrow> Frame_decode (b @ t) = (Some f, t)"
  by (auto simp: Frame_encode_Inr Frame_decode_frame_bytes)

lemma encode_psh_into_Inr:
  "encode_psh_into dst sid p = Inr b \<longleftrightarrow> length p \<le> MAX_PAYLOAD_LEN \<and> b = dst @ frame_bytes CMD_PSH sid p"
  by (auto simp: encode_psh_into_def frame_bytes_def)

lemma encode_psh_chunks_eq:
  "\<forall>c \<in> set cs. length c \<le> MAX_PAYLOAD_LEN \<Longrightarrow>
   encode_psh_chunks sid cs = Inr (map (frame_bytes CMD_PSH sid) cs)"
  by (induction cs) (auto simp: encode_psh_into_def frame_bytes_def)

lemma encode_psh_frames_eq:
  "encode_psh_frames sid data = Inr (map (frame_bytes CMD_PSH sid) (chunks MAX_PAYLOAD_LEN data))"
  unfolding encode_psh_frames_def
  by (rule encode_psh_chunks_eq) (auto dest: chunks_length_le)

section \<open>Padding frames have the size they were asked for\<close>

lemma encode_padding_frame_sized_eq:
  "encode_padding_frame_sized flag m target =
     frame_bytes CMD_PADDING 0 (flag # m # replicate (padding_junk_len_for_wire target) 0)"
  by (simp add: encode_padding_frame_sized_def frame_bytes_def Let_def frame_const_defs
      copy_at_def u32_to_be_def u16_to_be_def numeral_eq_Suc)

lemma length_frame_bytes [simp]: "length (frame_bytes c sid p) = 7 + length p"
  by (simp add: frame_bytes_def)

lemma encode_padding_goaway_sized_eq:
  assumes "MIN_GOAWAY_RECORD_WIRE_LEN \<le> target"
  shows "encode_padding_goaway_sized sid target =
     frame_bytes CMD_PADDING 0
       (PADDING_FLAG_GOAWAY # 0 # u32_to_be sid @ replicate (target - MIN_GOAWAY_RECORD_WIRE_LEN) 0)"
proof -
  obtain j where j: "target = MIN_GOAWAY_RECORD_WIRE_LEN + j"
    using assms le_Suc_ex by blast
  show ?thesis
    by (simp add: j encode_padding_goaway_sized_def encode_padding_frame_sized_eq Let_def
        frame_const_defs padding_junk_len_for_wire_def frame_bytes_def get_range_def copy_at_def
        u32_to_be_def u16_to_be_def numeral_eq_Suc)
qed

lemma encode_padding_window_update_sized_eq:
  assumes "MIN_GOAWAY_RECORD_WIRE_LEN \<le> target"
  shows "encode_padding_window_update_sized sid inc target =
     frame_bytes CMD_PADDING sid
       (PADDING_FLAG_WINDOW_UPDATE # 0 # u32_to_be inc @ replicate (target - MIN_GOAWAY_RECORD_WIRE_LEN) 0)"
proof -
  obtain j where j: "target = MIN_GOAWAY_RECORD_WIRE_LEN + j"
    using assms le_Suc_ex by blast
  show ?thesis
    by (simp add: j encode_padding_window_update_sized_def encode_padding_frame_sized_eq Let_def
        frame_const_defs padding_junk_len_for_wire_def frame_bytes_def get_range_def copy_at_def
        u32_to_be_def u16_to_be_def numeral_eq_Suc)
qed

lemma self_sized_padding_frame_bytes:
  assumes "2 \<le> length p" "length p \<le> MAX_PAYLOAD_LEN"
  shows "self_sized_padding_wire_len (frame_bytes CMD_PADDING sid p) =
    Some (length (frame_bytes CMD_PADDING sid p) + CONTROL_RECORD_MIN_OVERHEAD)"
  using assms
  by (simp add: self_sized_padding_wire_len_def frame_bytes_def Let_def u32_to_be_def u16_to_be_def
      FRAME_HEADER_SIZE_def MAX_PAYLOAD_LEN_def PADDING_HEADER_LEN_def)

section \<open>Coalescing\<close>

lemma concat_coalesce_loop:
  "concat (coalesce_loop mx out cur fs) = concat out @ cur @ concat fs"
  by (induction mx out cur fs rule: coalesce_loop.induct) auto

lemma coalesce_loop_groups:
  assumes "map concat gs = out" "concat g = cur" "[] \<notin> set g"
  shows "\<exists>hs. concat hs = concat gs @ g @ filter (\<lambda>f. f \<noteq> []) fs \<and>
     map concat hs = coalesce_loop mx out cur fs"
  using assms
proof (induction mx out cur fs arbitrary: gs g rule: coalesce_loop.induct)
  case (1 mx out cur)
  have "cur = [] \<Longrightarrow> g = []" using 1 by (cases g) auto
  then show ?case
    using 1 by (intro exI [of _ "if cur = [] then gs else gs @ [g]"]) auto
next
  case (2 mx out cur f fs)
  have g0: "cur = [] \<Longrightarrow> g = []" using "2.prems" by (cases g) auto
  consider (big) "length f > mx" | (flush) "\<not> length f > mx" "length cur + length f > mx \<and> cur \<noteq> []"
    | (app) "\<not> length f > mx" "\<not> (length cur + length f > mx \<and> cur \<noteq> [])" by blast
  then show ?case
  proof cases
    case big
    then show ?thesis
      using "2.IH"(1) [OF big, of "(if cur \<noteq> [] then gs @ [g] else gs) @ [[f]]" "[]"] "2.prems" g0
      by (auto split: if_splits)
  next
    case flush
    then show ?thesis
      using "2.IH"(2) [OF flush, of "gs @ [g]" "filter (\<lambda>f. f \<noteq> []) [f]"] "2.prems" by auto
  next
    case app
    then show ?thesis
      using "2.IH"(3) [OF app, of gs "g @ filter (\<lambda>f. f \<noteq> []) [f]"] "2.prems" g0
      by (auto split: if_splits)
  qed
qed

lemma coalesce_loop_bound:
  assumes "p \<in> set (coalesce_loop mx out cur fs)" "length cur \<le> mx"
    and "\<forall>q \<in> set out. length q \<le> mx \<or> q \<in> F" "set fs \<subseteq> F"
  shows "length p \<le> mx \<or> p \<in> F"
  using assms
  by (induction mx out cur fs rule: coalesce_loop.induct) (auto split: if_splits)

section \<open>Properties\<close>

text \<open>C16: encoding a frame fails exactly when its payload exceeds 65535 bytes; otherwise the
  bytes are as long as \<^verbatim>\<open>encoded_len\<close> says and decoding them, whatever follows in the
  buffer, gives the same frame back and leaves exactly what followed.\<close>

theorem frame_roundtrip:
  "case Frame_encode f of
     Inl e \<Rightarrow> length (f_payload f) > MAX_PAYLOAD_LEN
   | Inr b \<Rightarrow> length b = encoded_len (length (f_payload f)) \<and>
       (\<forall>rest. Frame_decode (b @ rest) = (Some f, rest))"
proof (cases "Frame_encode f")
  case (Inl e)
  then show ?thesis by (auto simp: Frame_encode_def Let_def split: if_splits)
next
  case (Inr b)
  then have "length b = encoded_len (length (f_payload f))"
    by (simp add: Frame_encode_Inr encoded_len_def FRAME_HEADER_SIZE_def)
  then show ?thesis using Inr Frame_decode_encode by simp
qed

text \<open>C15: the reassembly loop does not depend on how the transport cuts the stream: if the
  received segments concatenate to the encodings of frames followed by an incomplete tail,
  the loop delivers exactly those frames in order and keeps exactly the tail.\<close>

theorem read_loop_segmentation:
  assumes "list_all (\<lambda>f. length (f_payload f) \<le> MAX_PAYLOAD_LEN) fs"
    and "concat segments = concat (map (\<lambda>f. projr (Frame_encode f)) fs) @ tail"
    and "fst (Frame_decode tail) = None"
  shows "feed decode_frames [] segments = (fs, tail)"
proof -
  have tail: "Frame_decode tail = (None, tail)"
    using assms(3) Frame_decode_None by (metis prod.collapse)
  have "\<forall>t. Frame_decode (projr (Frame_encode f) @ t) = (Some f, t)" if "f \<in> set fs" for f
    using that assms(1) Frame_encode_fits [of f] by (simp add: Frame_decode_encode list_all_iff)
  then have "decode_frames (concat segments) = (fs, tail)"
    unfolding assms(2) by (intro frames.drain_encoded tail)
  moreover have "decode_frames [] = ([], [])"
    by (subst decode_frames.simps) (simp add: Frame_decode_def FRAME_HEADER_SIZE_def)
  ultimately show ?thesis by (simp add: frames.feed_eq_drain)
qed

theorem read_loop_segmentation_witness:
  "feed decode_frames [] [[1, 0, 0, 0, 9], [0, 0, 2, 0, 0, 0], [9, 0, 1, 77, 3, 0]] =
     ([Frame_syn 9, Frame_psh 9 [77]], [3, 0])"
proof -
  have "projr (Frame_encode (Frame_syn 9)) = [1, 0, 0, 0, 9, 0, 0]"
    "projr (Frame_encode (Frame_psh 9 [77])) = [2, 0, 0, 0, 9, 0, 1, 77]"
    by (simp_all add: Frame_encode_def frame_ctor_defs cmd_defs u32_to_be_def u16_to_be_def
        MAX_PAYLOAD_LEN_def Let_def)
  then show ?thesis
    by (intro read_loop_segmentation)
      (simp_all add: frame_ctor_defs MAX_PAYLOAD_LEN_def Frame_decode_def FRAME_HEADER_SIZE_def)
qed

text \<open>Splitting application data into PSH frames never fails, needs
  \<^verbatim>\<open>ceil(len / 65535)\<close> frames, and the receiver decodes the packets into non-empty PSH
  frames of that stream whose payloads concatenate to the data.\<close>

lemma psh_frames_roundtrip:
  "\<exists>packets fs. encode_psh_frames sid data = Inr packets \<and>
     length packets = (length data + MAX_PAYLOAD_LEN - 1) div MAX_PAYLOAD_LEN \<and>
     decode_frames (concat packets) = (fs, []) \<and>
     concat (map f_payload fs) = data \<and>
     list_all (\<lambda>f. f_cmd f = CMD_PSH \<and> f_stream_id f = sid \<and> f_payload f \<noteq> []) fs"
proof (intro exI conjI)
  let ?cs = "chunks MAX_PAYLOAD_LEN data"
  let ?fs = "map (\<lambda>c. \<lparr>f_cmd = CMD_PSH, f_stream_id = sid, f_payload = c\<rparr>) ?cs"
  have le: "length c \<le> MAX_PAYLOAD_LEN \<and> c \<noteq> []" if "c \<in> set ?cs" for c
    using that by (rule chunks_length_le)
  show "encode_psh_frames sid data = Inr (map (frame_bytes CMD_PSH sid) ?cs)"
    by (rule encode_psh_frames_eq)
  show "length (map (frame_bytes CMD_PSH sid) ?cs) = (length data + MAX_PAYLOAD_LEN - 1) div MAX_PAYLOAD_LEN"
    by (simp add: length_chunks MAX_PAYLOAD_LEN_def)
  have "decode_frames (concat (map (\<lambda>f. frame_bytes CMD_PSH sid (f_payload f)) ?fs) @ []) = (?fs, [])"
    by (rule frames.drain_encoded)
      (auto simp: Frame_decode_frame_bytes le, simp add: Frame_decode_def FRAME_HEADER_SIZE_def)
  then show "decode_frames (concat (map (frame_bytes CMD_PSH sid) ?cs)) = (?fs, [])"
    by (simp add: comp_def)
  show "concat (map f_payload ?fs) = data" by (simp add: comp_def MAX_PAYLOAD_LEN_def)
  show "list_all (\<lambda>f. f_cmd f = CMD_PSH \<and> f_stream_id f = sid \<and> f_payload f \<noteq> []) ?fs"
    using le by (auto simp: list_all_iff)
qed

text \<open>Coalescing encoded frames into packets keeps the byte stream, cuts it only at frame
  boundaries (each packet is a run of whole consecutive frames), and no packet exceeds the
  limit unless it is a single input frame that already did.\<close>

lemma coalesce_packets:
  "concat (coalesce_encoded_frames fs mx) = concat fs \<and>
   (\<exists>groups. concat groups = filter (\<lambda>f. f \<noteq> []) fs \<and>
      map concat groups = coalesce_encoded_frames fs mx) \<and>
   list_all (\<lambda>p. length p \<le> mx \<or> p \<in> set fs) (coalesce_encoded_frames fs mx)"
proof (cases "length fs = 1 \<and> fs ! 0 \<noteq> []")
  case True
  then obtain f where "fs = [f]" "f \<noteq> []" by (cases fs) auto
  then show ?thesis
    by (auto simp: coalesce_encoded_frames_def intro: exI [of _ "[[f]]"])
next
  case False
  then show ?thesis
    using coalesce_loop_groups [of "[]" "[]" "[]" "[]" fs mx]
      coalesce_loop_bound [of _ mx "[]" "[]" fs "set fs"]
    by (auto simp: coalesce_encoded_frames_def concat_coalesce_loop list_all_iff)
qed

text \<open>A padding frame built for a target wire size is one complete frame whose record
  occupies exactly that many bytes, and the writer recovers the same target from it.\<close>

lemma padding_frame_hits_target:
  assumes "MIN_PADDING_RECORD_WIRE_LEN \<le> target" "target \<le> 65566"
  shows "length (encode_padding_frame_sized flag m target) + CONTROL_RECORD_MIN_OVERHEAD = target \<and>
    self_sized_padding_wire_len (encode_padding_frame_sized flag m target) = Some target \<and>
    (\<exists>junk. Frame_decode (encode_padding_frame_sized flag m target) =
       (Some (Frame_new CMD_PADDING 0 (flag # m # junk)), []))"
proof -
  let ?p = "flag # m # replicate (padding_junk_len_for_wire target) 0"
  have le: "2 \<le> length ?p" "length ?p \<le> MAX_PAYLOAD_LEN"
    and len: "7 + length ?p + CONTROL_RECORD_MIN_OVERHEAD = target"
    using assms by (auto simp: padding_junk_len_for_wire_def frame_const_defs)
  then show ?thesis
    using self_sized_padding_frame_bytes [OF le, of 0] Frame_decode_frame_bytes [OF le(2), of CMD_PADDING 0 "[]"]
    by (auto simp: encode_padding_frame_sized_eq Frame_new_def)
qed

lemma padding_frame_hits_target_witness:
  "self_sized_padding_wire_len (encode_padding_frame_sized 1 0 41) = Some 41"
  using padding_frame_hits_target [of 41 1 0] by (simp add: frame_const_defs)

text \<open>GOAWAY and WINDOW\_UPDATE records carry their value through the frame decoder at every
  wire size that has room for it: the receiver reads back the last stream id, respectively the
  stream and the increment, and neither is mistaken for the other.\<close>

lemma goaway_window_update_roundtrip:
  assumes "MIN_GOAWAY_RECORD_WIRE_LEN \<le> target" "target \<le> 65566"
  shows "(\<exists>g. Frame_decode (encode_padding_goaway_sized lsid target) = (Some g, []) \<and>
       f_cmd g = CMD_PADDING \<and> decode_padding_goaway (f_payload g) = Some lsid \<and>
       decode_padding_window_update (f_payload g) = None) \<and>
    (\<exists>w. Frame_decode (encode_padding_window_update_sized sid inc target) = (Some w, []) \<and>
       f_cmd w = CMD_PADDING \<and> f_stream_id w = sid \<and>
       decode_padding_window_update (f_payload w) = Some inc \<and>
       decode_padding_goaway (f_payload w) = None) \<and>
    self_sized_padding_wire_len (encode_padding_goaway_sized lsid target) = Some target \<and>
    self_sized_padding_wire_len (encode_padding_window_update_sized sid inc target) = Some target"
proof -
  let ?p = "\<lambda>flag v. flag # 0 # u32_to_be v @ replicate (target - MIN_GOAWAY_RECORD_WIRE_LEN) (0 :: u8)"
  have le: "2 \<le> length (?p flag v)" "length (?p flag v) \<le> MAX_PAYLOAD_LEN"
    and len: "7 + length (?p flag v) + CONTROL_RECORD_MIN_OVERHEAD = target" for flag v
    using assms by (auto simp: frame_const_defs)
  show ?thesis
    unfolding encode_padding_goaway_sized_eq [OF assms(1)] encode_padding_window_update_sized_eq [OF assms(1)]
    using Frame_decode_frame_bytes [OF le(2), of CMD_PADDING _ _ _ "[]"]
      self_sized_padding_frame_bytes [OF le] len
    by (auto simp: decode_padding_goaway_def decode_padding_window_update_def get_range_def
        frame_const_defs padding_flag_defs u32_to_be_def)
qed

end
