(* ===== verification/Keyed_Queue.thy ===== *)
theory Keyed_Queue
  imports Main
begin

text \<open>
  The interface between the frame dispatcher and its backlogs: a family of FIFO queues
  indexed by stream. A client sees pushes, pops and discards; the contract says what each
  does to the abstract contents. The client lemma is a simulation: every sequence of
  operations gives the results that plain lists would give.
\<close>

datatype ('k, 'a) qop = Push 'k 'a | Pop 'k | Discard 'k

fun spec_run :: "('k, 'a) qop list \<Rightarrow> ('k \<Rightarrow> 'a list) \<Rightarrow> 'a option list \<times> ('k \<Rightarrow> 'a list)" where
  "spec_run [] m = ([], m)"
| "spec_run (Push k x # ops) m = spec_run ops (m(k := m k @ [x]))"
| "spec_run (Pop k # ops) m =
     (let (outs, m') = spec_run ops (m(k := tl (m k)))
      in ((case m k of [] \<Rightarrow> None | x # _ \<Rightarrow> Some x) # outs, m'))"
| "spec_run (Discard k # ops) m = spec_run ops (m(k := []))"

fun q_run :: "('k \<Rightarrow> 'a \<Rightarrow> 'q \<Rightarrow> 'q) \<Rightarrow> ('k \<Rightarrow> 'q \<Rightarrow> 'a option \<times> 'q) \<Rightarrow> ('k \<Rightarrow> 'q \<Rightarrow> 'q) \<Rightarrow>
    ('k, 'a) qop list \<Rightarrow> 'q \<Rightarrow> 'a option list \<times> 'q" where
  "q_run push pop discard [] q = ([], q)"
| "q_run push pop discard (Push k x # ops) q = q_run push pop discard ops (push k x q)"
| "q_run push pop discard (Pop k # ops) q =
     (let (r, q') = pop k q; (outs, q'') = q_run push pop discard ops q' in (r # outs, q''))"
| "q_run push pop discard (Discard k # ops) q = q_run push pop discard ops (discard k q)"

locale keyed_queue =
  fixes empty :: 'q
    and push :: "'k \<Rightarrow> 'a \<Rightarrow> 'q \<Rightarrow> 'q"
    and pop :: "'k \<Rightarrow> 'q \<Rightarrow> 'a option \<times> 'q"
    and discard :: "'k \<Rightarrow> 'q \<Rightarrow> 'q"
    and contents :: "'q \<Rightarrow> 'k \<Rightarrow> 'a list"
    and invar :: "'q \<Rightarrow> bool"
  assumes invar_empty: "invar empty"
    and invar_push: "invar q \<Longrightarrow> invar (push k x q)"
    and invar_pop: "invar q \<Longrightarrow> invar (snd (pop k q))"
    and invar_discard: "invar q \<Longrightarrow> invar (discard k q)"
    and contents_empty: "contents empty = (\<lambda>_. [])"
    and contents_push: "invar q \<Longrightarrow> contents (push k x q) = (contents q)(k := contents q k @ [x])"
    and result_pop: "invar q \<Longrightarrow> fst (pop k q) = (case contents q k of [] \<Rightarrow> None | x # _ \<Rightarrow> Some x)"
    and contents_pop: "invar q \<Longrightarrow> contents (snd (pop k q)) = (contents q)(k := tl (contents q k))"
    and contents_discard: "invar q \<Longrightarrow> contents (discard k q) = (contents q)(k := [])"
begin

lemma run_simulates:
  "invar q \<Longrightarrow> invar (snd (q_run push pop discard ops q)) \<and>
   spec_run ops (contents q) =
     (fst (q_run push pop discard ops q), contents (snd (q_run push pop discard ops q)))"
proof (induction ops arbitrary: q)
  case Nil
  then show ?case by simp
next
  case (Cons op ops)
  show ?case
  proof (cases op)
    case (Push k x)
    then show ?thesis
      using Cons.IH [OF invar_push [OF Cons.prems, of k x], unfolded contents_push [OF Cons.prems]]
      by (simp add: fun_upd_def)
  next
    case (Pop k)
    then show ?thesis
      using Cons.IH [OF invar_pop [OF Cons.prems, of k], unfolded contents_pop [OF Cons.prems]]
      by (simp add: case_prod_beta Let_def result_pop [OF Cons.prems] fun_upd_def)
  next
    case (Discard k)
    then show ?thesis
      using Cons.IH [OF invar_discard [OF Cons.prems, of k], unfolded contents_discard [OF Cons.prems]]
      by (simp add: fun_upd_def)
  qed
qed

text \<open>Bytes of one stream come out in the order in which they went in.\<close>

lemma pops_in_order:
  assumes "invar q" "contents q k = xs @ ys"
  shows "fst (q_run push pop discard (replicate (length xs) (Pop k)) q) = map Some xs \<and>
    contents (snd (q_run push pop discard (replicate (length xs) (Pop k)) q)) k = ys"
  using assms
proof (induction xs arbitrary: q)
  case Nil
  then show ?case by simp
next
  case (Cons x xs)
  then have "fst (pop k q) = Some x" "contents (snd (pop k q)) k = xs @ ys" "invar (snd (pop k q))"
    by (simp_all add: result_pop contents_pop invar_pop)
  then show ?case using Cons.IH by (simp add: case_prod_beta Let_def)
qed

end

end
