(* ===== verification/Pending.thy ===== *)
theory Pending
  imports Prelude Keyed_Queue
begin

text \<open>
  The buffering books of \<^verbatim>\<open>crates/session/src/session/pending.rs\<close>: payloads that are
  charged to the shared counter \<^verbatim>\<open>buffered_stream_bytes\<close> when created and credited
  exactly once when delivered or dropped; the per-stream backlog \<^verbatim>\<open>PendingData\<close>; and the
  pre-accept backlog \<^verbatim>\<open>PendingOpenStreams\<close>. The running totals equal the sums they cache,
  so no subtraction wraps, and the per-stream backlog is a family of FIFO queues.
\<close>

section \<open>Accounted payloads\<close>

record buffered_payload =
  bp_data :: bytes
  bp_accounted :: bool

definition subtract_buffered_stream_bytes :: "nat \<Rightarrow> nat \<Rightarrow> nat" where
  "subtract_buffered_stream_bytes counter n = (if n = 0 then counter else counter - n)"

definition bp_new :: "bytes \<Rightarrow> nat \<Rightarrow> buffered_payload \<times> nat" where
  "bp_new data counter = (\<lparr>bp_data = data, bp_accounted = True\<rparr>, counter + length data)"

definition bp_len :: "buffered_payload \<Rightarrow> nat" where
  "bp_len p = length (bp_data p)"

definition bp_release :: "buffered_payload \<Rightarrow> nat \<Rightarrow> buffered_payload \<times> nat" where
  "bp_release p counter =
     (if bp_accounted p
      then (p\<lparr>bp_accounted := False\<rparr>, subtract_buffered_stream_bytes counter (length (bp_data p)))
      else (p, counter))"

definition bp_drop :: "buffered_payload \<Rightarrow> nat \<Rightarrow> nat" where
  "bp_drop p counter = snd (bp_release p counter)"

text \<open>\<^verbatim>\<open>into_bytes\<close> releases, takes the data out and then drops the emptied payload, whose
  destructor runs \<^verbatim>\<open>release\<close> once more.\<close>

definition bp_into_bytes :: "buffered_payload \<Rightarrow> nat \<Rightarrow> bytes \<times> nat" where
  "bp_into_bytes p counter =
     (let (p1, c1) = bp_release p counter;
          data = bp_data p1;
          p2 = p1\<lparr>bp_data := []\<rparr>
      in (data, bp_drop p2 c1))"

lemmas bp_defs = bp_new_def bp_len_def bp_release_def bp_drop_def bp_into_bytes_def
  subtract_buffered_stream_bytes_def

section \<open>PendingData: the per-stream backlog\<close>

record stream_queue =
  sq_items :: "buffered_payload list"
  sq_bytes :: nat

record pending_data =
  pd_queues :: "u32 \<rightharpoonup> stream_queue"
  pd_total :: nat

definition pd_empty :: pending_data where
  "pd_empty = \<lparr>pd_queues = Map.empty, pd_total = 0\<rparr>"

definition pd_contains :: "pending_data \<Rightarrow> u32 \<Rightarrow> bool" where
  "pd_contains pd sid = (pd_queues pd sid \<noteq> None)"

definition pd_remove :: "u32 \<Rightarrow> pending_data \<Rightarrow> buffered_payload list option \<times> pending_data" where
  "pd_remove sid pd =
     (case pd_queues pd sid of
        None \<Rightarrow> (None, pd)
      | Some q \<Rightarrow> (Some (sq_items q),
          pd\<lparr>pd_queues := (pd_queues pd)(sid := None), pd_total := usize_sub (pd_total pd) (sq_bytes q)\<rparr>))"

definition pd_clear :: "pending_data \<Rightarrow> pending_data" where
  "pd_clear pd = pd\<lparr>pd_queues := Map.empty, pd_total := 0\<rparr>"

definition pd_len :: "pending_data \<Rightarrow> nat" where
  "pd_len pd = card (dom (pd_queues pd))"

definition pd_stream_bytes :: "pending_data \<Rightarrow> u32 \<Rightarrow> nat" where
  "pd_stream_bytes pd sid = (case pd_queues pd sid of None \<Rightarrow> 0 | Some q \<Rightarrow> sq_bytes q)"

definition pd_stream_frames :: "pending_data \<Rightarrow> u32 \<Rightarrow> nat" where
  "pd_stream_frames pd sid = (case pd_queues pd sid of None \<Rightarrow> 0 | Some q \<Rightarrow> length (sq_items q))"

definition pd_push_back :: "u32 \<Rightarrow> buffered_payload \<Rightarrow> pending_data \<Rightarrow> pending_data" where
  "pd_push_back sid p pd =
     (let n = bp_len p;
          q = (case pd_queues pd sid of None \<Rightarrow> \<lparr>sq_items = [], sq_bytes = 0\<rparr> | Some q \<Rightarrow> q);
          q' = q\<lparr>sq_items := sq_items q @ [p], sq_bytes := sq_bytes q + n\<rparr>
      in pd\<lparr>pd_queues := (pd_queues pd)(sid \<mapsto> q'), pd_total := pd_total pd + n\<rparr>)"

definition pd_pop_front :: "u32 \<Rightarrow> pending_data \<Rightarrow> buffered_payload option \<times> pending_data" where
  "pd_pop_front sid pd =
     (case pd_queues pd sid of
        None \<Rightarrow> (None, pd)
      | Some q \<Rightarrow>
          (case sq_items q of
             [] \<Rightarrow> (None, pd)
           | p # ps \<Rightarrow>
               let q' = q\<lparr>sq_items := ps, sq_bytes := usize_sub (sq_bytes q) (bp_len p)\<rparr>;
                   pd' = pd\<lparr>pd_queues := (pd_queues pd)(sid \<mapsto> q'),
                            pd_total := usize_sub (pd_total pd) (bp_len p)\<rparr>
               in (Some p,
                   if ps = [] then pd'\<lparr>pd_queues := (pd_queues pd')(sid := None)\<rparr> else pd')))"

lemmas pd_defs = pd_empty_def pd_contains_def pd_remove_def pd_clear_def pd_len_def
  pd_stream_bytes_def pd_stream_frames_def pd_push_back_def pd_pop_front_def

section \<open>PendingOpenStreams: the pre-accept backlog\<close>

record pending_open_stream =
  po_buffered_data :: "buffered_payload list"
  po_bytes :: nat
  po_buffered_fin :: bool
  po_reservation_released :: bool

record pending_open_streams =
  pos_streams :: "u32 \<rightharpoonup> pending_open_stream"
  pos_total :: nat

definition po_default :: pending_open_stream where
  "po_default = \<lparr>po_buffered_data = [], po_bytes = 0, po_buffered_fin = False,
     po_reservation_released = False\<rparr>"

definition pos_empty :: pending_open_streams where
  "pos_empty = \<lparr>pos_streams = Map.empty, pos_total = 0\<rparr>"

definition pos_contains :: "pending_open_streams \<Rightarrow> u32 \<Rightarrow> bool" where
  "pos_contains po sid = (pos_streams po sid \<noteq> None)"

definition pos_stream_frames :: "pending_open_streams \<Rightarrow> u32 \<Rightarrow> nat" where
  "pos_stream_frames po sid =
     (case pos_streams po sid of None \<Rightarrow> 0 | Some s \<Rightarrow> length (po_buffered_data s))"

definition pos_remove :: "u32 \<Rightarrow> pending_open_streams \<Rightarrow> pending_open_streams" where
  "pos_remove sid po =
     (case pos_streams po sid of
        None \<Rightarrow> po
      | Some s \<Rightarrow> po\<lparr>pos_streams := (pos_streams po)(sid := None),
                     pos_total := usize_sub (pos_total po) (po_bytes s)\<rparr>)"

definition pos_insert_new :: "u32 \<Rightarrow> pending_open_streams \<Rightarrow> pending_open_streams" where
  "pos_insert_new sid po =
     (let po1 = pos_remove sid po
      in po1\<lparr>pos_streams := (pos_streams po1)(sid \<mapsto> po_default)\<rparr>)"

definition pos_clear :: "pending_open_streams \<Rightarrow> pending_open_streams" where
  "pos_clear po = po\<lparr>pos_streams := Map.empty, pos_total := 0\<rparr>"

definition pos_push_data :: "u32 \<Rightarrow> buffered_payload \<Rightarrow> pending_open_streams \<Rightarrow> bool \<times> pending_open_streams" where
  "pos_push_data sid p po =
     (case pos_streams po sid of
        None \<Rightarrow> (False, po)
      | Some s \<Rightarrow>
          let s' = s\<lparr>po_buffered_data := po_buffered_data s @ [p], po_bytes := po_bytes s + bp_len p\<rparr>
          in (True, po\<lparr>pos_streams := (pos_streams po)(sid \<mapsto> s'), pos_total := pos_total po + bp_len p\<rparr>))"

definition pos_take_ready ::
  "u32 \<Rightarrow> pending_open_streams \<Rightarrow> (buffered_payload list \<times> bool) option \<times> pending_open_streams" where
  "pos_take_ready sid po =
     (case pos_streams po sid of
        None \<Rightarrow> (None, po)
      | Some s \<Rightarrow>
          let s' = s\<lparr>po_buffered_data := [], po_bytes := 0, po_buffered_fin := False\<rparr>
          in (Some (po_buffered_data s, po_buffered_fin s),
              po\<lparr>pos_streams := (pos_streams po)(sid \<mapsto> s'),
                 pos_total := usize_sub (pos_total po) (po_bytes s)\<rparr>))"

definition pos_set_buffered_fin :: "u32 \<Rightarrow> pending_open_streams \<Rightarrow> bool \<times> pending_open_streams" where
  "pos_set_buffered_fin sid po =
     (case pos_streams po sid of
        None \<Rightarrow> (False, po)
      | Some s \<Rightarrow> (True, po\<lparr>pos_streams := (pos_streams po)(sid \<mapsto> s\<lparr>po_buffered_fin := True\<rparr>)\<rparr>))"

definition pos_release_reservation ::
  "u32 \<Rightarrow> pending_open_streams \<Rightarrow> bool option \<times> pending_open_streams" where
  "pos_release_reservation sid po =
     (case pos_streams po sid of
        None \<Rightarrow> (None, po)
      | Some s \<Rightarrow>
          if po_reservation_released s then (Some False, po)
          else (Some True,
            po\<lparr>pos_streams := (pos_streams po)(sid \<mapsto> s\<lparr>po_reservation_released := True\<rparr>)\<rparr>))"

lemmas pos_defs = pos_empty_def pos_contains_def pos_stream_frames_def pos_remove_def
  pos_insert_new_def pos_clear_def pos_push_data_def pos_take_ready_def pos_set_buffered_fin_def
  pos_release_reservation_def po_default_def

section \<open>Invariants\<close>

definition sum_len :: "buffered_payload list \<Rightarrow> nat" where
  "sum_len ps = sum_list (map bp_len ps)"

lemma sum_len_simps [simp, acct_simps]:
  "sum_len [] = 0" "sum_len (p # ps) = bp_len p + sum_len ps" "sum_len (ps @ qs) = sum_len ps + sum_len qs"
  by (simp_all add: sum_len_def)

definition pd_inv :: "pending_data \<Rightarrow> bool" where
  "pd_inv pd \<longleftrightarrow> finite (dom (pd_queues pd)) \<and>
     (\<forall>sid q. pd_queues pd sid = Some q \<longrightarrow> sq_items q \<noteq> [] \<and> sq_bytes q = sum_len (sq_items q)) \<and>
     pd_total pd = msum sq_bytes (pd_queues pd)"

definition pos_inv :: "pending_open_streams \<Rightarrow> bool" where
  "pos_inv po \<longleftrightarrow> finite (dom (pos_streams po)) \<and>
     (\<forall>sid s. pos_streams po sid = Some s \<longrightarrow> po_bytes s = sum_len (po_buffered_data s)) \<and>
     pos_total po = msum po_bytes (pos_streams po)"

text \<open>The contents of the backlog as one list per stream.\<close>

definition pd_contents :: "pending_data \<Rightarrow> u32 \<Rightarrow> buffered_payload list" where
  "pd_contents pd sid = (case pd_queues pd sid of None \<Rightarrow> [] | Some q \<Rightarrow> sq_items q)"

lemma pd_inv_empty [intro]: "pd_inv pd_empty"
  by (simp add: pd_inv_def pd_empty_def)

lemma pd_inv_clear [intro]: "pd_inv (pd_clear pd)"
  by (simp add: pd_inv_def pd_clear_def)

lemma pd_inv_remove [intro]: "pd_inv pd \<Longrightarrow> pd_inv (snd (pd_remove sid pd))"
  by (auto simp: pd_inv_def pd_remove_def msum_remove split: option.split)

lemma pd_inv_push [intro]: "pd_inv pd \<Longrightarrow> pd_inv (pd_push_back sid p pd)"
  by (cases "pd_queues pd sid")
    (auto simp: pd_inv_def pd_push_back_def Let_def msum_upd msum_delete_none msum_remove)

lemma pd_inv_pop [intro]: "pd_inv pd \<Longrightarrow> pd_inv (snd (pd_pop_front sid pd))"
  apply (cases "pd_queues pd sid")
  subgoal by (simp add: pd_pop_front_def)
  subgoal for q
    apply (cases "sq_items q")
    subgoal by (simp add: pd_pop_front_def)
    subgoal for p ps
      by (auto simp: pd_inv_def pd_pop_front_def Let_def msum_upd msum_remove)
    done
  done

lemmas pd_inv_intros = pd_inv_empty pd_inv_clear pd_inv_remove pd_inv_push pd_inv_pop

text \<open>The backlog is a family of FIFO queues; \<^verbatim>\<open>remove\<close> is its discard operation.\<close>

definition pd_discard :: "u32 \<Rightarrow> pending_data \<Rightarrow> pending_data" where
  "pd_discard sid pd = snd (pd_remove sid pd)"

lemma pd_contents_laws:
  "pd_contents pd_empty = (\<lambda>_. [])"
  "pd_contents (pd_push_back k x q) = (pd_contents q)(k := pd_contents q k @ [x])"
  "fst (pd_pop_front k q) = (case pd_contents q k of [] \<Rightarrow> None | y # _ \<Rightarrow> Some y)"
  "pd_contents (snd (pd_pop_front k q)) = (pd_contents q)(k := tl (pd_contents q k))"
  "pd_contents (pd_discard k q) = (pd_contents q)(k := [])"
  by (auto simp: pd_defs pd_contents_def pd_discard_def Let_def fun_eq_iff split: option.split list.split)

interpretation backlog: keyed_queue pd_empty pd_push_back pd_pop_front pd_discard pd_contents pd_inv
  by unfold_locales (auto simp: pd_contents_laws intro: pd_inv_remove [folded pd_discard_def])

lemma pd_len_contents: "pd_inv pd \<Longrightarrow> pd_len pd = card {sid. pd_contents pd sid \<noteq> []}"
proof -
  assume "pd_inv pd"
  then have "dom (pd_queues pd) = {sid. pd_contents pd sid \<noteq> []}"
    by (auto simp: pd_inv_def pd_contents_def split: option.splits)
  then show ?thesis by (simp add: pd_len_def)
qed

lemma pd_total_contents:
  assumes "pd_inv pd"
  shows "pd_total pd = (\<Sum>sid | pd_contents pd sid \<noteq> []. sum_len (pd_contents pd sid))"
proof -
  have "dom (pd_queues pd) = {sid. pd_contents pd sid \<noteq> []}"
    using assms by (auto simp: pd_inv_def pd_contents_def split: option.splits)
  moreover have "sq_bytes (the (pd_queues pd sid)) = sum_len (pd_contents pd sid)"
    if "sid \<in> dom (pd_queues pd)" for sid
    using assms that by (auto simp: pd_inv_def pd_contents_def)
  ultimately show ?thesis
    using assms by (simp add: pd_inv_def msum_def)
qed

lemma pos_inv_empty [intro]: "pos_inv pos_empty"
  by (simp add: pos_inv_def pos_empty_def)

lemma pos_inv_clear [intro]: "pos_inv (pos_clear po)"
  by (simp add: pos_inv_def pos_clear_def)

lemma pos_inv_remove [intro]: "pos_inv po \<Longrightarrow> pos_inv (pos_remove sid po)"
  by (auto simp: pos_inv_def pos_remove_def msum_remove split: option.split)

lemma pos_remove_gone [simp]: "pos_streams (pos_remove sid po) sid = None"
  by (simp add: pos_remove_def split: option.split)

lemma pos_inv_insert [intro]: "pos_inv po \<Longrightarrow> pos_inv (pos_insert_new sid po)"
  using pos_inv_remove [of po sid]
  by (auto simp: pos_inv_def pos_insert_new_def Let_def po_default_def msum_upd msum_delete_none)

lemma pos_inv_push [intro]: "pos_inv po \<Longrightarrow> pos_inv (snd (pos_push_data sid p po))"
  by (auto simp: pos_inv_def pos_push_data_def Let_def msum_upd msum_remove split: option.split)

lemma pos_inv_take [intro]: "pos_inv po \<Longrightarrow> pos_inv (snd (pos_take_ready sid po))"
  by (auto simp: pos_inv_def pos_take_ready_def Let_def msum_upd msum_remove split: option.split)

lemma pos_inv_fin [intro]: "pos_inv po \<Longrightarrow> pos_inv (snd (pos_set_buffered_fin sid po))"
  by (auto simp: pos_inv_def pos_set_buffered_fin_def msum_upd msum_remove split: option.split)

lemma pos_inv_release [intro]: "pos_inv po \<Longrightarrow> pos_inv (snd (pos_release_reservation sid po))"
  by (auto simp: pos_inv_def pos_release_reservation_def msum_upd msum_remove split: option.split)

lemmas pos_inv_intros = pos_inv_empty pos_inv_clear pos_inv_remove pos_inv_insert pos_inv_push
  pos_inv_take pos_inv_fin pos_inv_release

section \<open>Runs of the two books\<close>

datatype pos_op = InsertNew u32 | Remove u32 | Clear | PushData u32 buffered_payload
  | TakeReady u32 | SetFin u32 | ReleaseReservation u32

text \<open>One operation; the result records a first release of a reservation.\<close>

fun pos_step :: "pos_op \<Rightarrow> pending_open_streams \<Rightarrow> u32 option \<times> pending_open_streams" where
  "pos_step (InsertNew sid) po = (None, pos_insert_new sid po)"
| "pos_step (Remove sid) po = (None, pos_remove sid po)"
| "pos_step Clear po = (None, pos_clear po)"
| "pos_step (PushData sid p) po = (None, snd (pos_push_data sid p po))"
| "pos_step (TakeReady sid) po = (None, snd (pos_take_ready sid po))"
| "pos_step (SetFin sid) po = (None, snd (pos_set_buffered_fin sid po))"
| "pos_step (ReleaseReservation sid) po =
     (let (r, po') = pos_release_reservation sid po
      in (if r = Some True then Some sid else None, po'))"

fun pos_run :: "pos_op list \<Rightarrow> pending_open_streams \<Rightarrow> u32 option list \<times> pending_open_streams" where
  "pos_run [] po = ([], po)"
| "pos_run (op # ops) po =
     (let (r, po') = pos_step op po; (rs, po'') = pos_run ops po' in (r # rs, po''))"

definition unreleased :: "pending_open_streams \<Rightarrow> u32 \<Rightarrow> nat" where
  "unreleased po sid =
     (case pos_streams po sid of None \<Rightarrow> 0 | Some s \<Rightarrow> if po_reservation_released s then 0 else 1)"

lemma unreleased_empty [simp]: "unreleased pos_empty sid = 0"
  by (simp add: unreleased_def pos_empty_def)

lemma pos_inv_step: "pos_inv po \<Longrightarrow> pos_inv (snd (pos_step op po))"
  by (cases op) (auto simp: case_prod_beta Let_def)

lemma pos_step_unreleased:
  "(if fst (pos_step op po) = Some sid then 1 else 0) + unreleased (snd (pos_step op po)) sid
     \<le> unreleased po sid + (if op = InsertNew sid then 1 else 0)"
  by (cases op) (auto simp: unreleased_def pos_defs Let_def split: option.split)

lemma pos_run_inv: "pos_inv po \<Longrightarrow> pos_inv (snd (pos_run ops po))"
  by (induction ops arbitrary: po) (auto simp: case_prod_beta Let_def pos_inv_step)

lemma pos_run_released:
  "count_list (fst (pos_run ops po)) (Some sid) + unreleased (snd (pos_run ops po)) sid
     \<le> unreleased po sid + count_list ops (InsertNew sid)"
proof (induction ops arbitrary: po)
  case Nil
  then show ?case by simp
next
  case (Cons op ops)
  show ?case
    using Cons.IH [of "snd (pos_step op po)"] pos_step_unreleased [of op po sid]
    by (auto simp: case_prod_beta Let_def split: if_splits)
qed

text \<open>Interleaved life of accounted payloads: creation, delivery and drop in any order.\<close>

inductive acct_reach :: "buffered_payload multiset \<Rightarrow> nat \<Rightarrow> bool" where
  acct_init: "acct_reach {#} 0"
| acct_create: "acct_reach live c \<Longrightarrow> bp_new data c = (p, c') \<Longrightarrow> acct_reach (add_mset p live) c'"
| acct_deliver: "acct_reach (add_mset p live) c \<Longrightarrow> bp_into_bytes p c = (data, c') \<Longrightarrow> acct_reach live c'"
| acct_drop: "acct_reach (add_mset p live) c \<Longrightarrow> acct_reach live (bp_drop p c)"

lemma acct_reach_inv:
  "acct_reach live c \<Longrightarrow> (\<forall>p \<in># live. bp_accounted p) \<and> c = (\<Sum>p \<in># live. bp_len p)"
  by (induction rule: acct_reach.induct) (auto simp: bp_defs)

section \<open>Properties\<close>

text \<open>C17: the per-stream backlog behaves like one FIFO list per stream under every sequence of
  pushes, pops and removals: it returns the same payloads in the same order, its cached byte
  total is the sum of what the lists hold (so no subtraction ever wraps) and its length is the
  number of streams that hold something.\<close>

theorem pending_data_refines_lists:
  "case q_run pd_push_back pd_pop_front pd_discard ops pd_empty of
     (outs, pd) \<Rightarrow>
       spec_run ops (\<lambda>_. []) = (outs, pd_contents pd) \<and>
       pd_total pd = (\<Sum>sid | pd_contents pd sid \<noteq> []. sum_len (pd_contents pd sid)) \<and>
       pd_len pd = card {sid. pd_contents pd sid \<noteq> []} \<and>
       (\<forall>sid. pd_stream_bytes pd sid = sum_len (pd_contents pd sid) \<and>
          pd_stream_frames pd sid = length (pd_contents pd sid))"
proof -
  obtain outs pd where r: "q_run pd_push_back pd_pop_front pd_discard ops pd_empty = (outs, pd)"
    by (cases "q_run pd_push_back pd_pop_front pd_discard ops pd_empty")
  have sim: "pd_inv pd" "spec_run ops (\<lambda>_. []) = (outs, pd_contents pd)"
    using backlog.run_simulates [OF pd_inv_empty, of ops] by (simp_all add: r pd_contents_laws(1))
  have "pd_stream_bytes pd sid = sum_len (pd_contents pd sid) \<and>
      pd_stream_frames pd sid = length (pd_contents pd sid)" for sid
    using sim(1)
    by (auto simp: pd_inv_def pd_stream_bytes_def pd_stream_frames_def pd_contents_def split: option.split)
  then show ?thesis
    using sim pd_total_contents [OF sim(1)] pd_len_contents [OF sim(1)] by (simp add: r)
qed

text \<open>C19: under every sequence of operations the pre-accept book keeps its byte total equal to
  the bytes it holds, and for every stream the one-time release of its inbound reservation is
  reported at most once per registration.\<close>

theorem pending_open_book:
  "case pos_run ops pos_empty of
     (released, po) \<Rightarrow>
       pos_total po = msum (\<lambda>s. sum_len (po_buffered_data s)) (pos_streams po) \<and>
       count_list released (Some sid) \<le> count_list ops (InsertNew sid)"
proof -
  obtain released po where r: "pos_run ops pos_empty = (released, po)"
    by (cases "pos_run ops pos_empty")
  have inv: "pos_inv po" using pos_run_inv [OF pos_inv_empty, of ops] by (simp add: r)
  then have "pos_total po = msum (\<lambda>s. sum_len (po_buffered_data s)) (pos_streams po)"
    unfolding pos_inv_def msum_def by (auto intro!: sum.cong)
  moreover have "count_list released (Some sid) \<le> count_list ops (InsertNew sid)"
    using pos_run_released [of ops pos_empty sid] by (simp add: r)
  ultimately show ?thesis by (simp add: r)
qed

text \<open>C18: however creations, deliveries and drops of accounted payloads interleave, the shared
  counter is exactly the number of bytes still buffered; delivery hands out the bytes the payload
  was created with and credits exactly their number.\<close>

theorem buffered_bytes_exact:
  assumes "acct_reach live counter"
  shows "counter = (\<Sum>p \<in># live. length (bp_data p)) \<and>
    (\<forall>p \<in># live. bp_into_bytes p counter = (bp_data p, counter - length (bp_data p)) \<and>
       bp_drop p counter = counter - length (bp_data p))"
  using acct_reach_inv [OF assms] by (auto simp: bp_defs)

theorem buffered_bytes_exact_witness:
  "acct_reach {# \<lparr>bp_data = [1, 2], bp_accounted = True\<rparr> #} 2 \<and>
   bp_into_bytes \<lparr>bp_data = [1, 2], bp_accounted = True\<rparr> 2 = ([1, 2], 0)"
proof -
  have r: "acct_reach {# \<lparr>bp_data = [1, 2], bp_accounted = True\<rparr> #} 2"
    by (rule acct_create [OF acct_init, where data = "[1, 2]"]) (simp add: bp_defs)
  show ?thesis by (rule conjI [OF r]) (use buffered_bytes_exact [OF r] in simp)
qed

end
