(* ===== verification/ControlSize.thy ===== *)
theory ControlSize
  imports Complex_Main Frame
begin

text \<open>
  The control-record size model of \<^verbatim>\<open>crates/tunnel/src/control_size.rs\<close> and the H2 skeleton
  of \<^verbatim>\<open>crates/session/src/session/h2.rs\<close>. Random draws are arguments: a uniform draw is a
  rational, the rejection loop of the truncated normal consumes a list of standard-normal
  draws and returns \<^const>\<open>None\<close> when the list ends. The \<^verbatim>\<open>f64\<close> arithmetic is exact rational
  arithmetic here. The lemmas bound every size the samplers can produce and show that sizes
  which announce an H2 SETTINGS frame occur only at the head of the server's opening.
\<close>

section \<open>Sizes\<close>

definition CONTROL_TLS_OVERHEAD :: nat where
  "CONTROL_TLS_OVERHEAD = TLS_RECORD_HEADER_LEN + AEAD_TAG_LEN + INNER_CONTENT_TYPE_LEN"

definition L1_MAX_WIRE_LEN :: nat where "L1_MAX_WIRE_LEN = 160"

definition MIN_DATA_WIRE_LEN :: nat where
  "MIN_DATA_WIRE_LEN =
     TLS_RECORD_HEADER_LEN + BLOCK_LEN_PREFIX_SIZE + INNER_CONTENT_TYPE_LEN + AEAD_TAG_LEN"

definition WINDOW_UPDATE_WIRE :: nat where
  "WINDOW_UPDATE_WIRE = 13 + BLOCK_LEN_PREFIX_SIZE + CONTROL_TLS_OVERHEAD"
definition PING_WIRE :: nat where
  "PING_WIRE = 17 + BLOCK_LEN_PREFIX_SIZE + CONTROL_TLS_OVERHEAD"
definition SETTINGS_ACK_WIRE :: nat where
  "SETTINGS_ACK_WIRE = 9 + BLOCK_LEN_PREFIX_SIZE + CONTROL_TLS_OVERHEAD"
definition SETTINGS_SMALL_WIRE :: nat where
  "SETTINGS_SMALL_WIRE = 27 + BLOCK_LEN_PREFIX_SIZE + CONTROL_TLS_OVERHEAD"
definition SETTINGS_LARGE_WIRE :: nat where
  "SETTINGS_LARGE_WIRE = 45 + BLOCK_LEN_PREFIX_SIZE + CONTROL_TLS_OVERHEAD"
definition MERGED_SETTINGS_WU_SMALL_WIRE :: nat where
  "MERGED_SETTINGS_WU_SMALL_WIRE = 40 + BLOCK_LEN_PREFIX_SIZE + CONTROL_TLS_OVERHEAD"
definition MERGED_SETTINGS_WU_LARGE_WIRE :: nat where
  "MERGED_SETTINGS_WU_LARGE_WIRE = 58 + BLOCK_LEN_PREFIX_SIZE + CONTROL_TLS_OVERHEAD"
definition MERGED_SETTINGS_ACK_WU_WIRE :: nat where
  "MERGED_SETTINGS_ACK_WU_WIRE = 22 + BLOCK_LEN_PREFIX_SIZE + CONTROL_TLS_OVERHEAD"
definition MERGED_PING_WU_WIRE :: nat where
  "MERGED_PING_WU_WIRE = 30 + BLOCK_LEN_PREFIX_SIZE + CONTROL_TLS_OVERHEAD"

definition MIN_DATA_RECORD_PAYLOAD :: nat where
  "MIN_DATA_RECORD_PAYLOAD = L1_MAX_WIRE_LEN + 1 - MIN_DATA_WIRE_LEN"
definition MAX_DATA_RECORD_PAYLOAD :: nat where "MAX_DATA_RECORD_PAYLOAD = 1400"

lemmas wire_defs = frame_const_defs CONTROL_TLS_OVERHEAD_def L1_MAX_WIRE_LEN_def MIN_DATA_WIRE_LEN_def
  WINDOW_UPDATE_WIRE_def PING_WIRE_def SETTINGS_ACK_WIRE_def SETTINGS_SMALL_WIRE_def
  SETTINGS_LARGE_WIRE_def MERGED_SETTINGS_WU_SMALL_WIRE_def MERGED_SETTINGS_WU_LARGE_WIRE_def
  MERGED_SETTINGS_ACK_WU_WIRE_def MERGED_PING_WU_WIRE_def MIN_DATA_RECORD_PAYLOAD_def
  MAX_DATA_RECORD_PAYLOAD_def

datatype connection_phase = Handshake | Transport
datatype flow_direction = C2S | S2C

definition H2_OPENING_MAX_LEN :: u64 where "H2_OPENING_MAX_LEN = 3"

definition from_control_count :: "u64 \<Rightarrow> connection_phase" where
  "from_control_count n = (if n < H2_OPENING_MAX_LEN then Handshake else Transport)"

definition is_settings_bearing_wire_size :: "nat \<Rightarrow> bool" where
  "is_settings_bearing_wire_size sz \<longleftrightarrow>
     sz \<in> {SETTINGS_SMALL_WIRE, SETTINGS_LARGE_WIRE,
             MERGED_SETTINGS_WU_SMALL_WIRE, MERGED_SETTINGS_WU_LARGE_WIRE}"

text \<open>\<^term>\<open>large\<close> is the process-wide choice made once by \<^verbatim>\<open>h2_large_settings\<close>.\<close>

definition h2_opening_size :: "bool \<Rightarrow> flow_direction \<Rightarrow> u64 \<Rightarrow> nat option" where
  "h2_opening_size large dir index =
     (case dir of
        C2S \<Rightarrow> (if index = 0 then Some SETTINGS_ACK_WIRE else None)
      | S2C \<Rightarrow>
          (if index = 0 then Some (if large then SETTINGS_LARGE_WIRE else SETTINGS_SMALL_WIRE)
           else if index = 1 then Some WINDOW_UPDATE_WIRE
           else if index = 2 then Some SETTINGS_ACK_WIRE
           else None))"

section \<open>Samplers\<close>

definition TRANSPORT_POOL_SIZES :: "nat list" where
  "TRANSPORT_POOL_SIZES =
     [WINDOW_UPDATE_WIRE, PING_WIRE, MERGED_PING_WU_WIRE, SETTINGS_ACK_WIRE, MERGED_SETTINGS_ACK_WU_WIRE]"

definition TRANSPORT_POOL_WEIGHTS :: "rat list" where
  "TRANSPORT_POOL_WEIGHTS = [35/100, 25/100, 20/100, 10/100, 10/100]"

definition TRANSPORT_HEADERS_WEIGHT :: rat where "TRANSPORT_HEADERS_WEIGHT = 10/100"

fun sum_weights_from :: "rat \<Rightarrow> rat list \<Rightarrow> rat" where
  "sum_weights_from acc [] = acc"
| "sum_weights_from acc (w # ws) = sum_weights_from (acc + w) ws"

definition sum_weights :: "rat list \<Rightarrow> rat" where
  "sum_weights ws = sum_weights_from 0 ws"

definition discrete_threshold :: "rat \<Rightarrow> rat \<Rightarrow> rat" where
  "discrete_threshold weight_sum headers_weight = 1 - headers_weight / (weight_sum + headers_weight)"

record truncated_normal =
  tn_mean :: rat
  tn_stddev :: rat
  tn_lower :: rat
  tn_upper :: rat

fun tn_sample :: "truncated_normal \<Rightarrow> rat list \<Rightarrow> rat option" where
  "tn_sample t [] = None"
| "tn_sample t (z # zs) =
     (let val = tn_mean t + tn_stddev t * z in
      if val \<ge> tn_lower t \<and> val \<le> tn_upper t then Some val else tn_sample t zs)"

definition headers_c2s_sampler :: truncated_normal where
  "headers_c2s_sampler = \<lparr>tn_mean = 450, tn_stddev = 120, tn_lower = 250, tn_upper = 800\<rparr>"

definition headers_s2c_sampler :: truncated_normal where
  "headers_s2c_sampler = \<lparr>tn_mean = 200, tn_stddev = 50, tn_lower = 100, tn_upper = 400\<rparr>"

definition headers_sampler :: "flow_direction \<Rightarrow> truncated_normal" where
  "headers_sampler dir = (case dir of C2S \<Rightarrow> headers_c2s_sampler | S2C \<Rightarrow> headers_s2c_sampler)"

definition single_wire_frame :: "nat \<Rightarrow> nat" where
  "single_wire_frame h2_payload_bytes = h2_payload_bytes + BLOCK_LEN_PREFIX_SIZE + CONTROL_TLS_OVERHEAD"

definition data_record_sampler :: "flow_direction \<Rightarrow> truncated_normal" where
  "data_record_sampler dir =
     (let (mean, stddev) = (case dir of C2S \<Rightarrow> (450, 250) | S2C \<Rightarrow> (700, 400)) in
      \<lparr>tn_mean = mean, tn_stddev = stddev,
       tn_lower = of_nat MIN_DATA_RECORD_PAYLOAD, tn_upper = of_nat MAX_DATA_RECORD_PAYLOAD\<rparr>)"

text \<open>\<^verbatim>\<open>f64::round\<close> rounds half away from zero.\<close>

definition f64_round :: "rat \<Rightarrow> rat" where
  "f64_round v = (if v \<ge> 0 then of_int \<lfloor>v + 1/2\<rfloor> else - of_int \<lfloor>1/2 - v\<rfloor>)"

definition round_clamp :: "truncated_normal \<Rightarrow> rat \<Rightarrow> nat" where
  "round_clamp t raw = nat \<lfloor>max (tn_lower t) (min (tn_upper t) (f64_round raw))\<rfloor>"

definition next_headers_frame_wire_len :: "flow_direction \<Rightarrow> rat list \<Rightarrow> nat option" where
  "next_headers_frame_wire_len dir zs =
     (let s = headers_sampler dir in
      map_option (\<lambda>raw. single_wire_frame (round_clamp s raw)) (tn_sample s zs))"

definition next_data_record_payload :: "flow_direction \<Rightarrow> rat list \<Rightarrow> nat option" where
  "next_data_record_payload dir zs =
     (let s = data_record_sampler dir in map_option (round_clamp s) (tn_sample s zs))"

fun weighted_index :: "rat list \<Rightarrow> nat \<Rightarrow> nat \<Rightarrow> rat \<Rightarrow> nat" where
  "weighted_index [] i dflt roll = dflt"
| "weighted_index (w # ws) i dflt roll =
     (if roll < w then i else weighted_index ws (Suc i) dflt (roll - w))"

definition control_size_next :: "connection_phase \<Rightarrow> flow_direction \<Rightarrow> rat \<Rightarrow> rat \<Rightarrow> rat list \<Rightarrow> nat option" where
  "control_size_next st dir u roll0 zs =
     (let weight_sum = sum_weights TRANSPORT_POOL_WEIGHTS in
      if u < discrete_threshold weight_sum TRANSPORT_HEADERS_WEIGHT
      then
        let roll = roll0 * weight_sum;
            idx = weighted_index TRANSPORT_POOL_WEIGHTS 0 (length TRANSPORT_POOL_WEIGHTS - 1) roll
        in Some (TRANSPORT_POOL_SIZES ! idx)
      else
        let s = headers_sampler dir in
        map_option (\<lambda>raw. single_wire_frame (round_clamp s raw)) (tn_sample s zs))"

text \<open>\<^verbatim>\<open>SnowyWriteHalf::next_control_size\<close>: the deterministic opening first, then the pool.\<close>

definition next_control_size ::
  "bool \<Rightarrow> u64 \<Rightarrow> connection_phase \<Rightarrow> flow_direction \<Rightarrow> rat \<Rightarrow> rat \<Rightarrow> rat list \<Rightarrow> nat option" where
  "next_control_size large control_frame_count st dir u roll zs =
     (case (if st = Handshake then h2_opening_size large dir control_frame_count else None) of
        Some sz \<Rightarrow> Some sz
      | None \<Rightarrow> control_size_next Transport dir u roll zs)"

section \<open>H2 skeleton\<close>

definition H2_GOAWAY_WIRE :: nat where "H2_GOAWAY_WIRE = PING_WIRE"
definition GOAWAY_NOT_RECEIVED :: u64 where "GOAWAY_NOT_RECEIVED = - 1"

definition peer_never_processed :: "u64 \<Rightarrow> u32 \<Rightarrow> bool" where
  "peer_never_processed state stream_id =
     (if state = GOAWAY_NOT_RECEIVED then False else (ucast stream_id :: u64) > state)"

definition MAX_PADDING_REPLIES :: nat where "MAX_PADDING_REPLIES = 2"
definition PADDING_REQUEST_WIRE :: nat where "PADDING_REQUEST_WIRE = PING_WIRE"
definition PADDING_ACK_WIRE :: nat where "PADDING_ACK_WIRE = PING_WIRE"
definition PADDING_SETTINGS_ACK_WIRE :: nat where "PADDING_SETTINGS_ACK_WIRE = SETTINGS_ACK_WIRE"
definition PADDING_WINDOW_UPDATE_WIRE :: nat where "PADDING_WINDOW_UPDATE_WIRE = WINDOW_UPDATE_WIRE"

lemmas h2_defs = H2_GOAWAY_WIRE_def MAX_PADDING_REPLIES_def PADDING_REQUEST_WIRE_def
  PADDING_ACK_WIRE_def PADDING_SETTINGS_ACK_WIRE_def PADDING_WINDOW_UPDATE_WIRE_def

text \<open>\<^verbatim>\<open>SnowyStream::data_record_wire_len\<close>.\<close>

definition data_record_wire_len :: "nat \<Rightarrow> nat" where
  "data_record_wire_len payload_len =
     TLS_RECORD_HEADER_LEN + BLOCK_LEN_PREFIX_SIZE + payload_len + INNER_CONTENT_TYPE_LEN + AEAD_TAG_LEN"

definition padding_reply_wire_len :: "nat \<Rightarrow> nat \<Rightarrow> flow_direction \<Rightarrow> rat list \<Rightarrow> nat option" where
  "padding_reply_wire_len request_wire_len index dir zs =
     (if index > 0 then Some PADDING_WINDOW_UPDATE_WIRE
      else if is_settings_bearing_wire_size request_wire_len then Some PADDING_SETTINGS_ACK_WIRE
      else if request_wire_len > L1_MAX_WIRE_LEN
      then map_option data_record_wire_len (next_data_record_payload dir zs)
      else Some PADDING_ACK_WIRE)"

definition sample_h2_exchange_request_wire :: "rat list \<Rightarrow> nat option" where
  "sample_h2_exchange_request_wire zs = next_headers_frame_wire_len C2S zs"

section \<open>Bounds of the samplers\<close>

lemma tn_sample_range: "tn_sample t zs = Some v \<Longrightarrow> tn_lower t \<le> v \<and> v \<le> tn_upper t"
  by (induction t zs rule: tn_sample.induct) (auto simp: Let_def split: if_splits)

lemma round_clamp_range:
  assumes "tn_lower t = of_nat lo" "tn_upper t = of_nat hi" "lo \<le> hi"
  shows "lo \<le> round_clamp t raw \<and> round_clamp t raw \<le> hi"
proof -
  let ?m = "max (tn_lower t) (min (tn_upper t) (f64_round raw))"
  have "of_nat lo \<le> ?m" "?m \<le> of_nat hi" using assms by auto
  then have "int lo \<le> \<lfloor>?m\<rfloor>" "\<lfloor>?m\<rfloor> \<le> int hi"
    using floor_mono [of ?m "of_nat hi"] by (simp_all add: le_floor_iff)
  then show ?thesis by (simp add: round_clamp_def nat_le_iff le_nat_iff)
qed

lemma headers_size_range:
  "100 \<le> round_clamp (headers_sampler dir) raw \<and> round_clamp (headers_sampler dir) raw \<le> 800"
  using round_clamp_range [of headers_c2s_sampler 250 800 raw]
    round_clamp_range [of headers_s2c_sampler 100 400 raw]
  by (cases dir) (auto simp: headers_sampler_def headers_c2s_sampler_def headers_s2c_sampler_def)

lemma data_record_payload_range:
  assumes "next_data_record_payload dir zs = Some n"
  shows "MIN_DATA_RECORD_PAYLOAD \<le> n \<and> n \<le> MAX_DATA_RECORD_PAYLOAD"
  using assms round_clamp_range [of "data_record_sampler dir" MIN_DATA_RECORD_PAYLOAD MAX_DATA_RECORD_PAYLOAD]
  by (cases dir) (auto simp: next_data_record_payload_def Let_def data_record_sampler_def wire_defs)

lemma weighted_index_bound:
  "dflt < i + length ws \<Longrightarrow> weighted_index ws i dflt roll < i + length ws"
  by (induction ws i dflt roll rule: weighted_index.induct) auto

lemma transport_pool_sizes: "idx < 5 \<Longrightarrow> TRANSPORT_POOL_SIZES ! idx \<in> {33, 37, 41, 46, 54}"
  by (auto simp: TRANSPORT_POOL_SIZES_def wire_defs nth_Cons split: nat.splits)

lemma control_size_next_range:
  assumes "control_size_next st dir u roll zs = Some n"
  shows "33 \<le> n \<and> n \<le> 824 \<and> \<not> is_settings_bearing_wire_size n"
proof (cases "u < discrete_threshold (sum_weights TRANSPORT_POOL_WEIGHTS) TRANSPORT_HEADERS_WEIGHT")
  case True
  let ?idx = "weighted_index TRANSPORT_POOL_WEIGHTS 0 (length TRANSPORT_POOL_WEIGHTS - 1)
     (roll * sum_weights TRANSPORT_POOL_WEIGHTS)"
  have "?idx < 5"
    using weighted_index_bound [of 4 0 TRANSPORT_POOL_WEIGHTS] by (simp add: TRANSPORT_POOL_WEIGHTS_def)
  then have "n \<in> {33, 37, 41, 46, 54}"
    using assms True transport_pool_sizes by (auto simp: control_size_next_def Let_def)
  then show ?thesis by (auto simp: is_settings_bearing_wire_size_def wire_defs)
next
  case False
  then obtain raw where "n = single_wire_frame (round_clamp (headers_sampler dir) raw)"
    using assms by (auto simp: control_size_next_def Let_def)
  then show ?thesis
    using headers_size_range [of dir raw]
    by (auto simp: single_wire_frame_def is_settings_bearing_wire_size_def wire_defs)
qed

section \<open>Properties\<close>

text \<open>C24: whatever the random draws, a control record is never smaller than the smallest record
  that can hold a padding frame, and a size that announces SETTINGS parameters is produced exactly
  for the first control record of a server that is still in its opening, as in HTTP/2.\<close>

theorem control_sizes_settings_once:
  assumes "next_control_size large cnt st dir u roll zs = Some n"
  shows "MIN_PADDING_RECORD_WIRE_LEN \<le> n \<and> n \<le> 824 \<and>
    (is_settings_bearing_wire_size n \<longleftrightarrow> dir = S2C \<and> cnt = 0 \<and> st = Handshake)"
proof (cases "(if st = Handshake then h2_opening_size large dir cnt else None) :: nat option")
  case None
  then have "33 \<le> n \<and> n \<le> 824 \<and> \<not> is_settings_bearing_wire_size n"
    using assms control_size_next_range by (simp add: next_control_size_def)
  moreover have "\<not> (dir = S2C \<and> cnt = 0 \<and> st = Handshake)"
    using None by (auto simp: h2_opening_size_def)
  ultimately show ?thesis by (simp add: frame_const_defs)
next
  case (Some s)
  then have "n = s" "st = Handshake" "h2_opening_size large dir cnt = Some s"
    using assms by (auto simp: next_control_size_def split: if_splits)
  then show ?thesis
    by (cases dir)
      (auto simp: h2_opening_size_def is_settings_bearing_wire_size_def wire_defs split: if_splits)
qed

theorem control_sizes_settings_once_witness:
  "next_control_size True 0 Handshake S2C (1/2) (1/2) [] = Some 69 \<and>
   is_settings_bearing_wire_size 69 \<and> \<not> is_settings_bearing_wire_size 41"
proof -
  have 1: "next_control_size True 0 Handshake S2C (1/2) (1/2) [] = Some 69"
    by (simp add: next_control_size_def h2_opening_size_def wire_defs)
  have 2: "next_control_size True 5 Handshake S2C (1/2) (1/2) [] = Some 41"
    by (simp add: next_control_size_def h2_opening_size_def control_size_next_def Let_def
        sum_weights_def TRANSPORT_POOL_WEIGHTS_def TRANSPORT_HEADERS_WEIGHT_def discrete_threshold_def
        TRANSPORT_POOL_SIZES_def wire_defs)
  show ?thesis
    using 1 control_sizes_settings_once [OF 1] control_sizes_settings_once [OF 2] by simp
qed

text \<open>Every reply to a padding request is itself a well-formed padding record; the second
  reply is always a WINDOW\_UPDATE size, a SETTINGS-sized request is answered with a SETTINGS-ACK
  size, and a request above the L1 class is answered with a record above the L1 class.\<close>

lemma padding_reply_roles:
  assumes "padding_reply_wire_len req index dir zs = Some n"
  shows "MIN_PADDING_RECORD_WIRE_LEN \<le> n \<and> n \<le> 1424 \<and>
    (index > 0 \<longrightarrow> n = WINDOW_UPDATE_WIRE) \<and>
    (index = 0 \<and> is_settings_bearing_wire_size req \<longrightarrow> n = SETTINGS_ACK_WIRE) \<and>
    (index = 0 \<and> req > L1_MAX_WIRE_LEN \<longrightarrow> n > L1_MAX_WIRE_LEN) \<and>
    (index = 0 \<and> req = PING_WIRE \<longrightarrow> n = PING_WIRE)"
proof (cases "index = 0 \<and> \<not> is_settings_bearing_wire_size req \<and> req > L1_MAX_WIRE_LEN")
  case True
  then obtain p where "next_data_record_payload dir zs = Some p" "n = data_record_wire_len p"
    using assms by (auto simp: padding_reply_wire_len_def)
  then show ?thesis
    using True data_record_payload_range [of dir zs p] by (auto simp: data_record_wire_len_def wire_defs)
next
  case False
  then show ?thesis
    using assms
    by (auto simp: padding_reply_wire_len_def h2_defs is_settings_bearing_wire_size_def wire_defs
        split: if_splits)
qed

lemma padding_reply_roles_witness:
  "padding_reply_wire_len 500 0 S2C [0] = Some 724 \<and> 724 > L1_MAX_WIRE_LEN"
proof -
  have "\<lfloor>1401 / 2 :: rat\<rfloor> = 700" by (simp add: floor_eq_iff)
  then have "padding_reply_wire_len 500 0 S2C [0] = Some 724"
    by (simp add: padding_reply_wire_len_def is_settings_bearing_wire_size_def next_data_record_payload_def
        data_record_sampler_def round_clamp_def f64_round_def data_record_wire_len_def wire_defs Let_def)
  then show ?thesis using padding_reply_roles [of 500 0 S2C "[0]" 724] by (simp add: wire_defs)
qed

end
