(* ===== verification/Net.thy ===== *)
theory Net
  imports Prelude
begin

text \<open>
  The textual address formats of \<^verbatim>\<open>std::net\<close> that the program parses with \<^verbatim>\<open>str::parse\<close>: dotted
  IPv4 addresses and IPv6 addresses. A Rust string is the list of its UTF-8 bytes.
\<close>

definition ascii :: "string \<Rightarrow> bytes" where "ascii s = map of_char s"

datatype ip_addr = V4 "u8 list" | V6 "u16 list"

definition is_ascii_digit :: "u8 \<Rightarrow> bool" where "is_ascii_digit b \<longleftrightarrow> 0x30 \<le> b \<and> b \<le> 0x39"
definition is_ascii_lower :: "u8 \<Rightarrow> bool" where "is_ascii_lower b \<longleftrightarrow> 0x61 \<le> b \<and> b \<le> 0x7A"
definition is_ascii_upper :: "u8 \<Rightarrow> bool" where "is_ascii_upper b \<longleftrightarrow> 0x41 \<le> b \<and> b \<le> 0x5A"

definition is_ascii_alphanumeric :: "u8 \<Rightarrow> bool" where
  "is_ascii_alphanumeric b \<longleftrightarrow> is_ascii_digit b \<or> is_ascii_lower b \<or> is_ascii_upper b"

definition to_ascii_lower :: "u8 \<Rightarrow> u8" where
  "to_ascii_lower b = (if is_ascii_upper b then b + 0x20 else b)"

definition to_ascii_lowercase :: "bytes \<Rightarrow> bytes" where
  "to_ascii_lowercase s = map to_ascii_lower s"

definition eq_ignore_ascii_case :: "bytes \<Rightarrow> bytes \<Rightarrow> bool" where
  "eq_ignore_ascii_case a b \<longleftrightarrow> to_ascii_lowercase a = to_ascii_lowercase b"

section \<open>Numbers\<close>

definition digit_of :: "u8 \<Rightarrow> nat option" where
  "digit_of b =
     (if is_ascii_digit b then Some (unat (b - 0x30))
      else if is_ascii_lower b then Some (unat (b - 0x61) + 10)
      else if is_ascii_upper b then Some (unat (b - 0x41) + 10) else None)"

definition digit_value :: "nat \<Rightarrow> u8 \<Rightarrow> nat option" where
  "digit_value radix b = (case digit_of b of Some n \<Rightarrow> if n < radix then Some n else None | None \<Rightarrow> None)"

fun digits_value :: "nat \<Rightarrow> nat \<Rightarrow> bytes \<Rightarrow> nat" where
  "digits_value radix acc [] = acc"
| "digits_value radix acc (b # bs) =
     digits_value radix (acc * radix + (case digit_value radix b of Some n \<Rightarrow> n | None \<Rightarrow> 0)) bs"

text \<open>\<^verbatim>\<open>Parser::read_number\<close>: at least one and at most \<^verbatim>\<open>max_digits\<close> digits, no superfluous leading
  zero unless allowed, value at most \<^verbatim>\<open>limit\<close>.\<close>

definition read_number :: "nat \<Rightarrow> nat \<Rightarrow> bool \<Rightarrow> nat \<Rightarrow> bytes \<Rightarrow> (nat \<times> bytes) option" where
  "read_number radix max_digits allow_zero_prefix limit s =
     (let ds = takeWhile (\<lambda>b. digit_value radix b \<noteq> None) s; v = digits_value radix 0 ds in
      if ds = [] \<or> length ds > max_digits then None
      else if \<not> allow_zero_prefix \<and> hd ds = 0x30 \<and> length ds > 1 then None
      else if v > limit then None
      else Some (v, drop (length ds) s))"

definition read_given_char :: "u8 \<Rightarrow> bytes \<Rightarrow> bytes option" where
  "read_given_char c s = (case s of b # s' \<Rightarrow> if b = c then Some s' else None | [] \<Rightarrow> None)"

definition read_separator :: "u8 \<Rightarrow> nat \<Rightarrow> (bytes \<Rightarrow> ('a \<times> bytes) option) \<Rightarrow> bytes \<Rightarrow> ('a \<times> bytes) option" where
  "read_separator sep index inner s =
     (if index > 0 then case read_given_char sep s of None \<Rightarrow> None | Some s' \<Rightarrow> inner s' else inner s)"

section \<open>Addresses\<close>

fun read_octets :: "nat \<Rightarrow> nat \<Rightarrow> bytes \<Rightarrow> (u8 list \<times> bytes) option" where
  "read_octets 0 index s = Some ([], s)"
| "read_octets (Suc n) index s =
     (case read_separator 0x2E index (read_number 10 3 False 255) s of
        None \<Rightarrow> None
      | Some (v, s') \<Rightarrow> map_option (\<lambda>(vs, r). (of_nat v # vs, r)) (read_octets n (index + 1) s'))"

definition read_ipv4_addr :: "bytes \<Rightarrow> (u8 list \<times> bytes) option" where
  "read_ipv4_addr s = read_octets 4 0 s"

text \<open>\<^verbatim>\<open>read_groups\<close>: at most \<^verbatim>\<open>limit\<close> groups; an embedded IPv4 address counts for two and ends them.\<close>

fun read_groups :: "nat \<Rightarrow> nat \<Rightarrow> bytes \<Rightarrow> u16 list \<times> bool \<times> bytes" where
  "read_groups 0 index s = ([], False, s)"
| "read_groups (Suc n) index s =
     (case (if n > 0 then read_separator 0x3A index read_ipv4_addr s else None) of
        Some (v4, s') \<Rightarrow>
          ([u16_from_be (v4 ! 0) (v4 ! 1), u16_from_be (v4 ! 2) (v4 ! 3)], True, s')
      | None \<Rightarrow>
          (case read_separator 0x3A index (read_number 16 4 True 65535) s of
             Some (g, s') \<Rightarrow> let (gs, v4, r) = read_groups n (index + 1) s' in (of_nat g # gs, v4, r)
           | None \<Rightarrow> ([], False, s)))"

definition read_ipv6_addr :: "bytes \<Rightarrow> (u16 list \<times> bytes) option" where
  "read_ipv6_addr s =
     (let (head, head_ipv4, s1) = read_groups 8 0 s in
      if length head = 8 then Some (head, s1)
      else if head_ipv4 then None
      else case read_given_char 0x3A s1 of
        None \<Rightarrow> None
      | Some s2 \<Rightarrow>
          (case read_given_char 0x3A s2 of
             None \<Rightarrow> None
           | Some s3 \<Rightarrow>
               let limit = 8 - (length head + 1); (tail, _, s4) = read_groups limit 0 s3
               in Some (head @ replicate (8 - length head - length tail) 0 @ tail, s4)))"

definition parse_ipv4 :: "bytes \<Rightarrow> u8 list option" where
  "parse_ipv4 s =
     (if length s > 15 then None
      else case read_ipv4_addr s of Some (a, []) \<Rightarrow> Some a | _ \<Rightarrow> None)"

definition parse_ipv6 :: "bytes \<Rightarrow> u16 list option" where
  "parse_ipv6 s = (case read_ipv6_addr s of Some (a, []) \<Rightarrow> Some a | _ \<Rightarrow> None)"

definition parse_ip :: "bytes \<Rightarrow> ip_addr option" where
  "parse_ip s =
     (case read_ipv4_addr s of
        Some (a, []) \<Rightarrow> Some (V4 a)
      | _ \<Rightarrow> (case parse_ipv6 s of Some g \<Rightarrow> Some (V6 g) | None \<Rightarrow> None))"

lemma length_read_octets: "read_octets n i s = Some (vs, r) \<Longrightarrow> length vs = n"
  by (induction n arbitrary: i s vs r) (auto split: option.splits)

lemma length_read_groups: "read_groups n i s = (gs, b, r) \<Longrightarrow> length gs \<le> n"
  by (induction n arbitrary: i s gs b r) (auto split: option.splits if_splits prod.splits)

lemma parse_ip_shape:
  "parse_ip s = Some (V4 a) \<Longrightarrow> length a = 4" "parse_ip s = Some (V6 g) \<Longrightarrow> length g = 8"
proof -
  show "parse_ip s = Some (V4 a) \<Longrightarrow> length a = 4"
    by (auto simp: parse_ip_def read_ipv4_addr_def split: option.splits list.splits prod.splits
        dest: length_read_octets)
  show "parse_ip s = Some (V6 g) \<Longrightarrow> length g = 8"
    by (fastforce simp: parse_ip_def parse_ipv6_def read_ipv6_addr_def Let_def
        split: option.splits list.splits prod.splits if_splits dest: length_read_groups)
qed

section \<open>Display\<close>

text \<open>\<^verbatim>\<open>Display\<close> of numbers and addresses, and that parsing reverses it.\<close>

definition digit_char :: "nat \<Rightarrow> u8" where
  "digit_char n = (if n < 10 then 0x30 + of_nat n else 0x57 + of_nat n)"

function show_radix :: "nat \<Rightarrow> nat \<Rightarrow> bytes" where
  "show_radix r n = (if n < r \<or> r < 2 then [digit_char n] else show_radix r (n div r) @ [digit_char (n mod r)])"
  by pat_completeness auto
termination
  by (relation "measure snd") (auto intro!: div_less_dividend)

declare show_radix.simps [simp del]

definition show_ipv4 :: "u8 list \<Rightarrow> bytes" where
  "show_ipv4 a = show_radix 10 (unat (a ! 0)) @ 0x2E # show_radix 10 (unat (a ! 1)) @
     0x2E # show_radix 10 (unat (a ! 2)) @ 0x2E # show_radix 10 (unat (a ! 3))"

fun fmt_subslice :: "u16 list \<Rightarrow> bytes" where
  "fmt_subslice [] = []"
| "fmt_subslice (g # gs) = show_radix 16 (unat g) @ concat (map (\<lambda>h. 0x3A # show_radix 16 (unat h)) gs)"

text \<open>The first longest run of zero segments: start and length.\<close>

fun longest_zeros :: "nat \<Rightarrow> nat \<times> nat \<Rightarrow> nat \<times> nat \<Rightarrow> u16 list \<Rightarrow> nat \<times> nat" where
  "longest_zeros i cur best [] = best"
| "longest_zeros i cur best (g # gs) =
     (if g = 0
      then let cur1 = (if snd cur = 0 then i else fst cur, snd cur + 1)
           in longest_zeros (i + 1) cur1 (if snd cur1 > snd best then cur1 else best) gs
      else longest_zeros (i + 1) (0, 0) best gs)"

definition to_ipv4_mapped :: "u16 list \<Rightarrow> u8 list option" where
  "to_ipv4_mapped g =
     (if take 6 g = [0, 0, 0, 0, 0, 0xFFFF] then Some (u16_to_be (g ! 6) @ u16_to_be (g ! 7)) else None)"

definition show_ipv6 :: "u16 list \<Rightarrow> bytes" where
  "show_ipv6 g =
     (case to_ipv4_mapped g of
        Some v4 \<Rightarrow> [0x3A, 0x3A, 0x66, 0x66, 0x66, 0x66, 0x3A] @ show_ipv4 v4
      | None \<Rightarrow>
          let (start, len) = longest_zeros 0 (0, 0) (0, 0) g in
          if len > 1
          then fmt_subslice (take start g) @ [0x3A, 0x3A] @ fmt_subslice (drop (start + len) g)
          else fmt_subslice g)"

lemma digit_value_char: "n < r \<Longrightarrow> r \<le> 16 \<Longrightarrow> digit_value r (digit_char n) = Some n"
proof -
  have "list_all (\<lambda>n. digit_of (digit_char n) = Some n) [0..<16]" by code_simp
  then have "digit_of (digit_char n) = Some n" if "n < 16" for n using that unfolding list_all_iff by auto
  then show "n < r \<Longrightarrow> r \<le> 16 \<Longrightarrow> digit_value r (digit_char n) = Some n" by (simp add: digit_value_def)
qed

lemma digits_value_snoc:
  "digits_value r acc (xs @ [d]) = digits_value r acc xs * r + (case digit_value r d of Some n \<Rightarrow> n | None \<Rightarrow> 0)"
  by (induction r acc xs rule: digits_value.induct) auto

lemma show_radix_value: "2 \<le> r \<Longrightarrow> r \<le> 16 \<Longrightarrow> digits_value r 0 (show_radix r n) = n"
proof (induction r n rule: show_radix.induct)
  case (1 r n)
  then show ?case by (subst show_radix.simps) (simp add: digits_value_snoc digit_value_char)
qed

lemma show_radix_digits: "2 \<le> r \<Longrightarrow> r \<le> 16 \<Longrightarrow> \<forall>b \<in> set (show_radix r n). digit_value r b \<noteq> None"
proof (induction r n rule: show_radix.induct)
  case (1 r n)
  then show ?case by (subst show_radix.simps) (auto simp: digit_value_char)
qed

lemma show_radix_nonempty [simp]: "show_radix r n \<noteq> []"
  by (subst show_radix.simps) simp

lemma show_radix_hd: "2 \<le> r \<Longrightarrow> r \<le> 10 \<Longrightarrow> r \<le> n \<Longrightarrow> hd (show_radix r n) \<noteq> 0x30"
proof (induction r n rule: show_radix.induct)
  case (1 r n)
  show ?case
  proof (cases "n div r < r")
    case True
    moreover have "0 < n div r" using 1 by (simp add: div_greater_zero_iff)
    moreover have "k = 0" if "k < 10" "digit_char k = 0x30" for k
      using that digit_value_char [of k 10] digit_value_char [of 0 10] by (auto simp: digit_char_def)
    ultimately have "digit_char (n div r) \<noteq> 0x30" using 1 by (metis less_irrefl less_le_trans)
    then show ?thesis using 1 True by (subst show_radix.simps, subst show_radix.simps) simp
  next
    case False
    then show ?thesis using 1 by (subst show_radix.simps) simp
  qed
qed

lemma length_show_radix: "2 \<le> r \<Longrightarrow> n < r ^ Suc k \<Longrightarrow> length (show_radix r n) \<le> Suc k"
proof (induction k arbitrary: n)
  case (Suc k)
  then have "n div r < r ^ Suc k" by (metis less_mult_imp_div_less mult.commute power_Suc)
  then show ?case using Suc by (subst show_radix.simps) simp
qed (simp add: show_radix.simps)

definition nondigit_start :: "nat \<Rightarrow> bytes \<Rightarrow> bool" where
  "nondigit_start r s \<longleftrightarrow> s = [] \<or> digit_value r (hd s) = None"

lemma takeWhile_stop: "\<forall>x \<in> set xs. P x \<Longrightarrow> ys = [] \<or> \<not> P (hd ys) \<Longrightarrow> takeWhile P (xs @ ys) = xs"
  by (cases ys) (auto simp: takeWhile_append2)

lemma read_number_show:
  assumes r: "2 \<le> r" "r \<le> 16" and n: "n < r ^ Suc k" "Suc k \<le> m" "n \<le> limit" and z: "z \<or> r \<le> 10"
    and rest: "nondigit_start r rest"
  shows "read_number r m z limit (show_radix r n @ rest) = Some (n, rest)"
proof -
  have tw: "takeWhile (\<lambda>b. digit_value r b \<noteq> None) (show_radix r n @ rest) = show_radix r n"
    using show_radix_digits [OF r, of n] rest by (intro takeWhile_stop) (auto simp: nondigit_start_def)
  have len: "length (show_radix r n) \<le> m" using length_show_radix [OF r(1) n(1)] n(2) by simp
  have "\<not> (\<not> z \<and> hd (show_radix r n) = 0x30 \<and> length (show_radix r n) > 1)"
  proof (cases "n < r")
    case True
    then show ?thesis by (subst show_radix.simps) (simp add: show_radix.simps)
  next
    case False
    then show ?thesis using show_radix_hd [of r n] z r by auto
  qed
  then show ?thesis using len n(3) unfolding read_number_def tw Let_def by (simp add: show_radix_value [OF r])
qed

lemma nondigit_dot [simp]: "nondigit_start 10 (0x2E # s)" and nondigit_colon [simp]: "nondigit_start 16 (0x3A # s)"
  and nondigit_nil [simp]: "nondigit_start r []"
  by (simp_all add: nondigit_start_def digit_value_def digit_of_def is_ascii_digit_def is_ascii_lower_def is_ascii_upper_def)

lemma read_octet_show: "nondigit_start 10 rest \<Longrightarrow>
    read_number 10 3 False 255 (show_radix 10 (unat (b :: u8)) @ rest) = Some (unat b, rest)"
proof -
  have "unat b \<le> 255" using unsigned_less [of b, where ?'a = nat] by simp
  then show "nondigit_start 10 rest \<Longrightarrow> ?thesis" by (intro read_number_show [where k = 2]) auto
qed

lemma read_ipv4_show:
  assumes "length a = 4" "nondigit_start 10 rest"
  shows "read_ipv4_addr (show_ipv4 a @ rest) = Some (a, rest)"
proof -
  obtain a0 a1 a2 a3 where a: "a = [a0, a1, a2, a3]" using assms(1) by (auto simp: numeral_eq_Suc length_Suc_conv)
  have four: "(4 :: nat) = Suc (Suc (Suc (Suc 0)))" by simp
  show ?thesis
    unfolding read_ipv4_addr_def four a
    by (simp add: show_ipv4_def read_separator_def read_given_char_def read_octet_show assms(2))
qed

lemma parse_ip_show_ipv4: "length a = 4 \<Longrightarrow> parse_ip (show_ipv4 a) = Some (V4 a)"
  using read_ipv4_show [of a "[]"] by (simp add: parse_ip_def)

lemma read_octets_dot:
  assumes "read_octets (Suc (Suc n)) i s = Some p"
  shows "0x2E \<in> set s"
proof -
  obtain v s1 where 1: "read_separator 0x2E i (read_number 10 3 False 255) s = Some (v, s1)"
    "read_octets (Suc n) (i + 1) s1 \<noteq> None" using assms by (auto split: option.splits)
  have "set s1 \<subseteq> set s"
    using 1(1) set_drop_subset
    by (fastforce simp: read_separator_def read_number_def read_given_char_def Let_def split: if_splits option.splits list.splits)
  moreover have "0x2E \<in> set s1"
    using 1(2) by (auto simp: read_separator_def read_given_char_def split: option.splits list.splits if_splits)
  ultimately show ?thesis by blast
qed

lemma read_ipv4_no_dot: "0x2E \<notin> set s \<Longrightarrow> read_ipv4_addr s = None"
  using read_octets_dot [of 2 0 s] by (cases "read_ipv4_addr s") (auto simp: read_ipv4_addr_def eval_nat_numeral simp del: read_octets.simps)

lemma read_number_nondigit: "nondigit_start r s \<Longrightarrow> read_number r m z l s = None"
  by (cases s) (auto simp: read_number_def nondigit_start_def)

lemma read_ipv4_nondigit: "nondigit_start 10 s \<Longrightarrow> read_ipv4_addr s = None"
proof -
  have four: "(4 :: nat) = Suc (Suc (Suc (Suc 0)))" by simp
  show "nondigit_start 10 s \<Longrightarrow> read_ipv4_addr s = None"
    unfolding read_ipv4_addr_def four by (simp add: read_separator_def read_number_nondigit)
qed

lemma dot_not_hex: "0x2E \<notin> set (show_radix 16 n)"
proof -
  have "digit_value 16 0x2E = None" by code_simp
  then show ?thesis using show_radix_digits [of 16 n] by fastforce
qed

lemma read_group_show: "nondigit_start 16 rest \<Longrightarrow>
    read_number 16 4 True 65535 (show_radix 16 (unat (g :: u16)) @ rest) = Some (unat g, rest)"
proof -
  have "unat g < 65536" using unsigned_less [of g, where ?'a = nat] by simp
  then show "nondigit_start 16 rest \<Longrightarrow> ?thesis" by (intro read_number_show [where k = 3]) auto
qed

definition groups_from :: "nat \<Rightarrow> u16 list \<Rightarrow> bytes" where
  "groups_from i gs = (if i = 0 then fmt_subslice gs else concat (map (\<lambda>h. 0x3A # show_radix 16 (unat h)) gs))"

lemma groups_from_Cons:
  "groups_from i (g # gs) = (if i = 0 then [] else [0x3A]) @ show_radix 16 (unat g) @ groups_from (Suc i) gs"
  by (simp add: groups_from_def)

lemma groups_from_no_dot: "0x2E \<notin> set (groups_from i gs)"
  by (cases gs) (auto simp: groups_from_def dot_not_hex)

lemma groups_from_start: "nondigit_start 16 rest \<Longrightarrow> nondigit_start 16 (groups_from (Suc i) gs @ rest)"
  by (cases gs) (auto simp: groups_from_def)

text \<open>Reading the printed groups, up to a rest at which no further group starts.\<close>

lemma read_groups_show:
  assumes "length gs \<le> n" "nondigit_start 16 rest" "0x2E \<notin> set rest"
    and "length gs < n \<Longrightarrow> read_separator 0x3A (i + length gs) (read_number 16 4 True 65535) rest = None"
  shows "read_groups n i (groups_from i gs @ rest) = (gs, False, rest)"
  using assms
proof (induction gs arbitrary: n i)
  case Nil
  have "read_separator 0x3A i read_ipv4_addr rest = None"
    using Nil(3) read_ipv4_no_dot by (auto simp: read_separator_def read_given_char_def split: list.splits)
  then show ?case using Nil by (cases n) (auto simp: groups_from_def)
next
  case (Cons g gs)
  obtain m where n: "n = Suc m" using Cons(2) by (cases n) auto
  have nd: "0x2E \<notin> set (show_radix 16 (unat g) @ groups_from (Suc i) gs @ rest)"
    using dot_not_hex groups_from_no_dot Cons(4) by simp
  then have v4: "read_separator 0x3A i read_ipv4_addr (groups_from i (g # gs) @ rest) = None"
    using read_ipv4_no_dot by (cases "i = 0") (simp_all add: groups_from_Cons read_separator_def read_given_char_def)
  have num: "read_separator 0x3A i (read_number 16 4 True 65535) (groups_from i (g # gs) @ rest)
      = Some (unat g, groups_from (Suc i) gs @ rest)"
    using read_group_show [OF groups_from_start [OF Cons(3)]]
    by (simp add: groups_from_Cons read_separator_def read_given_char_def)
  have "read_groups m (Suc i) (groups_from (Suc i) gs @ rest) = (gs, False, rest)"
    using Cons n by (intro Cons.IH) auto
  then show ?case using v4 num unfolding n by (cases m) auto
qed

lemma longest_zeros_span:
  assumes "longest_zeros i cur best gs = (st, len)" "i = length pre" "snd cur \<le> i"
    "snd cur > 0 \<Longrightarrow> fst cur + snd cur = i" "\<forall>k < snd cur. pre ! (fst cur + k) = 0"
    "fst best + snd best \<le> i" "\<forall>k < snd best. pre ! (fst best + k) = 0"
  shows "st + len \<le> length (pre @ gs) \<and> (\<forall>k < len. (pre @ gs) ! (st + k) = 0)"
  using assms
proof (induction gs arbitrary: i cur best pre)
  case Nil
  then show ?case by simp
next
  case (Cons g gs)
  let ?cur = "(if snd cur = 0 then i else fst cur, snd cur + 1)"
  have old: "\<forall>k < snd b. (pre @ [g]) ! (fst b + k) = 0"
    if "fst b + snd b \<le> i" "\<forall>k < snd b. pre ! (fst b + k) = 0" for b
    using that Cons(3) by (auto simp: nth_append)
  show ?case
  proof (cases "g = 0")
    case True
    have c: "\<forall>k < snd ?cur. (pre @ [g]) ! (fst ?cur + k) = 0"
      using Cons(3-6) True by (auto simp: nth_append less_Suc_eq)
    have "st + len \<le> length ((pre @ [g]) @ gs) \<and> (\<forall>k < len. ((pre @ [g]) @ gs) ! (st + k) = 0)"
    proof (rule Cons.IH [of "i + 1" ?cur "if snd ?cur > snd best then ?cur else best"])
      show "longest_zeros (i + 1) ?cur (if snd ?cur > snd best then ?cur else best) gs = (st, len)"
        using Cons(2) True by (simp only: longest_zeros.simps Let_def if_True simp_thms)
    qed (use Cons(3-8) c old [of best] in \<open>auto split: if_splits\<close>)
    then show ?thesis by simp
  next
    case False
    have "st + len \<le> length ((pre @ [g]) @ gs) \<and> (\<forall>k < len. ((pre @ [g]) @ gs) ! (st + k) = 0)"
      by (rule Cons.IH [of "i + 1" "(0, 0)" best]) (use Cons(2-8) False old [of best] in \<open>auto\<close>)
    then show ?thesis by simp
  qed
qed

lemma zero_span_split:
  assumes "longest_zeros 0 (0, 0) (0, 0) g = (st, len)"
  shows "g = take st g @ replicate len 0 @ drop (st + len) g" "st + len \<le> length g"
proof -
  have z: "st + len \<le> length g" "\<forall>k < len. g ! (st + k) = 0"
    using longest_zeros_span [OF assms, of "[]"] by auto
  then have "take len (drop st g) = replicate len 0" by (intro nth_equalityI) auto
  then show "g = take st g @ replicate len 0 @ drop (st + len) g"
    by (metis add.commute append_take_drop_id drop_drop)
  show "st + len \<le> length g" by (rule z)
qed

lemma read_ipv6_show_plain:
  assumes "length g = 8" "to_ipv4_mapped g = None"
  shows "read_ipv6_addr (show_ipv6 g) = Some (g, [])"
proof -
  obtain st len where sp: "longest_zeros 0 (0, 0) (0, 0) g = (st, len)" by (metis surj_pair)
  note z = zero_span_split [OF sp]
  show ?thesis
  proof (cases "len > 1")
    case False
    then have "show_ipv6 g = groups_from 0 g @ []" using assms sp by (simp add: show_ipv6_def groups_from_def)
    then show ?thesis using read_groups_show [of g 8 "[]" 0] assms(1) by (simp add: read_ipv6_addr_def)
  next
    case True
    let ?h = "take st g" and ?t = "drop (st + len) g"
    have s: "show_ipv6 g = groups_from 0 ?h @ 0x3A # 0x3A # groups_from 0 ?t"
      using assms sp True by (simp add: show_ipv6_def groups_from_def)
    have nn: "read_number 16 4 True 65535 (0x3A # x) = None" for x
      using nondigit_colon [of x] by (simp add: read_number_def nondigit_start_def)
    have hd: "read_groups 8 0 (show_ipv6 g) = (?h, False, 0x3A # 0x3A # groups_from 0 ?t)"
      unfolding s using assms(1) groups_from_no_dot [of 0 ?t]
      by (intro read_groups_show) (auto simp: read_separator_def read_given_char_def nn)
    have tl: "read_groups (8 - (st + 1)) 0 (groups_from 0 ?t) = (?t, False, [])"
      using read_groups_show [of ?t "8 - (st + 1)" "[]" 0] z(2) True assms(1)
      by (simp add: read_separator_def read_given_char_def read_number_def)
    have lh: "length ?h = st" using z(2) by simp
    have "8 - st - length ?t = len" using z(2) assms(1) by simp
    then show ?thesis
      using z True assms(1) lh tl
      unfolding read_ipv6_addr_def hd by (simp add: read_given_char_def Let_def)
  qed
qed

lemma read_ipv6_show_mapped:
  assumes "length g = 8" "to_ipv4_mapped g = Some v4"
  shows "read_ipv6_addr (show_ipv6 g) = Some (g, [])"
proof -
  have v4: "v4 = u16_to_be (g ! 6) @ u16_to_be (g ! 7)" and p: "take 6 g = [0, 0, 0, 0, 0, 0xFFFF]"
    using assms(2) by (auto simp: to_ipv4_mapped_def split: if_splits)
  have "drop 6 g = [g ! 6, g ! 7]"
    by (rule nth_equalityI) (use assms(1) in \<open>auto simp: numeral_2_eq_2 less_Suc_eq\<close>)
  then have g: "g = [0, 0, 0, 0, 0, 0xFFFF, g ! 6, g ! 7]" using p by (metis append_take_drop_id append_Cons append_Nil)
  have rd: "read_ipv4_addr (show_ipv4 v4) = Some (v4, [])" using read_ipv4_show [of v4 "[]"] v4 by simp
  have c: "read_number 16 4 True 65535 (0x3A # x) = None" "read_ipv4_addr (0x3A # x) = None"
    "read_ipv4_addr (0x66 # x) = None" for x
    by (rule read_number_nondigit read_ipv4_nondigit;
        simp add: nondigit_start_def digit_value_def digit_of_def is_ascii_digit_def is_ascii_lower_def is_ascii_upper_def)+
  have ff: "show_radix 16 (unat (0xFFFF :: u16)) = [0x66, 0x66, 0x66, 0x66]"
    by (simp add: show_radix.simps [of 16 65535] show_radix.simps [of 16 4095] show_radix.simps [of 16 255]
        show_radix.simps [of 16 15] digit_char_def)
  have n: "read_number 16 4 True 65535 (0x66 # 0x66 # 0x66 # 0x66 # 0x3A # x) = Some (65535, 0x3A # x)" for x
    using read_group_show [of "0x3A # x" "0xFFFF"] unfolding ff by simp
  have hd: "read_groups 8 0 (show_ipv6 g) = ([], False, show_ipv6 g)"
    by (simp add: read_groups.simps(2) [of 7, simplified] show_ipv6_def assms(2) read_separator_def c)
  have w: "u16_from_be (v4 ! 0) (v4 ! Suc 0) = g ! 6" "u16_from_be (v4 ! 2) (v4 ! 3) = g ! 7"
    by (simp_all add: v4 u16_to_be_def)
  have tl: "read_groups 7 0 (0x66 # 0x66 # 0x66 # 0x66 # 0x3A # show_ipv4 v4) = ([0xFFFF, g ! 6, g ! 7], True, [])"
    by (simp add: read_groups.simps(2) [of 6, simplified] read_groups.simps(2) [of 5, simplified] read_separator_def read_given_char_def c n rd w)
  have "replicate 5 (0 :: u16) = [0, 0, 0, 0, 0]" by (simp add: numeral_eq_Suc)
  then have "replicate 5 0 @ [0xFFFF, g ! 6, g ! 7] = g" using g by simp
  then show ?thesis
    unfolding read_ipv6_addr_def hd by (simp add: show_ipv6_def assms(2) read_given_char_def tl)
qed

lemma no_dot_ipv6: "to_ipv4_mapped g = None \<Longrightarrow> 0x2E \<notin> set (show_ipv6 g)"
  using groups_from_no_dot [of 0] by (auto simp: show_ipv6_def groups_from_def case_prod_beta)

lemma parse_ip_show_ipv6:
  assumes "length g = 8"
  shows "parse_ip (show_ipv6 g) = Some (V6 g)"
proof (cases "to_ipv4_mapped g")
  case None
  then show ?thesis
    using read_ipv6_show_plain [OF assms] read_ipv4_no_dot no_dot_ipv6 by (simp add: parse_ip_def parse_ipv6_def)
next
  case (Some v4)
  then have "read_ipv4_addr (show_ipv6 g) = None"
    by (intro read_ipv4_nondigit) (simp add: show_ipv6_def nondigit_start_def digit_value_def digit_of_def
        is_ascii_digit_def is_ascii_lower_def is_ascii_upper_def)
  then show ?thesis using read_ipv6_show_mapped [OF assms Some] by (simp add: parse_ip_def parse_ipv6_def)
qed

end
