(* ===== verification/Utils.thy ===== *)
theory Utils
  imports Net
begin

text \<open>
  The key-derivation and masking helpers of \<^verbatim>\<open>crates/tunnel/src/utils.rs\<close>. BLAKE2b-256 is a
  parameter \<^term>\<open>H :: bytes \<Rightarrow> bytes\<close>; the only fact used about it is its output length,
  \<^verbatim>\<open>hash_ok\<close>. A slice that does not fit the fixed buffer of a helper panics in the code and is
  \<^const>\<open>None\<close> here.
\<close>

section \<open>Keyed hashing\<close>

definition MAX_TLS_RECORD_PAYLOAD_LEN :: nat where "MAX_TLS_RECORD_PAYLOAD_LEN = 16384 + 256"

definition NOISE_E_MASK_CONTEXT :: bytes where "NOISE_E_MASK_CONTEXT = ascii ''kanotls-noise-e-mask-v1''"
definition COUNTER_MASK_CONTEXT :: bytes where "COUNTER_MASK_CONTEXT = ascii ''kanotls-counter-mask-v1''"
definition COUNTER_MAC_CONTEXT :: bytes where "COUNTER_MAC_CONTEXT = ascii ''kanotls-counter-mac-v1''"
definition COUNTER_CACHE_KEY_CONTEXT :: bytes where
  "COUNTER_CACHE_KEY_CONTEXT = ascii ''kanotls-counter-cache-key-v1''"

definition hash_ok :: "(bytes \<Rightarrow> bytes) \<Rightarrow> bool" where
  "hash_ok H \<longleftrightarrow> (\<forall>x. length (H x) = 32)"

definition hash_with_key :: "(bytes \<Rightarrow> bytes) \<Rightarrow> bytes \<Rightarrow> bytes \<Rightarrow> bytes" where
  "hash_with_key H ctxt key = H (ctxt @ key)"

definition derive_noise_e_mask :: "(bytes \<Rightarrow> bytes) \<Rightarrow> bytes \<Rightarrow> bytes \<Rightarrow> bytes option" where
  "derive_noise_e_mask H derived_psk noise_tag =
     (if length noise_tag + length derived_psk > 48 then None
      else Some (hash_with_key H NOISE_E_MASK_CONTEXT (noise_tag @ derived_psk)))"

definition derive_counter_mask :: "(bytes \<Rightarrow> bytes) \<Rightarrow> bytes \<Rightarrow> bytes \<Rightarrow> bytes option" where
  "derive_counter_mask H derived_psk client_random =
     (if length client_random + length derived_psk > 64 then None
      else Some (take 8 (hash_with_key H COUNTER_MASK_CONTEXT (client_random @ derived_psk))))"

definition derive_counter_mac ::
  "(bytes \<Rightarrow> bytes) \<Rightarrow> bytes \<Rightarrow> bytes \<Rightarrow> bytes \<Rightarrow> bytes \<Rightarrow> bytes option" where
  "derive_counter_mac H derived_psk client_random counter_bytes random_prefix =
     (if length client_random + 8 + length random_prefix + length derived_psk > 104 then None
      else Some (take 8 (hash_with_key H COUNTER_MAC_CONTEXT
        (client_random @ counter_bytes @ random_prefix @ derived_psk))))"

definition derive_counter_cache_key :: "(bytes \<Rightarrow> bytes) \<Rightarrow> bytes \<Rightarrow> bytes" where
  "derive_counter_cache_key H derived_psk = take 16 (hash_with_key H COUNTER_CACHE_KEY_CONTEXT derived_psk)"

section \<open>Masking\<close>

definition xor_bytes :: "bytes \<Rightarrow> bytes \<Rightarrow> bytes" where
  "xor_bytes a b = map2 (\<lambda>x y. x XOR y) a b"

text \<open>The first argument of \<^verbatim>\<open>xor_32_bytes\<close> is a slice: a shorter one is indexed out of range.\<close>

definition xor_32_bytes :: "bytes \<Rightarrow> bytes \<Rightarrow> bytes option" where
  "xor_32_bytes a b = (if length a < 32 then None else Some (xor_bytes (take 32 a) (take 32 b)))"

definition xor_in_place :: "bytes \<Rightarrow> bytes \<Rightarrow> bytes option" where
  "xor_in_place data msk =
     (if length data < 32 then None else Some (xor_bytes (take 32 data) (take 32 msk) @ drop 32 data))"

definition xor_u64_bytes :: "bytes \<Rightarrow> bytes \<Rightarrow> bytes" where
  "xor_u64_bytes a b = xor_bytes (take 8 a) (take 8 b)"

definition mask_mac_flags :: "bytes \<Rightarrow> bytes option" where
  "mask_mac_flags mac = (if length mac < 8 then None else Some (mac[7 := mac ! 7 AND NOT 0x03]))"

definition mask_noise_ephemeral_key :: "(bytes \<Rightarrow> bytes) \<Rightarrow> bytes \<Rightarrow> bytes \<Rightarrow> bytes \<Rightarrow> bytes option" where
  "mask_noise_ephemeral_key H key derived_psk noise_tag =
     (case derive_noise_e_mask H derived_psk noise_tag of None \<Rightarrow> None
      | Some msk \<Rightarrow> xor_32_bytes key msk)"

definition unmask_noise_ephemeral_key :: "(bytes \<Rightarrow> bytes) \<Rightarrow> bytes \<Rightarrow> bytes \<Rightarrow> bytes \<Rightarrow> bytes option" where
  "unmask_noise_ephemeral_key H masked derived_psk noise_tag =
     (case derive_noise_e_mask H derived_psk noise_tag of None \<Rightarrow> None
      | Some msk \<Rightarrow> xor_32_bytes masked msk)"

lemma length_xor_bytes [simp]: "length (xor_bytes a b) = min (length a) (length b)"
  by (simp add: xor_bytes_def)

lemma xor_bytes_twice: "length a \<le> length b \<Longrightarrow> xor_bytes (xor_bytes a b) b = a"
  by (rule nth_equalityI) (simp_all add: xor_bytes_def xor.assoc)

lemma xor_u64_bytes_twice [simp]:
  "length a = 8 \<Longrightarrow> 8 \<le> length b \<Longrightarrow> xor_u64_bytes (xor_u64_bytes a b) b = a"
  by (simp add: xor_u64_bytes_def xor_bytes_twice)

lemma length_hash [simp]: "hash_ok H \<Longrightarrow> length (hash_with_key H c k) = 32"
  by (simp add: hash_ok_def hash_with_key_def)

lemma unmask_mask:
  assumes "hash_ok H" "length key = 32" "length derived_psk = 32" "length noise_tag = 16"
  obtains m where "mask_noise_ephemeral_key H key derived_psk noise_tag = Some m" "length m = 32"
    "unmask_noise_ephemeral_key H m derived_psk noise_tag = Some key"
  using assms that
  by (simp add: mask_noise_ephemeral_key_def unmask_noise_ephemeral_key_def derive_noise_e_mask_def
      xor_32_bytes_def xor_bytes_twice)

end
