(* ===== verification/RecordLayer.thy ===== *)
theory RecordLayer
  imports ControlSize Utils
begin

text \<open>
  The record layer of \<^verbatim>\<open>crates/tunnel/src/common.rs\<close>: the Noise sender and receiver with
  their external nonce counters, sized encryption of one application-data record, the write
  half with its buffer, flush and shutdown, and the read half. The AEAD of the \<^verbatim>\<open>snow\<close> crate
  is a pair of parameters: \<^term>\<open>enc :: u64 \<Rightarrow> bytes \<Rightarrow> bytes option\<close> seals a plaintext
  under a nonce and \<^term>\<open>dec :: u64 \<Rightarrow> bytes \<Rightarrow> bytes option\<close> opens a ciphertext. The socket is
  a list of poll results. A \<^verbatim>\<open>Vec\<close> that is read through an offset (\<^verbatim>\<open>read_buf_inner\<close>,
  \<^verbatim>\<open>tls_rx_buf\<close>) is represented by the part not yet read; compaction does not change it.
\<close>

section \<open>Constants and state\<close>

definition INNER_CONTENT_TYPE_APP_DATA :: u8 where "INNER_CONTENT_TYPE_APP_DATA = 0x17"
definition INNER_CONTENT_TYPE_ALERT :: u8 where "INNER_CONTENT_TYPE_ALERT = 0x15"
definition BLOCK_PLAINTEXT_SIZE :: nat where "BLOCK_PLAINTEXT_SIZE = 16384 + INNER_CONTENT_TYPE_LEN"
definition BLOCK_DATA_CAPACITY :: nat where
  "BLOCK_DATA_CAPACITY = BLOCK_PLAINTEXT_SIZE - BLOCK_LEN_PREFIX_SIZE - INNER_CONTENT_TYPE_LEN"

lemmas record_const_defs = INNER_CONTENT_TYPE_APP_DATA_def INNER_CONTENT_TYPE_ALERT_def
  BLOCK_PLAINTEXT_SIZE_def BLOCK_DATA_CAPACITY_def MAX_TLS_RECORD_PAYLOAD_LEN_def

definition data_record_capacity :: nat where "data_record_capacity = BLOCK_DATA_CAPACITY"

definition max_data_record_wire_len :: nat where
  "max_data_record_wire_len = TLS_RECORD_HEADER_LEN + BLOCK_PLAINTEXT_SIZE + AEAD_TAG_LEN"

type_synonym aead = "u64 \<Rightarrow> bytes \<Rightarrow> bytes option"

datatype io_error = AssertFailed | NoiseEncrypt | NoiseDecrypt | PayloadTooLargeTls | EofMidFrame
  | WriteZero | Unsupported | SocketError

record snowy_shared =
  sh_closed :: bool
  sh_close_notify_written :: bool

record write_half =
  wh_nonce :: u64
  wh_write_buffer :: bytes
  wh_write_offset :: nat
  wh_encrypt_buf :: bytes
  wh_control_frame_count :: u64

definition write_half_new :: write_half where
  "write_half_new = \<lparr>wh_nonce = 0, wh_write_buffer = [], wh_write_offset = 0,
     wh_encrypt_buf = replicate BLOCK_PLAINTEXT_SIZE 0, wh_control_frame_count = 0\<rparr>"

section \<open>Sealing one record\<close>

definition sender_write_message :: "aead \<Rightarrow> u64 \<Rightarrow> bytes \<Rightarrow> bytes option \<times> u64" where
  "sender_write_message enc nonce p =
     (case enc nonce p of None \<Rightarrow> (None, nonce) | Some ct \<Rightarrow> (Some ct, sat_add nonce 1))"

definition receiver_read_message :: "aead \<Rightarrow> u64 \<Rightarrow> bytes \<Rightarrow> bytes option \<times> u64" where
  "receiver_read_message dec nonce ct =
     (case dec nonce ct of None \<Rightarrow> (None, nonce) | Some p \<Rightarrow> (Some p, sat_add nonce 1))"

text \<open>The plaintext block is assembled in the reused \<^verbatim>\<open>encrypt_buf\<close>: padding, then the length
  prefix, then the payload, then the content type in the last byte.\<close>

definition fill_block :: "bytes \<Rightarrow> bytes \<Rightarrow> nat \<Rightarrow> bytes" where
  "fill_block ebuf p target =
     (let pad_start = BLOCK_LEN_PREFIX_SIZE + length p;
          pad_end = target - 1;
          b1 = (if pad_end > pad_start then copy_at ebuf pad_start (replicate (pad_end - pad_start) 0) else ebuf);
          b2 = copy_at b1 0 (u16_to_be (of_nat (length p)));
          b3 = copy_at b2 BLOCK_LEN_PREFIX_SIZE p
      in b3[target - 1 := INNER_CONTENT_TYPE_APP_DATA])"

definition encrypt_variable_block ::
  "aead \<Rightarrow> write_half \<Rightarrow> bytes \<Rightarrow> nat \<Rightarrow> io_error option \<times> write_half" where
  "encrypt_variable_block enc wh p target =
     (if \<not> target \<ge> length p + BLOCK_LEN_PREFIX_SIZE + INNER_CONTENT_TYPE_LEN then (Some AssertFailed, wh)
      else if \<not> target \<le> BLOCK_PLAINTEXT_SIZE then (Some AssertFailed, wh)
      else
        let ebuf = fill_block (wh_encrypt_buf wh) p target;
            ct_len = target + AEAD_TAG_LEN;
            record_len = TLS_RECORD_HEADER_LEN + ct_len;
            current_len = length (wh_write_buffer wh);
            wbuf0 = wh_write_buffer wh @ replicate record_len 0;
            (r, nonce') = sender_write_message enc (wh_nonce wh) (take target ebuf);
            wh0 = wh\<lparr>wh_encrypt_buf := ebuf, wh_nonce := nonce'\<rparr>
        in case r of
             None \<Rightarrow> (Some NoiseEncrypt, wh0\<lparr>wh_write_buffer := wbuf0\<rparr>)
           | Some ct \<Rightarrow>
               let wbuf1 = copy_at wbuf0 (current_len + TLS_RECORD_HEADER_LEN) ct;
                   wbuf2 = copy_at wbuf1 current_len [0x17, 0x03, 0x03];
                   wbuf3 = copy_at wbuf2 (current_len + 3) (u16_to_be (of_nat (length ct)));
                   wbuf4 = take (current_len + TLS_RECORD_HEADER_LEN + length ct) wbuf3
               in (None, wh0\<lparr>wh_write_buffer := wbuf4\<rparr>))"

definition target_plaintext_len :: "bytes \<Rightarrow> nat \<Rightarrow> nat" where
  "target_plaintext_len p target_wire_len =
     min (max (target_wire_len - (TLS_RECORD_HEADER_LEN + AEAD_TAG_LEN))
              (length p + BLOCK_LEN_PREFIX_SIZE + INNER_CONTENT_TYPE_LEN))
         BLOCK_PLAINTEXT_SIZE"

definition prepare_control_record ::
  "aead \<Rightarrow> write_half \<Rightarrow> bytes \<Rightarrow> nat \<Rightarrow> io_error option \<times> write_half" where
  "prepare_control_record enc wh p target_wire_len =
     (let wh1 = wh\<lparr>wh_control_frame_count := sat_add (wh_control_frame_count wh) 1\<rparr>
      in encrypt_variable_block enc wh1 p (target_plaintext_len p target_wire_len))"

definition prepare_data_record ::
  "aead \<Rightarrow> write_half \<Rightarrow> bytes \<Rightarrow> nat \<Rightarrow> io_error option \<times> write_half" where
  "prepare_data_record enc wh p target_wire_len =
     encrypt_variable_block enc wh p (target_plaintext_len p target_wire_len)"

definition control_state :: "write_half \<Rightarrow> connection_phase" where
  "control_state wh = from_control_count (wh_control_frame_count wh)"

definition buffered_write_len :: "write_half \<Rightarrow> nat" where
  "buffered_write_len wh = usize_sub (length (wh_write_buffer wh)) (wh_write_offset wh)"

section \<open>Flush and shutdown\<close>

datatype sock_write = Wrote nat | WriteFailed | WritePending

datatype poll = Ready | Failed io_error | Pending

text \<open>\<^verbatim>\<open>try_flush_write_buffer\<close>: the third component collects the bytes the socket accepted.
  A socket accepts at most what it is offered.\<close>

fun try_flush_write_buffer ::
  "sock_write list \<Rightarrow> write_half \<Rightarrow> io_error option \<times> write_half \<times> bytes \<times> sock_write list" where
  "try_flush_write_buffer evs wh =
     (if wh_write_offset wh < length (wh_write_buffer wh)
      then (case evs of
              [] \<Rightarrow> (None, wh, [], [])
            | WritePending # evs' \<Rightarrow> (None, wh, [], evs')
            | WriteFailed # evs' \<Rightarrow> (Some SocketError, wh, [], evs')
            | Wrote n0 # evs' \<Rightarrow>
                let n = min n0 (length (wh_write_buffer wh) - wh_write_offset wh) in
                if n = 0 then (Some WriteZero, wh, [], evs')
                else
                  let (r, wh', sent, rest) =
                    try_flush_write_buffer evs' (wh\<lparr>wh_write_offset := wh_write_offset wh + n\<rparr>)
                  in (r, wh', take n (drop (wh_write_offset wh) (wh_write_buffer wh)) @ sent, rest))
      else (None, wh\<lparr>wh_write_offset := 0, wh_write_buffer := []\<rparr>, [], evs))"

definition poll_flush :: "sock_write list \<Rightarrow> write_half \<Rightarrow> poll \<times> write_half \<times> bytes \<times> sock_write list" where
  "poll_flush evs wh =
     (case try_flush_write_buffer evs wh of
        (Some e, wh', sent, rest) \<Rightarrow> (Failed e, wh', sent, rest)
      | (None, wh', sent, rest) \<Rightarrow>
          (if wh_write_buffer wh' \<noteq> [] then Pending else Ready, wh', sent, rest))"

definition poll_write :: "snowy_shared \<Rightarrow> bytes \<Rightarrow> io_error + nat" where
  "poll_write sh buf = (if sh_closed sh then Inr 0 else if buf = [] then Inr 0 else Inl Unsupported)"

definition CLOSE_NOTIFY_ALERT :: bytes where
  "CLOSE_NOTIFY_ALERT = [0x01, 0x00, INNER_CONTENT_TYPE_ALERT]"

definition queue_close_notify :: "aead \<Rightarrow> write_half \<Rightarrow> snowy_shared \<Rightarrow> write_half \<times> snowy_shared" where
  "queue_close_notify enc wh sh =
     (if \<not> sh_close_notify_written sh \<and> \<not> sh_closed sh
      then
        let (r, nonce') = sender_write_message enc (wh_nonce wh) CLOSE_NOTIFY_ALERT;
            wh1 = wh\<lparr>wh_nonce := nonce'\<rparr>;
            wh2 = (case r of
                     None \<Rightarrow> wh1
                   | Some ct \<Rightarrow> wh1\<lparr>wh_write_buffer := wh_write_buffer wh1 @
                       [0x17, 0x03, 0x03] @ u16_to_be (of_nat (length ct)) @ ct\<rparr>)
        in (wh2, sh\<lparr>sh_close_notify_written := True, sh_closed := True\<rparr>)
      else (wh, sh))"

text \<open>\<^verbatim>\<open>poll_shutdown\<close>; the boolean says whether the socket itself was shut down.\<close>

definition poll_shutdown ::
  "aead \<Rightarrow> sock_write list \<Rightarrow> write_half \<Rightarrow> snowy_shared \<Rightarrow>
     poll \<times> bool \<times> write_half \<times> snowy_shared \<times> bytes \<times> sock_write list" where
  "poll_shutdown enc evs wh sh =
     (case poll_flush evs wh of
        (Ready, wh1, sent1, evs1) \<Rightarrow>
          let (wh2, sh2) = queue_close_notify enc wh1 sh in
          (case poll_flush evs1 wh2 of
             (Ready, wh3, sent2, evs2) \<Rightarrow> (Ready, True, wh3, sh2, sent1 @ sent2, evs2)
           | (r, wh3, sent2, evs2) \<Rightarrow> (r, False, wh3, sh2, sent1 @ sent2, evs2))
      | (r, wh1, sent1, evs1) \<Rightarrow> (r, False, wh1, sh, sent1, evs1))"

section \<open>Reading records\<close>

definition parse_tls_record :: "bytes \<Rightarrow> io_error + (nat \<times> u8) option" where
  "parse_tls_record buf =
     (if length buf < TLS_RECORD_HEADER_LEN then Inr None
      else
        let len = unat (u16_from_be (buf ! 3) (buf ! 4)) in
        if len > MAX_TLS_RECORD_PAYLOAD_LEN then Inl PayloadTooLargeTls
        else
          let total = TLS_RECORD_HEADER_LEN + len in
          if length buf < total then Inr None else Inr (Some (total, buf ! 0)))"

definition is_closing_alert :: "bytes \<Rightarrow> bool" where
  "is_closing_alert pt \<longleftrightarrow> length pt = 3 \<and> pt ! 2 = INNER_CONTENT_TYPE_ALERT \<and>
     ((pt ! 0 = 0x01 \<and> pt ! 1 = 0x00) \<or> (pt ! 0 = 0x02 \<and> pt ! 1 = 0x14))"

definition record_data :: "bytes \<Rightarrow> bytes" where
  "record_data pt =
     (if length pt \<ge> BLOCK_LEN_PREFIX_SIZE + INNER_CONTENT_TYPE_LEN
      then
        let prefix_data_len = unat (u16_from_be (pt ! 0) (pt ! 1));
            data_len = min prefix_data_len (length pt - BLOCK_LEN_PREFIX_SIZE - INNER_CONTENT_TYPE_LEN)
        in take data_len (drop BLOCK_LEN_PREFIX_SIZE pt)
      else pt)"

record read_half =
  rh_nonce :: u64
  rh_inner :: bytes
  rh_rx :: bytes
  rh_shared :: snowy_shared

datatype sock_read = GotBytes bytes | ReadFailed | ReadPending

abbreviation set_closed :: "read_half \<Rightarrow> read_half" where
  "set_closed rh \<equiv> rh\<lparr>rh_shared := (rh_shared rh)\<lparr>sh_closed := True\<rparr>\<rparr>"

text \<open>The two nested loops of \<^verbatim>\<open>poll_read\<close> as one recursion: \<^term>\<open>outer\<close> is true at the head of
  \<^verbatim>\<open>'outer\<close> and false at the head of the record loop. \<^term>\<open>room\<close> is the capacity of the caller's
  buffer, \<^term>\<open>out\<close> what was put into it, \<^term>\<open>progress\<close> the flag of the same name.\<close>

lemma parse_tls_record_bound:
  "parse_tls_record buf = Inr (Some (tot, ty)) \<Longrightarrow> 5 \<le> tot \<and> tot \<le> length buf"
  by (auto simp: parse_tls_record_def Let_def TLS_RECORD_HEADER_LEN_def split: if_splits)

function read_loop ::
  "aead \<Rightarrow> nat \<Rightarrow> bool \<Rightarrow> bool \<Rightarrow> bytes \<Rightarrow> read_half \<Rightarrow> sock_read list \<Rightarrow>
     poll \<times> bytes \<times> read_half \<times> sock_read list" where
  "read_loop dec room outer progress out rh evs =
     (if outer
      then
        if rh_inner rh \<noteq> []
        then
          let n = min (length (rh_inner rh)) (room - length out);
              out' = out @ take n (rh_inner rh);
              rh' = rh\<lparr>rh_inner := drop n (rh_inner rh)\<rparr>
          in if room - length out' = 0 then (Ready, out', rh', evs)
             else read_loop dec room False True out' rh' evs
        else read_loop dec room False progress out rh evs
      else
        (case parse_tls_record (rh_rx rh) of
           Inl e \<Rightarrow> (Failed e, out, rh, evs)
         | Inr (Some (consumed, frame_type)) \<Rightarrow>
             let body = take (consumed - TLS_RECORD_HEADER_LEN) (drop TLS_RECORD_HEADER_LEN (rh_rx rh));
                 rh_next = rh\<lparr>rh_rx := drop consumed (rh_rx rh)\<rparr>
             in
             if frame_type = 0x17 \<and> body \<noteq> []
             then
               (case receiver_read_message dec (rh_nonce rh) body of
                  (Some pt, nonce') \<Rightarrow>
                    let rh1 = rh_next\<lparr>rh_nonce := nonce'\<rparr> in
                    if is_closing_alert pt then (Ready, out, set_closed rh1, evs)
                    else
                      let data = record_data pt in
                      if data = []
                      then
                        (if length pt > 0 then read_loop dec room True progress out rh1 evs
                         else read_loop dec room False progress out rh1 evs)
                      else if rh_inner rh1 = [] \<and> room - length out > 0
                      then
                        let n = min (length data) (room - length out)
                        in read_loop dec room True True (out @ take n data)
                             (rh1\<lparr>rh_inner := drop n data\<rparr>) evs
                      else read_loop dec room True progress out
                             (rh1\<lparr>rh_inner := rh_inner rh1 @ data\<rparr>) evs
                | (None, nonce') \<Rightarrow>
                    (Failed NoiseDecrypt, out,
                     rh\<lparr>rh_nonce := nonce',
                        rh_shared := \<lparr>sh_closed = True, sh_close_notify_written = True\<rparr>\<rparr>, evs))
             else if frame_type = 0x15 then (Ready, out, set_closed rh, evs)
             else read_loop dec room False progress out rh_next evs
         | Inr None \<Rightarrow>
             if progress then (Ready, out, rh, evs)
             else
               (case evs of
                  [] \<Rightarrow> (Pending, out, rh, [])
                | ReadPending # evs' \<Rightarrow> (Pending, out, rh, evs')
                | ReadFailed # evs' \<Rightarrow> (Failed SocketError, out, rh, evs')
                | GotBytes bs0 # evs' \<Rightarrow>
                    let bs = take MAX_TLS_RECORD_PAYLOAD_LEN bs0 in
                    if bs = []
                    then (if rh_rx rh \<noteq> [] then (Failed EofMidFrame, out, rh, evs')
                          else (Ready, out, set_closed rh, evs'))
                    else read_loop dec room True progress out (rh\<lparr>rh_rx := rh_rx rh @ bs\<rparr>) evs')))"
  by pat_completeness auto
termination
  by (relation "measures [\<lambda>(dec, room, outer, progress, out, rh, evs). length evs,
        \<lambda>(dec, room, outer, progress, out, rh, evs). length (rh_rx rh),
        \<lambda>(dec, room, outer, progress, out, rh, evs). if outer then 1 else 0]")
    (auto dest!: parse_tls_record_bound)

declare read_loop.simps [simp del]

definition poll_read ::
  "aead \<Rightarrow> nat \<Rightarrow> read_half \<Rightarrow> sock_read list \<Rightarrow> poll \<times> bytes \<times> read_half \<times> sock_read list" where
  "poll_read dec room rh evs =
     (if sh_closed (rh_shared rh) then (Ready, [], rh, evs)
      else read_loop dec room True False [] rh evs)"

section \<open>What the sender writes\<close>

text \<open>What the code relies on in the AEAD of \<^verbatim>\<open>snow\<close> (ChaCha20-Poly1305): opening inverts
  sealing under the same nonce, the ciphertext is 16 bytes longer, and sealing fails only for
  an exhausted nonce or an oversized message.\<close>

definition aead_correct :: "aead \<Rightarrow> aead \<Rightarrow> bool" where
  "aead_correct enc dec \<longleftrightarrow>
     (\<forall>n p ct. enc n p = Some ct \<longrightarrow> length ct = length p + AEAD_TAG_LEN \<and> dec n ct = Some p)"

definition aead_total :: "aead \<Rightarrow> bool" where
  "aead_total enc \<longleftrightarrow> (\<forall>n p. n \<noteq> - 1 \<and> length p \<le> 65519 \<longrightarrow> enc n p \<noteq> None)"

definition block_bytes :: "bytes \<Rightarrow> nat \<Rightarrow> bytes" where
  "block_bytes p target =
     u16_to_be (of_nat (length p)) @ p @ replicate (target - 3 - length p) 0 @ [INNER_CONTENT_TYPE_APP_DATA]"

definition tls_record :: "bytes \<Rightarrow> bytes" where
  "tls_record ct = [0x17, 0x03, 0x03] @ u16_to_be (of_nat (length ct)) @ ct"

lemma fill_block_take:
  assumes "length p + 3 \<le> target" "target \<le> length ebuf"
  shows "take target (fill_block ebuf p target) = block_bytes p target"
    and "length (fill_block ebuf p target) = length ebuf"
proof -
  let ?k = "target - 3 - length p"
  define h where "h = take 2 ebuf"
  define m where "m = take (length p) (drop 2 ebuf)"
  define z where "z = take ?k (drop (2 + length p) ebuf)"
  define x where "x = ebuf ! (target - 1)"
  define r where "r = drop target ebuf"
  have len: "length h = 2" "length m = length p" "length z = ?k"
    using assms by (auto simp: h_def m_def z_def)
  have tail: "drop (target - 1) ebuf = x # r"
    using assms by (simp add: x_def r_def Cons_nth_drop_Suc [symmetric])
  have "Suc (Suc (target - 3)) = target - Suc 0" using assms by simp
  then have "drop (2 + length p) ebuf = z @ drop (target - 1) ebuf"
    using assms append_take_drop_id [of ?k "drop (2 + length p) ebuf"] by (simp add: z_def)
  then have "drop 2 ebuf = m @ z @ x # r"
    using append_take_drop_id [of "length p" "drop 2 ebuf"] tail by (simp add: m_def)
  then have e: "ebuf = h @ m @ z @ x # r"
    by (metis append_take_drop_id h_def)
  have t: "target = Suc (Suc (length p + length z + 1))" and z0: "z = [] \<or> length z = ?k \<and> 0 < ?k"
    using assms len by auto
  have fb: "fill_block ebuf p target =
      u16_to_be (of_nat (length p)) @ p @ replicate (length z) 0 @ INNER_CONTENT_TYPE_APP_DATA # r"
    using len z0
    by (auto simp: fill_block_def Let_def e t copy_at_def BLOCK_LEN_PREFIX_SIZE_def u16_to_be_def
        list_update_append)
  show "take target (fill_block ebuf p target) = block_bytes p target"
    unfolding fb block_bytes_def by (simp add: t u16_to_be_def)
  show "length (fill_block ebuf p target) = length ebuf"
    unfolding fb by (simp add: e len)
qed

lemma encrypt_variable_block_ok:
  assumes "length p + 3 \<le> target" "target \<le> BLOCK_PLAINTEXT_SIZE"
    and "length (wh_encrypt_buf wh) = BLOCK_PLAINTEXT_SIZE"
    and "enc (wh_nonce wh) (block_bytes p target) = Some ct" "length ct = target + AEAD_TAG_LEN"
  shows "encrypt_variable_block enc wh p target =
    (None, wh\<lparr>wh_encrypt_buf := fill_block (wh_encrypt_buf wh) p target,
       wh_nonce := sat_add (wh_nonce wh) 1,
       wh_write_buffer := wh_write_buffer wh @ tls_record ct\<rparr>)"
proof -
  have fb: "take target (fill_block (wh_encrypt_buf wh) p target) = block_bytes p target"
    using assms fill_block_take by simp
  have "copy_at (copy_at (copy_at (w @ replicate (5 + length ct) 0) (length w + 5) ct)
      (length w) [0x17, 0x03, 0x03]) (length w + 3) (u16_to_be (of_nat (length ct)))
      = w @ tls_record ct" for w :: bytes
    by (simp add: copy_at_def tls_record_def u16_to_be_def numeral_eq_Suc)
  then show ?thesis
    using assms
    by (simp add: encrypt_variable_block_def Let_def fb sender_write_message_def frame_const_defs
        tls_record_def u16_to_be_def add.commute add.left_commute)
qed

text \<open>A prepared record: control or data, its payload and its target wire size.\<close>

type_synonym record_op = "bool \<times> bytes \<times> nat"

definition prepare_record :: "aead \<Rightarrow> write_half \<Rightarrow> record_op \<Rightarrow> io_error option \<times> write_half" where
  "prepare_record enc wh op =
     (case op of (is_control, p, target) \<Rightarrow>
        if is_control then prepare_control_record enc wh p target
        else prepare_data_record enc wh p target)"

definition record_wire_size :: "record_op \<Rightarrow> nat" where
  "record_wire_size op = (case op of (_, p, target) \<Rightarrow> max (data_record_wire_len (length p)) (min target max_data_record_wire_len))"

fun prepare_records :: "aead \<Rightarrow> write_half \<Rightarrow> record_op list \<Rightarrow> io_error option \<times> write_half" where
  "prepare_records enc wh [] = (None, wh)"
| "prepare_records enc wh (op # ops) =
     (case prepare_record enc wh op of
        (Some e, wh') \<Rightarrow> (Some e, wh')
      | (None, wh') \<Rightarrow> prepare_records enc wh' ops)"

definition op_block :: "record_op \<Rightarrow> bytes" where
  "op_block op = (case op of (_, p, target) \<Rightarrow> block_bytes p (target_plaintext_len p target))"

lemma length_op_block:
  assumes "length (fst (snd op)) \<le> BLOCK_DATA_CAPACITY"
  shows "length (op_block op) + 21 = record_wire_size op" "length (op_block op) \<le> BLOCK_PLAINTEXT_SIZE"
  using assms
  by (auto simp: op_block_def block_bytes_def target_plaintext_len_def record_wire_size_def
      data_record_wire_len_def max_data_record_wire_len_def frame_const_defs record_const_defs
      split: prod.splits)

lemma prepare_record_ok:
  assumes "length (fst (snd op)) \<le> BLOCK_DATA_CAPACITY" "length (wh_encrypt_buf wh) = BLOCK_PLAINTEXT_SIZE"
    and "enc (wh_nonce wh) (op_block op) = Some ct" "length ct = length (op_block op) + AEAD_TAG_LEN"
  shows "\<exists>wh'. prepare_record enc wh op = (None, wh') \<and> wh_nonce wh' = sat_add (wh_nonce wh) 1 \<and>
    wh_write_buffer wh' = wh_write_buffer wh @ tls_record ct \<and>
    wh_write_offset wh' = wh_write_offset wh \<and>
    length (wh_encrypt_buf wh') = BLOCK_PLAINTEXT_SIZE \<and>
    wh_control_frame_count wh' =
      (if fst op then sat_add (wh_control_frame_count wh) 1 else wh_control_frame_count wh)"
proof -
  obtain c p t where op: "op = (c, p, t)" by (cases op)
  let ?tp = "target_plaintext_len p t"
  have tp: "length p + 3 \<le> ?tp" "?tp \<le> BLOCK_PLAINTEXT_SIZE"
    using assms(1) op by (auto simp: target_plaintext_len_def frame_const_defs record_const_defs)
  then have ct: "enc (wh_nonce wh) (block_bytes p ?tp) = Some ct" "length ct = ?tp + AEAD_TAG_LEN"
    using assms(3,4) op by (auto simp: op_block_def block_bytes_def)
  let ?wh1 = "wh\<lparr>wh_control_frame_count := sat_add (wh_control_frame_count wh) 1\<rparr>"
  have len: "length (fill_block (wh_encrypt_buf wh) p ?tp) = BLOCK_PLAINTEXT_SIZE"
    using fill_block_take(2) [of p ?tp "wh_encrypt_buf wh"] tp assms(2) by simp
  have "encrypt_variable_block enc wh p ?tp = (None, wh\<lparr>wh_encrypt_buf := fill_block (wh_encrypt_buf wh) p ?tp,
       wh_nonce := sat_add (wh_nonce wh) 1, wh_write_buffer := wh_write_buffer wh @ tls_record ct\<rparr>)"
    by (rule encrypt_variable_block_ok) (use tp ct assms(2) in auto)
  moreover have "encrypt_variable_block enc ?wh1 p ?tp = (None, ?wh1\<lparr>wh_encrypt_buf := fill_block (wh_encrypt_buf ?wh1) p ?tp,
       wh_nonce := sat_add (wh_nonce ?wh1) 1, wh_write_buffer := wh_write_buffer ?wh1 @ tls_record ct\<rparr>)"
    by (rule encrypt_variable_block_ok) (use tp ct assms(2) in auto)
  ultimately show ?thesis
    using len by (auto simp: op prepare_record_def prepare_control_record_def prepare_data_record_def Let_def)
qed

section \<open>What the reader delivers\<close>

text \<open>Reference reading of a byte stream: the payloads of its records until the stream is
  incomplete, malformed, undecryptable or closed by an alert.\<close>

function plain :: "aead \<Rightarrow> u64 \<Rightarrow> bytes \<Rightarrow> bytes" where
  "plain dec n rx =
     (case parse_tls_record rx of
        Inr (Some (consumed, ty)) \<Rightarrow>
          let body = take (consumed - TLS_RECORD_HEADER_LEN) (drop TLS_RECORD_HEADER_LEN rx) in
          if ty = 0x17 \<and> body \<noteq> []
          then (case dec n body of
                  None \<Rightarrow> []
                | Some pt \<Rightarrow> if is_closing_alert pt then []
                             else record_data pt @ plain dec (sat_add n 1) (drop consumed rx))
          else if ty = 0x15 then []
          else plain dec n (drop consumed rx)
      | _ \<Rightarrow> [])"
  by pat_completeness auto
termination
  by (relation "measure (\<lambda>(dec, n, rx). length rx)") (auto dest!: parse_tls_record_bound)

declare plain.simps [simp del]

lemma parse_tls_record_append:
  assumes "parse_tls_record rx = Inr (Some (tot, ty))"
  shows "parse_tls_record (rx @ d) = Inr (Some (tot, ty))"
proof -
  have "5 \<le> length rx" using parse_tls_record_bound [OF assms] by simp
  then show ?thesis
    using assms
    by (auto simp: parse_tls_record_def Let_def TLS_RECORD_HEADER_LEN_def nth_append split: if_splits)
qed

lemma parse_tls_record_too_large:
  assumes "parse_tls_record rx = Inl e"
  shows "parse_tls_record (rx @ d) = Inl e"
proof -
  have "5 \<le> length rx"
    using assms by (auto simp: parse_tls_record_def TLS_RECORD_HEADER_LEN_def split: if_splits)
  then show ?thesis
    using assms
    by (auto simp: parse_tls_record_def Let_def TLS_RECORD_HEADER_LEN_def nth_append split: if_splits)
qed

lemma plain_step:
  assumes "parse_tls_record rx = Inr (Some (consumed, ty))"
  shows "plain dec n (rx @ d) =
    (let body = take (consumed - TLS_RECORD_HEADER_LEN) (drop TLS_RECORD_HEADER_LEN rx) in
     if ty = 0x17 \<and> body \<noteq> []
     then (case dec n body of
             None \<Rightarrow> []
           | Some pt \<Rightarrow> if is_closing_alert pt then []
                        else record_data pt @ plain dec (sat_add n 1) (drop consumed rx @ d))
     else if ty = 0x15 then []
     else plain dec n (drop consumed rx @ d))"
  using parse_tls_record_bound [OF assms] parse_tls_record_append [OF assms, of d]
  by (subst plain.simps) (simp add: TLS_RECORD_HEADER_LEN_def split: option.split)

lemma plain_too_large: "parse_tls_record rx = Inl e \<Longrightarrow> plain dec n (rx @ d) = []"
  by (subst plain.simps) (simp add: parse_tls_record_too_large)

fun ev_bytes :: "sock_read list \<Rightarrow> bytes" where
  "ev_bytes [] = []"
| "ev_bytes (GotBytes bs # evs) = bs @ ev_bytes evs"
| "ev_bytes (_ # evs) = ev_bytes evs"

text \<open>Socket events of a stream that is still open: every delivery is non-empty and fits the
  I/O buffer; waits and transient errors may be interspersed.\<close>

definition open_stream_events :: "sock_read list \<Rightarrow> bool" where
  "open_stream_events evs =
     list_all (\<lambda>e. case e of GotBytes bs \<Rightarrow> bs \<noteq> [] \<and> length bs \<le> MAX_TLS_RECORD_PAYLOAD_LEN | _ \<Rightarrow> True) evs"

definition undelivered :: "aead \<Rightarrow> read_half \<Rightarrow> sock_read list \<Rightarrow> bytes" where
  "undelivered dec rh evs =
     rh_inner rh @ (if sh_closed (rh_shared rh) then [] else plain dec (rh_nonce rh) (rh_rx rh @ ev_bytes evs))"

definition conserved :: "aead \<Rightarrow> bytes \<Rightarrow> poll \<times> bytes \<times> read_half \<times> sock_read list \<Rightarrow> bool" where
  "conserved dec stream res =
     (case res of (r, out, rh, evs) \<Rightarrow>
        out @ undelivered dec rh evs = stream \<and> open_stream_events evs \<and>
        (sh_closed (rh_shared rh) \<longrightarrow> rh_inner rh = []))"

definition readable :: "bool \<Rightarrow> read_half \<Rightarrow> sock_read list \<Rightarrow> bool" where
  "readable outer rh evs \<longleftrightarrow> open_stream_events evs \<and> \<not> sh_closed (rh_shared rh) \<and> (outer \<or> rh_inner rh = [])"

lemma undelivered_open:
  "\<not> sh_closed (rh_shared rh) \<Longrightarrow>
   undelivered dec rh evs = rh_inner rh @ plain dec (rh_nonce rh) (rh_rx rh @ ev_bytes evs)"
  by (simp add: undelivered_def)

text \<open>One unfolding of the loop per situation.\<close>

lemma read_loop_left:
  assumes "rh_inner rh \<noteq> []" "n = min (length (rh_inner rh)) (room - length out)"
    and "o1 = out @ take n (rh_inner rh)" "rh1 = rh\<lparr>rh_inner := drop n (rh_inner rh)\<rparr>"
  shows "read_loop dec room True progress out rh evs =
    (if room - length o1 = 0 then (Ready, o1, rh1, evs) else read_loop dec room False True o1 rh1 evs)"
  unfolding assms(2-4) using assms(1)
  by (subst read_loop.simps) (simp only: if_True if_False not_False_eq_True Let_def)

lemma read_loop_other:
  assumes "parse_tls_record (rh_rx rh) = Inr (Some (consumed, ty))"
    and "body = take (consumed - TLS_RECORD_HEADER_LEN) (drop TLS_RECORD_HEADER_LEN (rh_rx rh))"
    and "\<not> (ty = 0x17 \<and> body \<noteq> [])" "rh0 = rh\<lparr>rh_rx := drop consumed (rh_rx rh)\<rparr>"
  shows "read_loop dec room False progress out rh evs =
    (if ty = 0x15 then (Ready, out, set_closed rh, evs)
     else read_loop dec room False progress out rh0 evs)"
  using assms(1,3)
  by (subst read_loop.simps)
    (simp only: if_False Let_def assms(2,4) sum.case option.case prod.case if_True)

lemma read_loop_undecryptable:
  assumes "parse_tls_record (rh_rx rh) = Inr (Some (consumed, ty))"
    and "body = take (consumed - TLS_RECORD_HEADER_LEN) (drop TLS_RECORD_HEADER_LEN (rh_rx rh))"
    and "ty = 0x17 \<and> body \<noteq> []" "dec (rh_nonce rh) body = None"
  shows "read_loop dec room False progress out rh evs =
    (Failed NoiseDecrypt, out,
     rh\<lparr>rh_nonce := rh_nonce rh,
        rh_shared := \<lparr>sh_closed = True, sh_close_notify_written = True\<rparr>\<rparr>, evs)"
proof -
  have rm: "(None, rh_nonce rh) = receiver_read_message dec (rh_nonce rh) body"
    using assms(4) by (simp add: receiver_read_message_def)
  show ?thesis
    using assms(1,3)
    by (subst read_loop.simps)
      (simp only: if_False Let_def assms(2) [symmetric] rm [symmetric] sum.case option.case
        prod.case if_True simp_thms)
qed

lemma read_loop_data:
  assumes "parse_tls_record (rh_rx rh) = Inr (Some (consumed, ty))"
    and "body = take (consumed - TLS_RECORD_HEADER_LEN) (drop TLS_RECORD_HEADER_LEN (rh_rx rh))"
    and "ty = 0x17 \<and> body \<noteq> []" "(Some pt, nonce') = receiver_read_message dec (rh_nonce rh) body"
    and "rh0 = rh\<lparr>rh_rx := drop consumed (rh_rx rh)\<rparr>" "rh1 = rh0\<lparr>rh_nonce := nonce'\<rparr>"
    and "data = record_data pt"
  shows "read_loop dec room False progress out rh evs =
    (if is_closing_alert pt then (Ready, out, set_closed rh1, evs)
     else if data = []
     then (if length pt > 0 then read_loop dec room True progress out rh1 evs
           else read_loop dec room False progress out rh1 evs)
     else if rh_inner rh1 = [] \<and> room - length out > 0
     then read_loop dec room True True (out @ take (min (length data) (room - length out)) data)
            (rh1\<lparr>rh_inner := drop (min (length data) (room - length out)) data\<rparr>) evs
     else read_loop dec room True progress out (rh1\<lparr>rh_inner := rh_inner rh1 @ data\<rparr>) evs)"
  using assms(1,3)
  by (subst read_loop.simps)
    (simp only: if_False Let_def assms(2) [symmetric] assms(5) [symmetric] assms(4) [symmetric]
      assms(6) [symmetric] assms(7) [symmetric] sum.case option.case prod.case if_True simp_thms)

lemma read_loop_conserves:
  "readable outer rh evs \<Longrightarrow>
   conserved dec (out @ undelivered dec rh evs) (read_loop dec room outer progress out rh evs)"
proof (induction dec room outer progress out rh evs rule: read_loop.induct)
  case (1 dec room outer progress out rh evs)
  note IH = "1.IH" and rd = "1.prems"
  have evs: "open_stream_events evs" and op: "\<not> sh_closed (rh_shared rh)"
    using rd by (simp_all add: readable_def)
  consider (drained) "outer" "rh_inner rh = []" | (left) "outer" "rh_inner rh \<noteq> []"
    | (large) e where "\<not> outer" "parse_tls_record (rh_rx rh) = Inl e"
    | (more) "\<not> outer" "parse_tls_record (rh_rx rh) = Inr None"
    | (rec) consumed ty where "\<not> outer" "parse_tls_record (rh_rx rh) = Inr (Some (consumed, ty))"
    by (metis not_Some_eq old.sum.exhaust surj_pair)
  then show ?case
  proof cases
    case drained
    then show ?thesis
      using IH(2) rd by (subst read_loop.simps) (simp add: readable_def)
  next
    case left
    define n where "n = min (length (rh_inner rh)) (room - length out)"
    define o1 where "o1 = out @ take n (rh_inner rh)"
    define rh1 where "rh1 = rh\<lparr>rh_inner := drop n (rh_inner rh)\<rparr>"
    note step = read_loop_left [OF left(2) n_def o1_def rh1_def, of dec progress evs]
    have und: "o1 @ undelivered dec rh1 evs = out @ undelivered dec rh evs"
      by (simp add: o1_def rh1_def undelivered_def)
    show ?thesis
    proof (cases "room - length o1 = 0")
      case True
      then show ?thesis using left und evs op by (simp add: step conserved_def rh1_def)
    next
      case False
      then have "readable False rh1 evs" using evs op by (auto simp: readable_def o1_def rh1_def n_def)
      then have "conserved dec (o1 @ undelivered dec rh1 evs) (read_loop dec room False True o1 rh1 evs)"
        by (rule IH(1) [OF left n_def o1_def rh1_def False])
      then show ?thesis using left False und by (simp add: step)
    qed
  next
    case large
    then show ?thesis
      using evs op by (subst read_loop.simps) (simp add: conserved_def)
  next
    case more
    show ?thesis
    proof (cases "progress \<or> evs = []")
      case True
      then show ?thesis using evs op more by (subst read_loop.simps) (auto simp: conserved_def)
    next
      case False
      then obtain ev rest where cons: "evs = ev # rest" and np: "\<not> progress" by (cases evs) auto
      show ?thesis
      proof (cases ev)
        case (GotBytes bs)
        then have bs: "bs \<noteq> []" "take MAX_TLS_RECORD_PAYLOAD_LEN bs = bs" "open_stream_events rest"
          using evs cons by (auto simp: open_stream_events_def)
        let ?rh = "rh\<lparr>rh_rx := rh_rx rh @ bs\<rparr>"
        have "conserved dec (out @ undelivered dec ?rh rest) (read_loop dec room True progress out ?rh rest)"
          by (rule IH(3) [OF more(1) more(2) refl np cons GotBytes bs(2) [symmetric] bs(1)])
            (use bs op in \<open>simp add: readable_def\<close>)
        moreover have "read_loop dec room outer progress out rh evs = read_loop dec room True progress out ?rh rest"
          using more np cons GotBytes bs by (subst read_loop.simps) (simp add: Let_def)
        ultimately show ?thesis
          using cons GotBytes op by (simp add: undelivered_open)
      qed (use evs op more cons np in \<open>subst read_loop.simps,
            simp add: conserved_def open_stream_events_def undelivered_def\<close>)+
    qed
  next
    case rec
    define body where "body = take (consumed - TLS_RECORD_HEADER_LEN) (drop TLS_RECORD_HEADER_LEN (rh_rx rh))"
    define rh0 where "rh0 = rh\<lparr>rh_rx := drop consumed (rh_rx rh)\<rparr>"
    note step = plain_step [OF rec(2), folded body_def, unfolded Let_def]
    have emp: "rh_inner rh = []" using rd rec by (simp add: readable_def)
    have und: "undelivered dec rh evs = plain dec (rh_nonce rh) (rh_rx rh @ ev_bytes evs)"
      using op emp by (simp add: undelivered_open)
    note IH0 = rec(1) rec(2) refl refl body_def rh0_def
    show ?thesis
    proof (cases "ty = 0x17 \<and> body \<noteq> []")
      case False
      note loop = read_loop_other [OF rec(2) body_def False rh0_def, of dec room progress out evs]
      have rh0: "rh_inner rh0 = []" "\<not> sh_closed (rh_shared rh0)" using emp op by (simp_all add: rh0_def)
      show ?thesis
      proof (cases "ty = 0x15")
        case True
        then show ?thesis using rec emp evs und by (simp add: loop conserved_def undelivered_def step)
      next
        case n15: False
        have "conserved dec (out @ undelivered dec rh0 evs) (read_loop dec room False progress out rh0 evs)"
          by (rule IH(8) [OF IH0 False n15]) (use rh0 evs in \<open>simp add: readable_def\<close>)
        moreover have "undelivered dec rh0 evs = plain dec (rh_nonce rh) (drop consumed (rh_rx rh) @ ev_bytes evs)"
          using rh0 by (simp add: undelivered_open) (simp add: rh0_def)
        ultimately show ?thesis using rec n15 False und by (auto simp: loop step)
      qed
    next
      case True
      show ?thesis
      proof (cases "dec (rh_nonce rh) body")
        case None
        then show ?thesis
          using read_loop_undecryptable [OF rec(2) body_def True, of dec room progress out evs]
            True rec emp evs und by (simp add: conserved_def undelivered_def step)
      next
        case (Some pt)
        define nonce' where "nonce' = sat_add (rh_nonce rh) 1"
        define rh1 where "rh1 = rh0\<lparr>rh_nonce := nonce'\<rparr>"
        define data where "data = record_data pt"
        have rm: "(Some pt, nonce') = receiver_read_message dec (rh_nonce rh) body"
          using Some by (simp add: receiver_read_message_def nonce'_def)
        have rh1: "rh_inner rh1 = []" "\<not> sh_closed (rh_shared rh1)"
          using emp op by (simp_all add: rh1_def rh0_def)
        note loop = read_loop_data [OF rec(2) body_def True rm rh0_def rh1_def data_def, of room progress out evs]
        have und1: "undelivered dec rh evs = data @ undelivered dec rh1 evs" if "\<not> is_closing_alert pt"
          using und True Some that rh1
          by (simp add: step undelivered_open data_def rh1_def rh0_def nonce'_def)
        note IH1 = IH0 True rm refl rh1_def
        consider (alert) "is_closing_alert pt"
          | (none) "\<not> is_closing_alert pt" "data = []" "length pt > 0"
          | (empty) "\<not> is_closing_alert pt" "data = []" "\<not> length pt > 0"
          | (direct) "\<not> is_closing_alert pt" "data \<noteq> []" "rh_inner rh1 = [] \<and> room - length out > 0"
          | (queue) "\<not> is_closing_alert pt" "data \<noteq> []" "\<not> (rh_inner rh1 = [] \<and> room - length out > 0)"
          by blast
        then show ?thesis
        proof cases
          case alert
          then show ?thesis
            using rec rh1 evs und True Some by (simp add: loop conserved_def undelivered_def step)
        next
          case none
          have "conserved dec (out @ undelivered dec rh1 evs) (read_loop dec room True progress out rh1 evs)"
            by (rule IH(4) [OF IH1 none(1) data_def none(2,3)]) (use rh1 evs in \<open>simp add: readable_def\<close>)
          then show ?thesis using rec none und1 by (simp add: loop)
        next
          case empty
          have "conserved dec (out @ undelivered dec rh1 evs) (read_loop dec room False progress out rh1 evs)"
            by (rule IH(5) [OF IH1 empty(1) data_def empty(2,3)]) (use rh1 evs in \<open>simp add: readable_def\<close>)
          then show ?thesis using rec empty und1 by (simp add: loop)
        next
          case direct
          define n where "n = min (length data) (room - length out)"
          let ?rh = "rh1\<lparr>rh_inner := drop n data\<rparr>"
          have "conserved dec ((out @ take n data) @ undelivered dec ?rh evs)
              (read_loop dec room True True (out @ take n data) ?rh evs)"
            by (rule IH(6) [OF IH1 direct(1) data_def direct(2,3) n_def])
              (use rh1 evs in \<open>simp add: readable_def\<close>)
          moreover have "take n data @ drop n data @ xs = data @ xs" for xs
            by (metis append.assoc append_take_drop_id)
          ultimately show ?thesis
            using rec direct und1 rh1 loop [folded n_def] by (simp add: undelivered_open)
        next
          case queue
          let ?rh = "rh1\<lparr>rh_inner := rh_inner rh1 @ data\<rparr>"
          have "conserved dec (out @ undelivered dec ?rh evs) (read_loop dec room True progress out ?rh evs)"
            by (rule IH(7) [OF IH1 queue(1) data_def queue(2,3)]) (use rh1 evs in \<open>simp add: readable_def\<close>)
          then show ?thesis
            using rec queue und1 rh1 by (simp add: loop undelivered_open)
        qed
      qed
    qed
  qed
qed

fun poll_reads :: "aead \<Rightarrow> nat list \<Rightarrow> read_half \<Rightarrow> sock_read list \<Rightarrow> bytes \<times> read_half \<times> sock_read list" where
  "poll_reads dec [] rh evs = ([], rh, evs)"
| "poll_reads dec (room # rooms) rh evs =
     (let (r, out, rh', evs') = poll_read dec room rh evs;
          (outs, rh'', evs'') = poll_reads dec rooms rh' evs'
      in (out @ outs, rh'', evs''))"

definition read_half_new :: read_half where
  "read_half_new = \<lparr>rh_nonce = 0, rh_inner = [], rh_rx = [],
     rh_shared = \<lparr>sh_closed = False, sh_close_notify_written = False\<rparr>\<rparr>"

lemma poll_reads_conserve:
  assumes "open_stream_events evs" "sh_closed (rh_shared rh) \<Longrightarrow> rh_inner rh = []"
    and "poll_reads dec rooms rh evs = (out, rh', evs')"
  shows "out @ undelivered dec rh' evs' = undelivered dec rh evs"
  using assms
proof (induction rooms arbitrary: rh evs out)
  case Nil
  then show ?case by simp
next
  case (Cons room rooms)
  obtain r o1 rh1 evs1 where p: "poll_read dec room rh evs = (r, o1, rh1, evs1)"
    by (metis prod_cases4)
  obtain o2 where q: "poll_reads dec rooms rh1 evs1 = (o2, rh', evs')" "out = o1 @ o2"
    using Cons.prems(3) p by (auto simp: Let_def split: prod.splits)
  have "o1 @ undelivered dec rh1 evs1 = undelivered dec rh evs \<and> open_stream_events evs1 \<and>
      (sh_closed (rh_shared rh1) \<longrightarrow> rh_inner rh1 = [])"
    using read_loop_conserves [of True rh evs dec "[]" room False] Cons.prems(1,2) p
    by (auto simp: poll_read_def conserved_def readable_def split: if_splits)
  then show ?case using Cons.IH [OF _ _ q(1)] q(2) by auto
qed

section \<open>From sender to receiver\<close>

fun wire :: "aead \<Rightarrow> u64 \<Rightarrow> record_op list \<Rightarrow> bytes" where
  "wire enc n [] = []"
| "wire enc n (op # ops) = tls_record (the (enc n (op_block op))) @ wire enc (sat_add n 1) ops"

lemma nonce_step:
  fixes n :: u64
  assumes "unat n + Suc k < 2 ^ 64"
  shows "unat (sat_add n 1) = Suc (unat n)" "n \<noteq> - 1"
proof -
  show "unat (sat_add n 1) = Suc (unat n)" using assms by (simp add: unat_sat_add)
  show "n \<noteq> - 1" using assms by (auto simp: unsigned_minus_1_eq_mask mask_eq_exp_minus_1)
qed

definition fits :: "record_op \<Rightarrow> bool" where
  "fits op = (length (fst (snd op)) \<le> BLOCK_DATA_CAPACITY)"

lemma seal_op:
  assumes "aead_correct enc dec" "aead_total enc" "fits op" "n \<noteq> - 1"
  shows "enc n (op_block op) = Some (the (enc n (op_block op)))"
    and "length (the (enc n (op_block op))) = length (op_block op) + AEAD_TAG_LEN"
    and "dec n (the (enc n (op_block op))) = Some (op_block op)"
proof -
  have "length (op_block op) \<le> 65519"
    using assms(3) length_op_block(2) [of op] by (simp add: fits_def frame_const_defs record_const_defs)
  then obtain ct where "enc n (op_block op) = Some ct"
    using assms by (auto simp: aead_total_def)
  then show "enc n (op_block op) = Some (the (enc n (op_block op)))"
    "length (the (enc n (op_block op))) = length (op_block op) + AEAD_TAG_LEN"
    "dec n (the (enc n (op_block op))) = Some (op_block op)"
    using assms(1) by (auto simp: aead_correct_def)
qed

lemma prepare_records_ok:
  assumes "aead_correct enc dec" "aead_total enc" "list_all fits ops"
    and "length (wh_encrypt_buf wh) = BLOCK_PLAINTEXT_SIZE" "unat (wh_nonce wh) + length ops < 2 ^ 64"
  shows "\<exists>wh'. prepare_records enc wh ops = (None, wh') \<and>
    wh_write_buffer wh' = wh_write_buffer wh @ wire enc (wh_nonce wh) ops \<and>
    unat (wh_nonce wh') = unat (wh_nonce wh) + length ops"
  using assms(3-5)
proof (induction ops arbitrary: wh)
  case Nil
  then show ?case by simp
next
  case (Cons op ops)
  have n: "unat (sat_add (wh_nonce wh) 1) = Suc (unat (wh_nonce wh))" "wh_nonce wh \<noteq> - 1"
    using Cons.prems(3) nonce_step [of "wh_nonce wh" "length ops"] by auto
  note seal = seal_op [OF assms(1,2) _ n(2), of op]
  obtain wh1 where wh1: "prepare_record enc wh op = (None, wh1)"
    "wh_nonce wh1 = sat_add (wh_nonce wh) 1"
    "wh_write_buffer wh1 = wh_write_buffer wh @ tls_record (the (enc (wh_nonce wh) (op_block op)))"
    "length (wh_encrypt_buf wh1) = BLOCK_PLAINTEXT_SIZE"
    using prepare_record_ok [of op wh enc "the (enc (wh_nonce wh) (op_block op))"] seal Cons.prems
    by (auto simp: fits_def)
  then show ?case using Cons.IH [of wh1] Cons.prems n by auto
qed

lemma record_data_op_block:
  assumes "fits op"
  shows "record_data (op_block op) = fst (snd op)" "\<not> is_closing_alert (op_block op)" "op_block op \<noteq> []"
proof -
  obtain c p t where op: "op = (c, p, t)" by (cases op)
  have le: "length p \<le> 16382" using assms op by (simp add: fits_def frame_const_defs record_const_defs)
  let ?b = "block_bytes p (target_plaintext_len p t)"
  have tp: "length p + 3 \<le> target_plaintext_len p t"
    using le by (auto simp: target_plaintext_len_def frame_const_defs record_const_defs)
  then show "record_data (op_block op) = fst (snd op)"
    using le by (simp add: op op_block_def block_bytes_def record_data_def Let_def frame_const_defs u16_to_be_def)
  have "last ?b = INNER_CONTENT_TYPE_APP_DATA" "?b \<noteq> []" by (simp_all add: block_bytes_def)
  then have "length ?b = 3 \<Longrightarrow> ?b ! 2 = INNER_CONTENT_TYPE_APP_DATA"
    by (metis One_nat_def diff_Suc_1 last_conv_nth numeral_2_eq_2 numeral_3_eq_3)
  then show "\<not> is_closing_alert (op_block op)"
    by (auto simp: op op_block_def is_closing_alert_def record_const_defs)
  show "op_block op \<noteq> []" by (simp add: op op_block_def block_bytes_def)
qed

lemma plain_tls_record:
  assumes "0 < length ct" "length ct \<le> MAX_TLS_RECORD_PAYLOAD_LEN" "dec n ct = Some pt" "\<not> is_closing_alert pt"
  shows "plain dec n (tls_record ct @ d) = record_data pt @ plain dec (sat_add n 1) d"
proof -
  have "parse_tls_record (tls_record ct) = Inr (Some (5 + length ct, 0x17))"
    using assms(2)
    by (simp add: parse_tls_record_def tls_record_def u16_to_be_def TLS_RECORD_HEADER_LEN_def
        MAX_TLS_RECORD_PAYLOAD_LEN_def)
  from plain_step [OF this, of dec n d] show ?thesis
    using assms by (simp add: tls_record_def u16_to_be_def TLS_RECORD_HEADER_LEN_def)
qed

lemma plain_Nil [simp]: "plain dec n [] = []"
  by (subst plain.simps) (simp add: parse_tls_record_def TLS_RECORD_HEADER_LEN_def)

lemma plain_wire:
  assumes "aead_correct enc dec" "aead_total enc" "list_all fits ops" "unat n + length ops < 2 ^ 64"
  shows "plain dec n (wire enc n ops) = concat (map (\<lambda>op. fst (snd op)) ops) \<and>
    length (wire enc n ops) = sum_list (map record_wire_size ops)"
  using assms(3,4)
proof (induction ops arbitrary: n)
  case Nil
  then show ?case by simp
next
  case (Cons op ops)
  have n: "unat (sat_add n 1) = Suc (unat n)" "n \<noteq> - 1"
    using Cons.prems(2) nonce_step [of n "length ops"] by auto
  have fit: "fits op" using Cons.prems by simp
  note seal = seal_op [OF assms(1,2) fit n(2)]
  have len: "length (the (enc n (op_block op))) + 5 = record_wire_size op"
    "length (the (enc n (op_block op))) \<le> MAX_TLS_RECORD_PAYLOAD_LEN"
    using seal(2) length_op_block [of op] fit
    by (simp_all add: fits_def frame_const_defs record_const_defs)
  have "plain dec n (wire enc n (op # ops)) =
      record_data (op_block op) @ plain dec (sat_add n 1) (wire enc (sat_add n 1) ops)"
    unfolding wire.simps
    by (rule plain_tls_record) (use len seal record_data_op_block [OF fit] in \<open>auto simp: frame_const_defs\<close>)
  then show ?case
    using Cons.IH [of "sat_add n 1"] Cons.prems n record_data_op_block(1) [OF fit] len(1)
    by (simp add: tls_record_def)
qed

section \<open>Flushing\<close>

definition unsent :: "write_half \<Rightarrow> bytes" where
  "unsent wh = drop (wh_write_offset wh) (wh_write_buffer wh)"

lemma try_flush_conserves:
  assumes "try_flush_write_buffer evs wh = (r, wh', sent, rest)" "wh_write_offset wh \<le> length (wh_write_buffer wh)"
  shows "sent @ unsent wh' = unsent wh \<and> wh_write_offset wh' \<le> length (wh_write_buffer wh') \<and>
    wh_nonce wh' = wh_nonce wh \<and> (\<exists>used. evs = used @ rest)"
  using assms
proof (induction evs wh arbitrary: r wh' sent rest rule: try_flush_write_buffer.induct)
  case (1 evs wh)
  show ?case
  proof (cases "wh_write_offset wh < length (wh_write_buffer wh) \<and> (\<exists>n evs'. evs = Wrote n # evs' \<and> n \<noteq> 0)")
    case False
    then show ?thesis
      using "1.prems"
      by (subst (asm) try_flush_write_buffer.simps)
        (auto simp: unsent_def Let_def split: if_splits list.splits sock_write.splits prod.splits)
  next
    case True
    then obtain n0 evs' where e: "evs = Wrote n0 # evs'" "n0 \<noteq> 0"
      and lt: "wh_write_offset wh < length (wh_write_buffer wh)" by blast
    define n where "n = min n0 (length (wh_write_buffer wh) - wh_write_offset wh)"
    have n: "n \<noteq> 0" "n \<le> length (wh_write_buffer wh) - wh_write_offset wh" using e lt by (auto simp: n_def)
    let ?wh = "wh\<lparr>wh_write_offset := wh_write_offset wh + n\<rparr>"
    obtain r1 wh1 sent1 rest1 where t: "try_flush_write_buffer evs' ?wh = (r1, wh1, sent1, rest1)"
      by (metis prod_cases4)
    have res: "r = r1" "wh' = wh1" "rest = rest1"
      "sent = take n (drop (wh_write_offset wh) (wh_write_buffer wh)) @ sent1"
      using "1.prems"(1) lt e n(1) t
      by (simp_all add: try_flush_write_buffer.simps [of evs wh] n_def [symmetric] Let_def)
    have "sent1 @ unsent wh1 = unsent ?wh \<and> wh_write_offset wh1 \<le> length (wh_write_buffer wh1) \<and>
        wh_nonce wh1 = wh_nonce ?wh \<and> (\<exists>used. evs' = used @ rest1)"
      by (rule "1.IH" [OF lt e(1) refl n_def n(1) t]) (use n lt in simp)
    moreover have "take n (drop (wh_write_offset wh) (wh_write_buffer wh)) @ unsent ?wh = unsent wh"
      by (simp add: unsent_def drop_drop [symmetric] add.commute del: drop_drop)
    ultimately show ?thesis using e res by auto
  qed
qed

section \<open>Properties\<close>

text \<open>C4: end to end over one direction of the tunnel. However the sender mixes control and data
  records and whatever sizes it asks for, sealing never fails, the buffer grows by exactly the wire
  size of each record (its request clamped between the smallest record for the payload and 16406
  bytes), and a receiver that polls with arbitrary buffer sizes over an arbitrary segmentation of
  those bytes delivers the payloads in order: what it has delivered followed by what it still holds
  is the concatenation of the payloads.\<close>

theorem tunnel_delivers_payloads:
  assumes "aead_correct enc dec" "aead_total enc"
    and "list_all fits ops" "length ops < 2 ^ 64"
    and "prepare_records enc write_half_new ops = (err, wh)"
    and "open_stream_events evs" "ev_bytes evs = wh_write_buffer wh"
    and "poll_reads dec rooms read_half_new evs = (out, rh, evs')"
  shows "err = None \<and> length (wh_write_buffer wh) = sum_list (map record_wire_size ops) \<and>
    out @ undelivered dec rh evs' = concat (map (\<lambda>op. fst (snd op)) ops)"
proof -
  have "err = None \<and> wh_write_buffer wh = wire enc 0 ops"
    using prepare_records_ok [OF assms(1-3), of write_half_new] assms(4,5)
    by (auto simp: write_half_new_def)
  moreover have "plain dec 0 (wire enc 0 ops) = concat (map (\<lambda>op. fst (snd op)) ops)"
    "length (wire enc 0 ops) = sum_list (map record_wire_size ops)"
    using plain_wire [OF assms(1-3), of 0] assms(4) by simp_all
  moreover have "out @ undelivered dec rh evs' = undelivered dec read_half_new evs"
    using poll_reads_conserve [OF assms(6) _ assms(8)] by (simp add: read_half_new_def)
  ultimately show ?thesis
    using assms(7) by (simp add: undelivered_def read_half_new_def)
qed

definition demo_enc :: aead where
  "demo_enc n p = (if n = - 1 \<or> length p > 65519 then None else Some (p @ replicate 16 0))"

definition demo_dec :: aead where
  "demo_dec n ct = Some (take (length ct - 16) ct)"

theorem tunnel_delivers_payloads_witness:
  "\<exists>wh out rh evs'.
     prepare_records demo_enc write_half_new [(True, [8, 9], 37), (False, [7], 0)] = (None, wh) \<and>
     poll_reads demo_dec [1, 4] read_half_new [GotBytes (wh_write_buffer wh)] = (out, rh, evs') \<and>
     length (wh_write_buffer wh) = 62 \<and> out @ undelivered demo_dec rh evs' = [8, 9, 7]"
proof -
  let ?ops = "[(True, [8, 9], 37), (False, [7], 0)] :: record_op list"
  have a: "aead_correct demo_enc demo_dec" "aead_total demo_enc"
    by (auto simp: aead_correct_def aead_total_def demo_enc_def demo_dec_def AEAD_TAG_LEN_def)
  have f: "list_all fits ?ops" by (simp add: fits_def frame_const_defs record_const_defs)
  have "\<exists>wh. prepare_records demo_enc write_half_new ?ops = (None, wh) \<and> wh_write_buffer wh = wire demo_enc 0 ?ops"
    using prepare_records_ok [OF a f, of write_half_new] by (auto simp: write_half_new_def)
  then obtain wh where wh: "prepare_records demo_enc write_half_new ?ops = (None, wh)"
    "wh_write_buffer wh = wire demo_enc 0 ?ops" by blast
  have len: "length (wire demo_enc 0 ?ops) = 62"
    using plain_wire [OF a f, of 0]
    by (simp add: record_wire_size_def data_record_wire_len_def max_data_record_wire_len_def
        frame_const_defs record_const_defs)
  obtain out rh evs' where p: "poll_reads demo_dec [1, 4] read_half_new [GotBytes (wh_write_buffer wh)] = (out, rh, evs')"
    by (metis prod_cases3)
  have "open_stream_events [GotBytes (wh_write_buffer wh)]"
    using len wh by (auto simp: open_stream_events_def MAX_TLS_RECORD_PAYLOAD_LEN_def)
  then have "out @ undelivered demo_dec rh evs' = [8, 9, 7]"
    using tunnel_delivers_payloads [OF a f _ wh(1) _ _ p] by simp
  then show ?thesis using wh len p by auto
qed

text \<open>C21: a record that fits is sealed in one step: the buffer gains exactly its wire size, the
  nonce advances by one (never on failure), only control records move the control counter, and the
  record is never mistaken for an alert by the receiver.\<close>

theorem record_wire_exact:
  assumes "fits op" "length (wh_encrypt_buf wh) = BLOCK_PLAINTEXT_SIZE"
    and "aead_correct enc dec" "enc (wh_nonce wh) (op_block op) \<noteq> None"
  shows "\<exists>wh'. prepare_record enc wh op = (None, wh') \<and>
    length (wh_write_buffer wh') = length (wh_write_buffer wh) + record_wire_size op \<and>
    take (length (wh_write_buffer wh)) (wh_write_buffer wh') = wh_write_buffer wh \<and>
    wh_nonce wh' = sat_add (wh_nonce wh) 1 \<and>
    wh_control_frame_count wh' =
      (if fst op then sat_add (wh_control_frame_count wh) 1 else wh_control_frame_count wh) \<and>
    \<not> is_closing_alert (op_block op) \<and> record_data (op_block op) = fst (snd op)"
proof -
  obtain ct where ct: "enc (wh_nonce wh) (op_block op) = Some ct" using assms(4) by blast
  then have "length ct = length (op_block op) + AEAD_TAG_LEN"
    using assms(3) by (auto simp: aead_correct_def)
  moreover have "length (op_block op) + 21 = record_wire_size op"
    using assms(1) length_op_block(1) by (simp add: fits_def)
  ultimately show ?thesis
    using prepare_record_ok [of op wh enc ct] record_data_op_block [OF assms(1)] assms(1,2) ct
    by (auto simp: fits_def tls_record_def AEAD_TAG_LEN_def)
qed

theorem record_wire_exact_witness:
  "\<exists>wh'. prepare_record demo_enc write_half_new (False, [5, 6], 100) = (None, wh') \<and>
     length (wh_write_buffer wh') = 100 \<and> wh_nonce wh' = 1"
proof -
  have "aead_correct demo_enc demo_dec"
    by (auto simp: aead_correct_def demo_enc_def demo_dec_def AEAD_TAG_LEN_def)
  moreover have "demo_enc 0 (op_block (False, [5, 6], 100)) \<noteq> None"
    by (simp add: demo_enc_def op_block_def block_bytes_def target_plaintext_len_def frame_const_defs record_const_defs)
  ultimately show ?thesis
    using record_wire_exact [of "(False, [5, 6], 100)" write_half_new demo_enc demo_dec]
    by (auto simp: write_half_new_def fits_def record_wire_size_def data_record_wire_len_def
        max_data_record_wire_len_def frame_const_defs record_const_defs sat_add_def)
qed

text \<open>C22: flushing neither loses, repeats nor reorders bytes however the socket fragments the
  writes: what it accepted followed by what is still buffered is what was buffered before, and when
  the flush reports completion nothing is left.\<close>

theorem flush_conserves_bytes:
  assumes "wh_write_offset wh \<le> length (wh_write_buffer wh)"
    and "poll_flush evs wh = (r, wh', sent, rest)"
  shows "sent @ unsent wh' = unsent wh \<and> (r = Ready \<longrightarrow> sent = unsent wh \<and> buffered_write_len wh' = 0)"
proof -
  obtain e wh1 s1 r1 where t: "try_flush_write_buffer evs wh = (e, wh1, s1, r1)" by (metis prod_cases4)
  have eq: "wh' = wh1" "sent = s1" "r = Ready \<Longrightarrow> wh_write_buffer wh1 = []"
    using assms(2) t by (auto simp: poll_flush_def split: option.splits if_splits)
  have c: "s1 @ unsent wh1 = unsent wh" "wh_write_offset wh1 \<le> length (wh_write_buffer wh1)"
    using try_flush_conserves [OF t assms(1)] by auto
  show ?thesis
    using eq c by (auto simp: unsent_def buffered_write_len_def)
qed

theorem flush_conserves_bytes_witness:
  "poll_flush [Wrote 2, Wrote 9] (write_half_new\<lparr>wh_write_buffer := [1, 2, 3]\<rparr>) =
     (Ready, write_half_new, [1, 2, 3], []) \<and>
   unsent (write_half_new\<lparr>wh_write_buffer := [1, 2, 3]\<rparr>) = [1, 2, 3]"
proof -
  let ?wh = "write_half_new\<lparr>wh_write_buffer := [1, 2, 3]\<rparr>"
  have p: "poll_flush [Wrote 2, Wrote 9] ?wh = (Ready, write_half_new, [1, 2, 3], [])"
    by (simp add: poll_flush_def write_half_new_def)
  have "[1, 2, 3] = unsent ?wh"
    using flush_conserves_bytes [OF _ p] by (simp add: write_half_new_def)
  then show ?thesis using p by simp
qed



end
