(* ===== verification/Window.thy ===== *)
theory Window
  imports ControlSize
begin

text \<open>
  H2-style flow control of \<^verbatim>\<open>crates/session/src/session/window.rs\<close>. The receiving side
  (\<^verbatim>\<open>bump_conn_consumed\<close>, \<^verbatim>\<open>note_conn_received\<close>, \<^verbatim>\<open>note_consumed\<close>) is sequential and modelled by
  functions whose last argument says whether the control queue accepted the WINDOW\_UPDATE. The
  sending side is concurrent: \<^verbatim>\<open>acquire_credit\<close> is a step relation whose atomic steps are the
  loads, compare-and-swaps and additions of the code, run by any number of writers.
  Credits are unbounded integers: an \<^verbatim>\<open>AtomicI64\<close> holds a window of \<^term>\<open>2 ^ 25 :: nat\<close> plus
  32-bit increments.
\<close>

section \<open>Constants and state\<close>

definition STREAM_WINDOW_BYTES :: nat where "STREAM_WINDOW_BYTES = 32 * 1024 * 1024"
definition H2_SESSION_WINDOW_BYTES :: nat where "H2_SESSION_WINDOW_BYTES = 32 * 1024 * 1024"

text \<open>The override arguments are the test hooks of the code; 0 selects the production value.\<close>

definition h2_window_update_threshold :: "nat \<Rightarrow> nat" where
  "h2_window_update_threshold override = (if override > 0 then override else H2_SESSION_WINDOW_BYTES div 8)"

definition U32_MAX :: nat where "U32_MAX = 2 ^ 32 - 1"
definition U64_MAX :: nat where "U64_MAX = 2 ^ 64 - 1"

record window_state =
  ws_peer_flow_control :: bool
  ws_conn_credit :: int
  ws_conn_wu_threshold :: nat
  ws_conn_consumed :: nat
  ws_stream_window :: int
  ws_stream_wu_threshold :: nat

definition window_new :: "nat \<Rightarrow> nat \<Rightarrow> window_state" where
  "window_new threshold_override stream_override =
     (let t = h2_window_update_threshold threshold_override;
          stream_window = (if stream_override > 0 then stream_override else STREAM_WINDOW_BYTES)
      in \<lparr>ws_peer_flow_control = False,
          ws_conn_credit = min (int t * 8) (2 ^ 63 - 1),
          ws_conn_wu_threshold = t,
          ws_conn_consumed = 0,
          ws_stream_window = int stream_window,
          ws_stream_wu_threshold = max (stream_window div 8) 1\<rparr>)"

definition set_peer_flow_control :: "window_state \<Rightarrow> window_state" where
  "set_peer_flow_control ws = ws\<lparr>ws_peer_flow_control := True\<rparr>"

definition add_conn_credit :: "u32 \<Rightarrow> window_state \<Rightarrow> window_state" where
  "add_conn_credit inc ws = ws\<lparr>ws_conn_credit := ws_conn_credit ws + uint inc\<rparr>"

definition add_stream_credit :: "u32 \<Rightarrow> int \<Rightarrow> int" where
  "add_stream_credit inc credit = credit + uint inc"

section \<open>Receiving side\<close>

definition window_update_packet :: "u32 \<Rightarrow> nat \<Rightarrow> bytes" where
  "window_update_packet sid inc =
     encode_padding_window_update_sized sid (of_nat inc) PADDING_WINDOW_UPDATE_WIRE"

text \<open>The compare-and-swap loop retries until it wins, so its effect is one atomic update.\<close>

definition bump_conn_consumed :: "nat \<Rightarrow> window_state \<Rightarrow> nat option \<times> window_state" where
  "bump_conn_consumed len ws =
     (let tot = min (ws_conn_consumed ws + len) U64_MAX;
          nxt = (if tot \<ge> ws_conn_wu_threshold ws then 0 else tot)
      in (if tot \<ge> ws_conn_wu_threshold ws then Some (min tot U32_MAX) else None,
          ws\<lparr>ws_conn_consumed := nxt\<rparr>))"

definition note_conn_received :: "nat \<Rightarrow> bool \<Rightarrow> window_state \<Rightarrow> nat option \<times> window_state" where
  "note_conn_received len accepted ws =
     (case bump_conn_consumed len ws of
        (None, ws') \<Rightarrow> (None, ws')
      | (Some conn_total, ws') \<Rightarrow>
          if accepted then (Some conn_total, ws')
          else (None, ws'\<lparr>ws_conn_consumed := (ws_conn_consumed ws' + conn_total) mod 2 ^ 64\<rparr>))"

definition note_consumed :: "nat \<Rightarrow> bool \<Rightarrow> window_state \<Rightarrow> nat \<Rightarrow> nat option \<times> nat" where
  "note_consumed len accepted ws consumed =
     (let stream_total = (consumed + len) mod 2 ^ 64 in
      if stream_total \<ge> ws_stream_wu_threshold ws
      then if accepted then (Some (min stream_total U32_MAX), 0) else (None, stream_total)
      else (None, stream_total))"

text \<open>A run of received frames; each element is a payload length and whether the control queue
  would accept a WINDOW\_UPDATE at that moment. The result is the list of increments sent.\<close>

fun conn_receive_run :: "(nat \<times> bool) list \<Rightarrow> window_state \<Rightarrow> nat list \<times> window_state" where
  "conn_receive_run [] ws = ([], ws)"
| "conn_receive_run ((len, ok) # evs) ws =
     (let (r, ws') = note_conn_received len ok ws; (incs, ws'') = conn_receive_run evs ws'
      in (case r of None \<Rightarrow> incs | Some i \<Rightarrow> i # incs, ws''))"

fun stream_consume_run :: "(nat \<times> bool) list \<Rightarrow> window_state \<Rightarrow> nat \<Rightarrow> nat list \<times> nat" where
  "stream_consume_run [] ws consumed = ([], consumed)"
| "stream_consume_run ((len, ok) # evs) ws consumed =
     (let (r, c') = note_consumed len ok ws consumed; (incs, c'') = stream_consume_run evs ws c'
      in (case r of None \<Rightarrow> incs | Some i \<Rightarrow> i # incs, c''))"

definition refusals :: "(nat \<times> bool) list \<Rightarrow> nat" where
  "refusals evs = length (filter (\<lambda>e. \<not> snd e) evs)"

section \<open>Sending side\<close>

text \<open>Program counter of one call of \<^verbatim>\<open>acquire_credit\<close>: at the head of the loop, holding a loaded
  connection credit, after the connection credit was taken, holding a loaded stream credit, about
  to roll back, parked on the two notifications, or finished (with or without credit).\<close>

datatype acq_pc = Head | ConnLoaded int | ConnTaken | StreamLoaded int | RollBack | Parked
  | Granted | Bypassed

record fc_state =
  fc_conn :: int
  fc_stream :: "u32 \<Rightarrow> int"
  fc_pc :: "nat \<Rightarrow> acq_pc"
  fc_notified :: "nat \<Rightarrow> bool"
  fc_closed :: bool
  fc_conn_credited :: int
  fc_stream_credited :: "u32 \<Rightarrow> int"

text \<open>Writer \<^term>\<open>t\<close> sends \<^term>\<open>snd (job t)\<close> bytes on stream \<^term>\<open>fst (job t)\<close>. The last two
  fields of the state only record the credit received so far. Passing the head registers with both
  notifiers before the credit is loaded, so a later WINDOW\_UPDATE is seen; a failed
  compare-and-swap parks.\<close>

inductive acq_step :: "(nat \<Rightarrow> u32 \<times> nat) \<Rightarrow> fc_state \<Rightarrow> fc_state \<Rightarrow> bool"
  for job :: "nat \<Rightarrow> u32 \<times> nat" where
  closed: "fc_pc s t = Head \<Longrightarrow> fc_closed s \<Longrightarrow>
    acq_step job s (s\<lparr>fc_pc := (fc_pc s)(t := Bypassed)\<rparr>)"
| load_conn: "fc_pc s t = Head \<Longrightarrow> \<not> fc_closed s \<Longrightarrow>
    acq_step job s (s\<lparr>fc_notified := (fc_notified s)(t := False),
      fc_pc := (fc_pc s)(t := (if fc_conn s \<ge> int (snd (job t)) then ConnLoaded (fc_conn s) else Parked))\<rparr>)"
| cas_conn: "fc_pc s t = ConnLoaded v \<Longrightarrow> fc_conn s = v \<Longrightarrow>
    acq_step job s (s\<lparr>fc_conn := v - int (snd (job t)), fc_pc := (fc_pc s)(t := ConnTaken)\<rparr>)"
| cas_conn_lost: "fc_pc s t = ConnLoaded v \<Longrightarrow> fc_conn s \<noteq> v \<Longrightarrow>
    acq_step job s (s\<lparr>fc_pc := (fc_pc s)(t := Parked)\<rparr>)"
| load_stream: "fc_pc s t = ConnTaken \<Longrightarrow>
    acq_step job s (s\<lparr>fc_pc := (fc_pc s)(t :=
      (if fc_stream s (fst (job t)) \<ge> int (snd (job t)) then StreamLoaded (fc_stream s (fst (job t))) else RollBack))\<rparr>)"
| cas_stream: "fc_pc s t = StreamLoaded v \<Longrightarrow> fc_stream s (fst (job t)) = v \<Longrightarrow>
    acq_step job s (s\<lparr>fc_stream := (fc_stream s)(fst (job t) := v - int (snd (job t))),
      fc_pc := (fc_pc s)(t := Granted)\<rparr>)"
| cas_stream_lost: "fc_pc s t = StreamLoaded v \<Longrightarrow> fc_stream s (fst (job t)) \<noteq> v \<Longrightarrow>
    acq_step job s (s\<lparr>fc_pc := (fc_pc s)(t := RollBack)\<rparr>)"
| roll_back: "fc_pc s t = RollBack \<Longrightarrow>
    acq_step job s (s\<lparr>fc_conn := fc_conn s + int (snd (job t)), fc_pc := (fc_pc s)(t := Parked)\<rparr>)"
| wake: "fc_pc s t = Parked \<Longrightarrow> fc_notified s t \<Longrightarrow>
    acq_step job s (s\<lparr>fc_pc := (fc_pc s)(t := Head)\<rparr>)"
| conn_credit: "acq_step job s (s\<lparr>fc_conn := fc_conn s + uint (inc :: u32),
      fc_conn_credited := fc_conn_credited s + uint inc, fc_notified := (\<lambda>_. True)\<rparr>)"
| stream_credit: "acq_step job s (s\<lparr>fc_stream := (fc_stream s)(sid := fc_stream s sid + uint (inc :: u32)),
      fc_stream_credited := (fc_stream_credited s)(sid := fc_stream_credited s sid + uint inc),
      fc_notified := (\<lambda>t. fc_notified s t \<or> fst (job t) = sid)\<rparr>)"
| other_notify: "acq_step job s (s\<lparr>fc_notified := (\<lambda>t. fc_notified s t \<or> fst (job t) = sid)\<rparr>)"
| close: "acq_step job s (s\<lparr>fc_closed := True\<rparr>)"

definition fc_init :: "int \<Rightarrow> int \<Rightarrow> fc_state" where
  "fc_init conn_window stream_window =
     \<lparr>fc_conn = conn_window, fc_stream = (\<lambda>_. stream_window), fc_pc = (\<lambda>_. Head),
      fc_notified = (\<lambda>_. False), fc_closed = False, fc_conn_credited = 0, fc_stream_credited = (\<lambda>_. 0)\<rparr>"

definition fc_reach :: "(nat \<Rightarrow> u32 \<times> nat) \<Rightarrow> int \<Rightarrow> int \<Rightarrow> fc_state \<Rightarrow> bool" where
  "fc_reach job cw sw s = (acq_step job)\<^sup>*\<^sup>* (fc_init cw sw) s"

inductive_cases acq_stepE: "acq_step job s s'"

section \<open>The receiving side conserves credit\<close>

definition RUN_FRAME_MAX :: nat where "RUN_FRAME_MAX = 65535"

lemma note_conn_received_step:
  assumes "ws_conn_consumed ws + len \<le> U32_MAX"
  shows "(case note_conn_received len ok ws of
      (r, ws') \<Rightarrow> (case r of None \<Rightarrow> 0 | Some i \<Rightarrow> i) + ws_conn_consumed ws' = ws_conn_consumed ws + len \<and>
        ws_conn_wu_threshold ws' = ws_conn_wu_threshold ws \<and>
        (case r of None \<Rightarrow> True | Some i \<Rightarrow> ws_conn_wu_threshold ws \<le> i \<and> i \<le> U32_MAX) \<and>
        (ok \<longrightarrow> ws_conn_consumed ws' < ws_conn_wu_threshold ws \<or> ws_conn_wu_threshold ws = 0) \<and>
        (\<not> ok \<longrightarrow> ws_conn_consumed ws' \<le> ws_conn_consumed ws + len))"
  using assms by (auto simp: note_conn_received_def bump_conn_consumed_def Let_def U32_MAX_def U64_MAX_def)

lemma conn_receive_run_conserves:
  assumes "conn_receive_run evs ws = (incs, ws')" "0 < ws_conn_wu_threshold ws"
    and "list_all (\<lambda>e. fst e \<le> RUN_FRAME_MAX) evs"
    and "ws_conn_consumed ws < ws_conn_wu_threshold ws + RUN_FRAME_MAX * k"
    and "ws_conn_wu_threshold ws + RUN_FRAME_MAX * Suc (k + refusals evs) \<le> U32_MAX"
  shows "sum_list incs + ws_conn_consumed ws' = ws_conn_consumed ws + sum_list (map fst evs) \<and>
    list_all (\<lambda>i. ws_conn_wu_threshold ws \<le> i \<and> i \<le> U32_MAX) incs \<and>
    ws_conn_consumed ws' < ws_conn_wu_threshold ws + RUN_FRAME_MAX * (k + refusals evs)"
  using assms
proof (induction evs arbitrary: ws incs k)
  case Nil
  then show ?case by (simp add: refusals_def)
next
  case (Cons e evs)
  obtain len ok where e: "e = (len, ok)" by (cases e)
  obtain r ws1 where st: "note_conn_received len ok ws = (r, ws1)" by (cases "note_conn_received len ok ws")
  obtain incs1 where run: "conn_receive_run evs ws1 = (incs1, ws')"
    and incs: "incs = (case r of None \<Rightarrow> incs1 | Some i \<Rightarrow> i # incs1)"
    using Cons.prems(1) st e by (auto simp: Let_def split: prod.splits)
  let ?k = "if ok then k else Suc k"
  have ref: "k + refusals (e # evs) = ?k + refusals evs" by (simp add: refusals_def e)
  have len: "len \<le> RUN_FRAME_MAX" using Cons.prems(3) e by simp
  have "RUN_FRAME_MAX * k + RUN_FRAME_MAX \<le> RUN_FRAME_MAX * Suc (k + refusals (e # evs))" by simp
  then have "ws_conn_consumed ws + len \<le> U32_MAX"
    using Cons.prems(4,5) len by linarith
  note step = note_conn_received_step [OF this, of ok, unfolded st, simplified]
  have "ws_conn_consumed ws1 < ws_conn_wu_threshold ws1 + RUN_FRAME_MAX * ?k"
    using step Cons.prems(2,4) len by (cases ok) (auto simp: algebra_simps)
  then have "sum_list incs1 + ws_conn_consumed ws' = ws_conn_consumed ws1 + sum_list (map fst evs) \<and>
      list_all (\<lambda>i. ws_conn_wu_threshold ws1 \<le> i \<and> i \<le> U32_MAX) incs1 \<and>
      ws_conn_consumed ws' < ws_conn_wu_threshold ws1 + RUN_FRAME_MAX * (?k + refusals evs)"
    using Cons.IH [OF run] Cons.prems(2,3,5) step unfolding ref by simp
  then show ?case
    using step unfolding ref by (cases r) (auto simp: incs e)
qed

lemma stream_consume_run_conserves:
  assumes "stream_consume_run evs ws c = (incs, c')" "0 < ws_stream_wu_threshold ws"
    and "list_all (\<lambda>e. fst e \<le> RUN_FRAME_MAX) evs"
    and "c < ws_stream_wu_threshold ws + RUN_FRAME_MAX * k"
    and "ws_stream_wu_threshold ws + RUN_FRAME_MAX * Suc (k + refusals evs) \<le> U32_MAX"
  shows "sum_list incs + c' = c + sum_list (map fst evs) \<and>
    list_all (\<lambda>i. ws_stream_wu_threshold ws \<le> i \<and> i \<le> U32_MAX) incs \<and>
    c' < ws_stream_wu_threshold ws + RUN_FRAME_MAX * (k + refusals evs)"
  using assms
proof (induction evs arbitrary: c incs k)
  case Nil
  then show ?case by (simp add: refusals_def)
next
  case (Cons e evs)
  obtain len ok where e: "e = (len, ok)" by (cases e)
  obtain r c1 where st: "note_consumed len ok ws c = (r, c1)" by (cases "note_consumed len ok ws c")
  obtain incs1 where run: "stream_consume_run evs ws c1 = (incs1, c')"
    and incs: "incs = (case r of None \<Rightarrow> incs1 | Some i \<Rightarrow> i # incs1)"
    using Cons.prems(1) st e by (auto simp: Let_def split: prod.splits)
  let ?k = "if ok then k else Suc k"
  have ref: "k + refusals (e # evs) = ?k + refusals evs" by (simp add: refusals_def e)
  have len: "len \<le> RUN_FRAME_MAX" using Cons.prems(3) e by simp
  have "RUN_FRAME_MAX * k + RUN_FRAME_MAX \<le> RUN_FRAME_MAX * Suc (k + refusals (e # evs))" by simp
  then have "c + len \<le> U32_MAX" using Cons.prems(4,5) len by linarith
  then have step: "(case r of None \<Rightarrow> 0 | Some i \<Rightarrow> i) + c1 = c + len"
    "case r of None \<Rightarrow> True | Some i \<Rightarrow> ws_stream_wu_threshold ws \<le> i \<and> i \<le> U32_MAX"
    "ok \<Longrightarrow> c1 < ws_stream_wu_threshold ws" "c1 \<le> c + len"
    using st Cons.prems(2) by (auto simp: note_consumed_def Let_def U32_MAX_def split: if_splits)
  have "c1 < ws_stream_wu_threshold ws + RUN_FRAME_MAX * ?k"
    using step Cons.prems(4) len by (cases ok) (auto simp: algebra_simps)
  then have "sum_list incs1 + c' = c1 + sum_list (map fst evs) \<and>
      list_all (\<lambda>i. ws_stream_wu_threshold ws \<le> i \<and> i \<le> U32_MAX) incs1 \<and>
      c' < ws_stream_wu_threshold ws + RUN_FRAME_MAX * (?k + refusals evs)"
    using Cons.IH [OF run] Cons.prems(2,3,5) unfolding ref by simp
  then show ?case
    using step unfolding ref by (cases r) (auto simp: incs e)
qed

section \<open>The sending side never over-commits\<close>

fun holds_conn :: "acq_pc \<Rightarrow> bool" where
  "holds_conn ConnTaken = True"
| "holds_conn (StreamLoaded v) = True"
| "holds_conn RollBack = True"
| "holds_conn Granted = True"
| "holds_conn _ = False"

definition bytes_where :: "(nat \<Rightarrow> u32 \<times> nat) \<Rightarrow> (nat \<Rightarrow> bool) \<Rightarrow> int" where
  "bytes_where job P = (\<Sum>t | P t. int (snd (job t)))"

lemma bytes_where_upd:
  assumes "finite {t. P (f t) t}"
  shows "bytes_where job (\<lambda>t. P ((f(u := x)) t) t) =
    bytes_where job (\<lambda>t. P (f t) t) - (if P (f u) u then int (snd (job u)) else 0)
      + (if P x u then int (snd (job u)) else 0)"
proof -
  let ?g = "\<lambda>t. int (snd (job t))"
  let ?R = "{t. P (f t) t} - {u}"
  have 1: "{t. P ((f(u := x)) t) t} = (if P x u then insert u ?R else ?R)" by auto
  have 2: "{t. P (f t) t} = (if P (f u) u then insert u ?R else ?R)" by auto
  have fin: "finite ?R" using assms by simp
  have "sum ?g {t. P ((f(u := x)) t) t} = sum ?g ?R + (if P x u then ?g u else 0)"
    unfolding 1 using fin by (simp add: sum.insert_remove)
  moreover have "sum ?g {t. P (f t) t} = sum ?g ?R + (if P (f u) u then ?g u else 0)"
    by (subst 2) (use fin in \<open>simp add: sum.insert_remove\<close>)
  ultimately show ?thesis by (simp add: bytes_where_def)
qed

definition fc_inv :: "(nat \<Rightarrow> u32 \<times> nat) \<Rightarrow> int \<Rightarrow> int \<Rightarrow> fc_state \<Rightarrow> bool" where
  "fc_inv job cw sw s \<longleftrightarrow>
     finite {t. fc_pc s t \<noteq> Head} \<and>
     fc_conn s + bytes_where job (\<lambda>t. holds_conn (fc_pc s t)) = cw + fc_conn_credited s \<and>
     (\<forall>sid. fc_stream s sid + bytes_where job (\<lambda>t. fc_pc s t = Granted \<and> fst (job t) = sid)
        = sw + fc_stream_credited s sid) \<and>
     0 \<le> fc_conn s \<and> (\<forall>sid. 0 \<le> fc_stream s sid) \<and>
     (\<forall>t v. fc_pc s t = ConnLoaded v \<longrightarrow> int (snd (job t)) \<le> v) \<and>
     (\<forall>t v. fc_pc s t = StreamLoaded v \<longrightarrow> int (snd (job t)) \<le> v)"

lemma fc_inv_init: "0 \<le> cw \<Longrightarrow> 0 \<le> sw \<Longrightarrow> fc_inv job cw sw (fc_init cw sw)"
  by (simp add: fc_inv_def fc_init_def bytes_where_def)

lemma finite_non_head:
  assumes "finite {t. pc t \<noteq> Head}"
  shows "finite {t. (pc(u := x)) t \<noteq> Head}"
    and "finite {t. holds_conn (pc t)}" and "finite {t. pc t = Granted \<and> fst (job t) = sid}"
proof -
  show "finite {t. (pc(u := x)) t \<noteq> Head}"
    by (rule finite_subset [of _ "insert u {t. pc t \<noteq> Head}"]) (use assms in auto)
  show "finite {t. holds_conn (pc t)}" "finite {t. pc t = Granted \<and> fst (job t) = sid}"
    by (rule finite_subset [OF _ assms], auto)+
qed

lemma acq_step_inv:
  assumes "acq_step job s s'" "fc_inv job cw sw s"
  shows "fc_inv job cw sw s'"
proof -
  have fin: "finite {t. fc_pc s t \<noteq> Head}" using assms(2) by (simp add: fc_inv_def)
  note upd = bytes_where_upd [of "\<lambda>p t. holds_conn p" "fc_pc s" job, OF finite_non_head(2) [OF fin]]
    bytes_where_upd [of "\<lambda>p t. p = Granted \<and> fst (job t) = sid" "fc_pc s" job for sid,
      OF finite_non_head(3) [OF fin]]
  note fin' = finite_non_head(1) [OF fin]
  from assms(1) show ?thesis
    by (cases; use assms(2) in \<open>simp add: fc_inv_def upd fin' del: fun_upd_apply; auto split: if_splits\<close>)
qed

lemma fc_reach_inv:
  assumes "fc_reach job cw sw s" "0 \<le> cw" "0 \<le> sw"
  shows "fc_inv job cw sw s"
  using assms(1) unfolding fc_reach_def
  by (induction rule: rtranclp_induct) (auto intro: acq_step_inv fc_inv_init assms)

lemma bytes_where_mono:
  assumes "finite {t. Q t}" "\<And>t. P t \<Longrightarrow> Q t"
  shows "bytes_where job P \<le> bytes_where job Q"
  unfolding bytes_where_def by (rule sum_mono2) (use assms in auto)

lemma window_update_packet_decodes:
  assumes "inc \<le> U32_MAX"
  shows "\<exists>w. Frame_decode (window_update_packet sid inc) = (Some w, []) \<and> f_stream_id w = sid \<and>
    f_cmd w = CMD_PADDING \<and> map_option unat (decode_padding_window_update (f_payload w)) = Some inc"
proof -
  let ?p = "PADDING_FLAG_WINDOW_UPDATE # 0 # u32_to_be (of_nat inc)"
  have "window_update_packet sid inc = frame_bytes CMD_PADDING sid ?p"
    using encode_padding_window_update_sized_eq [of PADDING_WINDOW_UPDATE_WIRE sid "of_nat inc"]
    by (simp add: window_update_packet_def h2_defs wire_defs)
  moreover have "unat (of_nat inc :: u32) = inc"
    using assms by (simp add: unat_of_nat U32_MAX_def)
  ultimately show ?thesis
    using Frame_decode_frame_bytes [of ?p CMD_PADDING sid "[]"]
    by (simp add: decode_padding_window_update_def get_range_def frame_const_defs u32_to_be_def)
qed

section \<open>Properties\<close>

text \<open>C28: senders never over-commit. However any number of writers interleave the loads,
  compare-and-swaps and roll-backs of \<^verbatim>\<open>acquire_credit\<close> with arriving WINDOW\_UPDATEs, the bytes
  granted so far never exceed the connection window plus the connection credit received, nor on any
  stream its window plus its credit, and neither balance becomes negative.\<close>

theorem flow_control_never_overcommits:
  assumes "fc_reach job cw sw s" "0 \<le> cw" "0 \<le> sw"
  shows "bytes_where job (\<lambda>t. fc_pc s t = Granted) \<le> cw + fc_conn_credited s \<and>
    bytes_where job (\<lambda>t. fc_pc s t = Granted \<and> fst (job t) = sid) \<le> sw + fc_stream_credited s sid \<and>
    0 \<le> fc_conn s \<and> 0 \<le> fc_stream s sid"
proof -
  have inv: "fc_inv job cw sw s" by (rule fc_reach_inv [OF assms])
  then have "finite {t. fc_pc s t \<noteq> Head}" by (simp add: fc_inv_def)
  note fin = finite_non_head(2) [OF this]
  have "bytes_where job (\<lambda>t. fc_pc s t = Granted) \<le> bytes_where job (\<lambda>t. holds_conn (fc_pc s t))"
    by (rule bytes_where_mono [OF fin]) simp
  moreover have "fc_conn s + bytes_where job (\<lambda>t. holds_conn (fc_pc s t)) = cw + fc_conn_credited s"
    "fc_stream s sid + bytes_where job (\<lambda>t. fc_pc s t = Granted \<and> fst (job t) = sid)
       = sw + fc_stream_credited s sid" "0 \<le> fc_conn s" "0 \<le> fc_stream s sid"
    using inv by (simp_all add: fc_inv_def)
  ultimately show ?thesis by linarith
qed

definition demo_job :: "nat \<Rightarrow> u32 \<times> nat" where
  "demo_job t = (if t = 0 then (1, 65535) else (2, 65535))"

abbreviation demo_fc :: "acq_pc \<Rightarrow> acq_pc \<Rightarrow> int \<Rightarrow> int \<Rightarrow> fc_state" where
  "demo_fc p q conn strm \<equiv> \<lparr>fc_conn = conn, fc_stream = (\<lambda>_. 33554432)(1 := strm),
     fc_pc = (\<lambda>_. Head)(0 := p, 1 := q), fc_notified = (\<lambda>_. False), fc_closed = False,
     fc_conn_credited = 0, fc_stream_credited = (\<lambda>_. 0)\<rparr>"

lemma acq_stepI: "acq_step job s s'' \<Longrightarrow> s'' = s' \<Longrightarrow> acq_step job s s'"
  by simp

lemma demo_run:
  "fc_reach demo_job 33554432 33554432 (demo_fc Granted Parked 33488897 33488897)"
proof -
  have init: "fc_init 33554432 33554432 = demo_fc Head Head 33554432 33554432"
    by (auto simp: fc_init_def fun_eq_iff)
  have "acq_step demo_job (demo_fc Head Head 33554432 33554432)
      (demo_fc (ConnLoaded 33554432) Head 33554432 33554432)"
    by (rule acq_stepI, rule load_conn [where t = 0]) (auto simp: demo_job_def fun_eq_iff)
  moreover have "acq_step demo_job (demo_fc (ConnLoaded 33554432) Head 33554432 33554432)
      (demo_fc (ConnLoaded 33554432) (ConnLoaded 33554432) 33554432 33554432)"
    by (rule acq_stepI, rule load_conn [where t = 1]) (auto simp: demo_job_def fun_eq_iff)
  moreover have "acq_step demo_job (demo_fc (ConnLoaded 33554432) (ConnLoaded 33554432) 33554432 33554432)
      (demo_fc ConnTaken (ConnLoaded 33554432) 33488897 33554432)"
    by (rule acq_stepI, rule cas_conn [where t = 0]) (auto simp: demo_job_def fun_eq_iff)
  moreover have "acq_step demo_job (demo_fc ConnTaken (ConnLoaded 33554432) 33488897 33554432)
      (demo_fc ConnTaken Parked 33488897 33554432)"
    by (rule acq_stepI, rule cas_conn_lost [where t = 1]) (auto simp: demo_job_def fun_eq_iff)
  moreover have "acq_step demo_job (demo_fc ConnTaken Parked 33488897 33554432)
      (demo_fc (StreamLoaded 33554432) Parked 33488897 33554432)"
    by (rule acq_stepI, rule load_stream [where t = 0]) (auto simp: demo_job_def fun_eq_iff)
  moreover have "acq_step demo_job (demo_fc (StreamLoaded 33554432) Parked 33488897 33554432)
      (demo_fc Granted Parked 33488897 33488897)"
    by (rule acq_stepI, rule cas_stream [where t = 0]) (auto simp: demo_job_def fun_eq_iff)
  ultimately show ?thesis
    unfolding fc_reach_def init by (meson converse_rtranclp_into_rtranclp rtranclp.rtrancl_refl)
qed

theorem flow_control_never_overcommits_witness:
  "fc_reach demo_job 33554432 33554432 (demo_fc Granted Parked 33488897 33488897) \<and>
   bytes_where demo_job (\<lambda>t. fc_pc (demo_fc Granted Parked 33488897 33488897) t = Granted) \<le> 33554432"
  using demo_run flow_control_never_overcommits [OF demo_run, of 1] by simp

text \<open>C30: a writer can be left parked although both balances cover its request: when two writers
  load the same connection credit, the one that loses the compare-and-swap parks without a pending
  notification, and no grant or roll-back of the other writer notifies it. With the production
  windows and two frames of 65535 bytes the state is reachable; only a WINDOW\_UPDATE or an
  unrelated wake-up of its stream can resume the parked writer.\<close>

theorem parked_writer_with_credit:
  "\<exists>job s. fc_reach job (ws_conn_credit (window_new 0 0)) (ws_stream_window (window_new 0 0)) s \<and>
     fc_pc s 1 = Parked \<and> \<not> fc_notified s 1 \<and> \<not> fc_closed s \<and>
     int (snd (job 1)) \<le> fc_conn s \<and> int (snd (job 1)) \<le> fc_stream s (fst (job 1)) \<and>
     (\<forall>s'. acq_step job s s' \<and> fc_notified s' = fc_notified s \<and> fc_closed s' = fc_closed s \<longrightarrow>
        fc_pc s' 1 = Parked)"
proof (intro exI conjI allI impI)
  let ?s = "demo_fc Granted Parked 33488897 33488897"
  show "fc_reach demo_job (ws_conn_credit (window_new 0 0)) (ws_stream_window (window_new 0 0)) ?s"
    using demo_run
    by (simp add: window_new_def h2_window_update_threshold_def H2_SESSION_WINDOW_BYTES_def STREAM_WINDOW_BYTES_def)
  fix s'
  assume "acq_step demo_job ?s s' \<and> fc_notified s' = fc_notified ?s \<and> fc_closed s' = fc_closed ?s"
  then have "acq_step demo_job ?s s'" by simp
  then show "fc_pc s' 1 = Parked"
    by (cases rule: acq_step.cases) (auto split: if_splits)
qed (auto simp: demo_job_def)

theorem parked_writer_with_credit_witness:
  "\<exists>job s. fc_reach job 33554432 33554432 s \<and> fc_pc s 1 = Parked \<and> int (snd (job 1)) \<le> fc_conn s"
  using parked_writer_with_credit
  by (auto simp: window_new_def h2_window_update_threshold_def H2_SESSION_WINDOW_BYTES_def STREAM_WINDOW_BYTES_def)

text \<open>C29: the receiver leaks no credit. Over any run of received frames in which the control queue
  refuses at most 60000 WINDOW\_UPDATEs, the increments sent plus the balance still held back equal
  the bytes received, every increment is at least the threshold and arrives undamaged, and if
  nothing was refused less than one threshold is held back. The same holds for a stream's delivered
  bytes.\<close>

theorem receiver_leaks_no_credit:
  assumes "list_all (\<lambda>e. fst e \<le> RUN_FRAME_MAX) evs" "refusals evs \<le> 60000"
    and "conn_receive_run evs (window_new 0 0) = (incs, ws)"
    and "stream_consume_run evs (window_new 0 0) 0 = (sincs, held)"
  shows "sum_list incs + ws_conn_consumed ws = sum_list (map fst evs) \<and>
    sum_list sincs + held = sum_list (map fst evs) \<and>
    (refusals evs = 0 \<longrightarrow> ws_conn_consumed ws < 4194304 \<and> held < 4194304) \<and>
    list_all (\<lambda>i. 4194304 \<le> i \<and>
      (\<exists>w. Frame_decode (window_update_packet sid i) = (Some w, []) \<and> f_stream_id w = sid \<and>
         f_cmd w = CMD_PADDING \<and> map_option unat (decode_padding_window_update (f_payload w)) = Some i))
      (incs @ sincs)"
proof -
  let ?ws = "window_new 0 0"
  have t: "ws_conn_wu_threshold ?ws = 4194304" "ws_stream_wu_threshold ?ws = 4194304" "ws_conn_consumed ?ws = 0"
    by (simp_all add: window_new_def h2_window_update_threshold_def H2_SESSION_WINDOW_BYTES_def
        STREAM_WINDOW_BYTES_def Let_def)
  have b: "4194304 + RUN_FRAME_MAX * Suc (0 + refusals evs) \<le> U32_MAX"
    using assms(2) by (simp add: RUN_FRAME_MAX_def U32_MAX_def)
  have c: "sum_list incs + ws_conn_consumed ws = sum_list (map fst evs) \<and>
      list_all (\<lambda>i. 4194304 \<le> i \<and> i \<le> U32_MAX) incs \<and>
      ws_conn_consumed ws < 4194304 + RUN_FRAME_MAX * refusals evs"
    using conn_receive_run_conserves [OF assms(3) _ assms(1), of 0] b by (simp add: t)
  have d: "sum_list sincs + held = sum_list (map fst evs) \<and>
      list_all (\<lambda>i. 4194304 \<le> i \<and> i \<le> U32_MAX) sincs \<and>
      held < 4194304 + RUN_FRAME_MAX * refusals evs"
    using stream_consume_run_conserves [OF assms(4) _ assms(1), of 0] b by (simp add: t)
  have "list_all (\<lambda>i. 4194304 \<le> i \<and> i \<le> U32_MAX) (incs @ sincs)" using c d by simp
  then have "list_all (\<lambda>i. 4194304 \<le> i \<and>
      (\<exists>w. Frame_decode (window_update_packet sid i) = (Some w, []) \<and> f_stream_id w = sid \<and>
         f_cmd w = CMD_PADDING \<and> map_option unat (decode_padding_window_update (f_payload w)) = Some i))
      (incs @ sincs)"
    by (rule list.pred_mono_strong) (use window_update_packet_decodes in blast)
  moreover have "refusals evs = 0 \<longrightarrow> ws_conn_consumed ws < 4194304 \<and> held < 4194304"
    using c d by (metis add.right_neutral mult_0_right)
  ultimately show ?thesis using c d by blast
qed

theorem receiver_leaks_no_credit_witness:
  "\<exists>incs ws. conn_receive_run (replicate 65 (65535, True)) (window_new 0 0) = (incs, ws) \<and>
     sum_list incs + ws_conn_consumed ws = 4259775 \<and> ws_conn_consumed ws < 4194304"
proof -
  let ?evs = "replicate 65 (65535, True) :: (nat \<times> bool) list"
  obtain incs ws where r: "conn_receive_run ?evs (window_new 0 0) = (incs, ws)"
    by (metis surj_pair)
  obtain sincs held where q: "stream_consume_run ?evs (window_new 0 0) 0 = (sincs, held)"
    by (metis surj_pair)
  have a: "list_all (\<lambda>e. fst e \<le> RUN_FRAME_MAX) ?evs"
    unfolding list_all_iff set_replicate_conv_if RUN_FRAME_MAX_def by simp
  have b: "refusals ?evs = 0" unfolding refusals_def filter_replicate by simp
  have c: "sum_list (map fst ?evs) = 4259775" unfolding map_replicate sum_list_replicate by simp
  show ?thesis
    using receiver_leaks_no_credit [OF a _ r q, unfolded b c] r by blast
qed

end
