(* ===== verification/Replay.thy ===== *)
theory Replay
  imports Utils "HOL-Library.AList"
begin

text \<open>
  Replay protection of \<^verbatim>\<open>crates/tunnel/src/server/replay.rs\<close>: the 64-entry sliding window per
  client session, the counter cache that maps sessions to windows and the cache of client
  ephemerals. The LRU map is the \<^verbatim>\<open>lru\<close> crate: it is a record of operations passed to the
  definitions, and \<^verbatim>\<open>lru_ok\<close> states its documented behaviour through a view of the entries
  from most to least recently used. The keyed hashes are parameters as well.
\<close>

section \<open>Sliding window\<close>

record sliding_window =
  sw_highest_seq :: u64
  sw_bitmap :: u64

definition sw_new :: "u64 \<Rightarrow> sliding_window" where
  "sw_new seq = \<lparr>sw_highest_seq = seq, sw_bitmap = 1\<rparr>"

definition sw_check :: "sliding_window \<Rightarrow> u64 \<Rightarrow> bool" where
  "sw_check w seq =
     (if seq > sw_highest_seq w then True
      else if sw_highest_seq w - seq \<ge> 64 then False
      else
        let offset = sw_highest_seq w - seq in
        (sw_bitmap w AND push_bit (unat offset) 1) = 0)"

definition sw_commit :: "sliding_window \<Rightarrow> u64 \<Rightarrow> bool \<times> sliding_window" where
  "sw_commit w seq =
     (if seq > sw_highest_seq w
      then
        let diff = seq - sw_highest_seq w;
            bm = (if diff \<ge> 64 then 1 else push_bit (unat diff) (sw_bitmap w) OR 1)
        in (True, w\<lparr>sw_bitmap := bm, sw_highest_seq := seq\<rparr>)
      else if sw_highest_seq w - seq \<ge> 64 then (False, w)
      else
        let offset = sw_highest_seq w - seq;
            b = push_bit (unat offset) 1
        in if (sw_bitmap w AND b) \<noteq> 0 then (False, w)
           else (True, w\<lparr>sw_bitmap := sw_bitmap w OR b\<rparr>))"

text \<open>Reference: a set of accepted sequence numbers and a horizon of 64 below the highest.\<close>

definition ref_accepts :: "nat set \<Rightarrow> nat \<Rightarrow> bool" where
  "ref_accepts H n \<longleftrightarrow> n \<notin> H \<and> Max H < n + 64"

fun ref_run :: "nat list \<Rightarrow> nat set \<Rightarrow> bool list" where
  "ref_run [] H = []"
| "ref_run (n # ns) H = (if ref_accepts H n then True # ref_run ns (insert n H) else False # ref_run ns H)"

fun sw_run :: "u64 list \<Rightarrow> sliding_window \<Rightarrow> bool list" where
  "sw_run [] w = []"
| "sw_run (s # ss) w = (let (r, w') = sw_commit w s in r # sw_run ss w')"

definition sw_rep :: "sliding_window \<Rightarrow> nat set \<Rightarrow> bool" where
  "sw_rep w H \<longleftrightarrow> finite H \<and> H \<noteq> {} \<and> Max H = unat (sw_highest_seq w) \<and>
     (\<forall>i < 64. bit (sw_bitmap w) i \<longleftrightarrow> i \<le> unat (sw_highest_seq w) \<and> unat (sw_highest_seq w) - i \<in> H)"

lemma and_push_bit_one: "((a :: u64) AND push_bit n 1 = 0) \<longleftrightarrow> \<not> (n < 64 \<and> bit a n)"
proof
  assume "a AND push_bit n 1 = 0"
  then have "\<not> bit (a AND push_bit n 1) n" by simp
  then show "\<not> (n < 64 \<and> bit a n)" by (auto simp: bit_simps)
next
  assume "\<not> (n < 64 \<and> bit a n)"
  then show "a AND push_bit n 1 = 0"
    by (intro bit_word_eqI) (auto simp: bit_simps)
qed

lemmas and_two_power = and_push_bit_one [simplified]

lemma sw_rep_new: "sw_rep (sw_new s) {unat s}"
proof -
  have "bit (1 :: u64) i \<longleftrightarrow> i \<le> unat s \<and> unat s - i = unat s" for i
    by (cases "i = 0") (auto simp: bit_1_iff)
  then show ?thesis by (simp add: sw_rep_def sw_new_def)
qed

lemma sw_check_ref:
  assumes "sw_rep w H"
  shows "sw_check w s = ref_accepts H (unat s)"
proof -
  let ?h = "unat (sw_highest_seq w)"
  have H: "finite H" "Max H = ?h" using assms by (auto simp: sw_rep_def)
  show ?thesis
  proof (cases "s > sw_highest_seq w")
    case True
    then have "?h < unat s" by (simp add: word_less_nat_alt)
    moreover have "unat s \<notin> H" using H calculation Max_ge by fastforce
    ultimately show ?thesis using True H by (simp add: sw_check_def ref_accepts_def)
  next
    case False
    then have le: "unat s \<le> ?h" "unat (sw_highest_seq w - s) = ?h - unat s"
      by (simp_all add: word_less_nat_alt unat_sub word_le_nat_alt)
    have ge: "sw_highest_seq w - s \<ge> 64 \<longleftrightarrow> ?h - unat s \<ge> 64"
      by (simp add: word_le_nat_alt le)
    have "?h - unat s < 64 \<Longrightarrow> bit (sw_bitmap w) (?h - unat s) \<longleftrightarrow> unat s \<in> H"
      using assms le by (simp add: sw_rep_def)
    then show ?thesis
      using False ge le H by (auto simp: sw_check_def ref_accepts_def and_push_bit_one and_two_power Let_def)
  qed
qed

lemma sw_commit_result: "fst (sw_commit w s) = sw_check w s"
  by (simp add: sw_commit_def sw_check_def Let_def)

lemma sw_commit_reject: "\<not> sw_check w s \<Longrightarrow> snd (sw_commit w s) = w"
  by (auto simp: sw_commit_def sw_check_def Let_def split: if_splits)

lemma sw_commit_rep:
  assumes "sw_rep w H" "sw_check w s"
  shows "sw_rep (snd (sw_commit w s)) (insert (unat s) H)"
proof -
  let ?h = "unat (sw_highest_seq w)"
  have H: "finite H" "H \<noteq> {}" "Max H = ?h"
    and bits: "\<And>i. i < 64 \<Longrightarrow> bit (sw_bitmap w) i \<longleftrightarrow> i \<le> ?h \<and> ?h - i \<in> H"
    using assms by (auto simp: sw_rep_def)
  have below: "n \<in> H \<Longrightarrow> n \<le> ?h" for n using H Max_ge by fastforce
  show ?thesis
  proof (cases "s > sw_highest_seq w")
    case True
    then have lt: "?h < unat s" and d: "unat (s - sw_highest_seq w) = unat s - ?h"
      by (simp_all add: word_less_nat_alt unat_sub word_le_nat_alt)
    have mx: "Max (insert (unat s) H) = unat s" using H lt by simp
    have ge: "s - sw_highest_seq w \<ge> 64 \<longleftrightarrow> unat s - ?h \<ge> 64" by (simp add: word_le_nat_alt d)
    have new: "bit (sw_bitmap (snd (sw_commit w s))) i \<longleftrightarrow>
        i = 0 \<or> unat s - ?h \<le> i \<and> bit (sw_bitmap w) (i - (unat s - ?h))" if "i < 64" for i
      using True that ge d lt by (auto simp: sw_commit_def Let_def bit_simps bit_1_iff)
    have "bit (sw_bitmap (snd (sw_commit w s))) i \<longleftrightarrow> i \<le> unat s \<and> unat s - i \<in> insert (unat s) H"
      if "i < 64" for i
    proof (cases "unat s - ?h \<le> i")
      case True
      then have "?h - (i - (unat s - ?h)) = unat s - i" using lt by simp
      then show ?thesis
        using new [OF that] bits [of "i - (unat s - ?h)"] True that lt by auto
    next
      case False
      then have "unat s - i \<notin> H" using below lt by fastforce
      then show ?thesis using new [OF that] False lt by auto
    qed
    moreover have "sw_highest_seq (snd (sw_commit w s)) = s" using True by (simp add: sw_commit_def Let_def)
    ultimately show ?thesis using H mx by (simp add: sw_rep_def)
  next
    case False
    then have le: "unat s \<le> ?h" and d: "unat (sw_highest_seq w - s) = ?h - unat s"
      by (simp_all add: word_less_nat_alt unat_sub word_le_nat_alt)
    have lt: "?h - unat s < 64" and fresh: "unat s \<notin> H"
      using assms(2) sw_check_ref [OF assms(1)] H le by (auto simp: ref_accepts_def)
    have c: "snd (sw_commit w s) = w\<lparr>sw_bitmap := sw_bitmap w OR push_bit (?h - unat s) 1\<rparr>"
      using False lt d assms(2)
      by (auto simp: sw_commit_def sw_check_def Let_def word_le_nat_alt and_push_bit_one and_two_power split: if_splits)
    have "Max (insert (unat s) H) = ?h" using H le by simp
    moreover have "bit (sw_bitmap w OR push_bit (?h - unat s) 1) i \<longleftrightarrow> i \<le> ?h \<and> ?h - i \<in> insert (unat s) H"
      if "i < 64" for i
      using bits [OF that] that le lt by (auto simp: bit_simps bit_1_iff)
    ultimately show ?thesis using H by (simp add: sw_rep_def c)
  qed
qed

lemma sw_run_ref: "sw_rep w H \<Longrightarrow> sw_run ss w = ref_run (map unat ss) H"
proof (induction ss arbitrary: w H)
  case Nil
  then show ?case by simp
next
  case (Cons s ss)
  show ?case
  proof (cases "sw_check w s")
    case True
    then show ?thesis
      using Cons.IH [OF sw_commit_rep [OF Cons.prems True]] sw_check_ref [OF Cons.prems, of s]
        sw_commit_result [of w s] by (simp add: Let_def case_prod_beta)
  next
    case False
    then show ?thesis
      using Cons.IH [OF Cons.prems] sw_check_ref [OF Cons.prems, of s] sw_commit_result [of w s]
        sw_commit_reject [OF False] by (simp add: Let_def case_prod_beta)
  qed
qed

section \<open>The caches\<close>

text \<open>Operations of \<^verbatim>\<open>LruCache\<close> that the code uses: \<^verbatim>\<open>get\<close>/\<^verbatim>\<open>get_mut\<close> promote the entry,
  \<^verbatim>\<open>lru_write\<close> is an assignment through the reference \<^verbatim>\<open>get_mut\<close> returned, \<^verbatim>\<open>put\<close> inserts as most
  recent and evicts the least recent entry above the capacity, \<^verbatim>\<open>contains\<close> and \<^verbatim>\<open>peek_lru\<close> do not
  promote.\<close>

record ('c, 'k, 'v) lru_ops =
  lru_get :: "'k \<Rightarrow> 'c \<Rightarrow> 'v option \<times> 'c"
  lru_write :: "'k \<Rightarrow> 'v \<Rightarrow> 'c \<Rightarrow> 'c"
  lru_put :: "'k \<Rightarrow> 'v \<Rightarrow> 'c \<Rightarrow> 'c"
  lru_contains :: "'k \<Rightarrow> 'c \<Rightarrow> bool"
  lru_peek :: "'c \<Rightarrow> ('k \<times> 'v) option"
  lru_pop :: "'c \<Rightarrow> 'c"

definition without :: "'k \<Rightarrow> ('k \<times> 'v) list \<Rightarrow> ('k \<times> 'v) list" where
  "without k es = filter (\<lambda>e. fst e \<noteq> k) es"

definition promote :: "'k \<Rightarrow> ('k \<times> 'v) list \<Rightarrow> ('k \<times> 'v) list" where
  "promote k es = (case map_of es k of None \<Rightarrow> es | Some v \<Rightarrow> (k, v) # without k es)"

definition overwrite :: "'k \<Rightarrow> 'v \<Rightarrow> ('k \<times> 'v) list \<Rightarrow> ('k \<times> 'v) list" where
  "overwrite k v es = map (\<lambda>e. if fst e = k then (k, v) else e) es"

definition lru_ok :: "nat \<Rightarrow> ('c, 'k, 'v) lru_ops \<Rightarrow> ('c \<Rightarrow> ('k \<times> 'v) list) \<Rightarrow> bool" where
  "lru_ok cap L view \<longleftrightarrow>
     (\<forall>c. distinct (map fst (view c)) \<and> length (view c) \<le> cap) \<and>
     (\<forall>k c. fst (lru_get L k c) = map_of (view c) k \<and> view (snd (lru_get L k c)) = promote k (view c)) \<and>
     (\<forall>k v c. view (lru_write L k v c) = overwrite k v (view c)) \<and>
     (\<forall>k v c. view (lru_put L k v c) = take cap ((k, v) # without k (view c))) \<and>
     (\<forall>k c. lru_contains L k c \<longleftrightarrow> k \<in> fst ` set (view c)) \<and>
     (\<forall>c. lru_peek L c = (if view c = [] then None else Some (last (view c)))) \<and>
     (\<forall>c. view (lru_pop L c) = butlast (view c))"

text \<open>A \<^verbatim>\<open>std::sync::Mutex\<close>: locking fails once a holder panicked.\<close>

datatype 'c mutex = Guarded 'c | Poisoned

definition MAX_COUNTER_CACHE_ENTRIES :: nat where "MAX_COUNTER_CACHE_ENTRIES = 4096"
definition REPLAY_RETENTION_SECS :: nat where "REPLAY_RETENTION_SECS = 600"
definition MAX_REPLAY_CACHE_ENTRIES :: nat where "MAX_REPLAY_CACHE_ENTRIES = 65536"

record replay_check =
  rc_cache_key :: bytes
  rc_sequence :: u64

section \<open>Counter window per session\<close>

definition counter_ids :: "bytes \<Rightarrow> bytes \<Rightarrow> u64 \<times> u64" where
  "counter_ids masked_counter msk =
     (let raw_counter = u64_from_be (xor_u64_bytes masked_counter msk)
      in (drop_bit 24 raw_counter, raw_counter AND 0x00FFFFFF))"

text \<open>The outer \<^const>\<open>None\<close> is the panic of \<^verbatim>\<open>copy_from_slice\<close> on a key that is not 32 bytes long.\<close>

definition check_counter_replay ::
  "(bytes \<Rightarrow> bytes) \<Rightarrow> ('c, bytes, sliding_window) lru_ops \<Rightarrow> bytes \<Rightarrow> bytes \<Rightarrow> bytes \<Rightarrow> 'c mutex \<Rightarrow>
   (replay_check option \<times> 'c mutex) option" where
  "check_counter_replay H L derived_psk random_copy masked_counter m =
     (case derive_counter_mask H derived_psk random_copy of
        None \<Rightarrow> None
      | Some msk \<Rightarrow>
          let (session_id, sequence) = counter_ids masked_counter msk in
          if length derived_psk \<noteq> 32 then None
          else
            let cache_key = derive_counter_cache_key H (derived_psk @ u64_to_be session_id) in
            Some (case m of
                Poisoned \<Rightarrow> (None, Poisoned)
              | Guarded c \<Rightarrow>
                  let (entry, c') = lru_get L cache_key c;
                      ok = Some \<lparr>rc_cache_key = cache_key, rc_sequence = sequence\<rparr>
                  in (case entry of
                        Some window \<Rightarrow> if sw_check window sequence then ok else None
                      | None \<Rightarrow> ok, Guarded c')))"

definition commit_counter_replay ::
  "('c, bytes, sliding_window) lru_ops \<Rightarrow> replay_check \<Rightarrow> 'c mutex \<Rightarrow> bool \<times> 'c mutex" where
  "commit_counter_replay L rc m =
     (case m of
        Poisoned \<Rightarrow> (False, Poisoned)
      | Guarded c \<Rightarrow>
          let (entry, c') = lru_get L (rc_cache_key rc) c in
          (case entry of
             Some window \<Rightarrow>
               let (ok, window') = sw_commit window (rc_sequence rc)
               in (ok, Guarded (lru_write L (rc_cache_key rc) window' c'))
           | None \<Rightarrow> (True, Guarded (lru_put L (rc_cache_key rc) (sw_new (rc_sequence rc)) c'))))"

text \<open>Probes and commits of any number of connections, in the order in which they take the lock. A
  probe that panics does so before it locks.\<close>

datatype counter_event = Probe bytes bytes bytes | Commit replay_check

fun counter_step ::
  "(bytes \<Rightarrow> bytes) \<Rightarrow> ('c, bytes, sliding_window) lru_ops \<Rightarrow> counter_event \<Rightarrow> 'c mutex \<Rightarrow> bool \<times> 'c mutex" where
  "counter_step H L (Probe psk rnd mc) m =
     (case check_counter_replay H L psk rnd mc m of
        None \<Rightarrow> (False, m)
      | Some (r, m') \<Rightarrow> (r \<noteq> None, m'))"
| "counter_step H L (Commit rc) m = commit_counter_replay L rc m"

fun counter_run ::
  "(bytes \<Rightarrow> bytes) \<Rightarrow> ('c, bytes, sliding_window) lru_ops \<Rightarrow> counter_event list \<Rightarrow> 'c mutex \<Rightarrow> bool list" where
  "counter_run H L [] m = []"
| "counter_run H L (e # es) m = (let (b, m') = counter_step H L e m in b # counter_run H L es m')"

text \<open>Reference: per session the set of accepted sequence numbers.\<close>

fun event_ticket :: "(bytes \<Rightarrow> bytes) \<Rightarrow> counter_event \<Rightarrow> replay_check option" where
  "event_ticket H (Probe psk rnd mc) =
     (case derive_counter_mask H psk rnd of
        None \<Rightarrow> None
      | Some msk \<Rightarrow>
          if length psk \<noteq> 32 then None
          else Some \<lparr>rc_cache_key = derive_counter_cache_key H (psk @ u64_to_be (fst (counter_ids mc msk))),
                     rc_sequence = snd (counter_ids mc msk)\<rparr>)"
| "event_ticket H (Commit rc) = Some rc"

definition ref_fresh :: "(bytes \<Rightarrow> nat set) \<Rightarrow> replay_check \<Rightarrow> bool" where
  "ref_fresh A rc \<longleftrightarrow> A (rc_cache_key rc) = {} \<or> ref_accepts (A (rc_cache_key rc)) (unat (rc_sequence rc))"

definition ref_admit :: "(bytes \<Rightarrow> nat set) \<Rightarrow> replay_check \<Rightarrow> bytes \<Rightarrow> nat set" where
  "ref_admit A rc = A(rc_cache_key rc := insert (unat (rc_sequence rc)) (A (rc_cache_key rc)))"

fun ref_step :: "(bytes \<Rightarrow> bytes) \<Rightarrow> counter_event \<Rightarrow> (bytes \<Rightarrow> nat set) \<Rightarrow> bool \<times> (bytes \<Rightarrow> nat set)" where
  "ref_step H (Probe psk rnd mc) A =
     (case event_ticket H (Probe psk rnd mc) of None \<Rightarrow> (False, A) | Some rc \<Rightarrow> (ref_fresh A rc, A))"
| "ref_step H (Commit rc) A = (if ref_fresh A rc then (True, ref_admit A rc) else (False, A))"

fun ref_counter_run :: "(bytes \<Rightarrow> bytes) \<Rightarrow> counter_event list \<Rightarrow> (bytes \<Rightarrow> nat set) \<Rightarrow> bool list" where
  "ref_counter_run H [] A = []"
| "ref_counter_run H (e # es) A = (let (b, A') = ref_step H e A in b # ref_counter_run H es A')"

fun committed_keys :: "counter_event list \<Rightarrow> bytes set" where
  "committed_keys [] = {}"
| "committed_keys (Probe psk rnd mc # es) = committed_keys es"
| "committed_keys (Commit rc # es) = insert (rc_cache_key rc) (committed_keys es)"

section \<open>Client ephemerals\<close>

text \<open>Instants are nanoseconds since an arbitrary origin; \<^verbatim>\<open>duration_since\<close> saturates at zero. The
  loop is a \<^verbatim>\<open>while let\<close> with no counter of its own; \<^verbatim>\<open>evict_expired_view\<close> shows that it ends.\<close>

definition RETENTION_NANOS :: nat where "RETENTION_NANOS = REPLAY_RETENTION_SECS * 1000000000"

partial_function (option) evict_expired ::
  "('c, bytes, nat) lru_ops \<Rightarrow> nat \<Rightarrow> 'c \<Rightarrow> 'c option" where
  [code]: "evict_expired L now c =
     (case lru_peek L c of
        None \<Rightarrow> Some c
      | Some (k, seen_at) \<Rightarrow>
          if now - seen_at \<le> RETENTION_NANOS then Some c
          else evict_expired L now (lru_pop L c))"

definition is_replay ::
  "('c, bytes, nat) lru_ops \<Rightarrow> nat \<Rightarrow> bytes \<Rightarrow> 'c mutex \<Rightarrow> (bool \<times> 'c mutex) option" where
  "is_replay L now client_ephemeral m =
     (if length client_ephemeral \<noteq> 32 then Some (True, m)
      else case m of
        Poisoned \<Rightarrow> Some (True, Poisoned)
      | Guarded c \<Rightarrow>
          (case evict_expired L now c of
             None \<Rightarrow> None
           | Some c' \<Rightarrow>
               if lru_contains L client_ephemeral c' then Some (True, Guarded c')
               else Some (False, Guarded (lru_put L client_ephemeral now c'))))"

section \<open>Facts about the caches\<close>

lemma lru_okD:
  assumes "lru_ok cap L view"
  shows "distinct (map fst (view c))" "length (view c) \<le> cap"
    "fst (lru_get L k c) = map_of (view c) k" "view (snd (lru_get L k c)) = promote k (view c)"
    "view (lru_write L k v c) = overwrite k v (view c)"
    "view (lru_put L k v c) = take cap ((k, v) # without k (view c))"
    "lru_contains L k c \<longleftrightarrow> k \<in> fst ` set (view c)"
    "lru_peek L c = (if view c = [] then None else Some (last (view c)))"
    "view (lru_pop L c) = butlast (view c)"
  using assms by (auto simp: lru_ok_def)

lemma map_of_without: "map_of (without k es) = (map_of es)(k := None)"
  by (induction es) (auto simp: without_def)

lemma map_of_promote [simp]: "map_of (promote k es) = map_of es"
  by (auto simp: promote_def map_of_without split: option.splits)

lemma map_of_overwrite: "map_of (overwrite k v es) = (if map_of es k = None then map_of es else (map_of es)(k \<mapsto> v))"
  by (induction es) (auto simp: overwrite_def)

lemma without_absent: "map_of es k = None \<Longrightarrow> without k es = es"
  by (auto simp: without_def map_of_eq_None_iff filter_id_conv)

lemma distinct_keys_card: "distinct (map fst es) \<Longrightarrow> length es = card (fst ` set es)"
  by (metis distinct_card length_map list.set_map)

fun entry_inv :: "sliding_window option \<Rightarrow> nat set \<Rightarrow> bool" where
  "entry_inv None S = (S = {})"
| "entry_inv (Some w) S = sw_rep w S"

definition counter_inv :: "(bytes \<Rightarrow> nat set) \<Rightarrow> bytes set \<Rightarrow> (bytes \<times> sliding_window) list \<Rightarrow> bool" where
  "counter_inv A K es \<longleftrightarrow>
     (\<forall>k. entry_inv (map_of es k) (A k)) \<and> fst ` set es \<subseteq> K"

lemma counter_inv_none: "counter_inv A K es \<Longrightarrow> map_of es k = None \<Longrightarrow> A k = {}"
  by (metis counter_inv_def entry_inv.simps)

lemma counter_inv_some: "counter_inv A K es \<Longrightarrow> map_of es k = Some w \<Longrightarrow> sw_rep w (A k)"
  by (metis counter_inv_def entry_inv.simps)

lemma sw_rep_nonempty: "sw_rep w H \<Longrightarrow> H \<noteq> {}"
  by (simp add: sw_rep_def)

lemma counter_inv_fresh:
  assumes "counter_inv A K es"
  shows "ref_fresh A rc = (case map_of es (rc_cache_key rc) of None \<Rightarrow> True | Some w \<Rightarrow> sw_check w (rc_sequence rc))"
proof (cases "map_of es (rc_cache_key rc)")
  case None
  then show ?thesis using counter_inv_none [OF assms None] by (simp add: ref_fresh_def)
next
  case (Some w)
  then show ?thesis
    using counter_inv_some [OF assms Some] sw_check_ref sw_rep_nonempty by (simp add: ref_fresh_def)
qed

lemma keys_promote [simp]: "fst ` set (promote k es) = fst ` set es"
  by (metis dom_map_of_conv_image_fst map_of_promote)

lemma distinct_promote: "distinct (map fst es) \<Longrightarrow> distinct (map fst (promote k es))"
  by (auto simp: promote_def without_def distinct_map_filter split: option.splits)

lemma keys_overwrite [simp]: "fst ` set (overwrite k v es) = fst ` set es"
  by (induction es) (auto simp: overwrite_def)

lemma counter_inv_promote [simp]: "counter_inv A K (promote k es) = counter_inv A K es"
  by (simp add: counter_inv_def)

lemma counter_inv_overwrite:
  assumes inv: "counter_inv A K es" and w: "map_of es (rc_cache_key rc) = Some w"
    and ok: "sw_check w (rc_sequence rc)"
  shows "counter_inv (ref_admit A rc) K
    (overwrite (rc_cache_key rc) (snd (sw_commit w (rc_sequence rc))) es)"
proof -
  have "sw_rep (snd (sw_commit w (rc_sequence rc))) (ref_admit A rc (rc_cache_key rc))"
    using sw_commit_rep [OF counter_inv_some [OF inv w] ok] by (simp add: ref_admit_def)
  then show ?thesis
    using inv w by (auto simp: counter_inv_def map_of_overwrite ref_admit_def)
qed

lemma counter_inv_same:
  assumes "counter_inv A K es" "map_of es k = Some w"
  shows "counter_inv A K (overwrite k w es)"
proof -
  have "(map_of es)(k \<mapsto> w) = map_of es" using assms(2) by auto
  then show ?thesis using assms by (simp add: counter_inv_def map_of_overwrite)
qed

lemma counter_inv_put:
  assumes inv: "counter_inv A K es" and none: "map_of es (rc_cache_key rc) = None"
    and K: "finite K" "card K \<le> cap" "rc_cache_key rc \<in> K" and d: "distinct (map fst es)"
  shows "counter_inv (ref_admit A rc) K
    (take cap ((rc_cache_key rc, sw_new (rc_sequence rc)) # without (rc_cache_key rc) es))"
proof -
  let ?k = "rc_cache_key rc"
  have "?k \<notin> fst ` set es" using none by (simp add: map_of_eq_None_iff)
  then have "insert ?k (fst ` set es) \<subseteq> K" "card (insert ?k (fst ` set es)) = Suc (length es)"
    using inv K d by (auto simp: counter_inv_def distinct_keys_card)
  then have "Suc (length es) \<le> cap" using K card_mono by (metis le_trans)
  then have "take cap ((?k, sw_new (rc_sequence rc)) # without ?k es) = (?k, sw_new (rc_sequence rc)) # es"
    by (simp add: without_absent none)
  moreover have "A ?k = {}" by (rule counter_inv_none [OF inv none])
  ultimately show ?thesis
    using inv K sw_rep_new [of "rc_sequence rc"] by (auto simp: counter_inv_def ref_admit_def)
qed

lemma counter_step_ref:
  assumes L: "lru_ok cap L view" and inv: "counter_inv A K (view c)"
    and K: "finite K" "card K \<le> cap" "committed_keys [e] \<subseteq> K"
  obtains c' where "counter_step H L e (Guarded c) = (fst (ref_step H e A), Guarded c')"
    "counter_inv (snd (ref_step H e A)) K (view c')"
proof (cases e)
  case (Probe psk rnd mc)
  show ?thesis
  proof (cases "event_ticket H e")
    case None
    then have "counter_step H L e (Guarded c) = (False, Guarded c)"
      by (auto simp: Probe check_counter_replay_def split: option.splits prod.splits if_splits)
    then show ?thesis using None Probe inv that by simp
  next
    case (Some rc)
    have get: "fst (lru_get L (rc_cache_key rc) c) = map_of (view c) (rc_cache_key rc)"
      "view (snd (lru_get L (rc_cache_key rc) c)) = promote (rc_cache_key rc) (view c)"
      using L by (simp_all add: lru_ok_def)
    have "counter_step H L e (Guarded c) = (ref_fresh A rc, Guarded (snd (lru_get L (rc_cache_key rc) c)))"
      using Some get counter_inv_fresh [OF inv, of rc]
      by (auto simp: Probe check_counter_replay_def Let_def case_prod_beta split: option.splits if_splits)
    then show ?thesis using Some Probe inv get that by simp
  qed
next
  case (Commit rc)
  let ?k = "rc_cache_key rc"
  let ?c = "snd (lru_get L ?k c)"
  have get: "lru_get L ?k c = (map_of (view c) ?k, ?c)" "view ?c = promote ?k (view c)"
    using L by (simp_all add: lru_ok_def prod_eq_iff)
  have inv': "counter_inv A K (view ?c)" using inv get by simp
  show ?thesis
  proof (cases "map_of (view c) ?k")
    case None
    have "map_of (view ?c) ?k = None" using None get by simp
    then have "counter_inv (ref_admit A rc) K (view (lru_put L ?k (sw_new (rc_sequence rc)) ?c))"
      unfolding lru_okD(6) [OF L]
      using counter_inv_put [OF inv' _ K(1,2) _ lru_okD(1) [OF L]] K(3) Commit by simp
    moreover have "ref_fresh A rc" using None counter_inv_fresh [OF inv, of rc] by simp
    moreover have "fst (lru_get L ?k c) = None" using None get by (simp add: prod_eq_iff)
    ultimately show ?thesis
      by (intro that [of "lru_put L ?k (sw_new (rc_sequence rc)) ?c"])
         (simp_all add: Commit commit_counter_replay_def case_prod_beta)
  next
    case (Some w)
    let ?c' = "lru_write L ?k (snd (sw_commit w (rc_sequence rc))) ?c"
    have v: "view ?c' = overwrite ?k (snd (sw_commit w (rc_sequence rc))) (view ?c)"
      using L by (simp add: lru_ok_def)
    have r: "counter_step H L e (Guarded c) = (sw_check w (rc_sequence rc), Guarded ?c')"
      using Some lru_okD(3) [OF L, of ?k c] Commit sw_commit_result [of w "rc_sequence rc"]
      by (simp add: commit_counter_replay_def case_prod_beta)
    note r' = r [unfolded Commit]
    have f: "ref_fresh A rc = sw_check w (rc_sequence rc)"
      using Some counter_inv_fresh [OF inv, of rc] by simp
    have w: "map_of (view ?c) ?k = Some w" using Some get by simp
    show ?thesis
    proof (cases "sw_check w (rc_sequence rc)")
      case True
      then show ?thesis
        using counter_inv_overwrite [OF inv' w] by (intro that [of ?c']) (simp_all add: r' f lru_okD(5) [OF L] Commit del: counter_step.simps)
    next
      case False
      then show ?thesis
        using counter_inv_same [OF inv' w] sw_commit_reject [of w "rc_sequence rc"]
        by (intro that [of ?c']) (simp_all add: r' f lru_okD(5) [OF L] Commit del: counter_step.simps)
    qed
  qed
qed

lemma committed_keys_finite [simp]: "finite (committed_keys es)"
  by (induction es rule: committed_keys.induct) auto

lemma counter_run_ref:
  assumes "lru_ok cap L view" "counter_inv A K (view c)" "finite K" "card K \<le> cap"
    "committed_keys es \<subseteq> K"
  shows "counter_run H L es (Guarded c) = ref_counter_run H es A"
  using assms(2,5)
proof (induction es arbitrary: c A)
  case Nil
  then show ?case by simp
next
  case (Cons e es)
  have sub: "committed_keys [e] \<subseteq> K" "committed_keys es \<subseteq> K" using Cons.prems by (cases e; simp)+
  obtain c' where c': "counter_step H L e (Guarded c) = (fst (ref_step H e A), Guarded c')"
    "counter_inv (snd (ref_step H e A)) K (view c')"
    using counter_step_ref [OF assms(1) Cons.prems(1) assms(3,4) sub(1)] by metis
  then show ?case using Cons.IH [OF c'(2) sub(2)] by (simp add: case_prod_beta)
qed

section \<open>Ephemeral cache\<close>

fun ephemeral_run ::
  "('c, bytes, nat) lru_ops \<Rightarrow> (nat \<times> bytes) list \<Rightarrow> 'c mutex \<Rightarrow> (bool list \<times> 'c mutex) option" where
  "ephemeral_run L [] m = Some ([], m)"
| "ephemeral_run L ((now, key) # evs) m =
     (case is_replay L now key m of
        None \<Rightarrow> None
      | Some (b, m') \<Rightarrow> map_option (\<lambda>(bs, m''). (b # bs, m'')) (ephemeral_run L evs m'))"

definition live_entries :: "nat \<Rightarrow> (bytes \<times> nat) list \<Rightarrow> (bytes \<times> nat) list" where
  "live_entries now es = rev (dropWhile (\<lambda>e. RETENTION_NANOS < now - snd e) (rev es))"

lemma evict_expired_view:
  assumes L: "lru_ok cap L view"
  shows "\<exists>c'. evict_expired L now c = Some c' \<and> view c' = live_entries now (view c)"
proof (induction "length (view c)" arbitrary: c)
  case 0
  then show ?case
    by (subst evict_expired.simps) (simp add: lru_okD(8) [OF L] live_entries_def)
next
  case (Suc n)
  obtain es k t where es: "view c = es @ [(k, t)]"
    by (metis Suc.hyps(2) length_Suc_conv_rev surj_pair)
  then have peek: "lru_peek L c = Some (k, t)" by (simp add: lru_okD(8) [OF L])
  show ?case
  proof (cases "now - t \<le> RETENTION_NANOS")
    case True
    then show ?thesis by (subst evict_expired.simps) (simp add: peek es live_entries_def)
  next
    case False
    have pop: "view (lru_pop L c) = es" by (simp add: lru_okD(9) [OF L] es)
    have "evict_expired L now c = evict_expired L now (lru_pop L c)"
      using False by (subst evict_expired.simps) (simp add: peek)
    moreover obtain c' where "evict_expired L now (lru_pop L c) = Some c'" "view c' = live_entries now es"
      using Suc.hyps(1) [of "lru_pop L c"] Suc.hyps(2) pop es by auto
    ultimately show ?thesis using False es by (simp add: live_entries_def)
  qed
qed

lemma live_entries_split:
  obtains dead where "es = live_entries now es @ dead" "\<forall>e \<in> set dead. RETENTION_NANOS < now - snd e"
proof -
  let ?P = "\<lambda>e :: bytes \<times> nat. RETENTION_NANOS < now - snd e"
  have "rev (rev es) = rev (takeWhile ?P (rev es) @ dropWhile ?P (rev es))" by simp
  then have "es = live_entries now es @ rev (takeWhile ?P (rev es))"
    by (simp only: rev_append rev_rev_ident live_entries_def)
  moreover have "\<forall>e \<in> set (rev (takeWhile ?P (rev es))). ?P e" by (auto dest: set_takeWhileD)
  ultimately show ?thesis using that by blast
qed

lemma live_entries_nth:
  assumes "i < length es" "now - snd (es ! i) \<le> RETENTION_NANOS"
  shows "i < length (live_entries now es) \<and> live_entries now es ! i = es ! i"
proof -
  obtain dead where d: "es = live_entries now es @ dead"
    and dead: "\<forall>e \<in> set dead. RETENTION_NANOS < now - snd e" by (rule live_entries_split)
  let ?n = "length (live_entries now es)"
  have at: "es ! i = (if i < ?n then live_entries now es ! i else dead ! (i - ?n))"
    by (subst d) (rule nth_append)
  have len: "length es = ?n + length dead" by (subst d) simp
  have "i < ?n"
  proof (rule ccontr)
    assume n: "\<not> i < ?n"
    then have "dead ! (i - ?n) \<in> set dead" using len assms(1) by (intro nth_mem) linarith
    then show False using at n dead assms(2) by fastforce
  qed
  then show ?thesis using at by simp
qed

lemma is_replay_step:
  assumes L: "lru_ok cap L view" and len: "length key = 32"
  obtains c' where
    "is_replay L now key (Guarded c) = Some (key \<in> fst ` set (live_entries now (view c)), Guarded c')"
    "view c' = (if key \<in> fst ` set (live_entries now (view c)) then live_entries now (view c)
                else take cap ((key, now) # live_entries now (view c)))"
proof -
  obtain c1 where c1: "evict_expired L now c = Some c1" "view c1 = live_entries now (view c)"
    using evict_expired_view [OF L] by blast
  then show ?thesis
    using that [of "if key \<in> fst ` set (live_entries now (view c)) then c1 else lru_put L key now c1"] len
    by (simp add: is_replay_def lru_okD(6,7) [OF L] without_absent map_of_eq_None_iff)
qed

lemma is_replay_total:
  assumes L: "lru_ok cap L view"
  obtains b c' where "is_replay L now key (Guarded c) = Some (b, Guarded c')"
    "fst ` set (view c') \<subseteq> insert key (fst ` set (view c))"
    "b \<Longrightarrow> length key = 32 \<Longrightarrow> key \<in> fst ` set (view c)"
    "\<And>k t i. i < length (view c) \<Longrightarrow> view c ! i = (k, t) \<Longrightarrow> now - t \<le> RETENTION_NANOS \<Longrightarrow> Suc i < cap \<Longrightarrow>
       \<exists>j \<le> Suc i. j < length (view c') \<and> view c' ! j = (k, t)"
proof (cases "length key = 32")
  case False
  then have "is_replay L now key (Guarded c) = Some (True, Guarded c)" by (simp add: is_replay_def)
  then show ?thesis using that [of True c] False by (metis le_SucI order_refl subset_insertI)
next
  case True
  let ?lv = "live_entries now (view c)"
  obtain c' where c': "is_replay L now key (Guarded c) = Some (key \<in> fst ` set ?lv, Guarded c')"
    "view c' = (if key \<in> fst ` set ?lv then ?lv else take cap ((key, now) # ?lv))"
    using is_replay_step [OF L True] by metis
  obtain dead where d: "view c = ?lv @ dead" by (rule live_entries_split)
  then have sub: "fst ` set ?lv \<subseteq> fst ` set (view c)" by (metis image_mono set_append sup_ge1)
  have keys: "fst ` set (view c') \<subseteq> insert key (fst ` set (view c))"
    using c'(2) sub image_mono [OF set_take_subset [of cap "(key, now) # ?lv"], of fst]
    by (cases "key \<in> fst ` set ?lv") (simp, blast, simp, blast)
  have track: "\<exists>j \<le> Suc i. j < length (view c') \<and> view c' ! j = (k, t)"
    if a: "i < length (view c)" "view c ! i = (k, t)" "now - t \<le> RETENTION_NANOS" "Suc i < cap" for k t i
  proof -
    have i: "i < length ?lv" "?lv ! i = (k, t)" using live_entries_nth [of i "view c" now] a by auto
    then show ?thesis
      using c'(2) a(4) by (cases "key \<in> fst ` set ?lv") (auto intro: exI [of _ i] exI [of _ "Suc i"])
  qed
  show ?thesis using that [OF c'(1) keys _ track] sub by blast
qed

lemma ephemeral_run_append:
  "ephemeral_run L (xs @ ys) m =
     (case ephemeral_run L xs m of None \<Rightarrow> None
      | Some (bs, m') \<Rightarrow> map_option (\<lambda>(bs', m''). (bs @ bs', m'')) (ephemeral_run L ys m'))"
proof (induction xs arbitrary: m)
  case Nil
  then show ?case by (simp add: option.map_id)
next
  case (Cons e xs)
  obtain now key where e: "e = (now, key)" by (cases e)
  show ?case
    by (simp add: e Cons option.map_comp comp_def case_prod_beta split: option.splits)
qed

lemma ephemeral_run_total:
  assumes L: "lru_ok cap L view"
  shows "\<exists>bs c'. ephemeral_run L evs (Guarded c) = Some (bs, Guarded c') \<and> length bs = length evs \<and>
     fst ` set (view c') \<subseteq> snd ` set evs \<union> fst ` set (view c)"
proof (induction evs arbitrary: c)
  case Nil
  then show ?case by simp
next
  case (Cons e evs)
  obtain now key where e: "e = (now, key)" by (cases e)
  obtain b c1 where c1: "is_replay L now key (Guarded c) = Some (b, Guarded c1)"
    "fst ` set (view c1) \<subseteq> insert key (fst ` set (view c))"
    using is_replay_total [OF L] by metis
  obtain bs c' where "ephemeral_run L evs (Guarded c1) = Some (bs, Guarded c')" "length bs = length evs"
    "fst ` set (view c') \<subseteq> snd ` set evs \<union> fst ` set (view c1)" using Cons.IH by blast
  then show ?case using c1 e by auto
qed

lemma ephemeral_run_keeps:
  assumes L: "lru_ok cap L view" and i: "i < length (view c)" "view c ! i = (k, t)"
    and ev: "\<forall>e \<in> set evs. fst e - t \<le> RETENTION_NANOS" and cap: "i + length evs < cap"
    and run: "ephemeral_run L evs (Guarded c) = Some (bs, Guarded c')"
  shows "(k, t) \<in> set (view c')"
  using i ev cap run
proof (induction evs arbitrary: c i bs)
  case Nil
  then show ?case by (metis Pair_inject ephemeral_run.simps(1) mutex.inject nth_mem option.inject)
next
  case (Cons e evs)
  obtain now key where e: "e = (now, key)" by (cases e)
  obtain b c1 where c1: "is_replay L now key (Guarded c) = Some (b, Guarded c1)"
    "\<And>k t i. i < length (view c) \<Longrightarrow> view c ! i = (k, t) \<Longrightarrow> now - t \<le> RETENTION_NANOS \<Longrightarrow> Suc i < cap \<Longrightarrow>
       \<exists>j \<le> Suc i. j < length (view c1) \<and> view c1 ! j = (k, t)"
    using is_replay_total [OF L, of now key c] by metis
  obtain j where j: "j \<le> Suc i" "j < length (view c1)" "view c1 ! j = (k, t)"
    using c1(2) [of i k t] Cons.prems e by auto
  obtain bs1 where "ephemeral_run L evs (Guarded c1) = Some (bs1, Guarded c')"
    using Cons.prems(5) c1(1) e by auto
  then show ?case using Cons.IH [OF j(2,3)] Cons.prems(3,4) j(1) by simp
qed

section \<open>Properties\<close>

lemma ref_admitted_rejected:
  assumes "unat (rc_sequence rc) \<in> A (rc_cache_key rc)" "j < length es" "es ! j = Commit rc"
  shows "\<not> ref_counter_run H es A ! j"
  using assms
proof (induction es arbitrary: A j)
  case Nil
  then show ?case by simp
next
  case (Cons e es)
  have keep: "unat (rc_sequence rc) \<in> snd (ref_step H e A) (rc_cache_key rc)"
    using Cons.prems(1) by (cases e) (auto simp: ref_admit_def split: option.splits)
  have rej: "e = Commit rc \<Longrightarrow> \<not> fst (ref_step H e A)"
    using Cons.prems(1) by (auto simp: ref_fresh_def ref_accepts_def)
  show ?case
    using Cons.prems(2,3) rej Cons.IH [of "snd (ref_step H e A)", OF keep]
    by (cases j) (auto simp: case_prod_beta)
qed

lemma ref_accepted_once:
  assumes "i < j" "j < length es" "es ! i = Commit rc" "es ! j = Commit rc" "ref_counter_run H es A ! i"
  shows "\<not> ref_counter_run H es A ! j"
  using assms
proof (induction es arbitrary: A i j)
  case Nil
  then show ?case by simp
next
  case (Cons e es)
  obtain j' where j: "j = Suc j'" using Cons.prems(1) by (cases j) auto
  show ?case
  proof (cases i)
    case 0
    then have "ref_fresh A rc" using Cons.prems by (auto simp: case_prod_beta split: if_splits)
    then have "unat (rc_sequence rc) \<in> snd (ref_step H e A) (rc_cache_key rc)"
      using Cons.prems 0 by (simp add: ref_admit_def)
    then show ?thesis
      using ref_admitted_rejected [of rc "snd (ref_step H e A)" j' es H] Cons.prems j
      by (simp add: case_prod_beta)
  next
    case (Suc i')
    then show ?thesis using Cons.IH [of i' j'] Cons.prems j by (simp add: case_prod_beta)
  qed
qed

lemma counter_inv_empty: "counter_inv (\<lambda>_. {}) K []"
  by (simp add: counter_inv_def)

text \<open>C25: The per-session replay windows refine the reference that remembers every accepted
  sequence number: for any interleaving of probes and commits of any number of connections, each
  answer is that of a set per session with a horizon of 64 below the highest accepted number, as
  long as no more than 4096 sessions commit (the capacity of the counter cache).\<close>

theorem counter_windows_refine_sets:
  assumes "lru_ok MAX_COUNTER_CACHE_ENTRIES L view" "view c = []"
    and "card (committed_keys es) \<le> MAX_COUNTER_CACHE_ENTRIES"
  shows "counter_run H L es (Guarded c) = ref_counter_run H es (\<lambda>_. {})"
  using counter_run_ref [OF assms(1) _ _ assms(3)] counter_inv_empty assms(2) by simp


text \<open>C27: The replay check of client ephemerals always returns (the eviction loop ends). A key that
  was never presented before is accepted, and of two presentations of the same key at most 600
  seconds apart, with fewer than 65536 presentations in between, at most one is accepted.\<close>

theorem ephemeral_replay_rejected:
  assumes L: "lru_ok MAX_REPLAY_CACHE_ENTRIES L view" and start: "view c = []"
    and key: "length key = 32" and time: "now' - now \<le> RETENTION_NANOS"
    and mono: "\<forall>e \<in> set mid. fst e \<le> now'" and few: "length mid < MAX_REPLAY_CACHE_ENTRIES"
  shows "\<exists>bs b bs' b' c'. ephemeral_run L (pre @ (now, key) # mid @ [(now', key)]) (Guarded c)
      = Some (bs @ b # bs' @ [b'], Guarded c') \<and> length bs = length pre \<and> length bs' = length mid \<and>
      (key \<notin> snd ` set pre \<longrightarrow> \<not> b) \<and> (b \<or> b')"
proof -
  obtain bs c1 where r1: "ephemeral_run L pre (Guarded c) = Some (bs, Guarded c1)" "length bs = length pre"
    "fst ` set (view c1) \<subseteq> snd ` set pre" using ephemeral_run_total [OF L, of pre c] start by auto
  obtain b c2 where r2: "is_replay L now key (Guarded c1) = Some (b, Guarded c2)"
    "b \<Longrightarrow> key \<in> fst ` set (view c1)" using is_replay_total [OF L, of now key c1] key by metis
  have acc: "\<not> b \<Longrightarrow> 0 < length (view c2) \<and> view c2 ! 0 = (key, now)"
  proof -
    assume nb: "\<not> b"
    obtain c' where "is_replay L now key (Guarded c1)
        = Some (key \<in> fst ` set (live_entries now (view c1)), Guarded c')"
      "view c' = (if key \<in> fst ` set (live_entries now (view c1)) then live_entries now (view c1)
        else take MAX_REPLAY_CACHE_ENTRIES ((key, now) # live_entries now (view c1)))"
      using is_replay_step [OF L key] by metis
    moreover have "0 < MAX_REPLAY_CACHE_ENTRIES" by (simp add: MAX_REPLAY_CACHE_ENTRIES_def)
    ultimately show ?thesis using nb r2(1) by (cases MAX_REPLAY_CACHE_ENTRIES) (auto split: if_splits)
  qed
  obtain bs' c3 where r3: "ephemeral_run L mid (Guarded c2) = Some (bs', Guarded c3)" "length bs' = length mid"
    using ephemeral_run_total [OF L] by blast
  obtain c4 where r4: "is_replay L now' key (Guarded c3)
      = Some (key \<in> fst ` set (live_entries now' (view c3)), Guarded c4)"
    using is_replay_step [OF L key] by metis
  have "key \<in> fst ` set (live_entries now' (view c3))" if "\<not> b"
  proof -
    have "\<forall>e \<in> set mid. fst e - now \<le> RETENTION_NANOS" using mono time by fastforce
    then have "(key, now) \<in> set (view c3)"
      using ephemeral_run_keeps [OF L, of 0 c2 key now mid bs' c3] acc [OF that] r3 few by simp
    then obtain i where "i < length (view c3)" "view c3 ! i = (key, now)" by (auto simp: in_set_conv_nth)
    then have "(key, now) \<in> set (live_entries now' (view c3))"
      using live_entries_nth [of i "view c3" now'] time by (metis nth_mem snd_conv)
    then show ?thesis by force
  qed
  then show ?thesis
    using r1 r2 r3 r4
    by (intro exI [of _ bs] exI [of _ b] exI [of _ bs'] exI [of _ "key \<in> fst ` set (live_entries now' (view c3))"]
        exI [of _ c4]) (auto simp: ephemeral_run_append)
qed

section \<open>A list implementation\<close>

text \<open>The documented behaviour of the LRU map can hold: the list from most to least recently used,
  normalised, has it.\<close>

definition norm_entries :: "nat \<Rightarrow> ('k \<times> 'v) list \<Rightarrow> ('k \<times> 'v) list" where
  "norm_entries cap es = take cap (AList.clearjunk es)"

definition list_lru :: "nat \<Rightarrow> (('k \<times> 'v) list, 'k, 'v) lru_ops" where
  "list_lru cap =
     \<lparr>lru_get = (\<lambda>k es. (map_of (norm_entries cap es) k, promote k (norm_entries cap es))),
      lru_write = (\<lambda>k v es. overwrite k v (norm_entries cap es)),
      lru_put = (\<lambda>k v es. take cap ((k, v) # without k (norm_entries cap es))),
      lru_contains = (\<lambda>k es. map_of (norm_entries cap es) k \<noteq> None),
      lru_peek = (\<lambda>es. if norm_entries cap es = [] then None else Some (last (norm_entries cap es))),
      lru_pop = (\<lambda>es. butlast (norm_entries cap es))\<rparr>"

definition normal_entries :: "nat \<Rightarrow> ('k \<times> 'v) list \<Rightarrow> bool" where
  "normal_entries cap es \<longleftrightarrow> distinct (map fst es) \<and> length es \<le> cap"

lemma normal_norm [simp]: "normal_entries cap (norm_entries cap es)"
  by (simp add: normal_entries_def norm_entries_def take_map [symmetric] distinct_clearjunk)

lemma norm_normal [simp]: "normal_entries cap es \<Longrightarrow> norm_entries cap es = es"
  by (simp add: normal_entries_def norm_entries_def distinct_clearjunk_id)

lemma length_without_le: "map_of es k = Some v \<Longrightarrow> length (without k es) < length es"
  unfolding without_def by (rule length_filter_less [of "(k, v)"]) (auto dest: map_of_SomeD)

lemma normal_ops:
  assumes "normal_entries cap es"
  shows "normal_entries cap (promote k es)" "normal_entries cap (overwrite k v es)"
    "normal_entries cap (take cap ((k, v) # without k es))" "normal_entries cap (butlast es)"
proof -
  have d: "distinct (map fst es)" "length es \<le> cap" using assms by (auto simp: normal_entries_def)
  show "normal_entries cap (promote k es)"
    using d distinct_promote [OF d(1), of k] length_without_le [of es k]
    by (fastforce simp: normal_entries_def promote_def split: option.splits)
  have "map fst (overwrite k v es) = map fst es" "length (overwrite k v es) = length es"
    by (auto simp: overwrite_def)
  then show "normal_entries cap (overwrite k v es)"
    using d by (simp add: normal_entries_def)
  have "distinct (map fst ((k, v) # without k es))"
    using d by (auto simp: without_def distinct_map_filter)
  then show "normal_entries cap (take cap ((k, v) # without k es))"
    by (metis distinct_take length_take min.cobounded2 normal_entries_def take_map)
  show "normal_entries cap (butlast es)"
    using d by (simp add: normal_entries_def map_butlast distinct_butlast)
qed

lemma list_lru_ok:
  "lru_ok cap (list_lru cap :: (('k \<times> 'v) list, 'k, 'v) lru_ops) (norm_entries cap)"
proof -
  have n: "normal_entries cap (norm_entries cap c)" for c :: "('k \<times> 'v) list" by simp
  have "distinct (map fst (norm_entries cap c)) \<and> length (norm_entries cap c) \<le> cap" for c :: "('k \<times> 'v) list"
    using n by (simp add: normal_entries_def)
  moreover have "lru_contains (list_lru cap) k c \<longleftrightarrow> k \<in> fst ` set (norm_entries cap c)"
    for k and c :: "('k \<times> 'v) list"
    by (simp add: list_lru_def map_of_eq_None_iff)
  ultimately show ?thesis
    unfolding lru_ok_def by (intro conjI allI) (simp_all add: list_lru_def normal_ops [OF n])
qed

definition demo_ticket :: replay_check where
  "demo_ticket = \<lparr>rc_cache_key = replicate 16 1, rc_sequence = 5\<rparr>"

theorem counter_windows_refine_sets_witness:
  "counter_run (\<lambda>_. replicate 32 0) (list_lru MAX_COUNTER_CACHE_ENTRIES)
     [Commit demo_ticket, Probe (replicate 32 7) (replicate 32 9) (replicate 8 1),
      Commit (demo_ticket\<lparr>rc_sequence := 3\<rparr>), Commit demo_ticket] (Guarded [])
   = [True, True, True, False]"
proof -
  have "norm_entries MAX_COUNTER_CACHE_ENTRIES [] = ([] :: (bytes \<times> sliding_window) list)"
    by (simp add: norm_entries_def)
  then show ?thesis
    by (subst counter_windows_refine_sets [OF list_lru_ok])
       (simp_all add: MAX_COUNTER_CACHE_ENTRIES_def demo_ticket_def ref_fresh_def ref_admit_def ref_accepts_def
         derive_counter_mask_def derive_counter_cache_key_def hash_with_key_def)
qed


theorem ephemeral_replay_rejected_witness:
  "\<exists>bs b bs' b' c'. ephemeral_run (list_lru MAX_REPLAY_CACHE_ENTRIES)
     ([] @ (5, replicate 32 1) # [(6, replicate 32 2)] @ [(7, replicate 32 1)]) (Guarded [])
      = Some (bs @ b # bs' @ [b'], Guarded c') \<and> length bs = length ([] :: (nat \<times> bytes) list) \<and>
      length bs' = length [(6 :: nat, replicate 32 2 :: bytes)] \<and>
      ((replicate 32 1 :: bytes) \<notin> snd ` set ([] :: (nat \<times> bytes) list) \<longrightarrow> \<not> b) \<and> (b \<or> b')"
  by (rule ephemeral_replay_rejected [OF list_lru_ok])
     (simp_all add: norm_entries_def MAX_REPLAY_CACHE_ENTRIES_def RETENTION_NANOS_def REPLAY_RETENTION_SECS_def)

end
