(* ===== verification/ClientHello.thy ===== *)
theory ClientHello
  imports Utils
begin

text \<open>
  The ClientHello and ServerHello scanners of \<^verbatim>\<open>crates/tunnel/src/utils.rs\<close>: the shared walk over
  the extensions, the fields it locates (key shares, server name, ECH) and the normalisation behind
  the stable fingerprint. A closure passed to the walk is a function that updates an accumulator;
  a range \<^verbatim>\<open>a..b\<close> is the pair of its bounds. \<^verbatim>\<open>checked_add\<close> cannot fail on offsets into a buffer, so
  offsets are plain naturals. Plain indexing is used where the code has checked the bounds before;
  the lemmas on \<^verbatim>\<open>walk_bounds\<close> show that every visited entry lies inside the record.
\<close>

section \<open>Reading fields\<close>

definition u16_at :: "bytes \<Rightarrow> nat \<Rightarrow> u16" where
  "u16_at r i = u16_from_be (r ! i) (r ! (i + 1))"

definition u16_get :: "bytes \<Rightarrow> nat \<Rightarrow> nat option" where
  "u16_get r i = (if i + 1 < length r then Some (unat (u16_at r i)) else None)"

definition u8_get :: "bytes \<Rightarrow> nat \<Rightarrow> nat option" where
  "u8_get r i = (if i < length r then Some (unat (r ! i)) else None)"

definition zero_range :: "nat \<times> nat \<Rightarrow> bytes \<Rightarrow> bytes" where
  "zero_range rg r = take (fst rg) r @ replicate (snd rg - fst rg) 0 @ drop (max (fst rg) (snd rg)) r"

definition zero_ranges :: "(nat \<times> nat) list \<Rightarrow> bytes \<Rightarrow> bytes" where
  "zero_ranges rgs r = fold zero_range rgs r"

definition CLIENT_HELLO_FP_CONTEXT :: bytes where
  "CLIENT_HELLO_FP_CONTEXT = ascii ''kanotls-client-hello-fp-v1''"

definition GREASE_VALUES :: "u16 list" where
  "GREASE_VALUES = [0x0A0A, 0x1A1A, 0x2A2A, 0x3A3A, 0x4A4A, 0x5A5A, 0x6A6A, 0x7A7A, 0x8A8A, 0x9A9A,
     0xAAAA, 0xBABA, 0xCACA, 0xDADA, 0xEAEA, 0xFAFA]"

definition is_grease_value :: "u16 \<Rightarrow> bool" where
  "is_grease_value v \<longleftrightarrow> v \<in> set GREASE_VALUES"

definition ECH_EXTENSION_TYPE :: u16 where "ECH_EXTENSION_TYPE = 0xFE0D"

section \<open>The walk\<close>

definition client_hello_random_and_session_id_ranges ::
  "bytes \<Rightarrow> ((nat \<times> nat) \<times> (nat \<times> nat)) option" where
  "client_hello_random_and_session_id_ranges r =
     (if length r < 5 + 44 then None
      else if r ! 0 \<noteq> 0x16 then None
      else if r ! 5 \<noteq> 0x01 then None
      else
        let session_id_len = unat (r ! 43) in
        if length r < 44 + session_id_len then None
        else Some ((11, 43), (44, 44 + session_id_len)))"

definition extract_client_hello_random_and_session_id :: "bytes \<Rightarrow> (bytes \<times> bytes) option" where
  "extract_client_hello_random_and_session_id r =
     (case client_hello_random_and_session_id_ranges r of
        None \<Rightarrow> None
      | Some (rr, sr) \<Rightarrow>
          Some (take (snd rr - fst rr) (drop (fst rr) r), take (snd sr - fst sr) (drop (fst sr) r)))"

text \<open>Writing through the two slices that \<^verbatim>\<open>extract_client_hello_random_and_session_id\<close> returns.\<close>

definition put_random_and_session_id :: "bytes \<Rightarrow> bytes \<Rightarrow> bytes \<Rightarrow> bytes" where
  "put_random_and_session_id rnd sid r = copy_at (copy_at r 11 rnd) 44 sid"

function walk_exts ::
  "bytes \<Rightarrow> (u16 \<Rightarrow> nat \<times> nat \<Rightarrow> 'a \<Rightarrow> 'a) \<Rightarrow> nat \<Rightarrow> nat \<Rightarrow> 'a \<Rightarrow> 'a option" where
  "walk_exts r visit cursor extensions_end acc =
     (if cursor + 4 \<le> extensions_end
      then
        let ext_type = u16_at r cursor;
            ext_len = unat (u16_at r (cursor + 2));
            ext_end = cursor + (4 + ext_len)
        in if ext_end > extensions_end then None
           else walk_exts r visit ext_end extensions_end (visit ext_type (cursor, ext_end) acc)
      else Some acc)"
  by pat_completeness auto
termination
  by (relation "measure (\<lambda>(r, visit, cursor, e, acc). e - cursor)") auto

definition walk_start :: "bytes \<Rightarrow> (nat \<times> nat) option" where
  "walk_start r =
     (if length r < 9 \<or> r ! 0 \<noteq> 0x16 \<or> r ! 5 \<noteq> 0x01 then None
      else case client_hello_random_and_session_id_ranges r of
        None \<Rightarrow> None
      | Some (_, sr) \<Rightarrow>
          (case u16_get r (snd sr) of
             None \<Rightarrow> None
           | Some cipher_suites_len \<Rightarrow>
               let cursor = snd sr + (2 + cipher_suites_len) in
               (case u8_get r cursor of
                  None \<Rightarrow> None
                | Some compression_methods_len \<Rightarrow>
                    let cursor = cursor + (1 + compression_methods_len) in
                    (case u16_get r cursor of
                       None \<Rightarrow> None
                     | Some extensions_len \<Rightarrow>
                         let extensions_end = cursor + 2 + extensions_len in
                         if extensions_end > length r then None
                         else Some (cursor, extensions_end)))))"

definition walk_client_hello_extensions ::
  "bytes \<Rightarrow> (u16 \<Rightarrow> nat \<times> nat \<Rightarrow> 'a \<Rightarrow> 'a) \<Rightarrow> 'a \<Rightarrow> ('a \<times> nat) option" where
  "walk_client_hello_extensions r visit acc =
     (case walk_start r of
        None \<Rightarrow> None
      | Some (extensions_len_start, extensions_end) \<Rightarrow>
          map_option (\<lambda>a. (a, extensions_len_start))
            (walk_exts r visit (extensions_len_start + 2) extensions_end acc))"

section \<open>Normalisation\<close>

type_synonym scan = "(nat \<times> nat) list \<times> bool"

function key_share_scan :: "bytes \<Rightarrow> nat \<Rightarrow> nat \<Rightarrow> (nat \<times> nat) list \<Rightarrow> scan" where
  "key_share_scan r share_cursor ext_end ranges =
     (if share_cursor + 4 \<le> ext_end
      then
        let share_len = unat (u16_at r (share_cursor + 2));
            share_start = share_cursor + 4;
            share_end = share_start + share_len
        in if share_end > ext_end then (ranges, True)
           else key_share_scan r share_end ext_end (ranges @ [(share_start, share_end)])
      else (ranges, False))"
  by pat_completeness auto
termination
  by (relation "measure (\<lambda>(r, c, e, ranges). e - c)") auto

definition key_share_visit :: "bytes \<Rightarrow> u16 \<Rightarrow> nat \<times> nat \<Rightarrow> scan \<Rightarrow> scan" where
  "key_share_visit r ext_type entry acc =
     (if ext_type \<noteq> 0x0033 \<or> snd acc then acc
      else
        let ext_data = fst entry + 4; ext_end = snd entry in
        if ext_end - ext_data < 2 then (fst acc, True)
        else key_share_scan r (ext_data + 2) ext_end (fst acc))"

text \<open>The three scanners that only zero ranges end the same way: a malformed structure or a failed
  walk gives \<^const>\<open>None\<close>.\<close>

definition zero_scanned :: "bytes \<Rightarrow> (scan \<times> nat) option \<Rightarrow> bytes option" where
  "zero_scanned r s =
     (case s of None \<Rightarrow> None
      | Some ((ranges, malformed), _) \<Rightarrow> if malformed then None else Some (zero_ranges ranges r))"

definition normalize_client_hello_key_shares :: "bytes \<Rightarrow> bytes option" where
  "normalize_client_hello_key_shares r =
     zero_scanned r (walk_client_hello_extensions r (key_share_visit r) ([], False))"

definition ech_variable_field_ranges ::
  "bytes \<Rightarrow> nat \<times> nat \<Rightarrow> (nat \<times> (nat \<times> nat) \<times> (nat \<times> nat)) option" where
  "ech_variable_field_ranges r data_range =
     (let start = fst data_range; en = snd data_range in
      if en = start then None
      else if en - start < 8 then None
      else
        let enc_len = unat (u16_at r (start + 6));
            enc_start = start + 8;
            enc_end = enc_start + enc_len
        in if enc_end + 2 > en then None
           else
             let payload_len = unat (u16_at r enc_end);
                 payload_start = enc_end + 2;
                 payload_end = payload_start + payload_len
             in if payload_end \<noteq> en then None
                else Some (start + 5, (enc_start, enc_end), (payload_start, payload_end)))"

definition ech_visit :: "bytes \<Rightarrow> u16 \<Rightarrow> nat \<times> nat \<Rightarrow> scan \<Rightarrow> scan" where
  "ech_visit r ext_type entry acc =
     (if ext_type \<noteq> ECH_EXTENSION_TYPE \<or> snd acc then acc
      else
        let data = fst entry + 4; en = snd entry in
        if en = data then (fst acc, True)
        else if r ! data \<noteq> 0 then acc
        else case ech_variable_field_ranges r (data, en) of
            None \<Rightarrow> (fst acc, True)
          | Some (config_id, enc, payload) \<Rightarrow> (fst acc @ [(config_id, config_id + 1), enc, payload], False))"

definition normalize_client_hello_ech_extension :: "bytes \<Rightarrow> bytes option" where
  "normalize_client_hello_ech_extension r =
     zero_scanned r (walk_client_hello_extensions r (ech_visit r) ([], False))"

text \<open>Both loops over lists of 16-bit values look at pairs while two bytes remain.\<close>

function grease_positions :: "bytes \<Rightarrow> nat \<Rightarrow> nat \<Rightarrow> (nat \<times> nat) list" where
  "grease_positions r cursor list_end =
     (if cursor + 2 \<le> list_end
      then (if is_grease_value (u16_at r cursor) then [(cursor, cursor + 2)] else [])
        @ grease_positions r (cursor + 2) list_end
      else [])"
  by pat_completeness auto
termination
  by (relation "measure (\<lambda>(r, c, e). e - c)") auto

definition SUPPORTED_GROUPS_EXTENSION_TYPE :: u16 where "SUPPORTED_GROUPS_EXTENSION_TYPE = 0x000a"
definition SUPPORTED_VERSIONS_EXTENSION_TYPE :: u16 where "SUPPORTED_VERSIONS_EXTENSION_TYPE = 0x002b"

definition grease_list_bounds :: "bytes \<Rightarrow> u16 \<Rightarrow> nat \<times> nat \<Rightarrow> (nat \<times> nat) option option" where
  "grease_list_bounds r ext_type entry =
     (let ext_data = fst entry + 4; ext_end = snd entry in
      if ext_type = SUPPORTED_GROUPS_EXTENSION_TYPE then
        if ext_end - ext_data < 2 then Some None
        else Some (Some (ext_data + 2, ext_data + 2 + unat (u16_at r ext_data)))
      else if ext_type = SUPPORTED_VERSIONS_EXTENSION_TYPE then
        if ext_end = ext_data then Some None
        else Some (Some (ext_data + 1, ext_data + 1 + unat (r ! ext_data)))
      else None)"

definition grease_visit :: "bytes \<Rightarrow> u16 \<Rightarrow> nat \<times> nat \<Rightarrow> scan \<Rightarrow> scan" where
  "grease_visit r ext_type entry acc =
     (if snd acc then acc
      else if is_grease_value ext_type then (fst acc @ [(fst entry, fst entry + 2)], False)
      else case grease_list_bounds r ext_type entry of
          None \<Rightarrow> acc
        | Some None \<Rightarrow> (fst acc, True)
        | Some (Some (list_start, list_end)) \<Rightarrow>
            if list_end > snd entry then (fst acc, True)
            else (fst acc @ grease_positions r list_start list_end, False))"

definition normalize_client_hello_grease_positions :: "bytes \<Rightarrow> bytes option" where
  "normalize_client_hello_grease_positions r =
     (case client_hello_random_and_session_id_ranges r of
        None \<Rightarrow> None
      | Some (_, sr) \<Rightarrow>
          (case u16_get r (snd sr) of
             None \<Rightarrow> None
           | Some cipher_suites_len \<Rightarrow>
               let suites_start = snd sr + 2; suites_end = suites_start + cipher_suites_len in
               if suites_end > length r then None
               else
                 let r1 = zero_ranges (grease_positions r suites_start suites_end) r
                 in zero_scanned r1 (walk_client_hello_extensions r1 (grease_visit r1) ([], False))))"

definition PADDING_EXTENSION_TYPE :: u16 where "PADDING_EXTENSION_TYPE = 0x0015"

definition padding_visit :: "u16 \<Rightarrow> nat \<times> nat \<Rightarrow> (nat \<times> nat) option \<Rightarrow> (nat \<times> nat) option" where
  "padding_visit ext_type entry acc = (if ext_type = PADDING_EXTENSION_TYPE \<and> acc = None then Some entry else acc)"

definition drain_range :: "nat \<times> nat \<Rightarrow> bytes \<Rightarrow> bytes" where
  "drain_range rg r = take (fst rg) r @ drop (snd rg) r"

definition checked_sub :: "nat \<Rightarrow> nat \<Rightarrow> nat option" where
  "checked_sub a b = (if a < b then None else Some (a - b))"

definition u24_at :: "bytes \<Rightarrow> nat \<Rightarrow> nat" where
  "u24_at r i = unat (r ! i) * 2 ^ 16 + unat (r ! (i + 1)) * 2 ^ 8 + unat (r ! (i + 2))"

definition u24_to_be :: "nat \<Rightarrow> bytes" where
  "u24_to_be n = [of_nat (n div 2 ^ 16), of_nat (n div 2 ^ 8), of_nat n]"

definition normalize_client_hello_padding_extension :: "bytes \<Rightarrow> bytes option" where
  "normalize_client_hello_padding_extension r =
     (case walk_client_hello_extensions r padding_visit None of
        None \<Rightarrow> None
      | Some (None, _) \<Rightarrow> Some r
      | Some (Some entry, els) \<Rightarrow>
          let removed = snd entry - fst entry; r1 = drain_range entry r in
          (case checked_sub (unat (u16_at r1 els)) removed of
             None \<Rightarrow> None
           | Some new_extensions_len \<Rightarrow>
               let r2 = copy_at r1 els (u16_to_be (of_nat new_extensions_len)) in
               (case checked_sub (unat (u16_at r2 3)) removed of
                  None \<Rightarrow> None
                | Some new_record_len \<Rightarrow>
                    let r3 = copy_at r2 3 (u16_to_be (of_nat new_record_len)) in
                    (case checked_sub (u24_at r3 6) removed of
                       None \<Rightarrow> None
                     | Some new_handshake_len \<Rightarrow> Some (copy_at r3 6 (u24_to_be new_handshake_len))))))"

definition clear_random_and_session_id :: "bytes \<Rightarrow> bytes option" where
  "clear_random_and_session_id r =
     (case client_hello_random_and_session_id_ranges r of
        None \<Rightarrow> None
      | Some (rr, sr) \<Rightarrow> Some (zero_range sr (zero_range rr r)))"

definition normalized_client_hello :: "bytes \<Rightarrow> bytes option" where
  "normalized_client_hello r =
     Option.bind (clear_random_and_session_id r) (\<lambda>r1.
     Option.bind (normalize_client_hello_key_shares r1) (\<lambda>r2.
     Option.bind (normalize_client_hello_grease_positions r2) (\<lambda>r3.
     Option.bind (normalize_client_hello_ech_extension r3)
       normalize_client_hello_padding_extension)))"

definition stable_client_hello_fingerprint :: "(bytes \<Rightarrow> bytes) \<Rightarrow> bytes \<Rightarrow> bytes option" where
  "stable_client_hello_fingerprint H r =
     map_option (hash_with_key H CLIENT_HELLO_FP_CONTEXT) (normalized_client_hello r)"

section \<open>Locating fields\<close>

function key_share_search ::
  "bytes \<Rightarrow> nat \<Rightarrow> nat \<Rightarrow> (nat \<times> nat) option \<Rightarrow> (nat \<times> nat) option \<times> bool" where
  "key_share_search r share_cursor ext_end first_share_range =
     (if share_cursor + 4 \<le> ext_end
      then
        let grp = u16_at r share_cursor;
            share_len = unat (u16_at r (share_cursor + 2));
            share_start = share_cursor + 4;
            share_end = share_start + share_len
        in if share_end > ext_end then (None, True)
           else
             let first = (if first_share_range = None then Some (share_start, share_end) else first_share_range)
             in if grp = 0x001d then (Some (share_start, share_end), False)
                else key_share_search r share_end ext_end first
      else (first_share_range, False))"
  by pat_completeness auto
termination
  by (relation "measure (\<lambda>(r, c, e, f). e - c)") auto

definition key_share_range_visit ::
  "bytes \<Rightarrow> u16 \<Rightarrow> nat \<times> nat \<Rightarrow> (nat \<times> nat) option \<times> bool \<Rightarrow> (nat \<times> nat) option \<times> bool" where
  "key_share_range_visit r ext_type entry acc =
     (if ext_type \<noteq> 0x0033 \<or> fst acc \<noteq> None \<or> snd acc then acc
      else
        let ext_data = fst entry + 4; ext_end = snd entry in
        if ext_end - ext_data < 4 then (fst acc, True)
        else key_share_search r (ext_data + 2) ext_end None)"

definition client_hello_key_share_range :: "bytes \<Rightarrow> (nat \<times> nat) option" where
  "client_hello_key_share_range r =
     (case walk_client_hello_extensions r (key_share_range_visit r) (None, False) of
        None \<Rightarrow> None
      | Some ((res, malformed), _) \<Rightarrow> if malformed then None else res)"

text \<open>\<^verbatim>\<open>std::str::from_utf8\<close>: well-formed UTF-8 as in the Unicode standard, table 3-7.\<close>

definition utf8_cont :: "u8 \<Rightarrow> bool" where "utf8_cont b \<longleftrightarrow> 0x80 \<le> b \<and> b \<le> 0xBF"

fun utf8_valid :: "bytes \<Rightarrow> bool" where
  "utf8_valid [] = True"
| "utf8_valid (a # bs) =
     (if a < 0x80 then utf8_valid bs
      else case bs of
        [] \<Rightarrow> False
      | b # bs2 \<Rightarrow>
          if 0xC2 \<le> a \<and> a \<le> 0xDF then utf8_cont b \<and> utf8_valid bs2
          else case bs2 of
            [] \<Rightarrow> False
          | c # bs3 \<Rightarrow>
              if 0xE0 \<le> a \<and> a \<le> 0xEF
              then (if a = 0xE0 then 0xA0 \<le> b \<and> b \<le> 0xBF else if a = 0xED then 0x80 \<le> b \<and> b \<le> 0x9F
                    else utf8_cont b) \<and> utf8_cont c \<and> utf8_valid bs3
              else case bs3 of
                [] \<Rightarrow> False
              | d # bs4 \<Rightarrow>
                  0xF0 \<le> a \<and> a \<le> 0xF4 \<and>
                  (if a = 0xF0 then 0x90 \<le> b \<and> b \<le> 0xBF else if a = 0xF4 then 0x80 \<le> b \<and> b \<le> 0x8F
                   else utf8_cont b) \<and> utf8_cont c \<and> utf8_cont d \<and> utf8_valid bs4)"

definition server_name_visit ::
  "bytes \<Rightarrow> u16 \<Rightarrow> nat \<times> nat \<Rightarrow> bytes option \<times> bool \<Rightarrow> bytes option \<times> bool" where
  "server_name_visit r ext_type entry acc =
     (if ext_type \<noteq> 0x0000 \<or> fst acc \<noteq> None \<or> snd acc then acc
      else
        let ext_data = fst entry + 4; ext_end = snd entry in
        if ext_end - ext_data < 5 then (fst acc, True)
        else if r ! (ext_data + 2) \<noteq> 0x00 then (fst acc, True)
        else
          let host_len = unat (u16_at r (ext_data + 3));
              host_start = ext_data + 5;
              host_end = host_start + host_len
          in if host_end > ext_end then (fst acc, True)
             else
               let host = take (host_end - host_start) (drop host_start r)
               in (if utf8_valid host then Some host else None, False))"

definition extract_client_hello_server_name :: "bytes \<Rightarrow> bytes option" where
  "extract_client_hello_server_name r =
     (case walk_client_hello_extensions r (server_name_visit r) (None, False) of
        None \<Rightarrow> None
      | Some ((res, malformed), _) \<Rightarrow> if malformed then None else res)"

definition is_server_hello :: "bytes \<Rightarrow> bool" where
  "is_server_hello r = (if length r < 9 then False else r ! 0 = 0x16 \<and> r ! 5 = 0x02)"

text \<open>ServerHello: the loop over the extensions of the first ServerHello and the loop over the
  records before it.\<close>

function server_ext_search :: "bytes \<Rightarrow> nat \<Rightarrow> nat \<Rightarrow> (u16 \<times> (nat \<times> nat)) option" where
  "server_ext_search rs cursor extensions_end =
     (if cursor + 4 \<le> extensions_end
      then
        let ext_type = u16_at rs cursor;
            ext_len = unat (u16_at rs (cursor + 2));
            data_start = cursor + 4;
            data_end = data_start + ext_len
        in if data_end > extensions_end then None
           else if ext_type = 0x0033 then
             if ext_len < 4 then None
             else
               let grp = u16_at rs data_start;
                   ke_len = unat (u16_at rs (data_start + 2));
                   ke_start = data_start + 4;
                   ke_end = ke_start + ke_len
               in if ke_end > data_end then None else Some (grp, (ke_start, ke_end))
           else server_ext_search rs data_end extensions_end
      else None)"
  by pat_completeness auto
termination
  by (relation "measure (\<lambda>(rs, c, e). e - c)") auto

function server_hello_search :: "bytes \<Rightarrow> nat \<Rightarrow> (u16 \<times> (nat \<times> nat)) option" where
  "server_hello_search rs offset =
     (if offset + 5 \<le> length rs
      then
        let rec_len = unat (u16_at rs (offset + 3));
            record_end = offset + 5 + rec_len
        in if record_end > length rs then None
           else if rs ! offset \<noteq> 0x16 \<or> rec_len = 0 \<or> rs ! (offset + 5) \<noteq> 0x02
           then server_hello_search rs record_end
           else
             let cursor = offset + (5 + 4 + 2 + 32) in
             if cursor \<ge> record_end then None
             else
               let cursor = cursor + (1 + unat (rs ! cursor) + 2 + 1) in
               if cursor + 2 > record_end then None
               else
                 let extensions_len = unat (u16_at rs cursor);
                     cursor = cursor + 2;
                     extensions_end = cursor + extensions_len
                 in if extensions_end > record_end then None
                    else server_ext_search rs cursor extensions_end
      else None)"
  by pat_completeness auto
termination
  by (relation "measure (\<lambda>(rs, offset). length rs - offset)") auto

definition server_hello_key_share_range :: "bytes \<Rightarrow> (u16 \<times> (nat \<times> nat)) option" where
  "server_hello_key_share_range rs = server_hello_search rs 0"

section \<open>Bounded record reading\<close>

text \<open>A socket is the bytes that arrive before the deadline and the error that follows them.\<close>

datatype read_error = InvalidData string | UnexpectedEof | TimedOut | OtherIo

type_synonym socket = "bytes \<times> read_error"

record tls_record_read_limits =
  lim_max_records :: nat
  lim_max_bytes :: nat

record tls_record_read_state =
  rs_records :: nat
  rs_bytes :: nat

definition read_exact :: "nat \<Rightarrow> socket \<Rightarrow> read_error + bytes \<times> socket" where
  "read_exact n s =
     (if n \<le> length (fst s) then Inr (take n (fst s), (drop n (fst s), snd s)) else Inl (snd s))"

definition read_tls_record_bounded ::
  "tls_record_read_limits \<Rightarrow> tls_record_read_state \<Rightarrow> socket \<Rightarrow>
   read_error + (u8 \<times> nat) \<times> bytes \<times> tls_record_read_state \<times> socket" where
  "read_tls_record_bounded limits st s =
     (if rs_records st \<ge> lim_max_records limits then Inl (InvalidData ''TLS record count limit exceeded'')
      else case read_exact 5 s of
        Inl e \<Rightarrow> Inl e
      | Inr (header, s1) \<Rightarrow>
          let typ = header ! 0; len = unat (u16_at header 3) in
          if len > MAX_TLS_RECORD_PAYLOAD_LEN then Inl (InvalidData ''TLS record too large'')
          else
            let record_len = 5 + len in
            if rs_bytes st + record_len > lim_max_bytes limits
            then Inl (InvalidData ''TLS record byte limit exceeded'')
            else case read_exact len s1 of
              Inl e \<Rightarrow> Inl e
            | Inr (body, s2) \<Rightarrow>
                Inr ((typ, len), header @ body,
                     \<lparr>rs_records = rs_records st + 1, rs_bytes = rs_bytes st + record_len\<rparr>, s2))"

declare walk_exts.simps [simp del] key_share_scan.simps [simp del] grease_positions.simps [simp del]
  key_share_search.simps [simp del] server_ext_search.simps [simp del] server_hello_search.simps [simp del]

end
