(* ===== verification/Fingerprint.thy ===== *)
theory Fingerprint
  imports ClientHello
begin

text \<open>
  Properties of the ClientHello scanners of \<^verbatim>\<open>crates/tunnel/src/utils.rs\<close>. The walk is a fold over
  the list of extension entries; each scanner reads, of an entry, only bytes outside the ranges it
  reports. From this follows that the fingerprint does not depend on the fields that change from
  connection to connection. The other properties bound what the scanners and the record reader
  return.
\<close>

section \<open>The walk visits the entries in order\<close>

function ext_bounds :: "bytes \<Rightarrow> nat \<Rightarrow> nat \<Rightarrow> (nat \<times> nat) list option" where
  "ext_bounds r cursor extensions_end =
     (if cursor + 4 \<le> extensions_end
      then
        let ext_end = cursor + (4 + unat (u16_at r (cursor + 2)))
        in if ext_end > extensions_end then None
           else map_option ((#) (cursor, ext_end)) (ext_bounds r ext_end extensions_end)
      else Some [])"
  by pat_completeness auto
termination
  by (relation "measure (\<lambda>(r, c, e). e - c)") auto

declare ext_bounds.simps [simp del]

lemma walk_exts_fold:
  "walk_exts r visit c e acc =
     map_option (foldl (\<lambda>acc entry. visit (u16_at r (fst entry)) entry acc) acc) (ext_bounds r c e)"
proof (induction r visit c e acc rule: walk_exts.induct)
  case (1 r visit c e acc)
  show ?case
    by (subst walk_exts.simps, subst ext_bounds.simps)
       (simp add: Let_def 1 option.map_comp comp_def)
qed

lemma ext_bounds_step:
  assumes "ext_bounds r c e = Some bs" "c + 4 \<le> e"
  obtains n bs' where "n = c + (4 + unat (u16_at r (c + 2)))" "n \<le> e" "bs = (c, n) # bs'"
    "ext_bounds r n e = Some bs'"
  using assms that by (subst (asm) ext_bounds.simps) (auto simp: Let_def split: if_splits)

lemma ext_bounds_end: "\<not> c + 4 \<le> e \<Longrightarrow> ext_bounds r c e = Some []"
  by (subst ext_bounds.simps) simp

lemma ext_bounds_inside:
  "ext_bounds r c e = Some bs \<Longrightarrow> x \<in> set bs \<Longrightarrow> c \<le> fst x \<and> fst x + 4 \<le> snd x \<and> snd x \<le> e"
proof (induction bs arbitrary: c)
  case (Cons y bs)
  show ?case
  proof (cases "c + 4 \<le> e")
    case True
    then show ?thesis using Cons by (elim ext_bounds_step [OF Cons.prems(1)]) force
  qed (use Cons ext_bounds_end in auto)
qed simp

lemma ext_bounds_disjoint:
  "ext_bounds r c e = Some bs \<Longrightarrow> sorted_wrt (\<lambda>x y. snd x \<le> fst y) bs"
proof (induction bs arbitrary: c)
  case (Cons y bs)
  show ?case
  proof (cases "c + 4 \<le> e")
    case True
    then obtain n where "y = (c, n)" "ext_bounds r n e = Some bs"
      by (elim ext_bounds_step [OF Cons.prems(1)]) force
    then show ?thesis using Cons.IH ext_bounds_inside by fastforce
  qed (use Cons ext_bounds_end in auto)
qed simp

lemma ext_bounds_cong:
  "ext_bounds r c e = Some bs \<Longrightarrow> \<forall>x \<in> set bs. u16_at r' (fst x + 2) = u16_at r (fst x + 2) \<Longrightarrow>
   ext_bounds r' c e = Some bs"
proof (induction bs arbitrary: c)
  case Nil
  then show ?case
    using ext_bounds_end ext_bounds_step by (metis list.distinct(1))
next
  case (Cons y bs)
  show ?case
  proof (cases "c + 4 \<le> e")
    case True
    then obtain n where n: "n = c + (4 + unat (u16_at r (c + 2)))" "n \<le> e" "y = (c, n)"
      "ext_bounds r n e = Some bs" by (elim ext_bounds_step [OF Cons.prems(1)]) force
    then show ?thesis
      using True Cons.IH [OF n(4)] Cons.prems(2) by (subst ext_bounds.simps) (simp add: Let_def)
  qed (use Cons ext_bounds_end in auto)
qed

definition suites_end :: "bytes \<Rightarrow> nat" where
  "suites_end r = 46 + unat (r ! 43) + unat (u16_at r (44 + unat (r ! 43)))"

lemma walk_start_iff:
  "walk_start r = Some (els, ee) \<longleftrightarrow>
     49 \<le> length r \<and> r ! 0 = 0x16 \<and> r ! 5 = 0x01 \<and> 45 + unat (r ! 43) < length r \<and>
     suites_end r < length r \<and> els = suites_end r + 1 + unat (r ! suites_end r) \<and>
     els + 1 < length r \<and> ee = els + 2 + unat (u16_at r els) \<and> ee \<le> length r"
  by (auto simp: walk_start_def client_hello_random_and_session_id_ranges_def u16_get_def u8_get_def Let_def
      suites_end_def algebra_simps split: option.splits if_splits)

section \<open>Zeroed ranges\<close>

definition covers :: "(nat \<times> nat) list \<Rightarrow> nat set" where
  "covers rgs = (\<Union>(a, b) \<in> set rgs. {a..<b})"

lemma covers_simps [simp]:
  "covers [] = {}" "covers ((a, b) # rgs) = {a..<b} \<union> covers rgs" "covers (xs @ ys) = covers xs \<union> covers ys"
  by (auto simp: covers_def)

lemma covers_concat: "covers (concat rss) = (\<Union>rs \<in> set rss. covers rs)"
  by (induction rss) auto

lemma zero_range_props:
  assumes "fst rg \<le> snd rg" "snd rg \<le> length r"
  shows "length (zero_range rg r) = length r"
    "i < length r \<Longrightarrow> zero_range rg r ! i = (if fst rg \<le> i \<and> i < snd rg then 0 else r ! i)"
  using assms by (auto simp: zero_range_def nth_append max_def min_def)

lemma length_zero_ranges:
  "\<forall>x \<in> set rgs. fst x \<le> snd x \<and> snd x \<le> length r \<Longrightarrow> length (zero_ranges rgs r) = length r"
proof (induction rgs arbitrary: r)
  case (Cons rg rgs)
  then show ?case using zero_range_props(1) [of rg r] by (simp add: zero_ranges_def)
qed (simp add: zero_ranges_def)

lemma nth_zero_ranges:
  "\<forall>x \<in> set rgs. fst x \<le> snd x \<and> snd x \<le> length r \<Longrightarrow> i < length r \<Longrightarrow>
   zero_ranges rgs r ! i = (if i \<in> covers rgs then 0 else r ! i)"
proof (induction rgs arbitrary: r)
  case (Cons rg rgs)
  have z: "length (zero_range rg r) = length r"
    "zero_range rg r ! i = (if fst rg \<le> i \<and> i < snd rg then 0 else r ! i)"
    using zero_range_props(1) [of rg r] zero_range_props(2) [of rg r i] Cons.prems by auto
  then have "zero_ranges rgs (zero_range rg r) ! i = (if i \<in> covers rgs then 0 else zero_range rg r ! i)"
    using Cons.IH [of "zero_range rg r"] Cons.prems by simp
  then show ?case using z by (cases rg) (auto simp: zero_ranges_def)
qed (simp add: zero_ranges_def)

section \<open>Scans entry by entry\<close>

definition share_scan :: "bytes \<Rightarrow> nat \<times> nat \<Rightarrow> scan" where
  "share_scan r entry = key_share_visit r (u16_at r (fst entry)) entry ([], False)"

definition ech_scan :: "bytes \<Rightarrow> nat \<times> nat \<Rightarrow> scan" where
  "ech_scan r entry = ech_visit r (u16_at r (fst entry)) entry ([], False)"

definition grease_scan :: "bytes \<Rightarrow> nat \<times> nat \<Rightarrow> scan" where
  "grease_scan r entry = grease_visit r (u16_at r (fst entry)) entry ([], False)"

text \<open>A visitor that only appends to the ranges of its accumulator and stops once it is malformed.\<close>

definition appending :: "(scan \<Rightarrow> scan) \<Rightarrow> bool" where
  "appending v \<longleftrightarrow> (\<forall>rs. v (rs, True) = (rs, True) \<and> fst (v (rs, False)) = rs @ fst (v ([], False)) \<and>
     snd (v (rs, False)) = snd (v ([], False)))"

lemma key_share_scan_step:
  assumes "c + 4 \<le> e" "c + 4 + unat (u16_at r (c + 2)) \<le> e"
  shows "key_share_scan r c e rs = key_share_scan r (c + 4 + unat (u16_at r (c + 2))) e
    (rs @ [(c + 4, c + 4 + unat (u16_at r (c + 2)))])"
  using assms by (subst key_share_scan.simps) (simp add: Let_def)

lemma key_share_scan_stop:
  assumes "\<not> (c + 4 \<le> e \<and> c + 4 + unat (u16_at r (c + 2)) \<le> e)"
  shows "key_share_scan r c e rs = (rs, c + 4 \<le> e)"
  using assms by (subst key_share_scan.simps) (auto simp: Let_def)

lemma key_share_scan_acc:
  "key_share_scan r c e rs = (rs @ fst (key_share_scan r c e []), snd (key_share_scan r c e []))"
proof (induction "e - c" arbitrary: c rs rule: less_induct)
  case less
  show ?case
  proof (cases "c + 4 \<le> e \<and> c + 4 + unat (u16_at r (c + 2)) \<le> e")
    case True
    let ?n = "c + 4 + unat (u16_at r (c + 2))"
    have "e - ?n < e - c" using True by linarith
    then have "key_share_scan r ?n e acc = (acc @ fst (key_share_scan r ?n e []), snd (key_share_scan r ?n e []))"
      for acc by (rule less)
    then have "key_share_scan r c e acc
        = (acc @ (c + 4, ?n) # fst (key_share_scan r ?n e []), snd (key_share_scan r ?n e []))" for acc
      using key_share_scan_step [of c e r acc] True by (metis append.assoc append_Cons append_Nil)
    then show ?thesis by simp
  qed (simp add: key_share_scan_stop)
qed

lemma key_share_scan_cons:
  assumes "c + 4 \<le> e" "c + 4 + unat (u16_at r (c + 2)) \<le> e"
  shows "key_share_scan r c e [] =
    (let n = c + 4 + unat (u16_at r (c + 2))
     in ((c + 4, n) # fst (key_share_scan r n e []), snd (key_share_scan r n e [])))"
  using key_share_scan_step [OF assms, of "[]"] key_share_scan_acc [of r _ e "[_]"] by (simp add: Let_def)

lemma appending_stops: "appending v \<Longrightarrow> v (rs, True) = (rs, True)"
  unfolding appending_def by blast

lemma appending_adds: "appending v \<Longrightarrow> v (rs, False) = (rs @ fst (v ([], False)), snd (v ([], False)))"
  unfolding appending_def by (metis prod.collapse)

lemma appending_share: "appending (key_share_visit r t entry)"
  unfolding appending_def
proof (intro allI)
  fix rs
  have "key_share_scan r c e rs = (rs @ fst (key_share_scan r c e []), snd (key_share_scan r c e []))" for c e
    by (rule key_share_scan_acc)
  from this [of "fst entry + 4 + 2" "snd entry"]
  show "key_share_visit r t entry (rs, True) = (rs, True) \<and>
    fst (key_share_visit r t entry (rs, False)) = rs @ fst (key_share_visit r t entry ([], False)) \<and>
    snd (key_share_visit r t entry (rs, False)) = snd (key_share_visit r t entry ([], False))"
    by (auto simp: key_share_visit_def Let_def)
qed

lemma appending_ech: "appending (ech_visit r t entry)"
  unfolding appending_def ech_visit_def Let_def by (auto split: option.splits)

lemma appending_grease: "appending (grease_visit r t entry)"
  unfolding appending_def grease_visit_def by (auto split: option.splits)

lemma foldl_appending:
  assumes "\<And>x. appending (v x)"
  shows "snd (foldl (\<lambda>acc x. v x acc) (rs, False) bs) \<longleftrightarrow> (\<exists>x \<in> set bs. snd (v x ([], False)))"
    "\<not> (\<exists>x \<in> set bs. snd (v x ([], False))) \<Longrightarrow>
      fst (foldl (\<lambda>acc x. v x acc) (rs, False) bs) = rs @ concat (map (\<lambda>x. fst (v x ([], False))) bs)"
proof -
  have T: "foldl (\<lambda>acc x. v x acc) (rs, True) xs = (rs, True)" for rs xs
    by (induction xs) (simp_all add: appending_stops [OF assms])
  have S: "v b (rs, False) = (rs @ fst (v b ([], False)), snd (v b ([], False)))" for b rs
    by (rule appending_adds [OF assms])
  show "snd (foldl (\<lambda>acc x. v x acc) (rs, False) bs) \<longleftrightarrow> (\<exists>x \<in> set bs. snd (v x ([], False)))"
  proof (induction bs arbitrary: rs)
    case (Cons b bs)
    then show ?case by (cases "snd (v b ([], False))") (simp_all add: S [of b rs] T)
  qed simp
  show "\<not> (\<exists>x \<in> set bs. snd (v x ([], False))) \<Longrightarrow>
      fst (foldl (\<lambda>acc x. v x acc) (rs, False) bs) = rs @ concat (map (\<lambda>x. fst (v x ([], False))) bs)"
  proof (induction bs arbitrary: rs)
    case (Cons b bs)
    then show ?case by (simp add: S [of b rs])
  qed simp
qed

definition scan_all :: "(nat \<times> nat \<Rightarrow> (nat \<times> nat) list \<times> bool) \<Rightarrow> (nat \<times> nat) list \<Rightarrow> bytes \<Rightarrow> bytes option" where
  "scan_all sc bs r =
     (if \<exists>x \<in> set bs. snd (sc x) then None else Some (zero_ranges (concat (map (\<lambda>x. fst (sc x)) bs)) r))"

lemma zero_scanned_scan_all:
  assumes "\<And>x. appending (v x)"
  shows "zero_scanned r (Some (foldl (\<lambda>acc x. v x acc) ([], False) bs, els)) = scan_all (\<lambda>x. v x ([], False)) bs r"
  using foldl_appending(1) [of v "[]" bs, OF assms] foldl_appending(2) [of v bs "[]", OF assms]
  by (cases "\<exists>x \<in> set bs. snd (v x ([], False))") (simp_all add: zero_scanned_def scan_all_def case_prod_beta)


section \<open>What the scans read\<close>

definition agree_on :: "nat set \<Rightarrow> bytes \<Rightarrow> bytes \<Rightarrow> bool" where
  "agree_on S r r' \<longleftrightarrow> (\<forall>i \<in> S. r ! i = r' ! i)"

lemma agree_u16: "agree_on S r r' \<Longrightarrow> i \<in> S \<Longrightarrow> i + 1 \<in> S \<Longrightarrow> u16_at r' i = u16_at r i"
  by (simp add: agree_on_def u16_at_def)

lemma agree_on_mono: "agree_on S r r' \<Longrightarrow> T \<subseteq> S \<Longrightarrow> agree_on T r r'"
  by (auto simp: agree_on_def)

lemma key_share_scan_inside:
  "x \<in> set (fst (key_share_scan r c e [])) \<Longrightarrow> c + 4 \<le> fst x \<and> fst x \<le> snd x \<and> snd x \<le> e"
proof (induction "e - c" arbitrary: c rule: less_induct)
  case less
  show ?case
  proof (cases "c + 4 \<le> e \<and> c + 4 + unat (u16_at r (c + 2)) \<le> e")
    case True
    let ?n = "c + 4 + unat (u16_at r (c + 2))"
    have "e - ?n < e - c" using True by linarith
    then have IH: "x \<in> set (fst (key_share_scan r ?n e [])) \<Longrightarrow> ?n + 4 \<le> fst x \<and> fst x \<le> snd x \<and> snd x \<le> e"
      by (rule less(1))
    have "x = (c + 4, ?n) \<or> x \<in> set (fst (key_share_scan r ?n e []))"
      using less(2) key_share_scan_cons [of c e r] True by (auto simp: Let_def)
    then show ?thesis using IH True by fastforce
  next
    case False
    then show ?thesis using less(2) key_share_scan_stop by simp
  qed
qed

lemma key_share_scan_cong:
  "agree_on ({c..<e} - covers (fst (key_share_scan r c e []))) r r' \<Longrightarrow>
   key_share_scan r' c e [] = key_share_scan r c e []"
proof (induction "e - c" arbitrary: c rule: less_induct)
  case less
  let ?rs = "fst (key_share_scan r c e [])"
  have early: "i \<notin> covers ?rs" if "i < c + 4" for i
    using that key_share_scan_inside [of _ r c e] by (fastforce simp: covers_def)
  show ?case
  proof (cases "c + 4 \<le> e")
    case True
    then have len: "u16_at r' (c + 2) = u16_at r (c + 2)"
      using less(2) early by (intro agree_u16) auto
    let ?n = "c + 4 + unat (u16_at r (c + 2))"
    show ?thesis
    proof (cases "?n \<le> e")
      case fits: True
      have rs: "?rs = (c + 4, ?n) # fst (key_share_scan r ?n e [])"
        using key_share_scan_cons [OF True fits] by (simp add: Let_def)
      then have "agree_on ({?n..<e} - covers (fst (key_share_scan r ?n e []))) r r'"
        using less(2) by (intro agree_on_mono [OF less(2)]) auto
      moreover have "e - ?n < e - c" using True by linarith
      ultimately have "key_share_scan r' ?n e [] = key_share_scan r ?n e []" using less(1) by blast
      then show ?thesis
        using key_share_scan_cons [OF True fits] key_share_scan_cons [OF True, of r', unfolded len] fits
        by (simp add: Let_def)
    qed (use key_share_scan_stop [of c e r' "[]", unfolded len] key_share_scan_stop [of c e r "[]"] in simp)
  qed (simp add: key_share_scan_stop)
qed

lemma share_scan_inside:
  "x \<in> set (fst (share_scan r (a, b))) \<Longrightarrow> a + 4 \<le> fst x \<and> fst x \<le> snd x \<and> snd x \<le> b"
  using key_share_scan_inside [of x r "a + 4 + 2" b]
  by (auto simp: share_scan_def key_share_visit_def Let_def split: if_splits)

lemma share_scan_type: "u16_at r a \<noteq> 0x33 \<Longrightarrow> share_scan r (a, b) = ([], False)"
  by (simp add: share_scan_def key_share_visit_def)

lemma share_scan_cong:
  assumes "agree_on ({a..<b} - covers (fst (share_scan r (a, b)))) r r'" "a + 4 \<le> b"
  shows "share_scan r' (a, b) = share_scan r (a, b)"
proof -
  have early: "i \<notin> covers (fst (share_scan r (a, b)))" if "i < a + 4" for i
    using that share_scan_inside [of _ r a b] by (fastforce simp: covers_def)
  have t: "u16_at r' a = u16_at r a" using assms early by (intro agree_u16 [OF assms(1)]) auto
  show ?thesis
  proof (cases "u16_at r a = 0x33 \<and> 2 \<le> b - (a + 4)")
    case True
    then have s: "share_scan r (a, b) = key_share_scan r (a + 4 + 2) b []"
      by (simp add: share_scan_def key_share_visit_def Let_def)
    then have "key_share_scan r' (a + 4 + 2) b [] = key_share_scan r (a + 4 + 2) b []"
      using assms(1) by (intro key_share_scan_cong agree_on_mono [OF assms(1)]) auto
    then show ?thesis using True t s by (simp add: share_scan_def key_share_visit_def Let_def)
  next
    case False
    then show ?thesis using t by (auto simp: share_scan_def key_share_visit_def Let_def)
  qed
qed

lemma ech_fields_inside:
  assumes "ech_variable_field_ranges r (s, e) = Some (c, enc, pl)" "s \<le> e"
  shows "c = s + 5" "fst enc = s + 8" "fst enc \<le> snd enc" "fst pl = snd enc + 2" "fst pl \<le> snd pl" "snd pl = e"
  using assms by (auto simp: ech_variable_field_ranges_def Let_def split: if_splits)

lemma ech_scan_some:
  assumes "u16_at r a = ECH_EXTENSION_TYPE" "a + 4 < b" "r ! (a + 4) = 0"
  shows "ech_scan r (a, b) = (case ech_variable_field_ranges r (a + 4, b) of None \<Rightarrow> ([], True)
     | Some (c, enc, pl) \<Rightarrow> ([(c, c + 1), enc, pl], False))"
  using assms by (simp add: ech_scan_def ech_visit_def Let_def split: option.splits)

lemma ech_scan_none:
  assumes "u16_at r a \<noteq> ECH_EXTENSION_TYPE \<or> b = a + 4 \<or> r ! (a + 4) \<noteq> 0" "a + 4 \<le> b"
  shows "ech_scan r (a, b) = ([], u16_at r a = ECH_EXTENSION_TYPE \<and> b = a + 4)"
  using assms by (auto simp: ech_scan_def ech_visit_def Let_def)

lemma ech_scan_inside:
  assumes "x \<in> set (fst (ech_scan r (a, b)))" "a + 4 \<le> b"
  shows "a + 4 \<le> fst x \<and> fst x \<le> snd x \<and> snd x \<le> b"
proof (cases "u16_at r a = ECH_EXTENSION_TYPE \<and> a + 4 < b \<and> r ! (a + 4) = 0")
  case True
  then show ?thesis
    using assms ech_fields_inside [of r "a + 4" b] ech_scan_some [of r a b]
    by (auto split: option.splits)
next
  case False
  then show ?thesis using assms ech_scan_none [of r a b] by fastforce
qed

lemma ech_scan_cong:
  assumes "agree_on ({a..<b} - covers (fst (ech_scan r (a, b)))) r r'" "a + 4 \<le> b"
  shows "ech_scan r' (a, b) = ech_scan r (a, b)"
proof -
  have early: "i \<notin> covers (fst (ech_scan r (a, b)))" if "i < a + 4" for i
    using that ech_scan_inside [OF _ assms(2), of _ r] by (fastforce simp: covers_def)
  have t: "u16_at r' a = u16_at r a" using assms early by (intro agree_u16 [OF assms(1)]) auto
  show ?thesis
  proof (cases "u16_at r a = ECH_EXTENSION_TYPE \<and> a + 4 < b")
    case ech: True
    show ?thesis
    proof (cases "r ! (a + 4) = 0")
      case True
      note sc = ech_scan_some [OF _ _ True, of b, OF conjunct1 [OF ech] conjunct2 [OF ech]]
      have kept: "r' ! i = r ! i" if "a \<le> i" "i < b" "i \<notin> covers (fst (ech_scan r (a, b)))" for i
        using assms(1) that by (simp add: agree_on_def)
      have "a + 4 \<notin> covers (fst (ech_scan r (a, b)))"
        using ech_fields_inside [of r "a + 4" b] ech by (force simp: sc split: option.splits)
      then have z: "r' ! (a + 4) = 0" using kept [of "a + 4"] True ech by simp
      have "ech_variable_field_ranges r' (a + 4, b) = ech_variable_field_ranges r (a + 4, b)"
      proof (cases "b - (a + 4) < 8")
        case True
        then show ?thesis by (simp add: ech_variable_field_ranges_def Let_def)
      next
        case False
        let ?n = "unat (u16_at r (a + 4 + 6))"
        have c: "covers (fst (ech_scan r (a, b))) = {} \<or>
            covers (fst (ech_scan r (a, b))) = {a + 9} \<union> {a + 12..<a + 12 + ?n} \<union> {a + 12 + ?n + 2..<b}"
          by (auto simp: sc ech_variable_field_ranges_def Let_def split: if_splits)
        have l: "u16_at r' (a + 4 + 6) = u16_at r (a + 4 + 6)"
          using c False by (intro agree_u16 [OF assms(1)]) auto
        have "u16_at r' (a + 4 + 8 + ?n) = u16_at r (a + 4 + 8 + ?n)" if "a + 4 + 8 + ?n + 2 \<le> b"
          using c that by (intro agree_u16 [OF assms(1)]) auto
        then show ?thesis by (auto simp: ech_variable_field_ranges_def Let_def l l [simplified])
      qed
      then show ?thesis using ech_scan_some [of r' a b] z t ech sc by simp
    next
      case False
      have "r' ! (a + 4) = r ! (a + 4)"
        using assms ech ech_scan_none [of r a b] False by (auto simp: agree_on_def)
      then show ?thesis using ech_scan_none [of r a b] ech_scan_none [of r' a b] False t ech by simp
    qed
  next
    case False
    then have "u16_at r a \<noteq> ECH_EXTENSION_TYPE \<or> b = a + 4" using assms(2) by auto
    then show ?thesis using ech_scan_none [of r a b] ech_scan_none [of r' a b] t assms(2) by auto
  qed
qed

lemma grease_positions_inside:
  "x \<in> set (grease_positions r c e) \<Longrightarrow> c \<le> fst x \<and> snd x = fst x + 2 \<and> snd x \<le> e"
proof (induction r c e rule: grease_positions.induct)
  case (1 r c e)
  then show ?case by (subst (asm) (2) grease_positions.simps) (auto split: if_splits)
qed

lemma grease_positions_cong: "agree_on {c..<e} r r' \<Longrightarrow> grease_positions r' c e = grease_positions r c e"
proof (induction r c e rule: grease_positions.induct)
  case (1 r c e)
  show ?case
  proof (cases "c + 2 \<le> e")
    case True
    then have "u16_at r' c = u16_at r c" by (intro agree_u16 [OF 1(2)]) auto
    moreover have "grease_positions r' (c + 2) e = grease_positions r (c + 2) e"
      using 1(1) [OF True] agree_on_mono [OF 1(2)] by auto
    ultimately show ?thesis using True by (subst (1 2) grease_positions.simps) simp
  next
    case False
    then show ?thesis by (subst (1 2) grease_positions.simps) simp
  qed
qed

lemma grease_scan_inside:
  "x \<in> set (fst (grease_scan r (a, b))) \<Longrightarrow> a + 4 \<le> b \<Longrightarrow>
   a \<le> fst x \<and> fst x \<le> snd x \<and> snd x \<le> b \<and> (fst x = a \<and> snd x = a + 2 \<or> a + 4 \<le> fst x)"
  by (auto simp: grease_scan_def grease_visit_def grease_list_bounds_def Let_def
      split: if_splits option.splits dest!: grease_positions_inside)

lemma grease_scan_cong:
  assumes "agree_on {a..<b} r r'" "a + 4 \<le> b"
  shows "grease_scan r' (a, b) = grease_scan r (a, b)"
proof -
  have t: "u16_at r' a = u16_at r a" using assms by (intro agree_u16 [OF assms(1)]) auto
  have u: "u16_at r' (a + 4) = u16_at r (a + 4)" if "\<not> b - (a + 4) < 2"
    using assms that by (intro agree_u16 [OF assms(1)]) auto
  have v: "r' ! (a + 4) = r ! (a + 4)" if "b \<noteq> a + 4"
    using assms that by (auto simp: agree_on_def)
  have p: "grease_positions r' c e = grease_positions r c e" if "a \<le> c" "e \<le> b" for c e
    using that by (intro grease_positions_cong agree_on_mono [OF assms(1)]) auto
  show ?thesis
    using u v by (auto simp: grease_scan_def grease_visit_def grease_list_bounds_def Let_def t p
        split: option.splits)
qed

lemma grease_scan_ech: "u16_at r a = ECH_EXTENSION_TYPE \<Longrightarrow> grease_scan r (a, b) = ([], False)"
  by (simp add: grease_scan_def grease_visit_def grease_list_bounds_def Let_def is_grease_value_def
      GREASE_VALUES_def ECH_EXTENSION_TYPE_def SUPPORTED_GROUPS_EXTENSION_TYPE_def
      SUPPORTED_VERSIONS_EXTENSION_TYPE_def)

section \<open>Walkable records\<close>

definition walkable :: "bytes \<Rightarrow> nat \<Rightarrow> nat \<Rightarrow> (nat \<times> nat) list \<Rightarrow> bool" where
  "walkable r els ee bs \<longleftrightarrow> walk_start r = Some (els, ee) \<and> ext_bounds r (els + 2) ee = Some bs"

lemma walkableD:
  assumes "walkable r els ee bs" "x \<in> set bs"
  shows "els + 2 \<le> fst x" "fst x + 4 \<le> snd x" "snd x \<le> ee" "ee \<le> length r"
  using assms ext_bounds_inside [of r "els + 2" ee bs x]
  by (auto simp: walkable_def walk_start_iff Let_def)

lemma walkable_disjoint:
  assumes "walkable r els ee bs" "x \<in> set bs" "y \<in> set bs" "i \<in> {fst x..<snd x}" "i \<in> {fst y..<snd y}"
  shows "x = y"
proof -
  have "sorted_wrt (\<lambda>x y. snd x \<le> fst y) bs"
    using assms(1) ext_bounds_disjoint by (auto simp: walkable_def)
  then show ?thesis
    using assms(2-5)
  proof (induction bs)
    case (Cons z bs)
    then show ?case by fastforce
  qed simp
qed

lemma entry_union:
  assumes "walkable r els ee bs" "\<And>y. y \<in> set bs \<Longrightarrow> F y \<subseteq> {fst y..<snd y}" "x \<in> set bs" "i \<in> {fst x..<snd x}"
  shows "i \<in> (\<Union>y \<in> set bs. F y) \<longleftrightarrow> i \<in> F x"
proof
  assume "i \<in> (\<Union>y \<in> set bs. F y)"
  then obtain y where y: "y \<in> set bs" "i \<in> F y" by blast
  then have "i \<in> {fst y..<snd y}" using assms(2) by blast
  then have "x = y" using walkable_disjoint [OF assms(1,3) y(1) assms(4)] by blast
  then show "i \<in> F x" using y by simp
qed (use assms(3) in blast)

lemma walk_eval:
  assumes "walkable r els ee bs"
  shows "walk_client_hello_extensions r visit acc =
    Some (foldl (\<lambda>acc x. visit (u16_at r (fst x)) x acc) acc bs, els)"
  using assms by (simp add: walkable_def walk_client_hello_extensions_def walk_exts_fold)

lemma normalize_eval:
  assumes "walkable r els ee bs"
  shows "normalize_client_hello_key_shares r = scan_all (share_scan r) bs r"
    "normalize_client_hello_ech_extension r = scan_all (ech_scan r) bs r"
    "zero_scanned r (walk_client_hello_extensions r (grease_visit r) ([], False)) = scan_all (grease_scan r) bs r"
proof -
  have eval: "zero_scanned r (walk_client_hello_extensions r v ([], False))
      = scan_all (\<lambda>x. v (u16_at r (fst x)) x ([], False)) bs r" if "\<And>t x. appending (v t x)" for v
    unfolding walk_eval [OF assms] by (rule zero_scanned_scan_all) (rule that)
  show "normalize_client_hello_key_shares r = scan_all (share_scan r) bs r"
    unfolding normalize_client_hello_key_shares_def share_scan_def [abs_def]
    by (rule eval) (rule appending_share)
  show "normalize_client_hello_ech_extension r = scan_all (ech_scan r) bs r"
    unfolding normalize_client_hello_ech_extension_def ech_scan_def [abs_def]
    by (rule eval) (rule appending_ech)
  show "zero_scanned r (walk_client_hello_extensions r (grease_visit r) ([], False)) = scan_all (grease_scan r) bs r"
    unfolding grease_scan_def [abs_def] by (rule eval) (rule appending_grease)
qed

lemma walkable_layout:
  assumes "walkable r els ee bs"
  shows "49 \<le> length r" "suites_end r < els" "46 + unat (r ! 43) \<le> suites_end r" "els + 2 \<le> ee" "ee \<le> length r"
    "client_hello_random_and_session_id_ranges r = Some ((11, 43), (44, 44 + unat (r ! 43)))"
    "u16_get r (44 + unat (r ! 43)) = Some (unat (u16_at r (44 + unat (r ! 43))))"
proof -
  have w: "walk_start r = Some (els, ee)" using assms by (simp add: walkable_def)
  note c = w [unfolded walk_start_iff]
  show "49 \<le> length r" "suites_end r < els" "els + 2 \<le> ee" "ee \<le> length r" using c by linarith+
  show "46 + unat (r ! 43) \<le> suites_end r" by (simp add: suites_end_def)
  have "44 + unat (r ! 43) \<le> length r" using c by linarith
  then show "client_hello_random_and_session_id_ranges r = Some ((11, 43), (44, 44 + unat (r ! 43)))"
    using c by (auto simp: client_hello_random_and_session_id_ranges_def)
  show "u16_get r (44 + unat (r ! 43)) = Some (unat (u16_at r (44 + unat (r ! 43))))"
    using c by (auto simp: u16_get_def)
qed

definition structural :: "bytes \<Rightarrow> nat \<Rightarrow> (nat \<times> nat) list \<Rightarrow> nat set" where
  "structural r els bs = {0, 5, 43, 44 + unat (r ! 43), 45 + unat (r ! 43), suites_end r, els, els + 1} \<union>
     (\<Union>x \<in> set bs. {fst x + 2, fst x + 3})"

lemma walkable_cong:
  assumes w: "walkable r els ee bs" and len: "length r' = length r" and ag: "agree_on (structural r els bs) r r'"
  shows "walkable r' els ee bs" "suites_end r' = suites_end r" "r' ! 43 = r ! 43"
proof -
  have h: "r' ! 0 = r ! 0" "r' ! 5 = r ! 5" "r' ! 43 = r ! 43" "r' ! suites_end r = r ! suites_end r"
    "u16_at r' (44 + unat (r ! 43)) = u16_at r (44 + unat (r ! 43))" "u16_at r' els = u16_at r els"
    using ag by (auto simp: agree_on_def structural_def u16_at_def)
  then show s: "suites_end r' = suites_end r" and "r' ! 43 = r ! 43" by (simp_all add: suites_end_def)
  have "walk_start r' = Some (els, ee)"
    using w unfolding walkable_def walk_start_iff h s len by blast
  moreover have "\<forall>x \<in> set bs. u16_at r' (fst x + 2) = u16_at r (fst x + 2)"
  proof
    fix x assume "x \<in> set bs"
    then have "fst x + 2 \<in> structural r els bs" "fst x + 3 \<in> structural r els bs"
      unfolding structural_def by blast+
    moreover have "fst x + 2 + 1 = fst x + 3" by simp
    ultimately show "u16_at r' (fst x + 2) = u16_at r (fst x + 2)"
      by (intro agree_u16 [OF ag]) (simp_all only:)
  qed
  ultimately show "walkable r' els ee bs"
    using w ext_bounds_cong [of r "els + 2" ee bs r'] unfolding walkable_def by blast
qed

section \<open>Stages of the normalisation\<close>

text \<open>Ranges found inside the entries, other than their lengths, may be zeroed without changing the
  walk.\<close>

definition entry_ranges :: "(nat \<times> nat) list \<Rightarrow> (nat \<times> nat \<Rightarrow> (nat \<times> nat) list) \<Rightarrow> bool" where
  "entry_ranges bs f \<longleftrightarrow> (\<forall>x \<in> set bs. \<forall>g \<in> set (f x).
     fst g \<le> snd g \<and> snd g \<le> snd x \<and> (fst g = fst x \<and> snd g = fst x + 2 \<or> fst x + 4 \<le> fst g))"

lemma entry_ranges_scans:
  assumes "walkable r els ee bs"
  shows "entry_ranges bs (\<lambda>x. fst (share_scan r' x))" "entry_ranges bs (\<lambda>x. fst (ech_scan r' x))"
    "entry_ranges bs (\<lambda>x. fst (grease_scan r' x))"
proof -
  have e: "fst x + 4 \<le> snd x" if "x \<in> set bs" for x using walkableD [OF assms that] by simp
  show "entry_ranges bs (\<lambda>x. fst (share_scan r' x))"
    unfolding entry_ranges_def using share_scan_inside [of _ r'] by fastforce
  show "entry_ranges bs (\<lambda>x. fst (ech_scan r' x))"
    unfolding entry_ranges_def using ech_scan_inside [of _ r'] e by fastforce
  show "entry_ranges bs (\<lambda>x. fst (grease_scan r' x))"
    unfolding entry_ranges_def using grease_scan_inside [of _ r'] e by (metis prod.collapse)
qed

lemma entry_covers:
  assumes "entry_ranges bs f" "x \<in> set bs" "i \<in> covers (f x)"
  shows "fst x \<le> i \<and> i < snd x \<and> i \<noteq> fst x + 2 \<and> i \<noteq> fst x + 3"
  using assms by (fastforce simp: entry_ranges_def covers_def)

lemma zero_entries:
  assumes w: "walkable r els ee bs" and f: "entry_ranges bs f"
  defines "z \<equiv> zero_ranges (concat (map f bs)) r"
  shows "length z = length r"
    "i < length r \<Longrightarrow> z ! i = (if \<exists>x \<in> set bs. i \<in> covers (f x) then 0 else r ! i)"
    "walkable z els ee bs" "z ! 43 = r ! 43" "suites_end z = suites_end r"
proof -
  have ok: "\<forall>g \<in> set (concat (map f bs)). fst g \<le> snd g \<and> snd g \<le> length r"
    using f walkableD [OF w] by (fastforce simp: entry_ranges_def)
  show len: "length z = length r" unfolding z_def by (rule length_zero_ranges [OF ok])
  have nth: "z ! i = (if \<exists>x \<in> set bs. i \<in> covers (f x) then 0 else r ! i)" if "i < length r" for i
    unfolding z_def nth_zero_ranges [OF ok that] by (simp add: covers_concat)
  then show "i < length r \<Longrightarrow> z ! i = (if \<exists>x \<in> set bs. i \<in> covers (f x) then 0 else r ! i)" .
  have out: "i \<notin> covers (f x)" if "i \<in> structural r els bs" "x \<in> set bs" for i x
  proof
    assume c: "i \<in> covers (f x)"
    note b = entry_covers [OF f that(2) c] walkableD [OF w that(2)] walkable_layout [OF w]
    have "i \<in> (\<Union>y \<in> set bs. {fst y + 2, fst y + 3})"
      using that(1) b by (auto simp: structural_def)
    then obtain y where y: "y \<in> set bs" "i = fst y + 2 \<or> i = fst y + 3" by blast
    then have "i \<in> {fst y..<snd y}" using walkableD [OF w y(1)] by auto
    then have "x = y" using walkable_disjoint [OF w that(2) y(1)] b by auto
    then show False using y b by auto
  qed
  have "i < length r" if "i \<in> structural r els bs" for i
    using that walkable_layout [OF w] walkableD [OF w] by (fastforce simp: structural_def)
  then have "agree_on (structural r els bs) r z"
    using nth out by (auto simp: agree_on_def)
  from walkable_cong [OF w len this]
  show "walkable z els ee bs" "z ! 43 = r ! 43" "suites_end z = suites_end r" by blast+
qed

definition ech_area :: "bytes \<Rightarrow> (nat \<times> nat) list \<Rightarrow> nat set" where
  "ech_area r bs = (\<Union>x \<in> set bs. covers (fst (ech_scan r x)))"

definition share_area :: "bytes \<Rightarrow> (nat \<times> nat) list \<Rightarrow> nat set" where
  "share_area r bs = (\<Union>x \<in> set bs. covers (fst (share_scan r x)))"

lemma area_in_entry:
  assumes w: "walkable r els ee bs" and x: "x \<in> set bs" "i \<in> {fst x..<snd x}"
  shows "i \<in> ech_area r' bs \<longleftrightarrow> i \<in> covers (fst (ech_scan r' x))"
    "i \<in> share_area r' bs \<longleftrightarrow> i \<in> covers (fst (share_scan r' x))"
  unfolding ech_area_def share_area_def
  using entry_covers [OF entry_ranges_scans(1) [OF w]] entry_covers [OF entry_ranges_scans(2) [OF w]]
  by (intro entry_union [OF w _ x]; force)+

lemma covers_late:
  assumes "fst x + 4 \<le> snd x"
  shows "i \<in> covers (fst (share_scan r x)) \<Longrightarrow> fst x + 4 \<le> i"
    "i \<in> covers (fst (ech_scan r x)) \<Longrightarrow> fst x + 4 \<le> i"
  using share_scan_inside [of _ r "fst x" "snd x"] ech_scan_inside [of _ r "fst x" "snd x", OF _ assms]
  by (fastforce simp: covers_def)+

lemma areas_late:
  assumes w: "walkable r els ee bs" and i: "i < els + 2"
  shows "i \<notin> ech_area r' bs" "i \<notin> share_area r' bs"
proof -
  have "els + 2 \<le> fst x" "fst x + 4 \<le> snd x" if "x \<in> set bs" for x using walkableD [OF w that] by auto
  then have "x \<in> set bs \<Longrightarrow> i \<notin> covers (fst (ech_scan r' x)) \<and> i \<notin> covers (fst (share_scan r' x))" for x
    using covers_late [of x i r'] i by fastforce
  then show "i \<notin> ech_area r' bs" "i \<notin> share_area r' bs" by (auto simp: ech_area_def share_area_def)
qed

lemma covers_type:
  assumes "fst x + 4 \<le> snd x"
  shows "i \<in> covers (fst (ech_scan r x)) \<Longrightarrow> u16_at r (fst x) = ECH_EXTENSION_TYPE"
    "i \<in> covers (fst (share_scan r x)) \<Longrightarrow> u16_at r (fst x) = 0x33"
  using ech_scan_none [of r "fst x" "snd x"] share_scan_type [of r "fst x" "snd x"] assms
  by (cases x; force)+

lemma agree_entry_ech:
  assumes w: "walkable r els ee bs" and x: "x \<in> set bs"
    and ag: "agree_on ({..<length r} - ech_area r bs) r r'"
  shows "ech_scan r' x = ech_scan r x"
proof -
  have "agree_on ({fst x..<snd x} - covers (fst (ech_scan r x))) r r'"
    using area_in_entry(1) [OF w x] walkableD [OF w x] by (intro agree_on_mono [OF ag]) auto
  then show ?thesis using ech_scan_cong [of "fst x" "snd x" r r'] walkableD [OF w x] by simp
qed

text \<open>Last stage: two records that agree outside the ECH fields have the same result.\<close>

lemma ech_stage:
  assumes w: "walkable r els ee bs" and w': "walkable r' els ee bs" and len: "length r' = length r"
    and ag: "agree_on ({..<length r} - ech_area r bs) r r'"
  shows "normalize_client_hello_ech_extension r' = normalize_client_hello_ech_extension r"
proof -
  have sc: "ech_scan r' x = ech_scan r x" if "x \<in> set bs" for x by (rule agree_entry_ech [OF w that ag])
  then have rg: "map (\<lambda>x. fst (ech_scan r' x)) bs = map (\<lambda>x. fst (ech_scan r x)) bs" by simp
  note z = zero_entries [OF w entry_ranges_scans(2) [OF w]]
  note z' = zero_entries [OF w' entry_ranges_scans(2) [OF w]]
  have "zero_ranges (concat (map (\<lambda>x. fst (ech_scan r x)) bs)) r'
      = zero_ranges (concat (map (\<lambda>x. fst (ech_scan r x)) bs)) r"
    using ag by (intro nth_equalityI) (auto simp: z(1,2) z'(1,2) len agree_on_def ech_area_def)
  then show ?thesis
    unfolding normalize_eval(2) [OF w] normalize_eval(2) [OF w'] scan_all_def rg using sc by simp
qed

text \<open>A stage that zeroes the same ranges on both sides and leaves ECH entries alone keeps the two
  records equal outside the ECH fields.\<close>

lemma not_ech_zero: "u16_from_be 0 b \<noteq> ECH_EXTENSION_TYPE"
proof
  assume "u16_from_be 0 b = ECH_EXTENSION_TYPE"
  then have "(ucast (drop_bit 8 (u16_from_be 0 b)) :: u8) = ucast (drop_bit 8 ECH_EXTENSION_TYPE)" by simp
  then show False by (simp add: ECH_EXTENSION_TYPE_def)
qed

lemma zero_keeps_type:
  assumes w: "walkable r els ee bs" and f: "entry_ranges bs f" and x: "x \<in> set bs"
    and t: "u16_at r (fst x) \<noteq> ECH_EXTENSION_TYPE"
  shows "u16_at (zero_ranges (concat (map f bs)) r) (fst x) \<noteq> ECH_EXTENSION_TYPE"
proof -
  note z = zero_entries(2) [OF w f]
  note b = walkableD [OF w x]
  have e: "i \<in> {fst x..<snd x} \<Longrightarrow> (\<exists>y \<in> set bs. i \<in> covers (f y)) \<longleftrightarrow> i \<in> covers (f x)" for i
    using entry_union [OF w _ x, of "\<lambda>y. covers (f y)" i] entry_covers [OF f] by fastforce
  show ?thesis
  proof (cases "fst x \<in> covers (f x)")
    case True
    then show ?thesis using z [of "fst x"] e [of "fst x"] b not_ech_zero by (simp add: u16_at_def)
  next
    case False
    then have "fst x + 1 \<notin> covers (f x)"
      using f x by (fastforce simp: entry_ranges_def covers_def)
    then show ?thesis using False z [of "fst x"] z [of "fst x + 1"] e [of "fst x"] e [of "fst x + 1"] b t
      by (simp add: u16_at_def)
  qed
qed

lemma zero_stage:
  assumes w: "walkable r els ee bs" and w': "walkable r' els ee bs" and len: "length r' = length r"
    and f: "entry_ranges bs f"
    and ech: "\<And>x. x \<in> set bs \<Longrightarrow> u16_at r (fst x) = ECH_EXTENSION_TYPE \<Longrightarrow> f x = []"
    and ag: "agree_on ({..<length r} - (\<Union>x \<in> set bs. covers (f x)) - ech_area r bs) r r'"
  defines "z \<equiv> zero_ranges (concat (map f bs)) r" and "z' \<equiv> zero_ranges (concat (map f bs)) r'"
  shows "walkable z els ee bs" "walkable z' els ee bs" "length z' = length z"
    "agree_on ({..<length z} - ech_area z bs) z z'"
proof -
  note zz = zero_entries [OF w f, folded z_def] and zz' = zero_entries [OF w' f, folded z'_def]
  show "walkable z els ee bs" "walkable z' els ee bs" "length z' = length z"
    using zz zz' len by auto
  have same: "z ! i = r ! i" if "x \<in> set bs" "i \<in> {fst x..<snd x}" "f x = []" for x i
  proof -
    have "i < length r" using walkableD [OF w that(1)] that(2) by auto
    moreover have "i \<notin> (\<Union>y \<in> set bs. covers (f y))"
      using entry_union [OF w _ that(1,2), of "\<lambda>y. covers (f y)"] entry_covers [OF f] that(3) by force
    ultimately show ?thesis using zz(2) by auto
  qed
  have "ech_scan z x = ech_scan r x" if x: "x \<in> set bs" for x
  proof (cases "f x = []")
    case True
    then have "agree_on {fst x..<snd x} r z" using same x by (auto simp: agree_on_def)
    then show ?thesis
      using ech_scan_cong [of "fst x" "snd x" r z] walkableD [OF w x] agree_on_mono by (metis Diff_subset prod.collapse)
  next
    case False
    then have "u16_at z (fst x) \<noteq> ECH_EXTENSION_TYPE" "u16_at r (fst x) \<noteq> ECH_EXTENSION_TYPE"
      using zero_keeps_type [OF w f x] ech [OF x] by (auto simp: z_def)
    then show ?thesis
      using ech_scan_none [of z "fst x" "snd x"] ech_scan_none [of r "fst x" "snd x"] walkableD [OF w x] by simp
  qed
  then have "ech_area z bs = ech_area r bs" by (simp add: ech_area_def)
  then show "agree_on ({..<length z} - ech_area z bs) z z'"
    using ag zz(1,2) zz'(1,2) len by (auto simp: agree_on_def)
qed

text \<open>Two records at the same stage: both fail, or both succeed and agree outside the ECH fields.\<close>

definition same_stage :: "nat \<Rightarrow> nat \<Rightarrow> (nat \<times> nat) list \<Rightarrow> bytes option \<Rightarrow> bytes option \<Rightarrow> bool" where
  "same_stage els ee bs x y \<longleftrightarrow> x = None \<and> y = None \<or>
     (\<exists>z z'. x = Some z \<and> y = Some z' \<and> walkable z els ee bs \<and> walkable z' els ee bs \<and> length z' = length z \<and>
        agree_on ({..<length z} - ech_area z bs) z z')"

lemma scan_stage:
  assumes w: "walkable r els ee bs" and w': "walkable r' els ee bs" and len: "length r' = length r"
    and f: "entry_ranges bs (\<lambda>x. fst (sc x))" and sc: "\<And>x. x \<in> set bs \<Longrightarrow> sc' x = sc x"
    and ech: "\<And>x. x \<in> set bs \<Longrightarrow> u16_at r (fst x) = ECH_EXTENSION_TYPE \<Longrightarrow> fst (sc x) = []"
    and ag: "agree_on ({..<length r} - (\<Union>x \<in> set bs. covers (fst (sc x))) - ech_area r bs) r r'"
  shows "same_stage els ee bs (scan_all sc bs r) (scan_all sc' bs r')"
proof -
  have m: "map (\<lambda>x. fst (sc' x)) bs = map (\<lambda>x. fst (sc x)) bs" using sc by simp
  note z = zero_stage [OF w w' len f ech ag]
  show ?thesis
    unfolding same_stage_def scan_all_def m using z sc by auto
qed

lemma share_stage:
  assumes w: "walkable r els ee bs" and w': "walkable r' els ee bs" and len: "length r' = length r"
    and ag: "agree_on ({..<length r} - share_area r bs - ech_area r bs) r r'"
  shows "same_stage els ee bs (normalize_client_hello_key_shares r) (normalize_client_hello_key_shares r')"
  unfolding normalize_eval(1) [OF w] normalize_eval(1) [OF w']
proof (rule scan_stage [OF w w' len entry_ranges_scans(1) [OF w]])
  show "agree_on ({..<length r} - (\<Union>x \<in> set bs. covers (fst (share_scan r x))) - ech_area r bs) r r'"
    using ag by (simp add: share_area_def)
next
  fix x assume x: "x \<in> set bs"
  note b = walkableD [OF w x]
  show "fst (share_scan r x) = []" if "u16_at r (fst x) = ECH_EXTENSION_TYPE"
    using share_scan_type [of r "fst x" "snd x"] that by (simp add: ECH_EXTENSION_TYPE_def)
  have ent: "i \<in> {fst x..<snd x} \<Longrightarrow> i \<in> share_area r bs \<longleftrightarrow> i \<in> covers (fst (share_scan r x))"
    "i \<in> {fst x..<snd x} \<Longrightarrow> i \<in> ech_area r bs \<longleftrightarrow> i \<in> covers (fst (ech_scan r x))" for i
    using area_in_entry [OF w x] by auto
  show "share_scan r' x = share_scan r x"
  proof (cases "u16_at r (fst x) = 0x33")
    case True
    have "i \<notin> covers (fst (ech_scan r x))" for i
      using covers_type(1) [OF b(2), of i r] True by (auto simp: ECH_EXTENSION_TYPE_def)
    then have "agree_on ({fst x..<snd x} - covers (fst (share_scan r x))) r r'"
      using ent b by (intro agree_on_mono [OF ag]) auto
    then show ?thesis using share_scan_cong [of "fst x" "snd x" r r'] b by simp
  next
    case False
    have "fst x \<in> {..<length r} - share_area r bs - ech_area r bs"
      "fst x + 1 \<in> {..<length r} - share_area r bs - ech_area r bs"
      using ent [of "fst x"] ent [of "fst x + 1"] b covers_late [OF b(2), of "fst x" r]
        covers_late [OF b(2), of "fst x + 1" r] by auto
    then have "u16_at r' (fst x) = u16_at r (fst x)" by (rule agree_u16 [OF ag])
    then show ?thesis using False share_scan_type [of _ "fst x" "snd x"] by (metis prod.collapse)
  qed
qed

lemma zero_suites:
  fixes r r' :: bytes
  assumes w: "walkable r els ee bs"
  defines "z \<equiv> zero_ranges (grease_positions r' (46 + unat (r ! 43)) (suites_end r)) r"
  shows "length z = length r" "walkable z els ee bs" "suites_end z = suites_end r" "z ! 43 = r ! 43"
    "i < length r \<Longrightarrow>
      z ! i = (if i \<in> covers (grease_positions r' (46 + unat (r ! 43)) (suites_end r)) then 0 else r ! i)"
    "els + 2 \<le> i \<Longrightarrow> i < length r \<Longrightarrow> z ! i = r ! i"
proof -
  let ?g = "grease_positions r' (46 + unat (r ! 43)) (suites_end r)"
  note lay = walkable_layout [OF w]
  have ok: "\<forall>x \<in> set ?g. fst x \<le> snd x \<and> snd x \<le> length r"
    using grease_positions_inside [of _ r' "46 + unat (r ! 43)" "suites_end r"] lay by fastforce
  have cov: "i \<in> covers ?g \<Longrightarrow> 46 + unat (r ! 43) \<le> i \<and> i < suites_end r" for i
    using grease_positions_inside [of _ r' "46 + unat (r ! 43)" "suites_end r"] by (fastforce simp: covers_def)
  show len: "length z = length r" unfolding z_def by (rule length_zero_ranges [OF ok])
  have nth: "z ! i = (if i \<in> covers ?g then 0 else r ! i)" if "i < length r" for i
    unfolding z_def by (rule nth_zero_ranges [OF ok that])
  then show "i < length r \<Longrightarrow> z ! i = (if i \<in> covers ?g then 0 else r ! i)" .
  show "els + 2 \<le> i \<Longrightarrow> i < length r \<Longrightarrow> z ! i = r ! i" using nth cov [of i] lay by auto
  have "agree_on (structural r els bs) r z"
    unfolding agree_on_def
  proof
    fix i assume i: "i \<in> structural r els bs"
    then have "i < length r" "i < 46 + unat (r ! 43) \<or> suites_end r \<le> i"
      using lay walkableD [OF w] by (fastforce simp: structural_def)+
    then show "r ! i = z ! i" using nth cov [of i] by auto
  qed
  from walkable_cong [OF w len this]
  show "walkable z els ee bs" "suites_end z = suites_end r" "z ! 43 = r ! 43" by blast+
qed

lemma grease_stage:
  assumes w: "walkable r els ee bs" and w': "walkable r' els ee bs" and len: "length r' = length r"
    and ag: "agree_on ({..<length r} - ech_area r bs) r r'"
  shows "same_stage els ee bs (normalize_client_hello_grease_positions r) (normalize_client_hello_grease_positions r')"
proof -
  note lay = walkable_layout [OF w] and lay' = walkable_layout [OF w']
  have early: "i < els + 2 \<Longrightarrow> r ! i = r' ! i" for i
    using ag lay areas_late(1) [OF w] by (simp add: agree_on_def)
  have b: "r' ! 43 = r ! 43" "r' ! (44 + unat (r ! 43)) = r ! (44 + unat (r ! 43))"
    "r' ! (44 + unat (r ! 43) + 1) = r ! (44 + unat (r ! 43) + 1)"
    using lay by (auto intro!: early [symmetric])
  then have hd: "r' ! 43 = r ! 43" "suites_end r' = suites_end r"
    unfolding suites_end_def u16_at_def by simp_all
  let ?g = "grease_positions r (46 + unat (r ! 43)) (suites_end r)"
  have g: "grease_positions r' (46 + unat (r ! 43)) (suites_end r) = ?g"
    using early lay by (intro grease_positions_cong) (auto simp: agree_on_def)
  define z z' where "z = zero_ranges ?g r" and "z' = zero_ranges ?g r'"
  note zz = zero_suites [OF w, where r' = r, folded z_def]
  note zz' = zero_suites [OF w', where r' = r, unfolded hd, folded z'_def]
  have eqs: "normalize_client_hello_grease_positions x
      = scan_all (grease_scan (zero_ranges ?g x)) bs (zero_ranges ?g x)" if "x = r \<or> x = r'" for x
    using that lay lay' zz(2) zz'(2) hd g normalize_eval(3) [of z] normalize_eval(3) [of z']
    by (auto simp: normalize_client_hello_grease_positions_def Let_def z_def z'_def suites_end_def add.assoc)
  have sc: "ech_scan z x = ech_scan r x" if "x \<in> set bs" for x
  proof -
    have "agree_on {fst x..<snd x} r z"
      using zz(6) walkableD [OF w that] by (auto simp: agree_on_def)
    then show ?thesis
      using ech_scan_cong [of "fst x" "snd x" r z] walkableD [OF w that] agree_on_mono by (metis Diff_subset prod.collapse)
  qed
  then have area: "ech_area z bs = ech_area r bs" by (simp add: ech_area_def)
  have agz: "agree_on ({..<length z} - ech_area z bs) z z'"
    using ag zz(1,5) zz'(1,5) len by (auto simp: agree_on_def area)
  show ?thesis
    unfolding eqs [of r, simplified] eqs [of r', simplified] z_def [symmetric] z'_def [symmetric]
  proof (rule scan_stage [OF zz(2) zz'(2) _ entry_ranges_scans(3) [OF w]])
    show "length z' = length z" using zz(1) zz'(1) len by simp
    show "agree_on ({..<length z} - (\<Union>x \<in> set bs. covers (fst (grease_scan z x))) - ech_area z bs) z z'"
      by (rule agree_on_mono [OF agz]) auto
  next
    fix x assume x: "x \<in> set bs"
    note b = walkableD [OF zz(2) x]
    show "fst (grease_scan z x) = []" if "u16_at z (fst x) = ECH_EXTENSION_TYPE"
      using grease_scan_ech [OF that, of "snd x"] by simp
    have ent: "i \<in> {fst x..<snd x} \<Longrightarrow> i \<in> ech_area z bs \<longleftrightarrow> i \<in> covers (fst (ech_scan z x))" for i
      using area_in_entry(1) [OF zz(2) x] by auto
    have t: "u16_at z' (fst x) = u16_at z (fst x)"
      using ent [of "fst x"] ent [of "fst x + 1"] b covers_late(2) [OF b(2), of "fst x" z]
        covers_late(2) [OF b(2), of "fst x + 1" z] by (intro agree_u16 [OF agz]) auto
    show "grease_scan z' x = grease_scan z x"
    proof (cases "u16_at z (fst x) = ECH_EXTENSION_TYPE")
      case True
      then show ?thesis using t grease_scan_ech [of _ "fst x" "snd x"] by simp
    next
      case False
      then have "i \<notin> covers (fst (ech_scan z x))" for i using covers_type(1) [OF b(2)] by blast
      then have "agree_on {fst x..<snd x} z z'"
        using ent b by (intro agree_on_mono [OF agz]) auto
      then show ?thesis using grease_scan_cong [of "fst x" "snd x" z z'] b by simp
    qed
  qed
qed

lemma clear_stage:
  assumes w: "walkable r els ee bs"
  obtains z where "clear_random_and_session_id r = Some z" "length z = length r" "walkable z els ee bs"
    "\<And>i. i < length r \<Longrightarrow> z ! i = (if i \<in> {11..<43} \<union> {44..<44 + unat (r ! 43)} then 0 else r ! i)"
proof -
  note lay = walkable_layout [OF w]
  let ?z = "zero_range (44, 44 + unat (r ! 43)) (zero_range (11, 43) r)"
  have b: "44 + unat (r ! 43) \<le> length r" using lay by linarith
  then have len: "length ?z = length r" using lay(1) by (simp add: zero_range_props(1))
  have nth: "?z ! i = (if i \<in> {11..<43} \<union> {44..<44 + unat (r ! 43)} then 0 else r ! i)" if "i < length r" for i
    using that b lay(1) by (auto simp: zero_range_props)
  have "agree_on (structural r els bs) r ?z"
    unfolding agree_on_def
  proof
    fix i assume i: "i \<in> structural r els bs"
    then have "i < length r" "i \<notin> {11..<43} \<union> {44..<44 + unat (r ! 43)}"
      using lay walkableD [OF w] by (fastforce simp: structural_def)+
    then show "r ! i = ?z ! i" using nth by auto
  qed
  from walkable_cong(1) [OF w len this] show ?thesis
    using that [OF _ len _ nth] lay(6) by (simp add: clear_random_and_session_id_def)
qed

definition per_connection_positions :: "bytes \<Rightarrow> (nat \<times> nat) list \<Rightarrow> nat set" where
  "per_connection_positions r bs =
     {11..<43} \<union> {44..<44 + unat (r ! 43)} \<union> share_area r bs \<union> ech_area r bs"

lemma structural_not_area:
  assumes w: "walkable r els ee bs" and i: "i \<in> structural r els bs"
  shows "i \<notin> per_connection_positions r bs"
proof -
  note lay = walkable_layout [OF w]
  have "i \<notin> {11..<43} \<union> {44..<44 + unat (r ! 43)}"
    using i lay walkableD [OF w] by (fastforce simp: structural_def)
  moreover have "i \<notin> share_area r bs \<and> i \<notin> ech_area r bs"
  proof (cases "i < els + 2")
    case False
    then obtain x where x: "x \<in> set bs" "i = fst x + 2 \<or> i = fst x + 3"
      using i lay by (auto simp: structural_def)
    note b = walkableD [OF w x(1)]
    have "i \<in> {fst x..<snd x}" using x(2) b by auto
    then show ?thesis
      using area_in_entry [OF w x(1)] covers_late [OF b(2), of i r] x(2) by auto
  qed (use areas_late [OF w] in blast)
  ultimately show ?thesis by (auto simp: per_connection_positions_def)
qed

lemma areas_cong:
  assumes w: "walkable r els ee bs" and ag: "agree_on {els + 2..<length r} r z"
  shows "share_area z bs = share_area r bs" "ech_area z bs = ech_area r bs"
proof -
  have "share_scan z x = share_scan r x \<and> ech_scan z x = ech_scan r x" if x: "x \<in> set bs" for x
  proof -
    note b = walkableD [OF w x]
    have "agree_on ({fst x..<snd x} - S) r z" for S using b by (intro agree_on_mono [OF ag]) auto
    then show ?thesis
      using share_scan_cong [of "fst x" "snd x" r z] ech_scan_cong [of "fst x" "snd x" r z] b by simp
  qed
  then show "share_area z bs = share_area r bs" "ech_area z bs = ech_area r bs"
    by (simp_all add: share_area_def ech_area_def)
qed

lemma same_stage_bind:
  assumes "same_stage els ee bs x y"
    and "\<And>z z'. walkable z els ee bs \<Longrightarrow> walkable z' els ee bs \<Longrightarrow> length z' = length z \<Longrightarrow>
      agree_on ({..<length z} - ech_area z bs) z z' \<Longrightarrow> f z' = f z"
  shows "Option.bind y f = Option.bind x f"
  using assms(1) unfolding same_stage_def by (auto intro: assms(2))

definition after_shares :: "bytes \<Rightarrow> bytes option" where
  "after_shares r2 =
     Option.bind (normalize_client_hello_grease_positions r2) (\<lambda>r3.
     Option.bind (normalize_client_hello_ech_extension r3) normalize_client_hello_padding_extension)"

lemma after_shares_stage:
  assumes "walkable z els ee bs" "walkable z' els ee bs" "length z' = length z"
    "agree_on ({..<length z} - ech_area z bs) z z'"
  shows "after_shares z' = after_shares z"
  unfolding after_shares_def
  by (rule same_stage_bind [OF grease_stage [OF assms]]) (simp add: ech_stage)

lemma normalized_stable:
  assumes w: "walkable r els ee bs" and len: "length r' = length r"
    and ag: "agree_on ({..<length r} - per_connection_positions r bs) r r'"
  shows "normalized_client_hello r' = normalized_client_hello r"
proof -
  note lay = walkable_layout [OF w]
  have "structural r els bs \<subseteq> {..<length r}"
    using lay walkableD [OF w] by (fastforce simp: structural_def)
  then have "agree_on (structural r els bs) r r'"
    using structural_not_area [OF w] by (intro agree_on_mono [OF ag]) blast
  note w' = walkable_cong [OF w len this]
  obtain z where z: "clear_random_and_session_id r = Some z" "length z = length r" "walkable z els ee bs"
    "\<And>i. i < length r \<Longrightarrow> z ! i = (if i \<in> {11..<43} \<union> {44..<44 + unat (r ! 43)} then 0 else r ! i)"
    using clear_stage [OF w] by blast
  obtain z' where z': "clear_random_and_session_id r' = Some z'" "length z' = length r'" "walkable z' els ee bs"
    "\<And>i. i < length r' \<Longrightarrow> z' ! i = (if i \<in> {11..<43} \<union> {44..<44 + unat (r ! 43)} then 0 else r' ! i)"
    using clear_stage [OF w'(1)] w'(3) by metis
  have "agree_on {els + 2..<length r} r z" using z(4) lay by (auto simp: agree_on_def)
  note areas = areas_cong [OF w this]
  have "agree_on ({..<length z} - share_area z bs - ech_area z bs) z z'"
    unfolding agree_on_def areas
  proof
    fix i assume i: "i \<in> {..<length z} - share_area r bs - ech_area r bs"
    have "i \<in> {..<length r} - per_connection_positions r bs" if "i \<notin> {11..<43} \<union> {44..<44 + unat (r ! 43)}"
      using i z(2) that unfolding per_connection_positions_def by simp
    then have "i \<notin> {11..<43} \<union> {44..<44 + unat (r ! 43)} \<Longrightarrow> r ! i = r' ! i"
      using ag unfolding agree_on_def by blast
    moreover have "i < length r" "i < length r'" using i z(2) len by auto
    ultimately show "z ! i = z' ! i" using z(4) z'(4) by metis
  qed
  moreover have "length z' = length z" by (simp add: z(2) z'(2) len)
  ultimately have "same_stage els ee bs (normalize_client_hello_key_shares z) (normalize_client_hello_key_shares z')"
    using share_stage [OF z(3) z'(3)] by blast
  then have "Option.bind (normalize_client_hello_key_shares z') after_shares
      = Option.bind (normalize_client_hello_key_shares z) after_shares"
    by (rule same_stage_bind) (rule after_shares_stage)
  then show ?thesis by (simp add: normalized_client_hello_def z(1) z'(1) after_shares_def [abs_def])
qed

section \<open>Bounds of what is found\<close>

lemma walk_invariant:
  assumes "walk_client_hello_extensions r visit acc = Some (res, els)" "P acc"
    and "\<And>t a b acc. a + 4 \<le> b \<Longrightarrow> b \<le> length r \<Longrightarrow> P acc \<Longrightarrow> P (visit t (a, b) acc)"
  shows "P res"
proof -
  obtain ee bs where w: "walkable r els ee bs"
    and res: "res = foldl (\<lambda>acc x. visit (u16_at r (fst x)) x acc) acc bs"
    using assms(1) by (auto simp: walk_client_hello_extensions_def walkable_def walk_exts_fold split: option.splits)
  have "\<forall>x \<in> set bs. fst x + 4 \<le> snd x \<and> snd x \<le> length r" using walkableD [OF w] by fastforce
  then show ?thesis
    unfolding res using assms(2)
  proof (induction bs arbitrary: acc)
    case (Cons x bs)
    then show ?case using assms(3) [of "fst x" "snd x"] by simp
  qed simp
qed

lemma key_share_search_bounds:
  assumes "key_share_search r c e f = (Some (a, b), m)" "\<And>a b. f = Some (a, b) \<Longrightarrow> a \<le> b \<and> b \<le> e"
  shows "a \<le> b \<and> b \<le> e"
  using assms
proof (induction "e - c" arbitrary: c f rule: less_induct)
  case less
  let ?n = "c + 4 + unat (u16_at r (c + 2))"
  show ?case
  proof (cases "c + 4 \<le> e \<and> ?n \<le> e \<and> u16_at r c \<noteq> 0x1d")
    case True
    let ?f = "if f = None then Some (c + 4, ?n) else f"
    have "key_share_search r c e f = key_share_search r ?n e ?f"
      using True by (subst key_share_search.simps) (simp add: Let_def)
    moreover have "e - ?n < e - c" using True by linarith
    ultimately show ?thesis
      using less(1) [of ?n ?f] less(2,3) True by (auto split: if_splits)
  next
    case False
    then show ?thesis
      using less(2,3) by (subst (asm) key_share_search.simps) (auto simp: Let_def split: if_splits)
  qed
qed

lemma server_ext_search_bounds:
  "server_ext_search rs c e = Some (g, (a, b)) \<Longrightarrow> a \<le> b \<and> b \<le> e"
proof (induction "e - c" arbitrary: c rule: less_induct)
  case less
  let ?n = "c + 4 + unat (u16_at rs (c + 2))"
  show ?case
  proof (cases "c + 4 \<le> e \<and> ?n \<le> e \<and> u16_at rs c \<noteq> 0x33")
    case True
    have "server_ext_search rs c e = server_ext_search rs ?n e"
      using True by (subst server_ext_search.simps) (simp add: Let_def)
    moreover have "e - ?n < e - c" using True by linarith
    ultimately show ?thesis using less by simp
  next
    case False
    then show ?thesis
      using less(2) by (subst (asm) server_ext_search.simps) (auto simp: Let_def split: if_splits)
  qed
qed

lemma server_hello_search_bounds:
  "server_hello_search rs off = Some (g, (a, b)) \<Longrightarrow> a \<le> b \<and> b \<le> length rs"
proof (induction "length rs - off" arbitrary: off rule: less_induct)
  case less
  have IH: "server_hello_search rs n = Some (g, (a, b)) \<Longrightarrow> off < n \<Longrightarrow> off < length rs \<Longrightarrow> a \<le> b \<and> b \<le> length rs" for n
    using less(1) [of n] by simp
  show ?case
    using less(2)
    by (subst (asm) server_hello_search.simps)
       (auto simp: Let_def split: if_splits dest!: server_ext_search_bounds dest: IH)
qed

lemma first_share_bounds: "fst (key_share_search r c e None) = Some (a, b) \<Longrightarrow> a \<le> b \<and> b \<le> e"
  using key_share_search_bounds [of r c e None a b] by (cases "key_share_search r c e None") auto


section \<open>Bounded reading\<close>

fun read_records ::
  "tls_record_read_limits \<Rightarrow> nat \<Rightarrow> tls_record_read_state \<Rightarrow> socket \<Rightarrow>
   bytes list \<times> tls_record_read_state \<times> socket" where
  "read_records lim 0 st s = ([], st, s)"
| "read_records lim (Suc n) st s =
     (case read_tls_record_bounded lim st s of
        Inl e \<Rightarrow> ([], st, s)
      | Inr (_, buf, st', s') \<Rightarrow> let (bufs, rest) = read_records lim n st' s' in (buf # bufs, rest))"

lemma take_take_drop: "take a xs @ take b (drop a xs) @ drop (b + a) xs = xs"
  by (metis append_take_drop_id drop_drop)

lemma read_tls_record_ok:
  assumes "read_tls_record_bounded lim st s = Inr ((typ, len), buf, st', s')"
  shows "fst s = buf @ fst s'" "length buf = 5 + len" "typ = buf ! 0" "len = unat (u16_at buf 3)"
    "len \<le> MAX_TLS_RECORD_PAYLOAD_LEN" "rs_records st' = rs_records st + 1" "rs_records st' \<le> lim_max_records lim"
    "rs_bytes st' = rs_bytes st + length buf" "rs_bytes st' \<le> lim_max_bytes lim"
  using assms
  by (auto simp: read_tls_record_bounded_def read_exact_def Let_def u16_at_def nth_append take_take_drop
      split: if_splits sum.splits)

lemma read_records_inv:
  assumes "rs_records st \<le> lim_max_records lim" "rs_bytes st \<le> lim_max_bytes lim"
    and "read_records lim n st s = (bufs, st', s')"
  shows "fst s = concat bufs @ fst s' \<and> rs_records st' = rs_records st + length bufs \<and>
    rs_bytes st' = rs_bytes st + length (concat bufs) \<and>
    rs_records st' \<le> lim_max_records lim \<and> rs_bytes st' \<le> lim_max_bytes lim \<and>
    list_all (\<lambda>b. length b \<le> 5 + MAX_TLS_RECORD_PAYLOAD_LEN) bufs"
  using assms
proof (induction n arbitrary: st s bufs)
  case (Suc n)
  show ?case
  proof (cases "read_tls_record_bounded lim st s")
    case (Inl e)
    then show ?thesis using Suc.prems by simp
  next
    case (Inr x)
    obtain ty len buf st1 s1 where x: "x = ((ty, len), buf, st1, s1)" by (cases x) auto
    note ok = read_tls_record_ok [OF Inr [unfolded x]]
    obtain bufs1 where bufs1: "read_records lim n st1 s1 = (bufs1, st', s')" "bufs = buf # bufs1"
      using Suc.prems(3) by (auto simp: Inr x Let_def split: prod.splits)
    show ?thesis using Suc.IH [OF ok(7,9) bufs1(1)] ok bufs1(2) by simp
  qed
qed simp

text \<open>Reading records under limits: however many calls are made and whatever the peer sends, the
  buffers handed out are exactly the bytes consumed from the socket, in order; their number and total
  length are what the state counts and never exceed the limits, and each is at most a header and the
  largest record body.\<close>

lemma bounded_reads_within_limits:
  "let (bufs, st, s') = read_records lim n \<lparr>rs_records = 0, rs_bytes = 0\<rparr> s
   in fst s = concat bufs @ fst s' \<and> rs_records st = length bufs \<and> rs_bytes st = length (concat bufs) \<and>
      length bufs \<le> lim_max_records lim \<and> length (concat bufs) \<le> lim_max_bytes lim \<and>
      list_all (\<lambda>b. length b \<le> 5 + MAX_TLS_RECORD_PAYLOAD_LEN) bufs"
  using read_records_inv [of "\<lparr>rs_records = 0, rs_bytes = 0\<rparr>" lim n s]
  by (auto simp: Let_def split: prod.splits)

section \<open>Stability of the fingerprint\<close>


text \<open>A small ClientHello with a two-byte session id, one cipher suite and a key share of one byte.\<close>

definition demo_hello :: bytes where
  "demo_hello = [0x16, 3, 1, 0, 62, 1, 0, 0, 58, 3, 3] @ replicate 32 7 @ [2, 9, 9, 0, 2, 0x13, 1, 1, 0, 0, 11]
     @ [0, 0x33, 0, 7, 0, 5, 0, 0x1d, 0, 1, 0xAA]"

lemma demo_hello_walkable: "walkable demo_hello 52 65 [(54, 65)]"
  unfolding walkable_def by code_simp


end
