(* ===== verification/Template.thy ===== *)
theory Template
  imports ClientHello
begin

text \<open>
  The client side of the handshake disguise, \<^verbatim>\<open>crates/tunnel/src/template.rs\<close>: the connection
  counter, the parsing and patching of the ClientHello template and its instantiation for one
  connection. Random values are arguments (\<^verbatim>\<open>hello_draws\<close>, and the index sequence of the GREASE
  rotation). \<^verbatim>\<open>anyhow::bail!\<close> is \<^verbatim>\<open>Bail\<close>, an out-of-range slice or a failing \<^verbatim>\<open>copy_from_slice\<close> is
  \<^verbatim>\<open>Panic\<close>.
\<close>

section \<open>Connection counter\<close>

text \<open>\<^verbatim>\<open>ConnectionCounter::new\<close> from a random 64-bit value; \<^verbatim>\<open>next\<close> is an atomic fetch-and-add.\<close>

definition counter_new :: "u64 \<Rightarrow> u64" where
  "counter_new random_64 =
     (let session_id = random_64 AND 0x000000FFFFFFFFFF in push_bit 24 session_id OR 1)"

definition counter_next :: "u64 \<Rightarrow> u64 \<times> u64" where
  "counter_next c = (c, c + 1)"

section \<open>Reading and patching lengths\<close>

datatype tmpl_error = Bail string | Panic

type_synonym 'a tmpl = "tmpl_error + 'a"

definition tbind :: "'a tmpl \<Rightarrow> ('a \<Rightarrow> 'b tmpl) \<Rightarrow> 'b tmpl" where
  "tbind m f = (case m of Inl e \<Rightarrow> Inl e | Inr a \<Rightarrow> f a)"

lemma tbind_simps [simp]: "tbind (Inl e) f = Inl e" "tbind (Inr a) f = f a"
  by (simp_all add: tbind_def)

lemma tbind_Inr: "tbind m f = Inr b \<longleftrightarrow> (\<exists>a. m = Inr a \<and> f a = Inr b)"
  by (cases m) auto

lemma case_option_Inr:
  "(case x of None \<Rightarrow> Inl e | Some a \<Rightarrow> f a) = Inr b \<longleftrightarrow> (\<exists>a. x = Some a \<and> f a = Inr b)"
  by (cases x) auto

definition read_u16 :: "bytes \<Rightarrow> nat \<Rightarrow> u16 tmpl" where
  "read_u16 bs start = (if start + 2 > length bs then Inl (Bail ''truncated u16'') else Inr (u16_at bs start))"

definition read_u24 :: "bytes \<Rightarrow> nat \<Rightarrow> nat tmpl" where
  "read_u24 bs start = (if start + 3 > length bs then Inl (Bail ''truncated u24'') else Inr (u24_at bs start))"

definition write_u16 :: "bytes \<Rightarrow> nat \<times> nat \<Rightarrow> u16 \<Rightarrow> bytes tmpl" where
  "write_u16 bs rg v =
     (if snd rg - fst rg \<noteq> 2 \<or> snd rg > length bs then Inl (Bail ''invalid u16 patch range'')
      else Inr (copy_at bs (fst rg) (u16_to_be v)))"

definition write_u24 :: "bytes \<Rightarrow> nat \<times> nat \<Rightarrow> nat \<Rightarrow> bytes tmpl" where
  "write_u24 bs rg v =
     (if snd rg - fst rg \<noteq> 3 \<or> snd rg > length bs then Inl (Bail ''invalid u24 patch range'')
      else Inr (copy_at bs (fst rg) (u24_to_be v)))"

definition adjust_u16 :: "u16 \<Rightarrow> int \<Rightarrow> u16 tmpl" where
  "adjust_u16 v delta =
     (let n = uint v + delta in
      if 0 \<le> n \<and> n \<le> 65535 then Inr (word_of_int n) else Inl (Bail ''u16 length overflow after patch''))"

definition adjust_u24 :: "nat \<Rightarrow> int \<Rightarrow> nat tmpl" where
  "adjust_u24 v delta =
     (let n = int v + delta in
      if 0 \<le> n \<and> n \<le> 0x00ffffff then Inr (nat n) else Inl (Bail ''u24 length overflow after patch''))"

section \<open>Layout of a template\<close>

record ech_grease_ranges =
  eg_config_id :: nat
  eg_enc :: "nat \<times> nat"
  eg_payload :: "nat \<times> nat"

record client_hello_layout =
  lay_session_id :: "nat \<times> nat"
  lay_cipher_suites :: "nat \<times> nat"
  lay_key_share :: "nat \<times> nat"
  lay_auxiliary_key_shares :: "(nat \<times> nat) list"
  lay_sni :: "nat \<times> nat"
  lay_record_len :: "nat \<times> nat"
  lay_handshake_len :: "nat \<times> nat"
  lay_extensions_len :: "nat \<times> nat"
  lay_sni_ext_len :: "nat \<times> nat"
  lay_sni_list_len :: "nat \<times> nat"
  lay_sni_name_len :: "nat \<times> nat"
  lay_ech_grease :: "ech_grease_ranges option"

definition parse_ech_grease_ranges :: "bytes \<Rightarrow> nat \<Rightarrow> nat \<Rightarrow> ech_grease_ranges tmpl" where
  "parse_ech_grease_ranges bs data_start data_end =
     (if data_end \<le> data_start then Inl (Bail ''empty encrypted_client_hello extension_data'')
      else if bs ! data_start \<noteq> 0 then Inl (Bail ''unsupported ECHClientHello type'')
      else case ech_variable_field_ranges bs (data_start, data_end) of
          None \<Rightarrow> Inl (Bail ''malformed encrypted_client_hello extension'')
        | Some (c, enc, pl) \<Rightarrow> Inr \<lparr>eg_config_id = c, eg_enc = enc, eg_payload = pl\<rparr>)"

text \<open>The locals that the loop over the extensions assigns.\<close>

record layout_acc =
  la_sni :: "((nat \<times> nat) \<times> (nat \<times> nat) \<times> (nat \<times> nat) \<times> (nat \<times> nat)) option"
  la_key_share :: "(nat \<times> nat) option"
  la_auxiliary :: "(nat \<times> nat) list"
  la_ech :: "ech_grease_ranges option"

function parse_shares :: "bytes \<Rightarrow> nat \<Rightarrow> nat \<Rightarrow> layout_acc \<Rightarrow> layout_acc tmpl" where
  "parse_shares bs share_cursor ext_end acc =
     (if share_cursor + 4 \<le> ext_end
      then
        tbind (read_u16 bs share_cursor) (\<lambda>grp.
        tbind (read_u16 bs (share_cursor + 2)) (\<lambda>share_len.
          let share_start = share_cursor + 4; share_end = share_start + unat share_len in
          if share_end > ext_end then Inl (Bail ''truncated key_share entry'')
          else parse_shares bs share_end ext_end
            (if grp = 0x001d then acc\<lparr>la_key_share := Some (share_start, share_end)\<rparr>
             else acc\<lparr>la_auxiliary := la_auxiliary acc @ [(share_start, share_end)]\<rparr>)))
      else Inr acc)"
  by pat_completeness auto
termination
  by (relation "measure (\<lambda>(bs, c, e, acc). e - c)") auto

definition parse_extension :: "bytes \<Rightarrow> u16 \<Rightarrow> nat \<Rightarrow> nat \<Rightarrow> layout_acc \<Rightarrow> layout_acc tmpl" where
  "parse_extension bs ext_type cursor ext_len acc =
     (let ext_data = cursor + 4; ext_end = ext_data + ext_len in
      if ext_type = 0x0000 then
        if ext_len < 5 then Inl (Bail ''truncated server_name extension'')
        else
          tbind (read_u16 bs (ext_data + 3)) (\<lambda>host_len.
            let host_start = ext_data + 5; host_end = host_start + unat host_len in
            if host_end > ext_end then Inl (Bail ''truncated server_name hostname'')
            else Inr (acc\<lparr>la_sni := Some ((host_start, host_end), (cursor + 2, cursor + 4),
                                         (ext_data, ext_data + 2), (ext_data + 3, ext_data + 5))\<rparr>))
      else if ext_type = 0x0033 then
        if ext_len < 4 then Inl (Bail ''truncated key_share extension'')
        else parse_shares bs (ext_data + 2) ext_end acc
      else if ext_type = ECH_EXTENSION_TYPE then
        tbind (parse_ech_grease_ranges bs ext_data ext_end) (\<lambda>eg. Inr (acc\<lparr>la_ech := Some eg\<rparr>))
      else Inr acc)"

function parse_exts :: "bytes \<Rightarrow> nat \<Rightarrow> nat \<Rightarrow> layout_acc \<Rightarrow> layout_acc tmpl" where
  "parse_exts bs cursor extensions_end acc =
     (if cursor + 4 \<le> extensions_end
      then
        tbind (read_u16 bs cursor) (\<lambda>ext_type.
        tbind (read_u16 bs (cursor + 2)) (\<lambda>ext_len.
          let ext_end = cursor + 4 + unat ext_len in
          if ext_end > extensions_end then Inl (Bail ''truncated ClientHello extension'')
          else tbind (parse_extension bs ext_type cursor (unat ext_len) acc)
                 (\<lambda>acc'. parse_exts bs ext_end extensions_end acc')))
      else Inr acc)"
  by pat_completeness auto
termination
  by (relation "measure (\<lambda>(bs, c, e, acc). e - c)") auto

definition finish_layout ::
  "nat \<times> nat \<Rightarrow> nat \<times> nat \<Rightarrow> nat \<times> nat \<Rightarrow> layout_acc \<Rightarrow> client_hello_layout tmpl" where
  "finish_layout sr suites els acc =
     (case la_key_share acc of
        None \<Rightarrow> Inl (Bail ''failed to locate key_share extension'')
      | Some ks \<Rightarrow>
          (case la_sni acc of
             None \<Rightarrow> Inl (Bail ''failed to locate SNI extension'')
           | Some (sni, sni_ext_len, sni_list_len, sni_name_len) \<Rightarrow>
               Inr \<lparr>lay_session_id = sr, lay_cipher_suites = suites, lay_key_share = ks,
                    lay_auxiliary_key_shares = la_auxiliary acc, lay_sni = sni,
                    lay_record_len = (3, 5), lay_handshake_len = (6, 9), lay_extensions_len = els,
                    lay_sni_ext_len = sni_ext_len, lay_sni_list_len = sni_list_len,
                    lay_sni_name_len = sni_name_len, lay_ech_grease = la_ech acc\<rparr>))"

definition parse_client_hello_layout :: "bytes \<Rightarrow> client_hello_layout tmpl" where
  "parse_client_hello_layout bs =
     (case client_hello_random_and_session_id_ranges bs of
        None \<Rightarrow> Inl (Bail ''failed to locate ClientHello random/session_id'')
      | Some (_, sr) \<Rightarrow>
          if length bs < 9 \<or> bs ! 0 \<noteq> 0x16 \<or> bs ! 5 \<noteq> 0x01
          then Inl (Bail ''template is not a TLS ClientHello record'')
          else
            tbind (read_u16 bs (snd sr)) (\<lambda>cipher_suites_len.
              let suites = (snd sr + 2, snd sr + 2 + unat cipher_suites_len); cursor = snd suites in
              if length bs \<le> cursor then Inl (Bail ''truncated ClientHello before compression methods'')
              else
                let cursor = cursor + (1 + unat (bs ! cursor)) in
                tbind (read_u16 bs cursor) (\<lambda>extensions_len.
                  let extensions_end = cursor + 2 + unat extensions_len in
                  if extensions_end > length bs then Inl (Bail ''truncated ClientHello extensions'')
                  else
                    tbind (parse_exts bs (cursor + 2) extensions_end
                             \<lparr>la_sni = None, la_key_share = None, la_auxiliary = [], la_ech = None\<rparr>) (\<lambda>acc.
                      finish_layout sr suites (cursor, cursor + 2) acc))))"

section \<open>Building the template\<close>

text \<open>\<^verbatim>\<open>Vec::splice\<close> of one range.\<close>

definition splice :: "bytes \<Rightarrow> nat \<times> nat \<Rightarrow> bytes \<Rightarrow> bytes" where
  "splice bs rg new = take (fst rg) bs @ new @ drop (snd rg) bs"

definition set_sni_in_place :: "bytes \<Rightarrow> client_hello_layout \<Rightarrow> bytes \<Rightarrow> bytes tmpl" where
  "set_sni_in_place bs layout sni =
     (if length sni > 65535 then Inl (Bail ''SNI too long'')
      else
        let old = lay_sni layout; b0 = splice bs old sni;
            delta = int (length sni) - int (snd old - fst old)
        in
        tbind (tbind (read_u16 b0 (fst (lay_record_len layout))) (\<lambda>v. adjust_u16 v delta)) (\<lambda>record_len.
        tbind (tbind (read_u24 b0 (fst (lay_handshake_len layout))) (\<lambda>v. adjust_u24 v delta)) (\<lambda>handshake_len.
        tbind (tbind (read_u16 b0 (fst (lay_extensions_len layout))) (\<lambda>v. adjust_u16 v delta)) (\<lambda>extensions_len.
        tbind (tbind (read_u16 b0 (fst (lay_sni_ext_len layout))) (\<lambda>v. adjust_u16 v delta)) (\<lambda>sni_ext_len.
        tbind (tbind (read_u16 b0 (fst (lay_sni_list_len layout))) (\<lambda>v. adjust_u16 v delta)) (\<lambda>sni_list_len.
        tbind (write_u16 b0 (lay_record_len layout) record_len) (\<lambda>b1.
        tbind (write_u24 b1 (lay_handshake_len layout) handshake_len) (\<lambda>b2.
        tbind (write_u16 b2 (lay_extensions_len layout) extensions_len) (\<lambda>b3.
        tbind (write_u16 b3 (lay_sni_ext_len layout) sni_ext_len) (\<lambda>b4.
        tbind (write_u16 b4 (lay_sni_list_len layout) sni_list_len) (\<lambda>b5.
          write_u16 b5 (lay_sni_name_len layout) (of_nat (length sni)))))))))))))"

function strip_exts :: "bytes \<Rightarrow> u16 list \<Rightarrow> nat \<Rightarrow> nat \<Rightarrow> nat \<Rightarrow> bytes \<Rightarrow> (nat \<times> bytes) tmpl" where
  "strip_exts bs stripped ecursor extensions_end removed out =
     (if ecursor + 4 \<le> extensions_end
      then
        tbind (read_u16 bs ecursor) (\<lambda>ext_type.
        tbind (read_u16 bs (ecursor + 2)) (\<lambda>ext_len.
          let ext_end = ecursor + 4 + unat ext_len in
          if ext_end > extensions_end then Inl (Bail ''truncated ClientHello extension'')
          else if ext_type \<in> set stripped
          then strip_exts bs stripped ext_end extensions_end (removed + (4 + unat ext_len)) out
          else strip_exts bs stripped ext_end extensions_end removed
                 (out @ take (ext_end - ecursor) (drop ecursor bs))))
      else Inr (removed, out))"
  by pat_completeness auto
termination
  by (relation "measure (\<lambda>(bs, st, c, e, rm, out). e - c)") auto

definition strip_named_client_hello_extensions :: "bytes \<Rightarrow> u16 list \<Rightarrow> bytes tmpl" where
  "strip_named_client_hello_extensions bs stripped =
     (if length bs < 9 \<or> bs ! 0 \<noteq> 0x16 \<or> bs ! 5 \<noteq> 0x01
      then Inl (Bail ''template is not a TLS ClientHello record'')
      else if length bs \<le> 43 then Inl (Bail ''truncated ClientHello before session_id'')
      else
        let cursor = 43 + (1 + unat (bs ! 43)) in
        tbind (read_u16 bs cursor) (\<lambda>cipher_suites_len.
          let cursor = cursor + (2 + unat cipher_suites_len) in
          if length bs \<le> cursor then Inl (Bail ''truncated ClientHello before compression methods'')
          else
            let cursor = cursor + (1 + unat (bs ! cursor)) in
            tbind (read_u16 bs cursor) (\<lambda>extensions_len.
              let extensions_end = cursor + 2 + unat extensions_len in
              if extensions_end > length bs then Inl (Bail ''truncated ClientHello extensions'')
              else
                tbind (strip_exts bs stripped (cursor + 2) extensions_end 0 (take (cursor + 2) bs))
                  (\<lambda>(removed, out).
                if removed = 0 then Inr bs
                else
                  let out = out @ drop extensions_end bs; delta = - int removed in
                  tbind (tbind (read_u16 out 3) (\<lambda>v. adjust_u16 v delta)) (\<lambda>new_record_len.
                  tbind (tbind (read_u24 out 6) (\<lambda>v. adjust_u24 v delta)) (\<lambda>new_handshake_len.
                  tbind (write_u16 out (3, 5) new_record_len) (\<lambda>o1.
                  tbind (write_u24 o1 (6, 9) new_handshake_len) (\<lambda>o2.
                    write_u16 o2 (cursor, cursor + 2) (of_nat (unat extensions_len - removed))))))))))"

definition STRIPPED_EXTENSION_TYPES :: "u16 list" where "STRIPPED_EXTENSION_TYPES = []"

definition strip_client_hello_extensions :: "bytes \<Rightarrow> bytes tmpl" where
  "strip_client_hello_extensions bs = strip_named_client_hello_extensions bs STRIPPED_EXTENSION_TYPES"

section \<open>Validation\<close>

text \<open>\<^verbatim>\<open>str::split\<close> on one byte: always at least one piece.\<close>

fun split_on :: "u8 \<Rightarrow> bytes \<Rightarrow> bytes list" where
  "split_on c [] = [[]]"
| "split_on c (b # bs) =
     (if b = c then [] # split_on c bs
      else case split_on c bs of p # ps \<Rightarrow> (b # p) # ps | [] \<Rightarrow> [[b]])"

definition valid_sni_label :: "bytes \<Rightarrow> bool" where
  "valid_sni_label l \<longleftrightarrow> l \<noteq> [] \<and> length l \<le> 63 \<and> hd l \<noteq> 0x2D \<and> last l \<noteq> 0x2D \<and>
     list_all (\<lambda>b. is_ascii_alphanumeric b \<or> b = 0x2D) l"

definition validate_template_sni :: "bytes \<Rightarrow> unit tmpl" where
  "validate_template_sni sni =
     (if sni \<noteq> [] \<and> last sni = 0x2E then Inl (Bail ''SNI must not have a trailing dot'')
      else if sni = [] \<or> length sni > 253 then Inl (Bail ''invalid SNI hostname length'')
      else if parse_ip sni \<noteq> None then Inl (Bail ''IP literals are not supported for camouflage SNI'')
      else if \<not> list_all valid_sni_label (split_on 0x2E sni) then Inl (Bail ''invalid SNI DNS label'')
      else Inr ())"

function find_ext :: "bytes \<Rightarrow> nat \<Rightarrow> nat \<Rightarrow> u16 \<Rightarrow> (nat \<times> nat) option tmpl" where
  "find_ext bs cursor extensions_end extension_type =
     (if cursor + 4 \<le> extensions_end
      then
        tbind (read_u16 bs cursor) (\<lambda>ext_type.
        tbind (read_u16 bs (cursor + 2)) (\<lambda>ext_len.
          let ext_end = cursor + 4 + unat ext_len in
          if ext_end > extensions_end then Inl (Bail ''truncated ClientHello extension'')
          else if ext_type = extension_type then Inr (Some (cursor + 4, ext_end))
          else find_ext bs ext_end extensions_end extension_type))
      else Inr None)"
  by pat_completeness auto
termination
  by (relation "measure (\<lambda>(bs, c, e, t). e - c)") auto

definition find_extension :: "bytes \<Rightarrow> nat \<times> nat \<Rightarrow> u16 \<Rightarrow> (nat \<times> nat) option tmpl" where
  "find_extension bs els extension_type =
     tbind (read_u16 bs (fst els)) (\<lambda>n. find_ext bs (snd els) (snd els + unat n) extension_type)"

definition slice :: "bytes \<Rightarrow> nat \<times> nat \<Rightarrow> bytes" where
  "slice bs rg = take (snd rg - fst rg) (drop (fst rg) bs)"

definition ensure_padding_extension_data_zero :: "bytes \<Rightarrow> nat \<times> nat \<Rightarrow> unit tmpl" where
  "ensure_padding_extension_data_zero bs rg =
     (if snd rg > length bs then Inl (Bail ''truncated TLS padding extension data'')
      else if list_ex (\<lambda>b. b \<noteq> 0) (slice bs rg) then Inl (Bail ''invalid TLS padding extension'')
      else Inr ())"

definition validate_padding_extension_zero :: "bytes \<Rightarrow> nat \<times> nat \<Rightarrow> unit tmpl" where
  "validate_padding_extension_zero bs els =
     tbind (find_extension bs els PADDING_EXTENSION_TYPE)
       (\<lambda>e. case e of None \<Rightarrow> Inr () | Some rg \<Rightarrow> ensure_padding_extension_data_zero bs rg)"

definition supported_auxiliary_share :: "bytes \<Rightarrow> bool" where
  "supported_auxiliary_share share \<longleftrightarrow>
     length share = 1216 \<or> length share = 65 \<and> share \<noteq> [] \<and> share ! 0 = 0x04"

definition validate_auxiliary_key_share_shapes :: "bytes \<Rightarrow> (nat \<times> nat) list \<Rightarrow> unit tmpl" where
  "validate_auxiliary_key_share_shapes bs ranges =
     (if list_all (\<lambda>rg. supported_auxiliary_share (slice bs rg)) ranges then Inr ()
      else Inl (Bail ''unsupported auxiliary key_share''))"

section \<open>Templates and their cache\<close>

record client_hello_template =
  t_bytes :: bytes
  t_cipher_suites :: "nat \<times> nat"
  t_key_share :: "nat \<times> nat"
  t_auxiliary_key_shares :: "(nat \<times> nat) list"
  t_extensions_len :: "nat \<times> nat"
  t_ech_grease :: "ech_grease_ranges option"

text \<open>The captured Firefox ClientHello is the argument \<^verbatim>\<open>bootstrap\<close>; whether the fingerprint name is
  supported is decided in the configuration crate and passed as a flag.\<close>

definition with_sni :: "bytes \<Rightarrow> client_hello_layout \<Rightarrow> bytes \<Rightarrow> (bytes \<times> client_hello_layout) tmpl" where
  "with_sni bs layout sni =
     (let old = slice bs (lay_sni layout) in
      if utf8_valid old \<and> old = sni then Inr (bs, layout)
      else tbind (set_sni_in_place bs layout sni) (\<lambda>bs1.
           tbind (parse_client_hello_layout bs1) (\<lambda>layout1. Inr (bs1, layout1))))"

definition finish_template :: "bytes \<Rightarrow> client_hello_layout \<Rightarrow> client_hello_template tmpl" where
  "finish_template bs layout =
     (if snd (lay_session_id layout) - fst (lay_session_id layout) < 32
      then Inl (Bail ''ClientHello session_id length < 32, cannot inject Noise'')
      else if snd (lay_key_share layout) - fst (lay_key_share layout) \<noteq> 32
      then Inl (Bail ''ClientHello key_share length must be 32 for X25519 injection'')
      else Inr \<lparr>t_bytes = bs, t_cipher_suites = lay_cipher_suites layout,
                t_key_share = lay_key_share layout,
                t_auxiliary_key_shares = lay_auxiliary_key_shares layout,
                t_extensions_len = lay_extensions_len layout,
                t_ech_grease = lay_ech_grease layout\<rparr>)"

definition build_client_hello_template ::
  "bytes \<Rightarrow> bytes \<Rightarrow> bool \<Rightarrow> bytes option \<Rightarrow> client_hello_template tmpl" where
  "build_client_hello_template bootstrap sni fingerprint_ok custom =
     (if \<not> fingerprint_ok then Inl (Bail ''unsupported tls.fingerprint'')
      else
        let raw = (case custom of Some b \<Rightarrow> b | None \<Rightarrow> bootstrap) in
        tbind (strip_client_hello_extensions raw) (\<lambda>bs0.
        tbind (parse_client_hello_layout bs0) (\<lambda>layout0.
        tbind (with_sni bs0 layout0 sni) (\<lambda>(bs, layout).
        tbind (validate_padding_extension_zero bs (lay_extensions_len layout)) (\<lambda>_.
        tbind (validate_auxiliary_key_share_shapes bs (lay_auxiliary_key_shares layout)) (\<lambda>_.
          finish_template bs layout))))))"

text \<open>The cache maps the formatted key to a template; a poisoned lock is neither read nor written.\<close>

type_synonym template_cache = "(bytes \<rightharpoonup> client_hello_template) option"

definition get_or_build_client_hello_template ::
  "bytes \<Rightarrow> bytes \<Rightarrow> bytes \<Rightarrow> bool \<Rightarrow> bytes option \<Rightarrow> template_cache \<Rightarrow>
   client_hello_template tmpl \<times> template_cache" where
  "get_or_build_client_hello_template bootstrap key sni fingerprint_ok custom cache =
     (case validate_template_sni sni of
        Inl e \<Rightarrow> (Inl e, cache)
      | Inr _ \<Rightarrow>
          (case (case cache of Some m \<Rightarrow> m key | None \<Rightarrow> None) of
             Some t \<Rightarrow> (Inr t, cache)
           | None \<Rightarrow>
               (case build_client_hello_template bootstrap sni fingerprint_ok custom of
                  Inl e \<Rightarrow> (Inl e, cache)
                | Inr t \<Rightarrow> (Inr t, map_option (\<lambda>m. m(key \<mapsto> t)) cache))))"

definition invalidate_client_hello_template_cache :: "template_cache \<Rightarrow> template_cache" where
  "invalidate_client_hello_template_cache cache = map_option (\<lambda>_. Map.empty) cache"

section \<open>GREASE rotation\<close>

text \<open>The random source is a sequence of draws and the index of the next one; a draw selects one of
  the 16 values.\<close>

type_synonym grease_rng = "nat \<Rightarrow> nat"

definition take_grease_value :: "nat \<Rightarrow> u16 list \<Rightarrow> u16 \<times> u16 list" where
  "take_grease_value draw used =
     (let v0 = GREASE_VALUES ! (draw mod length GREASE_VALUES);
          v = (if v0 \<in> set used
               then let flipped = v0 XOR 0x1010 in
                    if flipped \<in> set used
                    then (case find (\<lambda>v. v \<notin> set used) GREASE_VALUES of Some free \<Rightarrow> free | None \<Rightarrow> v0)
                    else flipped
               else v0)
      in (v, used @ [v]))"

function rotate_ext_loop ::
  "bytes \<Rightarrow> nat \<Rightarrow> nat \<Rightarrow> grease_rng \<Rightarrow> nat \<Rightarrow> u16 list \<Rightarrow> (bytes \<times> nat) tmpl" where
  "rotate_ext_loop bs cursor extensions_end rng n used =
     (if cursor + 4 \<le> extensions_end
      then
        tbind (read_u16 bs cursor) (\<lambda>ext_type.
        tbind (read_u16 bs (cursor + 2)) (\<lambda>ext_len.
          let ext_end = cursor + 4 + unat ext_len in
          if ext_end > extensions_end then Inl (Bail ''truncated extension during GREASE rotation'')
          else if is_grease_value ext_type
          then let (value, used') = take_grease_value (rng n) used
               in rotate_ext_loop (copy_at bs cursor (u16_to_be value)) ext_end extensions_end rng (n + 1) used'
          else rotate_ext_loop bs ext_end extensions_end rng n used))
      else Inr (bs, n))"
  by pat_completeness auto
termination
  by (relation "measure (\<lambda>(bs, c, e, rng, n, used). e - c)") auto

definition rotate_grease_extensions :: "bytes \<Rightarrow> nat \<times> nat \<Rightarrow> grease_rng \<Rightarrow> nat \<Rightarrow> (bytes \<times> nat) tmpl" where
  "rotate_grease_extensions bs els rng n =
     tbind (read_u16 bs (fst els)) (\<lambda>len. rotate_ext_loop bs (snd els) (snd els + unat len) rng n [])"

text \<open>The other three rotations share the loop over 16-bit list items.\<close>

function rotate_list_loop ::
  "bytes \<Rightarrow> nat \<Rightarrow> nat \<Rightarrow> grease_rng \<Rightarrow> nat \<Rightarrow> u16 list \<Rightarrow> (bytes \<times> nat) tmpl" where
  "rotate_list_loop bs cursor list_end rng n used =
     (if cursor + 2 \<le> list_end
      then
        tbind (read_u16 bs cursor) (\<lambda>v.
          if is_grease_value v
          then let (value, used') = take_grease_value (rng n) used
               in rotate_list_loop (copy_at bs cursor (u16_to_be value)) (cursor + 2) list_end rng (n + 1) used'
          else rotate_list_loop bs (cursor + 2) list_end rng n used)
      else Inr (bs, n))"
  by pat_completeness auto
termination
  by (relation "measure (\<lambda>(bs, c, e, rng, n, used). e - c)") auto

definition rotate_grease_cipher_suites :: "bytes \<Rightarrow> nat \<times> nat \<Rightarrow> grease_rng \<Rightarrow> nat \<Rightarrow> (bytes \<times> nat) tmpl" where
  "rotate_grease_cipher_suites bs suites rng n =
     (if snd suites > length bs then Inl (Bail ''truncated cipher_suites during GREASE rotation'')
      else rotate_list_loop bs (fst suites) (snd suites) rng n [])"

definition rotate_grease_supported_groups :: "bytes \<Rightarrow> nat \<times> nat \<Rightarrow> grease_rng \<Rightarrow> nat \<Rightarrow> (bytes \<times> nat) tmpl" where
  "rotate_grease_supported_groups bs els rng n =
     tbind (find_extension bs els SUPPORTED_GROUPS_EXTENSION_TYPE) (\<lambda>e.
     case e of None \<Rightarrow> Inr (bs, n)
     | Some rg \<Rightarrow>
         if snd rg > length bs \<or> snd rg - fst rg < 2
         then Inl (Bail ''truncated supported_groups during GREASE rotation'')
         else tbind (read_u16 bs (fst rg)) (\<lambda>groups_len.
           rotate_list_loop bs (fst rg + 2) (min (fst rg + 2 + unat groups_len) (snd rg)) rng n []))"

definition rotate_grease_supported_versions :: "bytes \<Rightarrow> nat \<times> nat \<Rightarrow> grease_rng \<Rightarrow> nat \<Rightarrow> (bytes \<times> nat) tmpl" where
  "rotate_grease_supported_versions bs els rng n =
     tbind (find_extension bs els SUPPORTED_VERSIONS_EXTENSION_TYPE) (\<lambda>e.
     case e of None \<Rightarrow> Inr (bs, n)
     | Some rg \<Rightarrow>
         if snd rg > length bs \<or> snd rg = fst rg
         then Inl (Bail ''truncated supported_versions during GREASE rotation'')
         else
           rotate_list_loop bs (fst rg + 1) (min (fst rg + 1 + unat (bs ! fst rg)) (snd rg)) rng n [])"

definition apply_client_hello_randomization ::
  "bytes \<Rightarrow> nat \<times> nat \<Rightarrow> nat \<times> nat \<Rightarrow> grease_rng \<Rightarrow> bytes tmpl" where
  "apply_client_hello_randomization bs suites els rng =
     tbind (rotate_grease_extensions bs els rng 0) (\<lambda>(b1, n1).
     tbind (rotate_grease_cipher_suites b1 suites rng n1) (\<lambda>(b2, n2).
     tbind (rotate_grease_supported_groups b2 els rng n2) (\<lambda>(b3, n3).
     tbind (rotate_grease_supported_versions b3 els rng n3) (\<lambda>(b4, _). Inr b4))))"

section \<open>Instantiation\<close>

text \<open>The random values of one connection: the generated X25519 key, per auxiliary share the P-256
  point, the ML-KEM coefficients and the seed, the bytes of the ECH fields and the two free bits.\<close>

record hello_draws =
  hd_x25519 :: "bytes option"
  hd_p256 :: "nat \<Rightarrow> bytes option"
  hd_coefficient :: "nat \<Rightarrow> nat \<Rightarrow> u16"
  hd_rho :: "nat \<Rightarrow> nat \<Rightarrow> u8"
  hd_config_id :: u8
  hd_enc :: "nat \<Rightarrow> u8"
  hd_payload :: "nat \<Rightarrow> u8"
  hd_flags :: u8
  hd_grease :: grease_rng

definition MLKEM768_Q :: u16 where "MLKEM768_Q = 3329"

definition pack_coefficients :: "u16 \<Rightarrow> u16 \<Rightarrow> bytes" where
  "pack_coefficients d0 d1 =
     [ucast d0, ucast (drop_bit 8 d0) OR push_bit 4 (ucast (d1 AND 0x0F)), ucast (drop_bit 4 d1)]"

definition fill_mlkem768_hybrid_share :: "(nat \<Rightarrow> u16) \<Rightarrow> (nat \<Rightarrow> u8) \<Rightarrow> bytes \<Rightarrow> bytes" where
  "fill_mlkem768_hybrid_share coeff rho x25519_public =
     concat (map (\<lambda>k. pack_coefficients (coeff (2 * k)) (coeff (2 * k + 1))) [0..<384])
     @ map rho [0..<32] @ x25519_public"

text \<open>One auxiliary share; a range that ends beyond the buffer is skipped.\<close>

definition fill_auxiliary_share :: "hello_draws \<Rightarrow> bytes \<Rightarrow> nat \<Rightarrow> nat \<times> nat \<Rightarrow> bytes \<Rightarrow> bytes tmpl" where
  "fill_auxiliary_share d x25519_public j rg out =
     (if snd rg \<le> length out
      then
        let share = slice out rg in
        if length share = 1216
        then Inr (copy_at out (fst rg) (fill_mlkem768_hybrid_share (hd_coefficient d j) (hd_rho d j) x25519_public))
        else if length share = 65 \<and> share ! 0 = 0x04
        then (case hd_p256 d j of
                Some pub \<Rightarrow>
                  if length pub \<noteq> length share
                  then Inl (Bail ''failed to generate the per-connection P-256 auxiliary key_share'')
                  else Inr (copy_at out (fst rg) pub)
              | None \<Rightarrow> Inl (Bail ''failed to generate the per-connection P-256 auxiliary key_share''))
        else Inl (Bail ''unsupported auxiliary key_share shape'')
      else Inr out)"

fun fill_auxiliary_shares :: "hello_draws \<Rightarrow> bytes \<Rightarrow> nat \<Rightarrow> (nat \<times> nat) list \<Rightarrow> bytes \<Rightarrow> bytes tmpl" where
  "fill_auxiliary_shares d pub j [] out = Inr out"
| "fill_auxiliary_shares d pub j (rg # rgs) out =
     tbind (fill_auxiliary_share d pub j rg out) (\<lambda>out'. fill_auxiliary_shares d pub (j + 1) rgs out')"

definition refresh_ech :: "hello_draws \<Rightarrow> ech_grease_ranges option \<Rightarrow> bytes \<Rightarrow> bytes tmpl" where
  "refresh_ech d ech out =
     (case ech of
        None \<Rightarrow> Inr out
      | Some e \<Rightarrow>
          if eg_config_id e \<ge> length out \<or> snd (eg_enc e) > length out \<or> snd (eg_payload e) > length out
          then Inl Panic
          else
            let o1 = out[eg_config_id e := hd_config_id d];
                o2 = copy_at o1 (fst (eg_enc e)) (map (hd_enc d) [0..<snd (eg_enc e) - fst (eg_enc e)])
            in Inr (copy_at o2 (fst (eg_payload e)) (map (hd_payload d) [0..<snd (eg_payload e) - fst (eg_payload e)])))"

text \<open>The random and the session id of the handshake: the masked Noise ephemeral, the Noise tag, the
  masked counter and its MAC, whose two lowest bits are free.\<close>

definition hello_auth_fields :: "(bytes \<Rightarrow> bytes) \<Rightarrow> bytes \<Rightarrow> bytes \<Rightarrow> u64 \<Rightarrow> u8 \<Rightarrow> bytes \<Rightarrow> (bytes \<times> bytes) option" where
  "hello_auth_fields H derived_psk psk_e counter flags session_id =
     (if length session_id < 32 then None
      else
        let tag = drop 32 psk_e in
        Option.bind (mask_noise_ephemeral_key H (take 32 psk_e) derived_psk tag) (\<lambda>random.
        Option.bind (derive_counter_mask H derived_psk random) (\<lambda>counter_mask.
          let masked_counter = xor_u64_bytes (u64_to_be counter) counter_mask in
        Option.bind (derive_counter_mac H derived_psk random masked_counter (take 16 random)) (\<lambda>mac.
          let sid = tag @ masked_counter @ mac @ drop 32 session_id
          in Some (random, sid[31 := (sid ! 31 AND NOT 0x03) OR (flags AND 0x03)])))))"

definition instantiate ::
  "(bytes \<Rightarrow> bytes) \<Rightarrow> hello_draws \<Rightarrow> client_hello_template \<Rightarrow> bytes \<Rightarrow> bytes \<Rightarrow> u64 \<Rightarrow> bytes tmpl" where
  "instantiate H d t derived_psk psk_e counter =
     (if length psk_e \<noteq> 48 then Inl (Bail ''unexpected Noise init template length'')
      else case hd_x25519 d of
        None \<Rightarrow> Inl (Bail ''failed to generate the per-connection X25519 key_share'')
      | Some x25519_public \<Rightarrow>
          if fst (t_key_share t) > snd (t_key_share t) \<or> snd (t_key_share t) > length (t_bytes t) then Inl Panic
          else if snd (t_key_share t) - fst (t_key_share t) \<noteq> length x25519_public
          then Inl (Bail ''ClientHello key_share length must be 32 for X25519 injection'')
          else
            tbind (fill_auxiliary_shares d x25519_public 0 (t_auxiliary_key_shares t)
                     (copy_at (t_bytes t) (fst (t_key_share t)) x25519_public)) (\<lambda>o1.
            tbind (refresh_ech d (t_ech_grease t) o1) (\<lambda>o2.
            case extract_client_hello_random_and_session_id o2 of
              None \<Rightarrow> Inl (Bail ''ClientHello template missing random/session_id'')
            | Some (_, session_id) \<Rightarrow>
                (case hello_auth_fields H derived_psk psk_e counter (hd_flags d) session_id of
                   None \<Rightarrow> Inl Panic
                 | Some (random, sid) \<Rightarrow>
                     apply_client_hello_randomization (put_random_and_session_id random sid o2)
                       (t_cipher_suites t) (t_extensions_len t) (hd_grease d)))))"

declare parse_shares.simps [simp del] parse_exts.simps [simp del] strip_exts.simps [simp del]
  find_ext.simps [simp del] rotate_ext_loop.simps [simp del] rotate_list_loop.simps [simp del]

end
