(* ===== verification/Auth.thy ===== *)
theory Auth
  imports Template Replay
begin

text \<open>
  The server side of the handshake: reading the first record (\<^verbatim>\<open>crates/tunnel/src/server/auth.rs\<close>),
  authenticating a ClientHello against the configured users and deciding what becomes of the
  connection (\<^verbatim>\<open>authenticate_client_hello\<close> and \<^verbatim>\<open>server_accept\<close> of \<^verbatim>\<open>server/mod.rs\<close>). The Noise
  responder of the \<^verbatim>\<open>snow\<close> crate is the parameter \<^verbatim>\<open>noise_read\<close>: the result of building the responder
  for a key and reading the first message, \<^const>\<open>None\<close> when either fails.
\<close>

section \<open>The first record\<close>

text \<open>What the socket yields to one \<^verbatim>\<open>read\<close> under a deadline.\<close>

datatype sock_event = Data bytes | Eof | IoErr | Deadline

datatype initial_error = InitEof | InitIo | InitTimedOut

text \<open>\<^verbatim>\<open>read_into_with_deadline\<close>: the buffer is resized with zeros before reading and truncated to what
  was filled on every failure. A read returns at most the free part of the buffer, the rest stays in
  the socket. An exhausted script means that nothing more arrives before the deadline.\<close>

function read_fill :: "nat \<Rightarrow> nat \<Rightarrow> bytes \<Rightarrow> sock_event list \<Rightarrow> (initial_error option) \<times> bytes \<times> sock_event list" where
  "read_fill filled tgt buf evs =
     (if filled < tgt
      then case evs of
          [] \<Rightarrow> (Some InitTimedOut, take filled buf, [])
        | Deadline # evs' \<Rightarrow> (Some InitTimedOut, take filled buf, evs')
        | Eof # evs' \<Rightarrow> (Some InitEof, take filled buf, evs')
        | IoErr # evs' \<Rightarrow> (Some InitIo, take filled buf, evs')
        | Data bs # evs' \<Rightarrow>
            let n = min (length bs) (tgt - filled) in
            if n = 0 then (Some InitEof, take filled buf, evs')
            else read_fill (filled + n) tgt (copy_at buf filled (take n bs))
                   (if n < length bs then Data (drop n bs) # evs' else evs')
      else (None, buf, evs))"
  by pat_completeness auto
termination
  by (relation "measure (\<lambda>(f, t, b, e). t - f)") (auto simp: min_def)

declare read_fill.simps [simp del]

definition read_into_with_deadline ::
  "bytes \<Rightarrow> nat \<Rightarrow> sock_event list \<Rightarrow> (initial_error option) \<times> bytes \<times> sock_event list" where
  "read_into_with_deadline buf len evs =
     (let start = length buf; tgt = start + len
      in read_fill start tgt (buf @ replicate len 0) evs)"

definition read_initial_client_record ::
  "sock_event list \<Rightarrow> (initial_error + u8 \<times> nat) \<times> bytes \<times> sock_event list" where
  "read_initial_client_record evs =
     (case read_into_with_deadline [] 5 evs of
        (Some e, buf, evs') \<Rightarrow> (Inl e, buf, evs')
      | (None, buf, evs') \<Rightarrow>
          let typ = buf ! 0 in
          if typ \<noteq> 0x16 then (Inr (typ, 0), buf, evs')
          else
            let len = unat (u16_at buf 3) in
            if len > MAX_TLS_RECORD_PAYLOAD_LEN then (Inr (typ, 0), buf, evs')
            else case read_into_with_deadline buf len evs' of
                (Some e, buf', evs'') \<Rightarrow> (Inl e, buf', evs'')
              | (None, buf', evs'') \<Rightarrow> (Inr (typ, len), buf', evs''))"

section \<open>Authentication\<close>

text \<open>The two process-wide caches.\<close>

record ('cc, 'ec) replay_caches =
  counter_cache :: "'cc mutex"
  ephemeral_cache :: "'ec mutex"

record 'n auth_success =
  au_user_index :: nat
  au_derived_psk :: bytes
  au_noise :: 'n
  au_replay_check :: "replay_check option"

record ('cc, 'ec, 'n) auth_env =
  env_hash :: "bytes \<Rightarrow> bytes"
  env_counter_lru :: "('cc, bytes, sliding_window) lru_ops"
  env_ephemeral_lru :: "('ec, bytes, nat) lru_ops"
  env_noise_read :: "bytes \<Rightarrow> bytes \<Rightarrow> (nat \<times> 'n) option"

text \<open>One candidate key: the outer option is a panic, the inner result says whether the loop returns
  with this user or continues.\<close>

definition try_user ::
  "('cc, 'ec, 'n) auth_env \<Rightarrow> nat \<Rightarrow> bytes \<Rightarrow> bytes \<Rightarrow> nat \<Rightarrow> bytes \<Rightarrow> ('cc, 'ec) replay_caches \<Rightarrow>
   ('n auth_success option \<times> ('cc, 'ec) replay_caches) option" where
  "try_user env now random_copy session_id user_index derived_psk caches =
     (let H = env_hash env; tag = take 16 session_id; masked_counter = take 8 (drop 16 session_id) in
      Option.bind (mask_mac_flags (take 8 (drop 24 session_id))) (\<lambda>got_mac.
      Option.bind (derive_counter_mac H derived_psk random_copy masked_counter (take 16 random_copy)) (\<lambda>want_mac.
      Option.bind (mask_mac_flags want_mac) (\<lambda>want_mac_masked.
      if got_mac \<noteq> want_mac_masked then Some (None, caches)
      else
        Option.bind (unmask_noise_ephemeral_key H random_copy derived_psk tag) (\<lambda>recovered_e.
        if recovered_e = replicate 32 0 then Some (None, caches)
        else case env_noise_read env derived_psk (recovered_e @ tag) of
            None \<Rightarrow> Some (None, caches)
          | Some (len, noise) \<Rightarrow>
              if len \<noteq> 0 then Some (None, caches)
              else
                Option.bind (check_counter_replay H (env_counter_lru env) derived_psk random_copy masked_counter
                               (counter_cache caches)) (\<lambda>(check, cc).
                let caches1 = caches\<lparr>counter_cache := cc\<rparr> in
                if check = None then Some (None, caches1)
                else
                  Option.bind (is_replay (env_ephemeral_lru env) now random_copy (ephemeral_cache caches1))
                    (\<lambda>(replayed, ec).
                  let caches2 = caches1\<lparr>ephemeral_cache := ec\<rparr> in
                  if replayed then Some (None, caches2)
                  else Some (Some \<lparr>au_user_index = user_index, au_derived_psk = derived_psk,
                                    au_noise = noise, au_replay_check = check\<rparr>, caches2))))))))"

fun try_users ::
  "('cc, 'ec, 'n) auth_env \<Rightarrow> nat \<Rightarrow> bytes \<Rightarrow> bytes \<Rightarrow> nat \<Rightarrow> bytes list \<Rightarrow> ('cc, 'ec) replay_caches \<Rightarrow>
   ('n auth_success option \<times> ('cc, 'ec) replay_caches) option" where
  "try_users env now rnd sid i [] caches = Some (None, caches)"
| "try_users env now rnd sid i (psk # psks) caches =
     (case try_user env now rnd sid i psk caches of
        None \<Rightarrow> None
      | Some (Some auth, caches') \<Rightarrow> Some (Some auth, caches')
      | Some (None, caches') \<Rightarrow> try_users env now rnd sid (i + 1) psks caches')"

definition authenticate_client_hello ::
  "('cc, 'ec, 'n) auth_env \<Rightarrow> nat \<Rightarrow> bytes \<Rightarrow> bytes list \<Rightarrow> ('cc, 'ec) replay_caches \<Rightarrow>
   ('n auth_success option \<times> ('cc, 'ec) replay_caches) option" where
  "authenticate_client_hello env now pld derived_psks caches =
     (case extract_client_hello_random_and_session_id pld of
        None \<Rightarrow> Some (None, caches)
      | Some (random, session_id) \<Rightarrow>
          if length session_id < 32 then Some (None, caches)
          else try_users env now random session_id 0 derived_psks caches)"

section \<open>The decision of \<^verbatim>\<open>server_accept\<close>\<close>

datatype failure_class = NonTlsFirstRecord | AuthFailed | HandshakeTimeout | InvalidFirstRecord
  | MissingSni | SniMismatch | CapacityLimited

text \<open>What the connection becomes: closed like any server at its limit, relayed to the camouflage
  host together with the bytes received so far, dropped after an internal error, or accepted for the
  tunnel of a user. \<^verbatim>\<open>AcceptPanic\<close> is a panic of the task.\<close>

datatype 'n accept_outcome =
    IndistinguishableClose
  | PreAuthFailure failure_class bytes
  | InternalError string
  | Established "'n auth_success"
  | AcceptPanic

record ('cc, 'ec) accept_state =
  as_caches :: "('cc, 'ec) replay_caches"
  as_handshake_permits :: nat
  as_session_permits :: nat

text \<open>The part of \<^verbatim>\<open>server_accept\<close> after the first record was read, up to the camouflage exchange.
  The handshake permit is back in the semaphore at every exit; a session permit is taken only by an
  accepted connection.\<close>

definition accept_record ::
  "('cc, 'ec, 'n) auth_env \<Rightarrow> nat \<Rightarrow> bytes list \<Rightarrow> bytes \<Rightarrow> u8 \<Rightarrow> bytes \<Rightarrow> ('cc, 'ec) accept_state \<Rightarrow>
   'n accept_outcome \<times> ('cc, 'ec) accept_state" where
  "accept_record env now derived_psks camouflage_host typ rx_buf st =
     (if typ \<noteq> 0x16 then (PreAuthFailure NonTlsFirstRecord rx_buf, st)
      else
        let server_name = extract_client_hello_server_name rx_buf in
        (case authenticate_client_hello env now rx_buf derived_psks (as_caches st) of
           None \<Rightarrow> (AcceptPanic, st)
         | Some (None, caches) \<Rightarrow> (PreAuthFailure AuthFailed rx_buf, st\<lparr>as_caches := caches\<rparr>)
         | Some (Some auth, caches) \<Rightarrow>
             let st1 = st\<lparr>as_caches := caches\<rparr> in
             (case server_name of
                None \<Rightarrow> (PreAuthFailure MissingSni rx_buf, st1)
              | Some name \<Rightarrow>
                  if \<not> eq_ignore_ascii_case name camouflage_host
                  then (PreAuthFailure SniMismatch rx_buf, st1)
                  else if as_session_permits st1 = 0
                  then (PreAuthFailure CapacityLimited rx_buf, st1)
                  else
                    (case au_replay_check auth of
                       None \<Rightarrow> (Established auth, st1\<lparr>as_session_permits := as_session_permits st1 - 1\<rparr>)
                     | Some check \<Rightarrow>
                         let (ok, cc) = commit_counter_replay (env_counter_lru env) check
                                          (counter_cache (as_caches st1));
                             st2 = st1\<lparr>as_caches := (as_caches st1)\<lparr>counter_cache := cc\<rparr>\<rparr>
                         in if ok
                            then (Established auth, st2\<lparr>as_session_permits := as_session_permits st2 - 1\<rparr>)
                            else (InternalError ''counter commit rejected'', st2)))))"

definition server_accept ::
  "('cc, 'ec, 'n) auth_env \<Rightarrow> nat \<Rightarrow> bytes list \<Rightarrow> bytes \<Rightarrow> sock_event list \<Rightarrow> ('cc, 'ec) accept_state \<Rightarrow>
   'n accept_outcome \<times> ('cc, 'ec) accept_state" where
  "server_accept env now derived_psks camouflage_host evs st =
     (if as_handshake_permits st = 0 then (IndistinguishableClose, st)
      else if derived_psks = [] then (InternalError ''server requires at least one user PSK'', st)
      else
        (case read_initial_client_record evs of
           (Inl e, rx_buf, _) \<Rightarrow>
             (PreAuthFailure (if e = InitTimedOut then HandshakeTimeout else InvalidFirstRecord) rx_buf, st)
         | (Inr (typ, _), rx_buf, _) \<Rightarrow>
             accept_record env now derived_psks camouflage_host typ rx_buf st))"

section \<open>Only received bytes\<close>

fun received :: "sock_event list \<Rightarrow> bytes" where
  "received [] = []"
| "received (Data bs # evs) = bs @ received evs"
| "received (Eof # evs) = received evs"
| "received (IoErr # evs) = received evs"
| "received (Deadline # evs) = received evs"

lemma read_fill_received:
  assumes "filled \<le> tgt" "length buf = tgt" "read_fill filled tgt buf evs = (res, buf', evs')"
  shows "take filled buf @ received evs = buf' @ received evs' \<and> (res = None \<longrightarrow> length buf' = tgt)"
  using assms
proof (induction filled tgt buf evs rule: read_fill.induct)
  case (1 filled tgt buf evs)
  show ?case
  proof (cases "filled < tgt")
    case False
    then show ?thesis using 1(2-4) by (subst (asm) read_fill.simps) auto
  next
    case lt: True
    show ?thesis
    proof (cases evs)
      case Nil
      then show ?thesis using lt 1(4) by (subst (asm) read_fill.simps) auto
    next
      case (Cons e evs1)
      show ?thesis
      proof (cases "\<exists>bs. e = Data bs \<and> bs \<noteq> []")
        case True
        then obtain bs where e: "e = Data bs" "bs \<noteq> []" by blast
        let ?n = "min (length bs) (tgt - filled)"
        let ?rest = "if ?n < length bs then Data (drop ?n bs) # evs1 else evs1"
        let ?buf = "copy_at buf filled (take ?n bs)"
        have n: "?n \<noteq> 0" using lt e by (simp add: min_def)
        have eq: "read_fill filled tgt buf evs = read_fill (filled + ?n) tgt ?buf ?rest"
          using lt n unfolding Cons e by (subst read_fill.simps) (simp only: Let_def if_True if_False list.case sock_event.case)
        have len: "length ?buf = tgt" using 1(3) lt by (simp add: min_def)
        have tk: "take (filled + ?n) ?buf = take filled buf @ take ?n bs"
          using 1(3) lt by (simp add: copy_at_def min_def)
        have rc: "received ?rest = drop ?n bs @ received evs1" by (auto simp: min_def)
        have "take (filled + ?n) ?buf @ received ?rest = buf' @ received evs' \<and> (res = None \<longrightarrow> length buf' = tgt)"
          by (rule 1(1) [OF lt Cons e(1) refl n _ len]) (use lt 1(4) eq in auto)
        then show ?thesis
          unfolding tk rc by (metis Cons e(1) append.assoc append_take_drop_id received.simps(2))
      next
        case False
        then show ?thesis using lt 1(4) by (cases e; subst (asm) read_fill.simps) (auto simp: Cons Let_def)
      qed
    qed
  qed
qed

lemma read_into_received:
  assumes "read_into_with_deadline buf len evs = (res, buf', evs')"
  shows "buf @ received evs = buf' @ received evs'" "res = None \<Longrightarrow> length buf' = length buf + len"
  using read_fill_received [of "length buf" "length buf + len" "buf @ replicate len 0" evs res buf' evs'] assms
  by (simp_all add: read_into_with_deadline_def Let_def)

lemma initial_record_received:
  assumes "read_initial_client_record evs = (res, buf, evs')"
  shows "received evs = buf @ received evs'"
    "res = Inr (typ, len) \<Longrightarrow> 5 \<le> length buf \<and> buf ! 0 = typ"
proof -
  obtain r1 b1 e1 where 1: "read_into_with_deadline [] 5 evs = (r1, b1, e1)" by (metis prod_cases3)
  note f1 = read_into_received [OF 1]
  obtain r2 b2 e2 where 2: "read_into_with_deadline b1 (unat (u16_at b1 3)) e1 = (r2, b2, e2)" by (metis prod_cases3)
  note f2 = read_into_received [OF 2]
  show "received evs = buf @ received evs'"
    using assms f1 f2 by (auto simp: read_initial_client_record_def 1 2 Let_def split: option.splits if_splits)
  show "res = Inr (typ, len) \<Longrightarrow> 5 \<le> length buf \<and> buf ! 0 = typ"
  proof -
    assume r: "res = Inr (typ, len)"
    have "b2 ! 0 = b1 ! 0" if "r1 = None" "r2 = None"
    proof -
      have "(b1 @ received e1) ! 0 = (b2 @ received e2) ! 0" using f2(1) by simp
      moreover have "0 < length b1" "0 < length b2" using that f1(2) f2(2) by auto
      ultimately show ?thesis by (simp only: nth_append if_True)
    qed
    then show ?thesis
      using assms r f1 f2 by (auto simp: read_initial_client_record_def 1 2 Let_def split: option.splits if_splits)
  qed
qed

end
