(* ===== verification/Handshake.thy ===== *)
theory Handshake
  imports Auth
begin

text \<open>
  The two ends of the handshake together: a ClientHello instantiated by \<^verbatim>\<open>Template\<close> is accepted by
  the server of \<^verbatim>\<open>Auth\<close> for the right user, and what the server does with every other connection.
\<close>

section \<open>What instantiation leaves alone\<close>

definition upto_pos :: "nat \<Rightarrow> bytes \<Rightarrow> bytes \<Rightarrow> bool" where
  "upto_pos P a b \<longleftrightarrow> length b = length a \<and> take P b = take P a"

lemma upto_refl [simp]: "upto_pos P a a"
  by (simp add: upto_pos_def)

lemma upto_trans: "upto_pos P a b \<Longrightarrow> upto_pos P b c \<Longrightarrow> upto_pos P a c"
  by (simp add: upto_pos_def)

lemma upto_copy_at: "P \<le> i \<Longrightarrow> i + length ys \<le> length xs \<Longrightarrow> upto_pos P xs (copy_at xs i ys)"
  by (auto simp: upto_pos_def copy_at_def min_def)

lemma upto_update: "P \<le> i \<Longrightarrow> upto_pos P xs (xs[i := v])"
  by (simp add: upto_pos_def)

lemma upto_nth: "upto_pos P a b \<Longrightarrow> i < P \<Longrightarrow> i < length a \<Longrightarrow> b ! i = a ! i"
  by (metis upto_pos_def nth_take)

lemma read_u16_Inr: "read_u16 bs i = Inr v \<longleftrightarrow> i + 2 \<le> length bs \<and> v = u16_at bs i"
  by (auto simp: read_u16_def)

lemma rotate_list_loop_upto:
  assumes "rotate_list_loop bs c e rng n used = Inr (bs', n')" "P \<le> c"
  shows "upto_pos P bs bs'"
  using assms
proof (induction "e - c" arbitrary: bs c n used rule: less_induct)
  case less
  show ?case
  proof (cases "c + 2 \<le> e")
    case True
    then have m: "e - (c + 2) < e - c" by simp
    have rd: "c + 2 \<le> length bs"
      using less(2) True by (subst (asm) rotate_list_loop.simps) (auto simp: tbind_Inr read_u16_Inr)
    let ?t = "take_grease_value (rng n) used"
    have u: "upto_pos P bs (copy_at bs c (u16_to_be (fst ?t)))" using rd less(3) by (intro upto_copy_at) auto
    have P: "P \<le> c + 2" using less(3) by simp
    show ?thesis
    proof (cases "is_grease_value (u16_at bs c)")
      case g: True
      then have "rotate_list_loop (copy_at bs c (u16_to_be (fst ?t))) (c + 2) e rng (n + 1) (snd ?t) = Inr (bs', n')"
        using less(2) True rd by (subst (asm) rotate_list_loop.simps) (simp add: read_u16_def case_prod_beta)
      from less(1) [OF m this P] show ?thesis by (rule upto_trans [OF u])
    next
      case False
      then have "rotate_list_loop bs (c + 2) e rng n used = Inr (bs', n')"
        using less(2) True rd by (subst (asm) rotate_list_loop.simps) (simp add: read_u16_def)
      from less(1) [OF m this P] show ?thesis .
    qed
  next
    case False
    then show ?thesis using less(2) by (subst (asm) rotate_list_loop.simps) simp
  qed
qed

lemma rotate_ext_loop_upto:
  assumes "rotate_ext_loop bs c e rng n used = Inr (bs', n')" "P \<le> c"
  shows "upto_pos P bs bs'"
  using assms
proof (induction "e - c" arbitrary: bs c n used rule: less_induct)
  case less
  show ?case
  proof (cases "c + 4 \<le> e")
    case True
    let ?x = "c + 4 + unat (u16_at bs (c + 2))"
    have rd: "c + 2 \<le> length bs" "c + 2 + 2 \<le> length bs" and x: "?x \<le> e"
      using less(2) True
      by (subst (asm) rotate_ext_loop.simps; auto simp: tbind_Inr read_u16_Inr Let_def split: if_splits)+
    have m: "e - ?x < e - c" using True by linarith
    let ?t = "take_grease_value (rng n) used"
    have u: "upto_pos P bs (copy_at bs c (u16_to_be (fst ?t)))" using rd less(3) by (intro upto_copy_at) auto
    have P: "P \<le> ?x" using less(3) by simp
    show ?thesis
    proof (cases "is_grease_value (u16_at bs c)")
      case g: True
      then have "rotate_ext_loop (copy_at bs c (u16_to_be (fst ?t))) ?x e rng (n + 1) (snd ?t) = Inr (bs', n')"
        using less(2) True rd x by (subst (asm) rotate_ext_loop.simps) (simp add: read_u16_def case_prod_beta Let_def)
      from less(1) [OF m this P] show ?thesis by (rule upto_trans [OF u])
    next
      case False
      then have "rotate_ext_loop bs ?x e rng n used = Inr (bs', n')"
        using less(2) True rd x by (subst (asm) rotate_ext_loop.simps) (simp add: read_u16_def Let_def)
      from less(1) [OF m this P] show ?thesis .
    qed
  next
    case False
    then show ?thesis using less(2) by (subst (asm) rotate_ext_loop.simps) simp
  qed
qed

lemma find_ext_after:
  "find_ext bs c e t = Inr (Some rg) \<Longrightarrow> c + 4 \<le> fst rg"
proof (induction "e - c" arbitrary: c rule: less_induct)
  case less
  let ?x = "c + 4 + unat (u16_at bs (c + 2))"
  show ?case
  proof (cases "c + 4 \<le> e \<and> ?x \<le> e \<and> u16_at bs c \<noteq> t \<and> c + 2 + 2 \<le> length bs")
    case True
    then have m: "e - ?x < e - c" by linarith
    have "find_ext bs ?x e t = Inr (Some rg)"
      using less(2) True by (subst (asm) find_ext.simps) (simp add: read_u16_def Let_def)
    from less(1) [OF m this] show ?thesis by simp
  next
    case False
    then show ?thesis
      using less(2) by (subst (asm) find_ext.simps) (auto simp: tbind_Inr read_u16_Inr Let_def split: if_splits)
  qed
qed

lemma find_extension_after: "find_extension bs els t = Inr (Some rg) \<Longrightarrow> snd els + 4 \<le> fst rg"
  unfolding find_extension_def tbind_Inr using find_ext_after by blast

lemma supported_groups_upto:
  assumes "rotate_grease_supported_groups bs els rng n = Inr (bs', n')" "P \<le> snd els"
  shows "upto_pos P bs bs'"
proof -
  obtain e where e: "find_extension bs els SUPPORTED_GROUPS_EXTENSION_TYPE = Inr e"
    using assms(1) by (auto simp: rotate_grease_supported_groups_def tbind_Inr)
  show ?thesis
  proof (cases e)
    case (Some rg)
    then have "P \<le> fst rg + 2" using find_extension_after e assms(2) by fastforce
    then show ?thesis
      using assms(1) e Some rotate_list_loop_upto
      by (auto simp: rotate_grease_supported_groups_def tbind_Inr split: if_splits)
  qed (use assms(1) e in \<open>auto simp: rotate_grease_supported_groups_def\<close>)
qed

lemma supported_versions_upto:
  assumes "rotate_grease_supported_versions bs els rng n = Inr (bs', n')" "P \<le> snd els"
  shows "upto_pos P bs bs'"
proof -
  obtain e where e: "find_extension bs els SUPPORTED_VERSIONS_EXTENSION_TYPE = Inr e"
    using assms(1) by (auto simp: rotate_grease_supported_versions_def tbind_Inr)
  show ?thesis
  proof (cases e)
    case (Some rg)
    then have "P \<le> fst rg + 1" using find_extension_after e assms(2) by fastforce
    then show ?thesis
      using assms(1) e Some rotate_list_loop_upto
      by (auto simp: rotate_grease_supported_versions_def split: if_splits)
  qed (use assms(1) e in \<open>auto simp: rotate_grease_supported_versions_def\<close>)
qed

lemma randomization_upto:
  assumes "apply_client_hello_randomization bs suites els rng = Inr bs'" "P \<le> fst suites" "P \<le> snd els"
  shows "upto_pos P bs bs'"
proof -
  obtain b1 n1 b2 n2 b3 n3 n4 where
    1: "rotate_grease_extensions bs els rng 0 = Inr (b1, n1)" and
    2: "rotate_grease_cipher_suites b1 suites rng n1 = Inr (b2, n2)" and
    3: "rotate_grease_supported_groups b2 els rng n2 = Inr (b3, n3)" and
    4: "rotate_grease_supported_versions b3 els rng n3 = Inr (bs', n4)"
    using assms(1) by (auto simp: apply_client_hello_randomization_def tbind_Inr)
  have "upto_pos P bs b1"
    using 1 rotate_ext_loop_upto assms(3) by (auto simp: rotate_grease_extensions_def tbind_Inr)
  moreover have "upto_pos P b1 b2"
    using 2 rotate_list_loop_upto assms(2) by (auto simp: rotate_grease_cipher_suites_def split: if_splits)
  moreover have "upto_pos P b2 b3"
    using supported_groups_upto [OF 3 assms(3)] .
  moreover have "upto_pos P b3 bs'"
    using supported_versions_upto [OF 4 assms(3)] .
  ultimately show ?thesis using upto_trans by blast
qed

section \<open>Well-formed templates\<close>

text \<open>Every range of a template lies behind the session id and inside the record.\<close>

definition range_ok :: "nat \<Rightarrow> nat \<Rightarrow> nat \<times> nat \<Rightarrow> bool" where
  "range_ok P n rg \<longleftrightarrow> P \<le> fst rg \<and> fst rg \<le> snd rg \<and> snd rg \<le> n"

definition ech_ok :: "nat \<Rightarrow> nat \<Rightarrow> ech_grease_ranges option \<Rightarrow> bool" where
  "ech_ok P n ech \<longleftrightarrow> (case ech of None \<Rightarrow> True
     | Some e \<Rightarrow> P \<le> eg_config_id e \<and> eg_config_id e < n \<and> range_ok P n (eg_enc e) \<and> range_ok P n (eg_payload e))"

definition acc_ok :: "nat \<Rightarrow> nat \<Rightarrow> layout_acc \<Rightarrow> bool" where
  "acc_ok P n acc \<longleftrightarrow> (\<forall>rg. la_key_share acc = Some rg \<longrightarrow> range_ok P n rg) \<and>
     (\<forall>rg \<in> set (la_auxiliary acc). range_ok P n rg) \<and> ech_ok P n (la_ech acc)"

definition template_ok :: "client_hello_template \<Rightarrow> bool" where
  "template_ok t \<longleftrightarrow>
     (let bs = t_bytes t; P = 44 + unat (bs ! 43); n = length bs in
      49 \<le> n \<and> P \<le> n \<and> bs ! 0 = 0x16 \<and> bs ! 5 = 0x01 \<and> 32 \<le> unat (bs ! 43) \<and>
      range_ok P n (t_key_share t) \<and> snd (t_key_share t) - fst (t_key_share t) = 32 \<and>
      (\<forall>rg \<in> set (t_auxiliary_key_shares t). range_ok P n rg) \<and> ech_ok P n (t_ech_grease t) \<and>
      P \<le> fst (t_cipher_suites t) \<and> P \<le> snd (t_extensions_len t))"

lemma parse_shares_ok:
  assumes "parse_shares bs c e acc = Inr acc'" "acc_ok P n acc" "P \<le> c" "e \<le> n"
  shows "acc_ok P n acc'"
  using assms
proof (induction "e - c" arbitrary: c acc rule: less_induct)
  case less
  show ?case
  proof (cases "c + 4 \<le> e")
    case True
    let ?x = "c + 4 + unat (u16_at bs (c + 2))"
    let ?acc = "if u16_at bs c = 0x001d then acc\<lparr>la_key_share := Some (c + 4, ?x)\<rparr>
      else acc\<lparr>la_auxiliary := la_auxiliary acc @ [(c + 4, ?x)]\<rparr>"
    have st: "parse_shares bs ?x e ?acc = Inr acc'" and x: "?x \<le> e"
      using less(2) True
      by (subst (asm) parse_shares.simps; auto simp: tbind_Inr read_u16_Inr Let_def split: if_splits)+
    have m: "e - ?x < e - c" using True by linarith
    have "range_ok P n (c + 4, ?x)" using x less(4,5) by (simp add: range_ok_def)
    then have "acc_ok P n ?acc" using less(3) by (auto simp: acc_ok_def)
    then show ?thesis using less(1) [OF m st] less(4,5) by simp
  next
    case False
    then show ?thesis using less(2,3) by (subst (asm) parse_shares.simps) simp
  qed
qed

lemma parse_ech_ok:
  assumes "parse_ech_grease_ranges bs s e = Inr eg" "P \<le> s" "e \<le> n"
  shows "ech_ok P n (Some eg)"
  using assms
  by (auto simp: parse_ech_grease_ranges_def ech_variable_field_ranges_def Let_def ech_ok_def range_ok_def
      split: if_splits)

lemma parse_extension_ok:
  assumes "parse_extension bs t c len acc = Inr acc'" "acc_ok P n acc" "P \<le> c" "c + 4 + len \<le> n"
  shows "acc_ok P n acc'"
proof -
  consider "t = 0x33" | "t \<noteq> 0x33" "t \<noteq> 0" "t = ECH_EXTENSION_TYPE" | "t \<noteq> 0x33" "t = 0 \<or> t \<noteq> ECH_EXTENSION_TYPE"
    by blast
  then show ?thesis
  proof cases
    case 1
    then show ?thesis
      using assms parse_shares_ok [of bs "c + 4 + 2" "c + 4 + len" acc acc' P n]
      by (auto simp: parse_extension_def Let_def split: if_splits)
  next
    case 2
    then obtain eg where "parse_ech_grease_ranges bs (c + 4) (c + 4 + len) = Inr eg" "acc' = acc\<lparr>la_ech := Some eg\<rparr>"
      using assms(1) by (auto simp: parse_extension_def Let_def tbind_Inr)
    then show ?thesis using parse_ech_ok [of bs "c + 4" "c + 4 + len" eg P n] assms by (auto simp: acc_ok_def)
  next
    case 3
    then show ?thesis
      using assms by (auto simp: parse_extension_def Let_def tbind_Inr acc_ok_def split: if_splits)
  qed
qed

lemma parse_exts_ok:
  assumes "parse_exts bs c e acc = Inr acc'" "acc_ok P n acc" "P \<le> c" "e \<le> n"
  shows "acc_ok P n acc'"
  using assms
proof (induction "e - c" arbitrary: c acc rule: less_induct)
  case less
  show ?case
  proof (cases "c + 4 \<le> e")
    case True
    let ?x = "c + 4 + unat (u16_at bs (c + 2))"
    obtain acc1 where st: "parse_extension bs (u16_at bs c) c (unat (u16_at bs (c + 2))) acc = Inr acc1"
      "parse_exts bs ?x e acc1 = Inr acc'" and x: "?x \<le> e"
      using less(2) True
      by (subst (asm) parse_exts.simps) (auto simp: tbind_Inr read_u16_Inr Let_def split: if_splits)
    have m: "e - ?x < e - c" using True by linarith
    have "acc_ok P n acc1" using parse_extension_ok [OF st(1) less(3,4)] x less(5) by simp
    then show ?thesis using less(1) [OF m st(2)] less(4,5) by simp
  next
    case False
    then show ?thesis using less(2,3) by (subst (asm) parse_exts.simps) simp
  qed
qed

lemma parse_layout_ok:
  assumes "parse_client_hello_layout bs = Inr lay"
  defines "P \<equiv> 44 + unat (bs ! 43)"
  shows "49 \<le> length bs \<and> P \<le> length bs \<and> bs ! 0 = 0x16 \<and> bs ! 5 = 0x01"
    "lay_session_id lay = (44, P)" "P \<le> fst (lay_cipher_suites lay)" "P \<le> snd (lay_extensions_len lay)"
    "range_ok P (length bs) (lay_key_share lay)"
    "\<forall>rg \<in> set (lay_auxiliary_key_shares lay). range_ok P (length bs) rg" "ech_ok P (length bs) (lay_ech_grease lay)"
proof -
  define acc0 where "acc0 = \<lparr>la_sni = None, la_key_share = None, la_auxiliary = [], la_ech = None\<rparr>"
  have h: "client_hello_random_and_session_id_ranges bs = Some ((11, 43), (44, P))"
    "49 \<le> length bs \<and> P \<le> length bs \<and> bs ! 0 = 0x16 \<and> bs ! 5 = 0x01"
    using assms(1) by (auto simp: parse_client_hello_layout_def client_hello_random_and_session_id_ranges_def
        P_def Let_def split: if_splits)
  then show "49 \<le> length bs \<and> P \<le> length bs \<and> bs ! 0 = 0x16 \<and> bs ! 5 = 0x01" by blast
  obtain c e suites acc where acc: "parse_exts bs (c + 2) e acc0 = Inr acc" "P \<le> c" "e \<le> length bs"
    and fin: "finish_layout (44, P) suites (c, c + 2) acc = Inr lay" and su: "P \<le> fst suites"
    using assms(1)
    by (auto simp: parse_client_hello_layout_def h(1) tbind_Inr Let_def acc0_def [symmetric] split: if_splits)
  have lay: "lay_session_id lay = (44, P)" "P \<le> fst (lay_cipher_suites lay)" "lay_extensions_len lay = (c, c + 2)"
      "la_key_share acc = Some (lay_key_share lay)" "lay_auxiliary_key_shares lay = la_auxiliary acc"
      "lay_ech_grease lay = la_ech acc"
    using fin su by (auto simp: finish_layout_def split: option.splits)
  have "acc_ok P (length bs) acc"
    using parse_exts_ok [OF acc(1) _ _ acc(3), of P] acc(2) by (simp add: acc0_def acc_ok_def ech_ok_def)
  then show "lay_session_id lay = (44, P)" "P \<le> fst (lay_cipher_suites lay)" "P \<le> snd (lay_extensions_len lay)"
    "range_ok P (length bs) (lay_key_share lay)"
    "\<forall>rg \<in> set (lay_auxiliary_key_shares lay). range_ok P (length bs) rg" "ech_ok P (length bs) (lay_ech_grease lay)"
    using lay acc(2) by (auto simp: acc_ok_def)
qed

lemma with_sni_parsed:
  assumes "parse_client_hello_layout bs = Inr lay" "with_sni bs lay sni = Inr (bs', lay')"
  shows "parse_client_hello_layout bs' = Inr lay'"
  using assms by (auto simp: with_sni_def tbind_Inr Let_def split: if_splits)

lemma finish_template_Inr:
  assumes "finish_template bs lay = Inr t"
  shows "t_bytes t = bs" "t_cipher_suites t = lay_cipher_suites lay" "t_key_share t = lay_key_share lay"
    "t_auxiliary_key_shares t = lay_auxiliary_key_shares lay" "t_extensions_len t = lay_extensions_len lay"
    "t_ech_grease t = lay_ech_grease lay" "32 \<le> snd (lay_session_id lay) - fst (lay_session_id lay)"
    "snd (lay_key_share lay) - fst (lay_key_share lay) = 32"
  using assms by (auto simp: finish_template_def split: if_splits)

lemma build_template_ok:
  assumes "build_client_hello_template bootstrap sni fp custom = Inr t"
  shows "template_ok t"
proof -
  obtain bs lay where lay: "parse_client_hello_layout bs = Inr lay" and fin: "finish_template bs lay = Inr t"
  proof -
    obtain bs0 lay0 bs lay where p: "parse_client_hello_layout bs0 = Inr lay0"
      "with_sni bs0 lay0 sni = Inr (bs, lay)" "finish_template bs lay = Inr t"
      using assms by (auto simp: build_client_hello_template_def tbind_Inr Let_def split: if_splits)
    show ?thesis by (rule that [OF with_sni_parsed [OF p(1,2)] p(3)])
  qed
  note t = finish_template_Inr [OF fin]
  show ?thesis
    using parse_layout_ok [OF lay] t by (auto simp: template_ok_def Let_def)
qed

section \<open>The fields of an instantiated ClientHello\<close>

lemma length_pack [simp]: "length (pack_coefficients a b) = 3"
  by (simp add: pack_coefficients_def)

lemma length_mlkem_share: "length (fill_mlkem768_hybrid_share f rho pub) = 1184 + length pub"
proof -
  have "length (concat (map (\<lambda>k. pack_coefficients (f (2 * k)) (f (2 * k + 1))) xs)) = 3 * length xs" for xs
    by (induction xs) auto
  then show ?thesis by (simp add: fill_mlkem768_hybrid_share_def)
qed

lemma length_slice: "snd rg \<le> length bs \<Longrightarrow> length (slice bs rg) = snd rg - fst rg"
  by (simp add: slice_def)

lemma fill_auxiliary_share_upto:
  assumes "fill_auxiliary_share d pub j rg bs = Inr bs'" "range_ok P (length bs) rg" "length pub = 32"
  shows "upto_pos P bs bs'"
  using assms length_slice [of rg bs]
  by (auto simp: fill_auxiliary_share_def Let_def range_ok_def length_mlkem_share split: if_splits option.splits
      intro!: upto_copy_at)

lemma fill_auxiliary_shares_upto:
  assumes "fill_auxiliary_shares d pub j rgs bs = Inr bs'" "\<forall>rg \<in> set rgs. range_ok P (length bs) rg" "length pub = 32"
  shows "upto_pos P bs bs'"
  using assms(1,2)
proof (induction rgs arbitrary: j bs)
  case (Cons rg rgs)
  obtain b where b: "fill_auxiliary_share d pub j rg bs = Inr b" "fill_auxiliary_shares d pub (j + 1) rgs b = Inr bs'"
    using Cons.prems(1) by (auto simp: tbind_Inr)
  have u: "upto_pos P bs b" using fill_auxiliary_share_upto [OF b(1) _ assms(3)] Cons.prems(2) by simp
  then have "length b = length bs" by (simp add: upto_pos_def)
  then show ?case using Cons.IH [OF b(2)] Cons.prems(2) upto_trans [OF u] by simp
qed simp

lemma refresh_ech_upto:
  assumes "refresh_ech d ech bs = Inr bs'" "ech_ok P (length bs) ech"
  shows "upto_pos P bs bs'"
proof (cases ech)
  case (Some e)
  let ?o1 = "bs[eg_config_id e := hd_config_id d]"
  let ?o2 = "copy_at ?o1 (fst (eg_enc e)) (map (hd_enc d) [0..<snd (eg_enc e) - fst (eg_enc e)])"
  have b: "range_ok P (length bs) (eg_enc e)" "range_ok P (length bs) (eg_payload e)" "P \<le> eg_config_id e"
    using assms(2) Some by (auto simp: ech_ok_def)
  have bs': "bs' = copy_at ?o2 (fst (eg_payload e)) (map (hd_payload d) [0..<snd (eg_payload e) - fst (eg_payload e)])"
    using assms(1) Some by (auto simp: refresh_ech_def Let_def split: if_splits)
  have 1: "upto_pos P bs ?o1" using b by (intro upto_update)
  have 2: "upto_pos P ?o1 ?o2" using b by (intro upto_copy_at) (auto simp: range_ok_def)
  then have "length ?o2 = length bs" by (simp add: upto_pos_def)
  then have "upto_pos P ?o2 bs'" unfolding bs' using b by (intro upto_copy_at) (auto simp: range_ok_def)
  then show ?thesis using upto_trans 1 2 by blast
qed (use assms in \<open>simp add: refresh_ech_def\<close>)

lemma auth_fields_shape:
  assumes "hello_auth_fields H psk psk_e counter flags session_id = Some (rnd, sid)"
    and "hash_ok H" "length psk = 32" "length psk_e = 48"
  obtains cmask mac where "length rnd = 32" "mask_noise_ephemeral_key H (take 32 psk_e) psk (drop 32 psk_e) = Some rnd"
    "derive_counter_mask H psk rnd = Some cmask" "length cmask = 8"
    "derive_counter_mac H psk rnd (xor_u64_bytes (u64_to_be counter) cmask) (take 16 rnd) = Some mac" "length mac = 8"
    "sid = drop 32 psk_e @ xor_u64_bytes (u64_to_be counter) cmask @
       mac[7 := (mac ! 7 AND NOT 0x03) OR (flags AND 0x03)] @ drop 32 session_id"
    "length sid = length session_id" "32 \<le> length session_id"
proof -
  obtain cmask mac where f: "mask_noise_ephemeral_key H (take 32 psk_e) psk (drop 32 psk_e) = Some rnd"
    "derive_counter_mask H psk rnd = Some cmask"
    "derive_counter_mac H psk rnd (xor_u64_bytes (u64_to_be counter) cmask) (take 16 rnd) = Some mac"
    and sid: "sid = (let s = drop 32 psk_e @ xor_u64_bytes (u64_to_be counter) cmask @ mac @ drop 32 session_id
        in s[31 := (s ! 31 AND NOT 0x03) OR (flags AND 0x03)])" and l: "32 \<le> length session_id"
    using assms(1) by (auto simp: hello_auth_fields_def Let_def bind_eq_Some_conv split: if_splits)
  have lr: "length rnd = 32"
    using f(1) assms by (auto simp: mask_noise_ephemeral_key_def derive_noise_e_mask_def xor_32_bytes_def split: if_splits)
  have lc: "length cmask = 8" using f(2) assms by (auto simp: derive_counter_mask_def split: if_splits)
  have lm: "length mac = 8" using f(3) assms by (auto simp: derive_counter_mac_def split: if_splits)
  have lx: "length (xor_u64_bytes (u64_to_be counter) cmask) = 8" using lc by (simp add: xor_u64_bytes_def)
  have "sid = drop 32 psk_e @ xor_u64_bytes (u64_to_be counter) cmask @
       mac[7 := (mac ! 7 AND NOT 0x03) OR (flags AND 0x03)] @ drop 32 session_id"
    using lm lx assms(4) by (simp add: sid Let_def nth_append list_update_append)
  then show ?thesis using that [OF lr f(1,2) lc f(3) lm] lm lx l assms(4) by simp
qed

lemma put_fields:
  assumes "49 \<le> length bs" "44 + n \<le> length bs" "length rnd = 32" "length sid = n" "n = unat (bs ! 43)"
    "bs ! 0 = 0x16" "bs ! 5 = 0x01"
  defines "o3 \<equiv> put_random_and_session_id rnd sid bs"
  shows "length o3 = length bs" "extract_client_hello_random_and_session_id o3 = Some (rnd, sid)"
    "upto_pos (44 + n) o3 o4 \<Longrightarrow> extract_client_hello_random_and_session_id o4 = Some (rnd, sid)"
proof -
  show len: "length o3 = length bs"
    using assms by (simp add: put_random_and_session_id_def)
  have o3: "o3 = take 11 bs @ rnd @ [bs ! 43] @ sid @ drop (44 + n) bs"
  proof -
    have d: "drop 43 bs = bs ! 43 # drop 44 bs" using Cons_nth_drop_Suc [of 43 bs] assms(1) by simp
    have "drop n (drop 44 bs) = drop (44 + n) bs" by (simp add: add.commute)
    then show ?thesis using assms(1-4) by (simp add: o3_def put_random_and_session_id_def copy_at_def d)
  qed
  have h: "o3 ! 0 = 0x16" "o3 ! 5 = 0x01" "o3 ! 43 = bs ! 43"
    unfolding o3 using assms(1-7) by (simp_all add: nth_append)
  have tk: "take (44 + n) o3 = take 11 bs @ rnd @ [bs ! 43] @ sid" unfolding o3 using assms(1-7) by simp
  have ex: "extract_client_hello_random_and_session_id x = Some (rnd, sid)" if "upto_pos (44 + n) o3 x" for x
  proof -
    have hx: "x ! 0 = 0x16" "x ! 5 = 0x01" "x ! 43 = bs ! 43" "length x = length bs"
      using h upto_nth [OF that] len assms(2) that by (auto simp: upto_pos_def)
    have "take (44 + n) x = take 11 bs @ rnd @ [bs ! 43] @ sid" using that tk by (simp add: upto_pos_def)
    then have x: "x = take 11 bs @ rnd @ [bs ! 43] @ sid @ drop (44 + n) x" by (metis append_assoc append_take_drop_id)
    have "take 32 (drop 11 x) = rnd" "take n (drop 44 x) = sid"
      using assms by (subst x; simp)+
    then show ?thesis
      using hx assms by (simp add: extract_client_hello_random_and_session_id_def
          client_hello_random_and_session_id_ranges_def Let_def)
  qed
  show "extract_client_hello_random_and_session_id o3 = Some (rnd, sid)" by (rule ex) simp
  show "upto_pos (44 + n) o3 o4 \<Longrightarrow> extract_client_hello_random_and_session_id o4 = Some (rnd, sid)" by (rule ex)
qed

lemma instantiate_fields:
  assumes H: "hash_ok H" and t: "template_ok t" and psk: "length psk = 32"
    and inst: "instantiate H d t psk psk_e counter = Inr hello"
  obtains rnd sid session_id where "extract_client_hello_random_and_session_id hello = Some (rnd, sid)"
    "hello_auth_fields H psk psk_e counter (hd_flags d) session_id = Some (rnd, sid)" "length psk_e = 48"
proof -
  define P where "P = 44 + unat (t_bytes t ! 43)"
  note ok = t [unfolded template_ok_def Let_def, folded P_def]
  obtain pub o1 o2 rnd0 session_id rnd sid where e: "length psk_e = 48" "hd_x25519 d = Some pub"
    "snd (t_key_share t) - fst (t_key_share t) = length pub"
    "fill_auxiliary_shares d pub 0 (t_auxiliary_key_shares t) (copy_at (t_bytes t) (fst (t_key_share t)) pub) = Inr o1"
    "refresh_ech d (t_ech_grease t) o1 = Inr o2"
    "extract_client_hello_random_and_session_id o2 = Some (rnd0, session_id)"
    "hello_auth_fields H psk psk_e counter (hd_flags d) session_id = Some (rnd, sid)"
    "apply_client_hello_randomization (put_random_and_session_id rnd sid o2)
       (t_cipher_suites t) (t_extensions_len t) (hd_grease d) = Inr hello"
    using inst by (auto simp: instantiate_def tbind_Inr case_option_Inr split: if_splits)
  have pub: "length pub = 32" using e(3) ok by simp
  have u0: "upto_pos P (t_bytes t) (copy_at (t_bytes t) (fst (t_key_share t)) pub)"
    using ok pub by (intro upto_copy_at) (auto simp: range_ok_def)
  then have u1: "upto_pos P (copy_at (t_bytes t) (fst (t_key_share t)) pub) o1"
    using ok by (intro fill_auxiliary_shares_upto [OF e(4) _ pub]) (simp add: upto_pos_def)
  have "length o1 = length (t_bytes t)" using u0 u1 by (simp add: upto_pos_def)
  then have "upto_pos P o1 o2" using ok by (intro refresh_ech_upto [OF e(5)]) simp
  then have u: "upto_pos P (t_bytes t) o2" using u0 u1 upto_trans by blast
  have len: "length o2 = length (t_bytes t)" using u by (simp add: upto_pos_def)
  have hd: "o2 ! 0 = 0x16" "o2 ! 5 = 0x01" "o2 ! 43 = t_bytes t ! 43"
    using ok upto_nth [OF u] by (auto simp: P_def)
  have sl: "length session_id = unat (o2 ! 43)"
    using e(6) len ok hd by (auto simp: extract_client_hello_random_and_session_id_def
        client_hello_random_and_session_id_ranges_def Let_def P_def split: if_splits)
  obtain "length rnd = 32" "length sid = length session_id"
    using auth_fields_shape [OF e(7) H psk e(1)] by metis
  moreover have "upto_pos P (put_random_and_session_id rnd sid o2) hello"
    using ok by (intro randomization_upto [OF e(8)]) auto
  ultimately have "extract_client_hello_random_and_session_id hello = Some (rnd, sid)"
    using put_fields(3) [of o2 "unat (o2 ! 43)" rnd sid hello] len ok hd sl by (simp add: P_def)
  then show ?thesis using that e(1,7) by blast
qed

section \<open>Authentication of a genuine ClientHello\<close>

lemma flag_bits: "((m AND NOT 0x03) OR (f AND 0x03)) AND NOT 0x03 = (m :: u8) AND NOT 0x03"
  by (rule bit_word_eqI) (auto simp: bit_simps)

definition mac_matches :: "(bytes \<Rightarrow> bytes) \<Rightarrow> bytes \<Rightarrow> bytes \<Rightarrow> bytes \<Rightarrow> bool" where
  "mac_matches H psk rnd sid \<longleftrightarrow>
     mask_mac_flags (take 8 (drop 24 sid)) =
     Option.bind (derive_counter_mac H psk rnd (take 8 (drop 16 sid)) (take 16 rnd)) mask_mac_flags"

lemma mac_computed:
  assumes "hash_ok H" "length psk = 32" "length rnd = 32"
  obtains mac where "derive_counter_mac H psk rnd mc (take 16 rnd) = Some mac" "length mac = 8"
  using assms that by (simp add: derive_counter_mac_def)

lemma try_user_mismatch:
  assumes "hash_ok (env_hash env)" "length psk = 32" "length rnd = 32" "32 \<le> length sid"
    and "\<not> mac_matches (env_hash env) psk rnd sid"
  shows "try_user env now rnd sid i psk caches = Some (None, caches)"
proof -
  obtain mac where mac: "derive_counter_mac (env_hash env) psk rnd (take 8 (drop 16 sid)) (take 16 rnd) = Some mac"
    "length mac = 8" using mac_computed [OF assms(1-3)] by blast
  then show ?thesis
    using assms(4,5) by (auto simp: try_user_def Let_def mac_matches_def mask_mac_flags_def)
qed

lemma try_users_skip:
  assumes "hash_ok (env_hash env)" "\<forall>p \<in> set pre. length p = 32 \<and> \<not> mac_matches (env_hash env) p rnd sid"
    "length rnd = 32" "32 \<le> length sid"
  shows "try_users env now rnd sid i (pre @ rest) caches = try_users env now rnd sid (i + length pre) rest caches"
  using assms(2)
  by (induction pre arbitrary: i) (simp_all add: try_user_mismatch [OF assms(1) _ assms(3,4)])

text \<open>The counter window of the session admits the sequence number.\<close>

definition counter_admits ::
  "('c, bytes, sliding_window) lru_ops \<Rightarrow> bytes \<Rightarrow> u64 \<Rightarrow> 'c \<Rightarrow> bool" where
  "counter_admits L key sequence c \<longleftrightarrow>
     (case fst (lru_get L key c) of None \<Rightarrow> True | Some w \<Rightarrow> sw_check w sequence)"

definition hello_ticket :: "(bytes \<Rightarrow> bytes) \<Rightarrow> bytes \<Rightarrow> u64 \<Rightarrow> replay_check" where
  "hello_ticket H psk counter =
     \<lparr>rc_cache_key = derive_counter_cache_key H (psk @ u64_to_be (drop_bit 24 counter)),
      rc_sequence = counter AND 0x00FFFFFF\<rparr>"

lemma try_user_match:
  assumes H: "hash_ok (env_hash env)" and psk: "length psk = 32" and len: "length psk_e = 48"
    and f: "hello_auth_fields (env_hash env) psk psk_e counter flags session_id = Some (rnd, sid)"
    and e: "take 32 psk_e \<noteq> replicate 32 0" and noise: "env_noise_read env psk psk_e = Some (0, n)"
    and cc: "counter_cache caches = Guarded c"
      "counter_admits (env_counter_lru env) (rc_cache_key (hello_ticket (env_hash env) psk counter))
         (rc_sequence (hello_ticket (env_hash env) psk counter)) c"
    and ec: "is_replay (env_ephemeral_lru env) now rnd (ephemeral_cache caches) = Some (False, ec)"
  shows "\<exists>c'. try_user env now rnd sid i psk caches =
    Some (Some \<lparr>au_user_index = i, au_derived_psk = psk, au_noise = n,
                au_replay_check = Some (hello_ticket (env_hash env) psk counter)\<rparr>,
          caches\<lparr>counter_cache := Guarded c', ephemeral_cache := ec\<rparr>)"
proof -
  let ?H = "env_hash env"
  obtain cmask mac where s: "length rnd = 32" "mask_noise_ephemeral_key ?H (take 32 psk_e) psk (drop 32 psk_e) = Some rnd"
    "derive_counter_mask ?H psk rnd = Some cmask" "length cmask = 8"
    "derive_counter_mac ?H psk rnd (xor_u64_bytes (u64_to_be counter) cmask) (take 16 rnd) = Some mac" "length mac = 8"
    "sid = drop 32 psk_e @ xor_u64_bytes (u64_to_be counter) cmask @
       mac[7 := (mac ! 7 AND NOT 0x03) OR (flags AND 0x03)] @ drop 32 session_id"
    using auth_fields_shape [OF f H psk len] by metis
  have lx: "length (xor_u64_bytes (u64_to_be counter) cmask) = 8" using s(4) by (simp add: xor_u64_bytes_def)
  have sl: "take 16 sid = drop 32 psk_e" "take 8 (drop 16 sid) = xor_u64_bytes (u64_to_be counter) cmask"
    "take 8 (drop 24 sid) = mac[7 := (mac ! 7 AND NOT 0x03) OR (flags AND 0x03)]"
    using lx len s(6) by (simp_all add: s(7))
  have mm: "mask_mac_flags (mac[7 := (mac ! 7 AND NOT 0x03) OR (flags AND 0x03)]) = mask_mac_flags mac"
    using s(6) by (simp add: mask_mac_flags_def flag_bits [simplified])
  obtain m where m: "mask_noise_ephemeral_key ?H (take 32 psk_e) psk (drop 32 psk_e) = Some m"
    "unmask_noise_ephemeral_key ?H m psk (drop 32 psk_e) = Some (take 32 psk_e)"
    using unmask_mask [OF H, of "take 32 psk_e" psk "drop 32 psk_e"] psk len by auto
  then have un: "unmask_noise_ephemeral_key ?H rnd psk (drop 32 psk_e) = Some (take 32 psk_e)" using s(2) by simp
  have ids: "counter_ids (xor_u64_bytes (u64_to_be counter) cmask) cmask = (drop_bit 24 counter, counter AND 0x00FFFFFF)"
    using s(4) by (simp add: counter_ids_def)
  have chk: "check_counter_replay ?H (env_counter_lru env) psk rnd (xor_u64_bytes (u64_to_be counter) cmask) (Guarded c)
      = Some (Some (hello_ticket ?H psk counter),
              Guarded (snd (lru_get (env_counter_lru env) (rc_cache_key (hello_ticket ?H psk counter)) c)))"
    using cc(2) psk by (auto simp: check_counter_replay_def s(3) ids hello_ticket_def counter_admits_def
        case_prod_beta Let_def split: option.splits)
  obtain y where y: "mask_mac_flags mac = Some y" using s(6) by (simp add: mask_mac_flags_def)
  then have gm: "mask_mac_flags (take 8 (drop 24 sid)) = Some y" by (simp only: sl mm)
  show ?thesis
    unfolding try_user_def Let_def gm sl(1,2) s(5) using e noise ec
    by (auto simp: y un chk cc(1))
qed

text \<open>C1: The client and the server agree. A ClientHello that the client instantiates from a built
  template with the key of a configured user is authenticated by the server as that user, with the
  replay ticket of its connection counter, whatever the random draws, the GREASE rotation and the
  other users, provided no earlier user's MAC collides, the Noise responder accepts the message and
  neither replay check has seen it.\<close>

theorem hello_authenticates:
  assumes "hash_ok (env_hash env)"
    and "build_client_hello_template bootstrap sni fingerprint_ok custom = Inr t"
    and "instantiate (env_hash env) d t psk psk_e counter = Inr hello"
    and "extract_client_hello_random_and_session_id hello = Some (rnd, sid)"
    and "length psk = 32" "\<forall>p \<in> set pre. length p = 32 \<and> \<not> mac_matches (env_hash env) p rnd sid"
    and "take 32 psk_e \<noteq> replicate 32 0" "env_noise_read env psk psk_e = Some (0, noise)"
    and "counter_cache caches = Guarded c"
    and "counter_admits (env_counter_lru env) (rc_cache_key (hello_ticket (env_hash env) psk counter))
           (rc_sequence (hello_ticket (env_hash env) psk counter)) c"
    and "is_replay (env_ephemeral_lru env) now rnd (ephemeral_cache caches) = Some (False, ec)"
  shows "\<exists>c'. authenticate_client_hello env now hello (pre @ psk # post) caches =
    Some (Some \<lparr>au_user_index = length pre, au_derived_psk = psk, au_noise = noise,
                au_replay_check = Some (hello_ticket (env_hash env) psk counter)\<rparr>,
          caches\<lparr>counter_cache := Guarded c', ephemeral_cache := ec\<rparr>)"
proof -
  obtain session_id where f: "hello_auth_fields (env_hash env) psk psk_e counter (hd_flags d) session_id = Some (rnd, sid)"
    and len: "length psk_e = 48"
    using instantiate_fields [OF assms(1) build_template_ok [OF assms(2)] assms(5,3)] assms(4) by auto
  have l: "length rnd = 32" "32 \<le> length sid"
    using auth_fields_shape [OF f assms(1,5) len] by metis+
  obtain c' where "try_user env now rnd sid (length pre) psk caches =
    Some (Some \<lparr>au_user_index = length pre, au_derived_psk = psk, au_noise = noise,
                au_replay_check = Some (hello_ticket (env_hash env) psk counter)\<rparr>,
          caches\<lparr>counter_cache := Guarded c', ephemeral_cache := ec\<rparr>)"
    using try_user_match [OF assms(1,5) len f assms(7-11)] by blast
  then show ?thesis
    using try_users_skip [OF assms(1,6) l, of now 0 "psk # post"] l
    by (intro exI [of _ c']) (simp add: authenticate_client_hello_def assms(4))
qed

section \<open>What an accepted connection has shown\<close>

definition proves_key :: "('cc, 'ec, 'n) auth_env \<Rightarrow> bytes \<Rightarrow> bytes \<Rightarrow> bytes \<Rightarrow> 'n \<Rightarrow> bool" where
  "proves_key env psk rnd sid noise \<longleftrightarrow> mac_matches (env_hash env) psk rnd sid \<and>
     (\<exists>e. unmask_noise_ephemeral_key (env_hash env) rnd psk (take 16 sid) = Some e \<and>
          env_noise_read env psk (e @ take 16 sid) = Some (0, noise))"

lemma try_user_success:
  assumes "try_user env now rnd sid i psk caches = Some (Some auth, caches')"
  shows "au_user_index auth = i" "au_derived_psk auth = psk" "proves_key env psk rnd sid (au_noise auth)"
  using assms
  by (auto simp: try_user_def Let_def bind_eq_Some_conv proves_key_def mac_matches_def
      split: if_splits option.splits)

lemma try_users_success:
  assumes "try_users env now rnd sid i psks caches = Some (Some auth, caches')"
  shows "\<exists>k < length psks. au_user_index auth = i + k \<and> au_derived_psk auth = psks ! k \<and>
    proves_key env (psks ! k) rnd sid (au_noise auth)"
  using assms
proof (induction psks arbitrary: i caches)
  case (Cons psk psks)
  obtain r c1 where t: "try_user env now rnd sid i psk caches = Some (r, c1)"
    using Cons.prems by (auto split: option.splits)
  show ?case
  proof (cases r)
    case None
    then obtain k where "k < length psks" "au_user_index auth = Suc i + k" "au_derived_psk auth = psks ! k"
      "proves_key env (psks ! k) rnd sid (au_noise auth)"
      using Cons t by fastforce
    then show ?thesis by (intro exI [of _ "Suc k"]) auto
  next
    case (Some a)
    then show ?thesis using Cons.prems t try_user_success [of env now rnd sid i psk caches auth] by auto
  qed
qed simp

lemma authenticate_success:
  assumes "authenticate_client_hello env now pld psks caches = Some (Some auth, caches')"
  obtains rnd sid where "extract_client_hello_random_and_session_id pld = Some (rnd, sid)"
    "au_user_index auth < length psks" "au_derived_psk auth = psks ! au_user_index auth"
    "proves_key env (au_derived_psk auth) rnd sid (au_noise auth)"
  using assms try_users_success [of env now _ _ 0 psks caches auth caches']
  by (fastforce simp: authenticate_client_hello_def split: option.splits if_splits)

text \<open>The part of the outcome that depends on the received bytes, once the first record is read.\<close>

definition hello_proves ::
  "('cc, 'ec, 'n) auth_env \<Rightarrow> bytes \<Rightarrow> bytes \<Rightarrow> 'n auth_success \<Rightarrow> bool" where
  "hello_proves env host buf auth \<longleftrightarrow>
     buf ! 0 = 0x16 \<and>
     (\<exists>name. extract_client_hello_server_name buf = Some name \<and> eq_ignore_ascii_case name host) \<and>
     (\<exists>rnd sid. extract_client_hello_random_and_session_id buf = Some (rnd, sid) \<and>
        proves_key env (au_derived_psk auth) rnd sid (au_noise auth))"

definition outcome_sound ::
  "('cc, 'ec, 'n) auth_env \<Rightarrow> bytes list \<Rightarrow> bytes \<Rightarrow> bytes \<Rightarrow> ('cc, 'ec) accept_state \<Rightarrow>
   'n accept_outcome \<Rightarrow> ('cc, 'ec) accept_state \<Rightarrow> bool" where
  "outcome_sound env psks host stream st out st' \<longleftrightarrow>
     as_handshake_permits st' = as_handshake_permits st \<and>
     (case out of
        Established auth \<Rightarrow>
          0 < as_session_permits st \<and> as_session_permits st' = as_session_permits st - 1 \<and>
          au_user_index auth < length psks \<and> au_derived_psk auth = psks ! au_user_index auth \<and>
          (\<exists>n. hello_proves env host (take n stream) auth)
      | PreAuthFailure cls buf \<Rightarrow> as_session_permits st' = as_session_permits st \<and> (\<exists>n. buf = take n stream)
      | _ \<Rightarrow> as_session_permits st' = as_session_permits st)"

lemma accept_record_sound:
  assumes "accept_record env now psks host typ buf st = (out, st')" "stream = buf @ rest" "typ = buf ! 0"
  shows "outcome_sound env psks host stream st out st'"
proof -
  have pre: "\<exists>n. buf = take n stream" using assms(2) by (intro exI [of _ "length buf"]) simp
  show ?thesis
  proof (cases "typ = 0x16")
    case False
    then show ?thesis using pre assms by (auto simp: accept_record_def outcome_sound_def)
  next
    case True
    show ?thesis
    proof (cases "authenticate_client_hello env now buf psks (as_caches st)")
      case None
      then show ?thesis using pre assms True by (auto simp: accept_record_def outcome_sound_def)
    next
      case (Some p)
      obtain r caches where p: "p = (r, caches)" by (cases p)
      show ?thesis
      proof (cases r)
        case None
        then show ?thesis using pre assms True Some p by (auto simp: accept_record_def outcome_sound_def)
      next
        case (Some auth)
        note a = \<open>authenticate_client_hello env now buf psks (as_caches st) = Some p\<close> [unfolded p Some]
        obtain rnd sid where au: "extract_client_hello_random_and_session_id buf = Some (rnd, sid)"
          "au_user_index auth < length psks" "au_derived_psk auth = psks ! au_user_index auth"
          "proves_key env (au_derived_psk auth) rnd sid (au_noise auth)"
          using authenticate_success [OF a] by metis
        have est: "\<exists>n. hello_proves env host (take n stream) auth"
          if "extract_client_hello_server_name buf = Some name" "eq_ignore_ascii_case name host" for name
          by (rule exI [of _ "length buf"]) (use that au True assms(2,3) in \<open>auto simp: hello_proves_def\<close>)
        show ?thesis
        proof (cases "extract_client_hello_server_name buf")
          case None
          then show ?thesis using pre assms True a by (auto simp: accept_record_def outcome_sound_def Let_def)
        next
          case (Some name)
          show ?thesis
          proof (cases "eq_ignore_ascii_case name host \<and> as_session_permits st \<noteq> 0")
            case False
            then show ?thesis
              using pre assms True a Some by (auto simp: accept_record_def outcome_sound_def Let_def split: if_splits)
          next
            case permit: True
            then show ?thesis
              using pre assms True a Some au est [OF Some]
              by (cases "au_replay_check auth")
                (auto simp: accept_record_def outcome_sound_def Let_def case_prod_beta split: if_splits)
          qed
        qed
      qed
    qed
  qed
qed


section \<open>A ClientHello is accepted once\<close>

fun authenticate_run ::
  "('cc, 'ec, 'n) auth_env \<Rightarrow> bytes list \<Rightarrow> (nat \<times> bytes) list \<Rightarrow> ('cc, 'ec) replay_caches \<Rightarrow>
   ('n auth_success option list \<times> ('cc, 'ec) replay_caches) option" where
  "authenticate_run env psks [] caches = Some ([], caches)"
| "authenticate_run env psks ((now, pld) # evs) caches =
     (case authenticate_client_hello env now pld psks caches of
        None \<Rightarrow> None
      | Some (r, caches') \<Rightarrow> map_option (\<lambda>(rs, c). (r # rs, c)) (authenticate_run env psks evs caches'))"

lemma check_counter_replay_total:
  assumes "hash_ok H" "length psk = 32" "length rnd = 32"
  shows "\<exists>r m'. check_counter_replay H L psk rnd mc m = Some (r, m')"
  using assms by (simp add: check_counter_replay_def derive_counter_mask_def Let_def case_prod_beta)

lemma try_user_total:
  assumes H: "hash_ok (env_hash env)" and psk: "length psk = 32" and l: "length rnd = 32" "32 \<le> length sid"
    and L: "lru_ok cap (env_ephemeral_lru env) view" and ec: "ephemeral_cache caches = Guarded c"
  obtains r caches' c' where "try_user env now rnd sid i psk caches = Some (r, caches')"
    "ephemeral_cache caches' = Guarded c'"
    "c' = c \<and> r = None \<or>
     (\<exists>b. is_replay (env_ephemeral_lru env) now rnd (Guarded c) = Some (b, Guarded c') \<and> (r = None \<longleftrightarrow> b))"
proof -
  obtain mac where mac: "derive_counter_mac (env_hash env) psk rnd (take 8 (drop 16 sid)) (take 16 rnd) = Some mac"
    "length mac = 8" using mac_computed [OF H psk l(1)] by blast
  obtain g w where mf: "mask_mac_flags (take 8 (drop 24 sid)) = Some g" "mask_mac_flags mac = Some w"
    using mac(2) l(2) by (simp add: mask_mac_flags_def)
  obtain e where e: "unmask_noise_ephemeral_key (env_hash env) rnd psk (take 16 sid) = Some e"
    using psk l by (simp add: unmask_noise_ephemeral_key_def derive_noise_e_mask_def xor_32_bytes_def)
  obtain k cc where cc: "check_counter_replay (env_hash env) (env_counter_lru env) psk rnd (take 8 (drop 16 sid))
      (counter_cache caches) = Some (k, cc)"
    using check_counter_replay_total [OF H psk l(1)] by blast
  obtain b c' where rp: "is_replay (env_ephemeral_lru env) now rnd (Guarded c) = Some (b, Guarded c')"
    using is_replay_total [OF L] by metis
  have "\<exists>r caches' c'. try_user env now rnd sid i psk caches = Some (r, caches') \<and>
    ephemeral_cache caches' = Guarded c' \<and> (c' = c \<and> r = None \<or>
     (\<exists>b. is_replay (env_ephemeral_lru env) now rnd (Guarded c) = Some (b, Guarded c') \<and> (r = None \<longleftrightarrow> b)))"
    using ec rp by (auto simp: try_user_def Let_def mf mac(1) e cc split: option.splits)
  then show ?thesis using that by blast
qed

lemma extracted_random_length: "extract_client_hello_random_and_session_id pld = Some (rnd, sid) \<Longrightarrow> length rnd = 32"
  by (auto simp: extract_client_hello_random_and_session_id_def client_hello_random_and_session_id_ranges_def Let_def
      split: if_splits option.splits)

lemma is_replay_fresh:
  assumes L: "lru_ok cap L view" and "0 < cap" "length key = 32"
    and "is_replay L now key (Guarded c) = Some (False, Guarded c')"
  shows "0 < length (view c') \<and> view c' ! 0 = (key, now)"
proof -
  obtain d where d: "is_replay L now key (Guarded c) = Some (key \<in> fst ` set (live_entries now (view c)), Guarded d)"
    "view d = (if key \<in> fst ` set (live_entries now (view c)) then live_entries now (view c)
               else take cap ((key, now) # live_entries now (view c)))"
    by (rule is_replay_step [OF L assms(3)])
  have "view c' = take cap ((key, now) # live_entries now (view c))"
    using d assms(4) by (cases "key \<in> fst ` set (live_entries now (view c))") simp_all
  then show ?thesis using assms(2) by (simp add: take_Cons')
qed

lemma is_replay_seen:
  assumes L: "lru_ok cap L view" and "length key = 32" "(key, t) \<in> set (view c)" "now - t \<le> RETENTION_NANOS"
    and "is_replay L now key (Guarded c) = Some (b, Guarded c')"
  shows "b \<and> (key, t) \<in> set (view c')"
proof -
  obtain i where "i < length (view c)" "view c ! i = (key, t)" using assms(3) by (auto simp: in_set_conv_nth)
  then have "(key, t) \<in> set (live_entries now (view c))"
    using live_entries_nth [of i "view c" now] assms(4) by (metis nth_mem snd_conv)
  moreover from this have "key \<in> fst ` set (live_entries now (view c))" by force
  moreover obtain d where
    "is_replay L now key (Guarded c) = Some (key \<in> fst ` set (live_entries now (view c)), Guarded d)"
    "view d = (if key \<in> fst ` set (live_entries now (view c)) then live_entries now (view c)
               else take cap ((key, now) # live_entries now (view c)))"
    by (rule is_replay_step [OF L assms(2)])
  ultimately show ?thesis using assms(5) by simp
qed

text \<open>Seen from the ephemeral cache, authenticating a ClientHello is a number of presentations of its
  random, at most one per user. If it succeeds the random is the newest entry, and it fails as long as
  an earlier entry is retained.\<close>

definition presents ::
  "('ec, bytes, nat) lru_ops \<Rightarrow> ('ec \<Rightarrow> (bytes \<times> nat) list) \<Rightarrow> nat \<Rightarrow> nat \<Rightarrow> bytes \<Rightarrow> 'a option \<Rightarrow> 'ec \<Rightarrow> 'ec \<Rightarrow> bool" where
  "presents L view n now rnd r c c' \<longleftrightarrow>
     (\<exists>calls. ephemeral_run L (map (\<lambda>_. (now, rnd)) calls) (Guarded c) = Some (calls, Guarded c') \<and> length calls \<le> n) \<and>
     (r \<noteq> None \<longrightarrow> 0 < length (view c') \<and> view c' ! 0 = (rnd, now)) \<and>
     (\<forall>t. (rnd, t) \<in> set (view c) \<and> now - t \<le> RETENTION_NANOS \<longrightarrow> r = None \<and> (rnd, t) \<in> set (view c'))"

lemma presents_none: "presents L view n now rnd None c c"
  by (auto simp: presents_def intro: exI [of _ "[]"])

lemma presents_one:
  assumes "lru_ok cap L view" "0 < cap" "length rnd = 32"
    and "is_replay L now rnd (Guarded c) = Some (b, Guarded c')" "r = None \<longleftrightarrow> b"
  shows "presents L view (Suc n) now rnd r c c'"
proof -
  have "\<exists>calls. ephemeral_run L (map (\<lambda>_. (now, rnd)) calls) (Guarded c) = Some (calls, Guarded c') \<and>
      length calls \<le> Suc n" by (rule exI [of _ "[b]"]) (simp add: assms(4))
  moreover have "0 < length (view c') \<and> view c' ! 0 = (rnd, now)" if "r \<noteq> None"
    using is_replay_fresh [OF assms(1-3), of now c c'] assms(4,5) that by (cases b) auto
  moreover have "r = None \<and> (rnd, t) \<in> set (view c')" if "(rnd, t) \<in> set (view c)" "now - t \<le> RETENTION_NANOS" for t
    using is_replay_seen [OF assms(1,3) that assms(4)] assms(5) by blast
  ultimately show ?thesis unfolding presents_def by blast
qed

lemma presents_seq:
  assumes "presents L view 1 now rnd (None :: 'a option) c c1" "presents L view n now rnd r c1 c2"
  shows "presents L view (Suc n) now rnd r c c2"
proof -
  obtain xs ys where run: "ephemeral_run L (map (\<lambda>_. (now, rnd)) xs) (Guarded c) = Some (xs, Guarded c1)" "length xs \<le> 1"
    "ephemeral_run L (map (\<lambda>_. (now, rnd)) ys) (Guarded c1) = Some (ys, Guarded c2)" "length ys \<le> n"
    using assms by (auto simp: presents_def)
  then have "\<exists>calls. ephemeral_run L (map (\<lambda>_. (now, rnd)) calls) (Guarded c) = Some (calls, Guarded c2) \<and>
      length calls \<le> Suc n"
    by (intro exI [of _ "xs @ ys"]) (simp add: ephemeral_run_append)
  then show ?thesis using assms by (auto simp: presents_def)
qed

lemma try_users_presents:
  assumes H: "hash_ok (env_hash env)" and psks: "\<forall>p \<in> set psks. length p = 32"
    and l: "length rnd = 32" "32 \<le> length sid" and L: "lru_ok cap (env_ephemeral_lru env) view" "0 < cap"
    and ec: "ephemeral_cache caches = Guarded c"
  shows "\<exists>r caches' c'. try_users env now rnd sid i psks caches = Some (r, caches') \<and>
    ephemeral_cache caches' = Guarded c' \<and> presents (env_ephemeral_lru env) view (length psks) now rnd r c c'"
  using psks ec
proof (induction psks arbitrary: i caches c)
  case (Cons psk psks)
  obtain r caches1 c1 where t: "try_user env now rnd sid i psk caches = Some (r, caches1)"
    "ephemeral_cache caches1 = Guarded c1"
    and k: "c1 = c \<and> r = None \<or>
     (\<exists>b. is_replay (env_ephemeral_lru env) now rnd (Guarded c) = Some (b, Guarded c1) \<and> (r = None \<longleftrightarrow> b))"
    using try_user_total [OF H _ l L(1) Cons.prems(2)] Cons.prems(1) by (metis list.set_intros(1))
  have p: "presents (env_ephemeral_lru env) view (Suc n) now rnd r c c1" for n
    using k presents_one [OF L l(1), of now c _ c1 r n] presents_none [of _ _ _ _ _ c] by metis
  show ?case
  proof (cases r)
    case (Some a)
    then show ?thesis using t p by simp
  next
    case None
    obtain r2 caches2 c2 where IH: "try_users env now rnd sid (i + 1) psks caches1 = Some (r2, caches2)"
      "ephemeral_cache caches2 = Guarded c2"
      "presents (env_ephemeral_lru env) view (length psks) now rnd r2 c1 c2"
      using Cons.IH [of caches1 c1 "i + 1"] Cons.prems(1) t(2) by auto
    then show ?thesis using t None presents_seq [OF _ IH(3)] p [of 0] by simp
  qed
qed (simp add: presents_none)

lemma authenticate_presents:
  assumes H: "hash_ok (env_hash env)" and psks: "\<forall>p \<in> set psks. length p = 32"
    and L: "lru_ok cap (env_ephemeral_lru env) view" "0 < cap" and ec: "ephemeral_cache caches = Guarded c"
  obtains r caches' c' where "authenticate_client_hello env now pld psks caches = Some (r, caches')"
    "ephemeral_cache caches' = Guarded c'"
    "presents (env_ephemeral_lru env) view (length psks) now
       (case extract_client_hello_random_and_session_id pld of None \<Rightarrow> [] | Some (rnd, _) \<Rightarrow> rnd) r c c'"
proof (cases "extract_client_hello_random_and_session_id pld")
  case None
  then show ?thesis using that [of None caches c] ec by (simp add: authenticate_client_hello_def presents_none)
next
  case (Some p)
  obtain rnd sid where p: "p = (rnd, sid)" by (cases p)
  have l: "length rnd = 32" using Some p extracted_random_length by blast
  show ?thesis
  proof (cases "length sid < 32")
    case True
    then show ?thesis using that [of None caches c] ec Some p by (simp add: authenticate_client_hello_def presents_none)
  next
    case False
    then obtain r caches' c' where "try_users env now rnd sid 0 psks caches = Some (r, caches')"
      "ephemeral_cache caches' = Guarded c'" "presents (env_ephemeral_lru env) view (length psks) now rnd r c c'"
      using try_users_presents [OF H psks l _ L ec, of sid now 0] by auto
    then show ?thesis using that False Some p by (simp add: authenticate_client_hello_def)
  qed
qed

lemma authenticate_run_calls:
  assumes H: "hash_ok (env_hash env)" and psks: "\<forall>p \<in> set psks. length p = 32"
    and L: "lru_ok cap (env_ephemeral_lru env) view" "0 < cap" and ec: "ephemeral_cache caches = Guarded c"
  shows "\<exists>rs caches' c' ks bs. authenticate_run env psks evs caches = Some (rs, caches') \<and> length rs = length evs \<and>
    ephemeral_cache caches' = Guarded c' \<and> ephemeral_run (env_ephemeral_lru env) ks (Guarded c) = Some (bs, Guarded c') \<and>
    length ks \<le> length evs * length psks \<and> fst ` set ks \<subseteq> fst ` set evs"
  using ec
proof (induction evs arbitrary: caches c)
  case Nil
  then show ?case by (auto intro: exI [of _ "[]"])
next
  case (Cons e evs)
  obtain now pld where e: "e = (now, pld)" by (cases e)
  let ?rnd = "case extract_client_hello_random_and_session_id pld of None \<Rightarrow> [] | Some (rnd, _) \<Rightarrow> rnd"
  obtain r caches1 c1 where r: "authenticate_client_hello env now pld psks caches = Some (r, caches1)"
    "ephemeral_cache caches1 = Guarded c1" "presents (env_ephemeral_lru env) view (length psks) now ?rnd r c c1"
    by (rule authenticate_presents [OF H psks L Cons.prems])
  obtain rs caches2 c2 ks bs where IH: "authenticate_run env psks evs caches1 = Some (rs, caches2)" "length rs = length evs"
    "ephemeral_cache caches2 = Guarded c2" "ephemeral_run (env_ephemeral_lru env) ks (Guarded c1) = Some (bs, Guarded c2)"
    "length ks \<le> length evs * length psks" "fst ` set ks \<subseteq> fst ` set evs"
    using Cons.IH [OF r(2)] by blast
  obtain calls where calls: "ephemeral_run (env_ephemeral_lru env) (map (\<lambda>_. (now, ?rnd)) calls) (Guarded c)
      = Some (calls, Guarded c1)" "length calls \<le> length psks" using r(3) unfolding presents_def by blast
  let ?ks = "map (\<lambda>_. (now, ?rnd)) calls @ ks"
  have "ephemeral_run (env_ephemeral_lru env) ?ks (Guarded c) = Some (calls @ bs, Guarded c2)"
    using calls IH by (simp add: ephemeral_run_append)
  moreover have "length ?ks \<le> length (e # evs) * length psks" using calls IH by simp
  moreover have "fst ` set ?ks \<subseteq> fst ` set (e # evs)" using IH(6) e by auto
  moreover have "authenticate_run env psks (e # evs) caches = Some (r # rs, caches2)" using e r IH by simp
  ultimately show ?case using IH(2,3) by (metis length_Cons)
qed

lemma authenticate_run_append:
  "authenticate_run env psks (xs @ ys) caches =
     (case authenticate_run env psks xs caches of None \<Rightarrow> None
      | Some (rs, caches') \<Rightarrow> map_option (\<lambda>(rs', c). (rs @ rs', c)) (authenticate_run env psks ys caches'))"
proof (induction xs arbitrary: caches)
  case Nil
  then show ?case by (simp add: option.map_id)
next
  case (Cons e xs)
  obtain now pld where e: "e = (now, pld)" by (cases e)
  show ?case by (simp add: e Cons option.map_comp comp_def case_prod_beta split: option.splits)
qed

text \<open>C3: A recorded ClientHello cannot be replayed. In every run of authentications on a server whose
  replay cache is not poisoned, authentication returns for every connection, and the same ClientHello
  presented twice within the retention period of 600 seconds is authenticated at most once, as long as
  the connections in between, counted once per user, are fewer than the entries of the replay cache.\<close>

theorem handshake_replay_rejected:
  assumes H: "hash_ok (env_hash env)" and psks: "\<forall>p \<in> set psks. length p = 32"
    and L: "lru_ok MAX_REPLAY_CACHE_ENTRIES (env_ephemeral_lru env) view" and ec: "ephemeral_cache caches = Guarded c"
    and time: "now' - now \<le> RETENTION_NANOS" and mono: "\<forall>e \<in> set mid. fst e \<le> now'"
    and few: "length mid * length psks < MAX_REPLAY_CACHE_ENTRIES"
  shows "\<exists>rs r rs' r' caches'. authenticate_run env psks (pre @ (now, hello) # mid @ [(now', hello)]) caches
      = Some (rs @ r # rs' @ [r'], caches') \<and> length rs = length pre \<and> length rs' = length mid \<and>
      (r = None \<or> r' = None)"
proof -
  have L0: "0 < MAX_REPLAY_CACHE_ENTRIES" by (simp add: MAX_REPLAY_CACHE_ENTRIES_def)
  let ?L = "env_ephemeral_lru env"
  let ?rnd = "case extract_client_hello_random_and_session_id hello of None \<Rightarrow> [] | Some (rnd, _) \<Rightarrow> rnd"
  obtain rs k1 c1 where 1: "authenticate_run env psks pre caches = Some (rs, k1)" "length rs = length pre"
    "ephemeral_cache k1 = Guarded c1" using authenticate_run_calls [OF H psks L L0 ec] by blast
  obtain r k2 c2 where 2: "authenticate_client_hello env now hello psks k1 = Some (r, k2)"
    "ephemeral_cache k2 = Guarded c2" "presents ?L view (length psks) now ?rnd r c1 c2"
    by (rule authenticate_presents [OF H psks L L0 1(3)])
  obtain rs' k3 c3 ks bs where 3: "authenticate_run env psks mid k2 = Some (rs', k3)" "length rs' = length mid"
    "ephemeral_cache k3 = Guarded c3" "ephemeral_run ?L ks (Guarded c2) = Some (bs, Guarded c3)"
    "length ks \<le> length mid * length psks" "fst ` set ks \<subseteq> fst ` set mid"
    using authenticate_run_calls [OF H psks L L0 2(2)] by blast
  obtain r' k4 c4 where 4: "authenticate_client_hello env now' hello psks k3 = Some (r', k4)"
    "presents ?L view (length psks) now' ?rnd r' c3 c4"
    using authenticate_presents [OF H psks L L0 3(3)] by metis
  have "r' = None" if "r \<noteq> None"
  proof -
    have at: "0 < length (view c2)" "view c2 ! 0 = (?rnd, now)" using 2(3) that by (auto simp: presents_def)
    have "\<forall>e \<in> set ks. fst e - now \<le> RETENTION_NANOS" using 3(6) mono time by fastforce
    then have "(?rnd, now) \<in> set (view c3)"
      using ephemeral_run_keeps [OF L at] 3(4,5) few by simp
    then show ?thesis using 4(2) time unfolding presents_def by blast
  qed
  moreover have "authenticate_run env psks (pre @ (now, hello) # mid @ [(now', hello)]) caches
      = Some (rs @ r # rs' @ [r'], k4)" using 1 2 3 4 by (simp add: authenticate_run_append)
  ultimately show ?thesis using 1(2) 3(2) by metis
qed

section \<open>Concrete instances\<close>

text \<open>A minimal captured ClientHello with a GREASE cipher suite, a server name and an X25519 key share.\<close>

definition demo_capture :: bytes where
  "demo_capture = [0x16, 3, 1, 0, 134, 1, 0, 0, 130, 3, 3] @ replicate 32 7 @ [32] @ replicate 32 9 @
     [0, 4, 0x0A, 0x0A, 0x13, 1, 1, 0, 0, 53, 0, 0, 0, 7, 0, 5, 0, 0, 2, 0x61, 0x62,
      0, 51, 0, 38, 0, 36, 0, 29, 0, 32] @ replicate 32 4"

definition demo_draws :: hello_draws where
  "demo_draws = \<lparr>hd_x25519 = Some (replicate 32 5), hd_p256 = (\<lambda>_. None), hd_coefficient = (\<lambda>_ _. 0),
     hd_rho = (\<lambda>_ _. 0), hd_config_id = 0, hd_enc = (\<lambda>_. 0), hd_payload = (\<lambda>_. 0), hd_flags = 2,
     hd_grease = (\<lambda>n. n + 3)\<rparr>"

definition demo_template :: client_hello_template where
  "demo_template = \<lparr>t_bytes = demo_capture, t_cipher_suites = (78, 82), t_key_share = (107, 139),
     t_auxiliary_key_shares = [], t_extensions_len = (84, 86), t_ech_grease = None\<rparr>"

definition demo_hello :: bytes where
  "demo_hello = [0x16, 3, 1, 0, 134, 1, 0, 0, 130, 3, 3] @ replicate 32 1 @ [32] @
     replicate 16 1 @ [0, 0, 0, 0, 0, 0, 0, 5, 0, 0, 0, 0, 0, 0, 0, 2] @
     [0, 4, 0x3A, 0x3A, 0x13, 1, 1, 0, 0, 53, 0, 0, 0, 7, 0, 5, 0, 0, 2, 0x61, 0x62,
      0, 51, 0, 38, 0, 36, 0, 29, 0, 32] @ replicate 32 5"

definition zero_hash :: "bytes \<Rightarrow> bytes" where "zero_hash bs = replicate 32 0"

definition demo_env :: "((bytes \<times> sliding_window) list, (bytes \<times> nat) list, unit) auth_env" where
  "demo_env = \<lparr>env_hash = zero_hash, env_counter_lru = list_lru MAX_COUNTER_CACHE_ENTRIES,
     env_ephemeral_lru = list_lru MAX_REPLAY_CACHE_ENTRIES, env_noise_read = (\<lambda>_ _. Some (0, ()))\<rparr>"

definition demo_caches :: "((bytes \<times> sliding_window) list, (bytes \<times> nat) list) replay_caches" where
  "demo_caches = \<lparr>counter_cache = Guarded [], ephemeral_cache = Guarded []\<rparr>"

lemma demo_built: "build_client_hello_template [] [0x61, 0x62] True (Some demo_capture) = Inr demo_template"
  by code_simp

lemma demo_instantiated: "instantiate zero_hash demo_draws demo_template (replicate 32 3) (replicate 48 1) 5 = Inr demo_hello"
  by code_simp

lemma demo_fields: "extract_client_hello_random_and_session_id demo_hello =
    Some (replicate 32 1, replicate 16 1 @ [0, 0, 0, 0, 0, 0, 0, 5, 0, 0, 0, 0, 0, 0, 0, 2])"
  by code_simp

lemma zero_hash_ok [simp]: "hash_ok zero_hash"
  by (simp add: hash_ok_def zero_hash_def)

theorem hello_authenticates_witness:
  "\<exists>c'. authenticate_client_hello demo_env 5 demo_hello [replicate 32 3] demo_caches =
    Some (Some \<lparr>au_user_index = 0, au_derived_psk = replicate 32 3, au_noise = (),
                au_replay_check = Some (hello_ticket zero_hash (replicate 32 3) 5)\<rparr>,
          demo_caches\<lparr>counter_cache := Guarded c', ephemeral_cache := Guarded [(replicate 32 1, 5)]\<rparr>)"
  using hello_authenticates [of demo_env "[]" "[0x61, 0x62]" True "Some demo_capture" demo_template demo_draws
      "replicate 32 3" "replicate 48 1" 5 demo_hello "replicate 32 1" _ "[]" "()" demo_caches "[]" 5
      "Guarded [(replicate 32 1, 5)]" "[]", OF _ demo_built _ demo_fields]
  by (simp add: demo_env_def demo_instantiated demo_caches_def counter_admits_def is_replay_def list_lru_def
      norm_entries_def evict_expired.simps MAX_REPLAY_CACHE_ENTRIES_def take_Cons' without_def promote_def)

theorem handshake_replay_rejected_witness:
  "\<exists>rs r rs' r' caches'. authenticate_run demo_env [replicate 32 3]
     ([] @ (5, demo_hello) # [(6, demo_capture)] @ [(7, demo_hello)]) demo_caches
      = Some (rs @ r # rs' @ [r'], caches') \<and> length rs = length ([] :: (nat \<times> bytes) list) \<and>
      length rs' = length [(6 :: nat, demo_capture)] \<and> (r = None \<or> r' = None)"
  by (rule handshake_replay_rejected [of demo_env "[replicate 32 3]" "norm_entries MAX_REPLAY_CACHE_ENTRIES"])
    (simp_all add: demo_env_def demo_caches_def list_lru_ok MAX_REPLAY_CACHE_ENTRIES_def RETENTION_NANOS_def
      REPLAY_RETENTION_SECS_def)

end
