(* ===== verification/Target.thy ===== *)
theory Target
  imports ClientHello
begin

text \<open>
  Destinations (\<^verbatim>\<open>proto/target.rs\<close>), UDP-over-TCP packets (\<^verbatim>\<open>proto/uot.rs\<close>) and the destination policy
  of the outbound side (\<^verbatim>\<open>proto/outbound.rs\<close>, \<^verbatim>\<open>server/mod.rs\<close>). A Rust string is the list of its
  UTF-8 bytes. DNS resolution is a parameter: the addresses in the order the resolver returns them.
\<close>

section \<open>Destinations\<close>

datatype host = Domain bytes | Ipv4 "u8 list" | Ipv6 "u16 list"

datatype network = Tcp | Udp

record target =
  tg_host :: host
  tg_port :: u16
  tg_network :: network

datatype proto_error = ProtoUtf8 | ProtoParseInt | ProtoIo | ProtoBail string

type_synonym socket_addr = "ip_addr \<times> u16"

definition host_authority :: "host \<Rightarrow> bytes" where
  "host_authority h =
     (case h of Domain d \<Rightarrow> d | Ipv4 ip \<Rightarrow> show_ipv4 ip | Ipv6 ip \<Rightarrow> [0x5B] @ show_ipv6 ip @ [0x5D])"

definition host_from :: "bytes \<Rightarrow> host" where
  "host_from v = (case parse_ip v of Some (V4 ip) \<Rightarrow> Ipv4 ip | Some (V6 ip) \<Rightarrow> Ipv6 ip | None \<Rightarrow> Domain v)"

definition target_authority :: "target \<Rightarrow> bytes" where
  "target_authority t = host_authority (tg_host t) @ [0x3A] @ show_radix 10 (unat (tg_port t))"

definition UDP_PREFIX :: bytes where "UDP_PREFIX = [0x75, 0x64, 0x70, 0x3A]"

definition encode_wire :: "target \<Rightarrow> bytes" where
  "encode_wire t = (case tg_network t of Tcp \<Rightarrow> target_authority t | Udp \<Rightarrow> UDP_PREFIX @ target_authority t)"

definition strip_prefix :: "bytes \<Rightarrow> bytes \<Rightarrow> bytes option" where
  "strip_prefix p s = (if take (length p) s = p then Some (drop (length p) s) else None)"

definition split_once :: "u8 \<Rightarrow> bytes \<Rightarrow> (bytes \<times> bytes) option" where
  "split_once c s =
     (if c \<in> set s then let a = takeWhile (\<lambda>b. b \<noteq> c) s in Some (a, drop (Suc (length a)) s) else None)"

definition rsplit_once :: "u8 \<Rightarrow> bytes \<Rightarrow> (bytes \<times> bytes) option" where
  "rsplit_once c s = map_option (\<lambda>(b, a). (rev a, rev b)) (split_once c (rev s))"

text \<open>\<^verbatim>\<open>str::parse::<u16>\<close>: one leading plus sign is accepted, leading zeros too.\<close>

definition parse_u16 :: "bytes \<Rightarrow> u16 option" where
  "parse_u16 s =
     (let ds = (if s \<noteq> [] \<and> hd s = 0x2B \<and> tl s \<noteq> [] then tl s else s); v = digits_value 10 0 ds in
      if ds = [] \<or> list_ex (\<lambda>b. digit_value 10 b = None) ds \<or> v > 65535 then None else Some (of_nat v))"

definition checked_port :: "bytes \<Rightarrow> bool \<Rightarrow> bytes \<Rightarrow> proto_error + (bytes \<times> u16)" where
  "checked_port text allow_zero_port h =
     (case parse_u16 text of
        None \<Rightarrow> Inl ProtoParseInt
      | Some p \<Rightarrow>
          if p = 0 \<and> \<not> allow_zero_port then Inl (ProtoBail ''invalid target port 0'') else Inr (h, p))"

definition parse_authority :: "bytes \<Rightarrow> bool \<Rightarrow> proto_error + (bytes \<times> u16)" where
  "parse_authority s allow_zero_port =
     (case strip_prefix [0x5B] s of
        Some rest \<Rightarrow>
          (case split_once 0x5D rest of
             None \<Rightarrow> Inl (ProtoBail ''invalid bracketed IPv6 target'')
           | Some (h, after) \<Rightarrow>
               (case strip_prefix [0x3A] after of
                  None \<Rightarrow> Inl (ProtoBail ''missing port in target'')
                | Some port_part \<Rightarrow> checked_port port_part allow_zero_port h))
      | None \<Rightarrow>
          (case rsplit_once 0x3A s of
             None \<Rightarrow> Inl (ProtoBail ''missing port in target'')
           | Some (h, port) \<Rightarrow>
               if h = [] then Inl (ProtoBail ''empty target host'') else checked_port port allow_zero_port h))"

definition parse_authority_target :: "bytes \<Rightarrow> proto_error + (bytes \<times> u16)" where
  "parse_authority_target s = parse_authority s False"

definition decode_wire :: "bytes \<Rightarrow> proto_error + target" where
  "decode_wire bs =
     (if \<not> utf8_valid bs then Inl ProtoUtf8
      else
        let (net, authority) = (case strip_prefix UDP_PREFIX bs of Some rest \<Rightarrow> (Udp, rest) | None \<Rightarrow> (Tcp, bs)) in
        case parse_authority authority (net = Udp) of
          Inl e \<Rightarrow> Inl e
        | Inr (h, p) \<Rightarrow> Inr \<lparr>tg_host = host_from h, tg_port = p, tg_network = net\<rparr>)"

section \<open>Round trip of the wire format\<close>

lemma takeWhile_split: "c \<notin> set a \<Longrightarrow> takeWhile (\<lambda>b. b \<noteq> c) (a @ c # s) = a"
  by (induction a) auto

lemma split_once_append: "c \<notin> set a \<Longrightarrow> split_once c (a @ c # s) = Some (a, s)"
  by (simp add: split_once_def takeWhile_split)

lemma rsplit_once_append: "c \<notin> set b \<Longrightarrow> rsplit_once c (a @ c # b) = Some (a, b)"
  using split_once_append [of c "rev b" "rev a"] by (simp add: rsplit_once_def)

lemma decimal_digit: "digit_value 10 b \<noteq> None \<Longrightarrow> is_ascii_digit b"
  by (auto simp: digit_value_def digit_of_def split: if_splits option.splits)

lemma show_radix_chars: "b \<in> set (show_radix 10 n) \<Longrightarrow> is_ascii_digit b"
  using show_radix_digits [of 10 n] decimal_digit by force

lemma show_dec_no: "\<not> is_ascii_digit c \<Longrightarrow> c \<notin> set (show_radix 10 n)"
  using show_radix_chars by blast

lemma show_dec_hd: "is_ascii_digit (hd (show_radix 10 n))"
  by (metis hd_in_set show_radix_chars show_radix_nonempty)

lemma show_ipv4_nonempty [simp]: "show_ipv4 a \<noteq> []"
  by (simp add: show_ipv4_def)

lemma length_UDP_PREFIX [simp]: "length UDP_PREFIX = 4"
  by (simp add: UDP_PREFIX_def)

lemma parse_u16_show: "parse_u16 (show_radix 10 (unat (p :: u16))) = Some p"
proof -
  let ?s = "show_radix 10 (unat p)"
  have "hd ?s \<noteq> 0x2B" using show_dec_hd [of "unat p"] by (auto simp: is_ascii_digit_def)
  then have "(if ?s \<noteq> [] \<and> hd ?s = 0x2B \<and> tl ?s \<noteq> [] then tl ?s else ?s) = ?s" by simp
  then show ?thesis
    using show_radix_digits [of 10 "unat p"] show_radix_value [of 10 "unat p"]
    unfolding parse_u16_def Let_def by (auto simp: list_ex_iff not_less)
qed

lemma checked_port_show:
  "p \<noteq> 0 \<or> z \<Longrightarrow> checked_port (show_radix 10 (unat (p :: u16))) z h = Inr (h, p)"
  by (auto simp: checked_port_def parse_u16_show)

definition target_ok :: "target \<Rightarrow> bool" where
  "target_ok t \<longleftrightarrow>
     (tg_network t = Tcp \<longrightarrow> tg_port t \<noteq> 0) \<and>
     (case tg_host t of
        Ipv4 ip \<Rightarrow> length ip = 4
      | Ipv6 ip \<Rightarrow> length ip = 8
      | Domain d \<Rightarrow> d \<noteq> [] \<and> utf8_valid d \<and> hd d \<noteq> 0x5B \<and> parse_ip d = None \<and>
          (tg_network t = Tcp \<longrightarrow> strip_prefix UDP_PREFIX (d @ [0x3A]) = None))"

lemma word_gap: "\<not> (0xE0 :: u8) \<le> 0xDF" "\<not> (0xF0 :: u8) \<le> 0xEF" "\<not> (0xF0 :: u8) \<le> 0xDF"
  by simp_all

lemma utf8_append: "utf8_valid a \<Longrightarrow> utf8_valid b \<Longrightarrow> utf8_valid (a @ b)"
proof (induction a rule: utf8_valid.induct)
  case (2 a bs)
  show ?case
  proof (cases "a < 0x80")
    case True
    then show ?thesis using 2(1,5,6) by simp
  next
    case a: False
    have "bs \<noteq> []" using 2(5) a by (cases bs) simp_all
    then obtain x bs2 where bs: "bs = x # bs2" by (cases bs) auto
    show ?thesis
    proof (cases "0xC2 \<le> a \<and> a \<le> 0xDF")
      case True
      then show ?thesis using 2(2,5,6) a bs by simp
    next
      case c: False
      then have "bs2 \<noteq> []" using 2(5) a bs by (cases "bs2 = []") (auto split: if_split_asm)
      then obtain y bs3 where bs2: "bs2 = y # bs3" by (cases bs2) auto
      show ?thesis
      proof (cases "0xE0 \<le> a \<and> a \<le> 0xEF")
        case True
        then have "\<not> a \<le> 0xDF" by (metis order.trans word_gap(1))
        then show ?thesis using True 2(3,5,6) a bs bs2 by simp
      next
        case False
        then have f: "bs3 \<noteq> [] \<and> 0xF0 \<le> a"
          using 2(5) a c bs bs2 by (cases bs3) (auto simp del: utf8_valid.simps(2) simp: utf8_valid.simps(2) [of a] split: if_split_asm)
        then obtain z bs4 where "bs3 = z # bs4" by (cases bs3) auto
        moreover have "\<not> a \<le> 0xEF" "\<not> a \<le> 0xDF" using f by (metis order.trans word_gap)+
        ultimately show ?thesis using 2(4,5,6) a f bs bs2 by simp
      qed
    qed
  qed
qed simp

lemma utf8_ascii: "\<forall>b \<in> set a. b < 0x80 \<Longrightarrow> utf8_valid a"
  by (induction a) auto

lemma digit_ascii: "is_ascii_digit b \<Longrightarrow> b < 0x80 \<and> b \<noteq> 0x5D"
  using order.strict_trans1 [of b "0x39" "0x80"] by (auto simp: is_ascii_digit_def)

lemma hex_chars: "b \<in> set (show_radix 16 n) \<Longrightarrow> b < 0x80 \<and> b \<noteq> 0x5D"
proof -
  assume "b \<in> set (show_radix 16 n)"
  then have "digit_of b \<noteq> None" using show_radix_digits [of 16 n] by (fastforce simp: digit_value_def split: option.splits)
  then have "is_ascii_digit b \<or> is_ascii_lower b \<or> is_ascii_upper b" by (auto simp: digit_of_def split: if_splits)
  then show ?thesis
    using order.strict_trans1 [of b "0x39" "0x80"] order.strict_trans1 [of b "0x7A" "0x80"] order.strict_trans1 [of b "0x5A" "0x80"]
    by (auto simp: is_ascii_digit_def is_ascii_lower_def is_ascii_upper_def)
qed

lemma show_ipv4_chars: "b \<in> set (show_ipv4 a) \<Longrightarrow> b < 0x80 \<and> b \<noteq> 0x5D"
  by (auto simp: show_ipv4_def dest: show_radix_chars digit_ascii)

lemma fmt_subslice_chars: "b \<in> set (fmt_subslice gs) \<Longrightarrow> b < 0x80 \<and> b \<noteq> 0x5D"
  by (cases gs) (auto dest: hex_chars split: if_splits)

lemma show_ipv6_chars: "b \<in> set (show_ipv6 g) \<Longrightarrow> b < 0x80 \<and> b \<noteq> 0x5D"
  by (auto simp: show_ipv6_def case_prod_beta Let_def split: option.splits if_splits
      dest: show_ipv4_chars fmt_subslice_chars)

lemma host_authority_utf8: "target_ok t \<Longrightarrow> utf8_valid (host_authority (tg_host t))"
  by (auto simp: target_ok_def host_authority_def split: host.splits
      dest: show_ipv4_chars show_ipv6_chars intro!: utf8_ascii)

lemma target_authority_utf8: "target_ok t \<Longrightarrow> utf8_valid (target_authority t)"
  unfolding target_authority_def
  by (intro utf8_append host_authority_utf8 utf8_ascii) (auto dest: show_radix_chars digit_ascii)

lemma ipv4_first: "length a = 4 \<Longrightarrow> is_ascii_digit (hd (show_ipv4 a))"
  using show_dec_hd by (simp add: show_ipv4_def)

lemma parse_authority_show:
  assumes "target_ok t" "z \<or> tg_port t \<noteq> 0"
  shows "\<exists>h. parse_authority (target_authority t) z = Inr (h, tg_port t) \<and> host_from h = tg_host t"
proof -
  have colon: "0x3A \<notin> set (show_radix 10 (unat (tg_port t)))" by (rule show_dec_no) (simp add: is_ascii_digit_def)
  show ?thesis
  proof (cases "tg_host t")
    case (Domain d)
    then have "strip_prefix [0x5B] (target_authority t) = None"
      using assms(1) by (cases d) (auto simp: target_ok_def target_authority_def host_authority_def strip_prefix_def)
    then show ?thesis
      using assms Domain colon
      by (auto simp: parse_authority_def target_authority_def host_authority_def target_ok_def host_from_def
          rsplit_once_append checked_port_show)
  next
    case (Ipv4 a)
    then have a: "length a = 4" using assms(1) by (simp add: target_ok_def)
    have "strip_prefix [0x5B] (target_authority t) = None"
      using ipv4_first [OF a] Ipv4
      by (cases "show_ipv4 a") (auto simp: target_authority_def host_authority_def strip_prefix_def is_ascii_digit_def)
    then show ?thesis
      using assms Ipv4 colon a
      by (auto simp: parse_authority_def target_authority_def host_authority_def host_from_def
          rsplit_once_append checked_port_show parse_ip_show_ipv4)
  next
    case (Ipv6 g)
    then have g: "length g = 8" using assms(1) by (simp add: target_ok_def)
    have "0x5D \<notin> set (show_ipv6 g)" using show_ipv6_chars by blast
    then have "split_once 0x5D (show_ipv6 g @ 0x5D # 0x3A # show_radix 10 (unat (tg_port t)))
        = Some (show_ipv6 g, 0x3A # show_radix 10 (unat (tg_port t)))" by (rule split_once_append)
    then show ?thesis
      using assms Ipv6 g
      by (auto simp: parse_authority_def target_authority_def host_authority_def host_from_def strip_prefix_def
          checked_port_show parse_ip_show_ipv6)
  qed
qed

lemma tcp_no_udp_prefix:
  assumes "target_ok t" "tg_network t = Tcp"
  shows "strip_prefix UDP_PREFIX (target_authority t) = None"
proof (cases "tg_host t")
  case (Domain d)
  then have n: "take 4 (d @ [0x3A]) \<noteq> UDP_PREFIX" "d \<noteq> []"
    using assms by (auto simp: target_ok_def strip_prefix_def split: if_splits)
  have "take 4 (d @ 0x3A # s) \<noteq> UDP_PREFIX" if "is_ascii_digit (hd s)" "s \<noteq> []" for s
  proof (cases "3 \<le> length d")
    case True
    then show ?thesis using n by (cases "4 \<le> length d") (auto simp: take_Cons' le_less_Suc_eq)
  next
    case False
    then consider x where "d = [x]" | x y where "d = [x, y]" using n(2) by (cases d; cases "tl d") (auto simp: Suc_le_eq)
    then show ?thesis using that by cases (cases s; auto simp: UDP_PREFIX_def is_ascii_digit_def)+
  qed
  then show ?thesis
    using Domain show_dec_hd [of "unat (tg_port t)"]
    by (simp add: target_authority_def host_authority_def strip_prefix_def)
next
  case (Ipv4 a)
  then have "is_ascii_digit (hd (target_authority t))" "target_authority t \<noteq> []"
    using ipv4_first assms(1) by (auto simp: target_ok_def target_authority_def host_authority_def)
  then show ?thesis by (cases "target_authority t") (auto simp: strip_prefix_def UDP_PREFIX_def is_ascii_digit_def)
next
  case (Ipv6 g)
  then show ?thesis by (simp add: target_authority_def host_authority_def strip_prefix_def UDP_PREFIX_def)
qed

text \<open>C34: The destination a client writes in front of a stream is the destination the server reads:
  decoding the wire form gives the target back, for IPv4 and IPv6 addresses in their printed form
  (zero compression and mapped addresses included) and for every domain name that is not itself an
  address literal, does not start with a bracket and is not taken for the UDP prefix.\<close>

theorem target_wire_roundtrip: "target_ok t \<Longrightarrow> decode_wire (encode_wire t) = Inr t"
proof -
  assume t: "target_ok t"
  have u: "utf8_valid UDP_PREFIX" by code_simp
  show ?thesis
  proof (cases "tg_network t")
    case Tcp
    then have "tg_port t \<noteq> 0" using t by (simp add: target_ok_def)
    then obtain h where "parse_authority (target_authority t) False = Inr (h, tg_port t)" "host_from h = tg_host t"
      using parse_authority_show [OF t, of False] by auto
    then show ?thesis
      using Tcp t tcp_no_udp_prefix target_authority_utf8 by (simp add: decode_wire_def encode_wire_def)
  next
    case Udp
    obtain h where "parse_authority (target_authority t) True = Inr (h, tg_port t)" "host_from h = tg_host t"
      using parse_authority_show [OF t, of True] by auto
    then show ?thesis
      using Udp utf8_append [OF u target_authority_utf8 [OF t]]
      by (simp add: decode_wire_def encode_wire_def strip_prefix_def)
  qed
qed

theorem target_wire_roundtrip_witness:
  "decode_wire (encode_wire \<lparr>tg_host = Ipv6 [0x2001, 0xDB8, 0, 0, 1, 0, 0, 0x1F], tg_port = 443, tg_network = Tcp\<rparr>)
   = Inr \<lparr>tg_host = Ipv6 [0x2001, 0xDB8, 0, 0, 1, 0, 0, 0x1F], tg_port = 443, tg_network = Tcp\<rparr>"
  by (rule target_wire_roundtrip) (simp add: target_ok_def)

text \<open>Whatever bytes arrive as the first frame of a stream, a decoded target is well-typed: an address
  host has 4 octets or 8 segments, a domain is not an address literal in disguise, and a TCP target
  never has port 0.\<close>

lemma decoded_target_typed:
  "case decode_wire bs of Inl _ \<Rightarrow> True
   | Inr t \<Rightarrow> \<not> (tg_network t = Tcp \<and> tg_port t = 0) \<and>
       (case tg_host t of Ipv4 ip \<Rightarrow> length ip = 4 | Ipv6 ip \<Rightarrow> length ip = 8 | Domain d \<Rightarrow> parse_ip d = None)"
proof -
  have port: "z \<or> p \<noteq> 0" if "parse_authority s z = Inr (h, p)" for s z h p
    using that by (auto simp: parse_authority_def checked_port_def split: option.splits if_splits)
  have "case host_from h of Ipv4 ip \<Rightarrow> length ip = 4 | Ipv6 ip \<Rightarrow> length ip = 8 | Domain d \<Rightarrow> parse_ip d = None" for h
    by (auto simp: host_from_def parse_ip_shape split: option.splits ip_addr.splits)
  then show ?thesis
    using port by (fastforce simp: decode_wire_def case_prod_beta split: sum.splits option.splits prod.splits)
qed

section \<open>UDP over TCP\<close>

definition ip_octets :: "ip_addr \<Rightarrow> bytes" where
  "ip_octets ip = (case ip of V4 a \<Rightarrow> a | V6 g \<Rightarrow> concat (map u16_to_be g))"

fun octets_to_v6 :: "bytes \<Rightarrow> u16 list" where
  "octets_to_v6 (a # b # bs) = u16_from_be a b # octets_to_v6 bs"
| "octets_to_v6 _ = []"

definition encode_addr :: "socket_addr \<Rightarrow> bytes" where
  "encode_addr addr =
     (case fst addr of V4 _ \<Rightarrow> [0x01] | V6 _ \<Rightarrow> [0x04]) @ ip_octets (fst addr) @ u16_to_be (snd addr)"

definition encode_udp_packet :: "bytes \<Rightarrow> socket_addr \<Rightarrow> nat \<Rightarrow> proto_error + bytes" where
  "encode_udp_packet data addr max_payload =
     (let encoded_addr = encode_addr addr; max_data_len = max_payload - (length encoded_addr + 2) in
      if length data > max_data_len then Inl (ProtoBail ''udp packet too large'')
      else Inr (encoded_addr @ u16_to_be (of_nat (length data)) @ data))"

definition encode_socks5_udp :: "bytes \<Rightarrow> socket_addr \<Rightarrow> bytes" where
  "encode_socks5_udp data addr = [0x00, 0x00, 0x00] @ encode_addr addr @ data"

definition decode_socks5_udp :: "bytes \<Rightarrow> (socket_addr \<times> bytes) option" where
  "decode_socks5_udp data =
     (if length data < 4 \<or> data ! 0 \<noteq> 0 \<or> data ! 1 \<noteq> 0 \<or> data ! 2 \<noteq> 0 then None
      else if data ! 3 = 0x01
      then (if length data < 10 then None
            else let port = u16_from_be (data ! 8) (data ! 9) in
              if port = 0 then None else Some ((V4 (take 4 (drop 4 data)), port), drop 10 data))
      else if data ! 3 = 0x04
      then (if length data < 22 then None
            else let port = u16_from_be (data ! 20) (data ! 21) in
              if port = 0 then None else Some ((V6 (octets_to_v6 (take 16 (drop 4 data))), port), drop 22 data))
      else None)"

definition decode_udp_addr :: "bytes \<Rightarrow> (socket_addr \<times> nat) option" where
  "decode_udp_addr data =
     (if data ! 0 = 0x01
      then (if length data < 8 then None
            else let port = u16_from_be (data ! 5) (data ! 6) in
              if port = 0 then None else Some ((V4 (take 4 (drop 1 data)), port), 7))
      else if data ! 0 = 0x04
      then (if length data < 20 then None
            else let port = u16_from_be (data ! 17) (data ! 18) in
              if port = 0 then None else Some ((V6 (octets_to_v6 (take 16 (drop 1 data))), port), 19))
      else None)"

definition decode_udp_packet :: "bytes \<Rightarrow> (socket_addr \<times> bytes) option" where
  "decode_udp_packet data =
     (if data = [] then None
      else case decode_udp_addr data of
        None \<Rightarrow> None
      | Some (addr, offset) \<Rightarrow>
          if length data < offset + 2 then None
          else let len = unat (u16_from_be (data ! offset) (data ! (offset + 1))) in
            if length data < offset + 2 + len then None
            else Some (addr, take len (drop (offset + 2) data)))"

definition ip_ok :: "ip_addr \<Rightarrow> bool" where
  "ip_ok ip \<longleftrightarrow> (case ip of V4 a \<Rightarrow> length a = 4 | V6 g \<Rightarrow> length g = 8)"

lemma octets_v6 [simp]: "octets_to_v6 (concat (map u16_to_be g)) = g"
  by (induction g) (simp_all add: u16_to_be_def)

lemma length_octets_v6 [simp]: "length (concat (map u16_to_be g)) = 2 * length g"
  by (induction g) simp_all

lemma nth_skip: "i = length a + k \<Longrightarrow> (a @ b) ! i = b ! k"
  by (simp add: nth_append)

lemma port_at: "u16_from_be (u16_to_be p ! 0) (u16_to_be p ! Suc 0) = p"
  by (simp add: u16_to_be_def)

lemma decode_socks5_encode:
  assumes "ip_ok (fst addr)" "snd addr \<noteq> 0"
  shows "decode_socks5_udp (encode_socks5_udp data addr) = Some (addr, data)"
proof (cases addr)
  case (Pair ip p)
  show ?thesis
  proof (cases ip)
    case (V4 a)
    then have "length a = 4" using assms Pair by (simp add: ip_ok_def)
    then obtain a0 a1 a2 a3 where "a = [a0, a1, a2, a3]" by (auto simp: numeral_eq_Suc length_Suc_conv)
    then show ?thesis
      using Pair V4 assms
      by (simp add: decode_socks5_udp_def encode_socks5_udp_def encode_addr_def ip_octets_def u16_to_be_def)
  next
    case (V6 g)
    let ?o = "concat (map u16_to_be g)"
    have g: "length g = 8" and l: "length ?o = 16" using assms Pair V6 by (simp_all add: ip_ok_def)
    have e: "encode_socks5_udp data addr = ([0, 0, 0, 4] @ ?o) @ u16_to_be p @ data"
      using Pair V6 by (simp add: encode_socks5_udp_def encode_addr_def ip_octets_def)
    have pt: "encode_socks5_udp data addr ! 20 = u16_to_be p ! 0" "encode_socks5_udp data addr ! 21 = u16_to_be p ! 1"
      unfolding e by (simp_all add: nth_append g)
    have hd: "encode_socks5_udp data addr ! 0 = 0" "encode_socks5_udp data addr ! 1 = 0"
      "encode_socks5_udp data addr ! 2 = 0" "encode_socks5_udp data addr ! 3 = 4"
      by (simp_all add: e)
    have len: "length (encode_socks5_udp data addr) = 22 + length data" by (simp add: e g)
    have tk: "take 16 (drop 4 (encode_socks5_udp data addr)) = ?o" "drop 22 (encode_socks5_udp data addr) = data"
      by (simp_all add: e g)
    show ?thesis
      using assms Pair V6 port_at [of p]
      unfolding decode_socks5_udp_def hd pt len tk Let_def by simp
  qed
qed

lemma decode_udp_addr_encode:
  assumes "ip_ok (fst addr)" "snd addr \<noteq> 0" "rest \<noteq> []"
  shows "decode_udp_addr (encode_addr addr @ rest) = Some (addr, length (encode_addr addr))"
proof (cases addr)
  case (Pair ip p)
  show ?thesis
  proof (cases ip)
    case (V4 a)
    then have "length a = 4" using assms Pair by (simp add: ip_ok_def)
    then obtain a0 a1 a2 a3 where "a = [a0, a1, a2, a3]" by (auto simp: numeral_eq_Suc length_Suc_conv)
    then show ?thesis
      using Pair V4 assms by (cases rest) (simp_all add: decode_udp_addr_def encode_addr_def ip_octets_def u16_to_be_def)
  next
    case (V6 g)
    let ?o = "concat (map u16_to_be g)" and ?s = "encode_addr addr @ rest"
    have g: "length g = 8" and l: "length ?o = 16" using assms Pair V6 by (simp_all add: ip_ok_def)
    have e: "?s = ([4] @ ?o) @ u16_to_be p @ rest" using Pair V6 by (simp add: encode_addr_def ip_octets_def)
    have pt: "?s ! 17 = u16_to_be p ! 0" "?s ! 18 = u16_to_be p ! 1"
      unfolding e by (simp_all add: nth_append g)
    have hd: "?s ! 0 = 4" "length (encode_addr addr) = 19" using Pair V6 l by (simp_all add: encode_addr_def ip_octets_def)
    have len: "length ?s = 19 + length rest" by (simp add: e g)
    have tk: "take 16 (drop 1 ?s) = ?o" by (simp add: e g)
    show ?thesis
      using assms Pair V6 port_at [of p] unfolding decode_udp_addr_def hd pt len tk Let_def by (cases rest) simp_all
  qed
qed

text \<open>C35: UDP datagrams survive both encapsulations: what \<^verbatim>\<open>encode_udp_packet\<close> or \<^verbatim>\<open>encode_socks5_udp\<close>
  produces for an address with a port other than 0 is decoded to the same address and payload. A
  datagram above the payload limit is refused and never truncated, and every accepted one fits the
  limit.\<close>

theorem udp_packet_roundtrip:
  assumes "ip_ok (fst addr)" "snd addr \<noteq> 0" "max_payload \<le> 65535"
  shows "decode_socks5_udp (encode_socks5_udp data addr) = Some (addr, data) \<and>
    (case encode_udp_packet data addr max_payload of
       Inl _ \<Rightarrow> max_payload < length (encode_addr addr) + 2 + length data
     | Inr packet \<Rightarrow> (data = [] \<or> length packet \<le> max_payload) \<and> decode_udp_packet packet = Some (addr, data))"
proof -
  let ?a = "encode_addr addr"
  have fits: "decode_udp_packet (?a @ u16_to_be (of_nat (length data)) @ data) = Some (addr, data)"
    if "length data \<le> 65535"
  proof -
    let ?s = "?a @ u16_to_be (of_nat (length data)) @ data"
    have d: "decode_udp_addr ?s = Some (addr, length ?a)"
      using decode_udp_addr_encode [OF assms(1,2)] by (simp add: u16_to_be_def)
    have n: "?s ! length ?a = u16_to_be (of_nat (length data)) ! 0"
      "?s ! (length ?a + 1) = u16_to_be (of_nat (length data)) ! Suc 0"
      by (simp_all add: nth_append)
    have "?a \<noteq> []" by (simp add: encode_addr_def u16_to_be_def)
    then show ?thesis
      unfolding decode_udp_packet_def d option.case prod.case n port_at Let_def using that by simp
  qed
  show ?thesis
    using decode_socks5_encode [OF assms(1,2)] fits assms(3) by (cases data) (auto simp: encode_udp_packet_def Let_def)
qed

theorem udp_packet_roundtrip_witness:
  "decode_socks5_udp (encode_socks5_udp [1, 2, 3] (V4 [9, 9, 9, 9], 53)) = Some ((V4 [9, 9, 9, 9], 53), [1, 2, 3]) \<and>
    (case encode_udp_packet [1, 2, 3] (V4 [9, 9, 9, 9], 53) 16383 of
       Inl _ \<Rightarrow> 16383 < length (encode_addr (V4 [9, 9, 9, 9], 53)) + 2 + length [1, 2, 3 :: u8]
     | Inr packet \<Rightarrow> ([1, 2, 3 :: u8] = [] \<or> length packet \<le> 16383) \<and>
         decode_udp_packet packet = Some ((V4 [9, 9, 9, 9], 53), [1, 2, 3]))"
  by (rule udp_packet_roundtrip) (simp_all add: ip_ok_def)

section \<open>Destination policy\<close>

definition v4_blocked :: "u8 list \<Rightarrow> bool" where
  "v4_blocked o4 \<longleftrightarrow>
     (let a = o4 ! 0; b = o4 ! 1 in
      a = 100 \<and> b AND 0xC0 = 0x40 \<or>
      (a = 10 \<or> a = 172 \<and> 16 \<le> b \<and> b \<le> 31 \<or> a = 192 \<and> b = 168) \<or>
      a = 127 \<or> a = 169 \<and> b = 254 \<or> 224 \<le> a \<and> a \<le> 239 \<or> o4 = [0, 0, 0, 0] \<or> o4 = [255, 255, 255, 255] \<or>
      240 \<le> a)"

definition v6_blocked :: "u16 list \<Rightarrow> bool" where
  "v6_blocked g \<longleftrightarrow>
     g = [0, 0, 0, 0, 0, 0, 0, 1] \<or> g ! 0 AND 0xFFC0 = 0xFE80 \<or> g ! 0 AND 0xFE00 = 0xFC00 \<or>
     g ! 0 AND 0xFF00 = 0xFF00 \<or> g = [0, 0, 0, 0, 0, 0, 0, 0]"

definition is_blocked_destination :: "socket_addr \<Rightarrow> bool" where
  "is_blocked_destination addr =
     (case fst addr of
        V4 ip \<Rightarrow> v4_blocked ip
      | V6 ip \<Rightarrow> (case to_ipv4_mapped ip of Some v4 \<Rightarrow> v4_blocked v4 | None \<Rightarrow> v6_blocked ip))"

definition is_blocked_camouflage_ip :: "ip_addr \<Rightarrow> bool" where
  "is_blocked_camouflage_ip ip =
     (case ip of
        V4 a \<Rightarrow> v4_blocked a
      | V6 g \<Rightarrow> (case to_ipv4_mapped g of Some v4 \<Rightarrow> v4_blocked v4 | None \<Rightarrow> v6_blocked g))"

text \<open>\<^verbatim>\<open>resolve_remote_target\<close>: the allowed addresses in the order of the resolver.\<close>

definition resolve_remote_target ::
  "(bytes \<Rightarrow> u16 \<Rightarrow> socket_addr list option) \<Rightarrow> target \<Rightarrow> proto_error + socket_addr list" where
  "resolve_remote_target resolve t =
     (let check = (\<lambda>addr. if is_blocked_destination addr then Inl (ProtoBail ''blocked destination'') else Inr [addr]) in
      case tg_host t of
        Ipv4 ip \<Rightarrow> check (V4 ip, tg_port t)
      | Ipv6 ip \<Rightarrow> check (V6 ip, tg_port t)
      | Domain d \<Rightarrow>
          (case resolve d (tg_port t) of
             None \<Rightarrow> Inl ProtoIo
           | Some resolved \<Rightarrow>
               let allowed = filter (\<lambda>a. \<not> is_blocked_destination a) resolved in
               if allowed = [] then Inl (ProtoBail ''unable to resolve target host'') else Inr allowed))"

definition resolve_allowed_camouflage ::
  "(bytes \<Rightarrow> u16 \<Rightarrow> socket_addr list option) \<Rightarrow> bytes \<Rightarrow> u16 \<Rightarrow> proto_error + socket_addr" where
  "resolve_allowed_camouflage resolve h port =
     (if port = 0 then Inl (ProtoBail ''invalid camouflage port 0'')
      else case resolve h port of
        None \<Rightarrow> Inl ProtoIo
      | Some resolved \<Rightarrow>
          (case find (\<lambda>a. \<not> is_blocked_camouflage_ip (fst a)) resolved of
             None \<Rightarrow> Inl (ProtoBail ''unable to resolve camouflage host'')
           | Some a \<Rightarrow> Inr a))"

text \<open>The reference: membership in a list of address prefixes, octet by octet; the last, partial octet is
  compared by its leading bits.\<close>

fun in_cidr :: "bytes \<Rightarrow> bytes \<times> nat \<Rightarrow> bool" where
  "in_cidr (a # as) (b # bs, n) =
     (if n < 8 then unat a div 2 ^ (8 - n) = unat b div 2 ^ (8 - n) else a = b \<and> in_cidr as (bs, n - 8))"
| "in_cidr as ([], n) = True"
| "in_cidr [] (b # bs, n) = False"

definition BLOCKED_V4 :: "(bytes \<times> nat) list" where
  "BLOCKED_V4 =
     [([100, 64, 0, 0], 10), ([10, 0, 0, 0], 8), ([172, 16, 0, 0], 12), ([192, 168, 0, 0], 16), ([127, 0, 0, 0], 8),
      ([169, 254, 0, 0], 16), ([224, 0, 0, 0], 4), ([0, 0, 0, 0], 32), ([240, 0, 0, 0], 4)]"

definition BLOCKED_V6 :: "(bytes \<times> nat) list" where
  "BLOCKED_V6 =
     [(replicate 15 0 @ [1], 128), ([0xFE, 0x80] @ replicate 14 0, 10), ([0xFC] @ replicate 15 0, 7),
      ([0xFF] @ replicate 15 0, 8), (replicate 16 0, 128)]"

definition blocked_ref :: "ip_addr \<Rightarrow> bool" where
  "blocked_ref ip \<longleftrightarrow>
     (case ip of
        V4 a \<Rightarrow> list_ex (in_cidr a) BLOCKED_V4
      | V6 g \<Rightarrow> (case to_ipv4_mapped g of
                   Some a \<Rightarrow> list_ex (in_cidr a) BLOCKED_V4
                 | None \<Rightarrow> list_ex (in_cidr (ip_octets ip)) BLOCKED_V6))"

lemma drop_bit_eq_iff: "drop_bit n (a :: u8) = drop_bit n b \<longleftrightarrow> a AND NOT (mask n) = b AND NOT (mask n)"
proof
  assume e: "drop_bit n a = drop_bit n b"
  have "bit a k = bit b k" if "n \<le> k" for k
    using arg_cong [OF e, of "\<lambda>w. bit w (k - n)"] that by (simp add: bit_simps)
  then show "a AND NOT (mask n) = b AND NOT (mask n)"
    by (intro bit_word_eqI) (auto simp: bit_simps)
next
  assume e: "a AND NOT (mask n) = b AND NOT (mask n)"
  have "bit a (n + k) = bit b (n + k)" for k
    using arg_cong [OF e, of "\<lambda>w. bit w (n + k)"] by (auto simp: bit_simps dest: bit_imp_le_length)
  then show "drop_bit n a = drop_bit n b"
    by (intro bit_word_eqI) (auto simp: bit_simps)
qed

lemma unat_drop_bit8: "unat (drop_bit n (b :: u8)) = unat b div 2 ^ n"
  unfolding unat_drop_bit_eq by (rule drop_bit_eq_div)

lemma mask_ranges:
  "(b :: u8) AND 0xC0 = 0x40 \<longleftrightarrow> unat b div 64 = 1" "b AND 0xC0 = 0x80 \<longleftrightarrow> unat b div 64 = 2"
  "b AND 0xFE = 0xFC \<longleftrightarrow> unat b div 2 = 126"
proof -
  have m: "NOT (mask 6) = (0xC0 :: u8)" "NOT (mask 1) = (0xFE :: u8)" by code_simp+
  have d: "b AND NOT (mask n) = c AND NOT (mask n) \<longleftrightarrow> unat b div 2 ^ n = unat c div 2 ^ n" for n and c :: u8
    by (metis drop_bit_eq_iff unat_drop_bit8 word_unat_eq_iff)
  show "b AND 0xC0 = 0x40 \<longleftrightarrow> unat b div 64 = 1" "b AND 0xC0 = 0x80 \<longleftrightarrow> unat b div 64 = 2"
    "b AND 0xFE = 0xFC \<longleftrightarrow> unat b div 2 = 126"
    using d [of 6 "0x40"] d [of 6 "0x80"] d [of 1 "0xFC"] unfolding m by simp_all
qed

lemma prefix_ranges:
  "unat (b :: u8) div 64 = 1 \<longleftrightarrow> 64 \<le> b \<and> b \<le> 127" "unat b div 16 = 1 \<longleftrightarrow> 16 \<le> b \<and> b \<le> 31"
  "unat b div 16 = 14 \<longleftrightarrow> 224 \<le> b \<and> b \<le> 239" "unat b div 16 = 15 \<longleftrightarrow> 240 \<le> b"
  "unat b div 64 = 2 \<longleftrightarrow> 128 \<le> b \<and> b \<le> 191" "unat b div 2 = 126 \<longleftrightarrow> 252 \<le> b \<and> b \<le> 253"
proof -
  have "unat b < 256" using unsigned_less [of b, where ?'a = nat] by simp
  then show "unat (b :: u8) div 64 = 1 \<longleftrightarrow> 64 \<le> b \<and> b \<le> 127" "unat b div 16 = 1 \<longleftrightarrow> 16 \<le> b \<and> b \<le> 31"
    "unat b div 16 = 14 \<longleftrightarrow> 224 \<le> b \<and> b \<le> 239" "unat b div 16 = 15 \<longleftrightarrow> 240 \<le> b"
    "unat b div 64 = 2 \<longleftrightarrow> 128 \<le> b \<and> b \<le> 191" "unat b div 2 = 126 \<longleftrightarrow> 252 \<le> b \<and> b \<le> 253"
    unfolding word_le_nat_alt by (simp_all, linarith+)
qed

lemma octet_small: "unat (x :: u8) div 256 = 0"
  using unsigned_less [of x, where ?'a = nat] by simp

lemma cidr_v4:
  "in_cidr [a, b, c, d] ([100, 64, 0, 0], 10) \<longleftrightarrow> a = 100 \<and> b AND 0xC0 = 0x40"
  "in_cidr [a, b, c, d] ([10, 0, 0, 0], 8) \<longleftrightarrow> a = 10"
  "in_cidr [a, b, c, d] ([172, 16, 0, 0], 12) \<longleftrightarrow> a = 172 \<and> 16 \<le> b \<and> b \<le> 31"
  "in_cidr [a, b, c, d] ([192, 168, 0, 0], 16) \<longleftrightarrow> a = 192 \<and> b = 168"
  "in_cidr [a, b, c, d] ([127, 0, 0, 0], 8) \<longleftrightarrow> a = 127"
  "in_cidr [a, b, c, d] ([169, 254, 0, 0], 16) \<longleftrightarrow> a = 169 \<and> b = 254"
  "in_cidr [a, b, c, d] ([224, 0, 0, 0], 4) \<longleftrightarrow> 224 \<le> a \<and> a \<le> 239"
  "in_cidr [a, b, c, d] ([0, 0, 0, 0], 32) \<longleftrightarrow> [a, b, c, d] = [0, 0, 0, 0]"
  "in_cidr [a, b, c, d] ([240, 0, 0, 0], 4) \<longleftrightarrow> 240 \<le> a"
  by (simp_all add: octet_small prefix_ranges [simplified] mask_ranges [simplified])

lemma v4_blocked_ref:
  assumes "length a = 4"
  shows "v4_blocked a \<longleftrightarrow> list_ex (in_cidr a) BLOCKED_V4"
proof -
  obtain a0 a1 a2 a3 where a: "a = [a0, a1, a2, a3]" using assms by (auto simp: numeral_eq_Suc length_Suc_conv)
  have "a = [255, 255, 255, 255] \<Longrightarrow> 240 \<le> a0" by (simp add: a)
  then show ?thesis
    unfolding BLOCKED_V4_def list_ex_Cons_iff list_ex_Nil_iff v4_blocked_def Let_def unfolding a cidr_v4 by auto
qed

lemma u16_meet: "u16_from_be a b AND u16_from_be c d = u16_from_be (a AND c) (b AND d)"
  unfolding u16_from_be_def by (rule bit_word_eqI) (auto simp: bit_simps dest: bit_imp_le_length)

lemma u16_from_be_eq: "u16_from_be a b = u16_from_be c d \<longleftrightarrow> a = c \<and> b = d"
  by (metis u16_from_be_hi u16_from_be_lo)

lemma masked_segment:
  "u16_from_be a b AND 0xFFC0 = 0xFE80 \<longleftrightarrow> a = 0xFE \<and> b AND 0xC0 = 0x80"
  "u16_from_be a b AND 0xFE00 = 0xFC00 \<longleftrightarrow> a AND 0xFE = 0xFC"
  "u16_from_be a b AND 0xFF00 = 0xFF00 \<longleftrightarrow> a = 0xFF"
proof -
  have k: "0xFFC0 = u16_from_be 0xFF 0xC0" "0xFE80 = u16_from_be 0xFE 0x80" "0xFE00 = u16_from_be 0xFE 0"
    "0xFC00 = u16_from_be 0xFC 0" "0xFF00 = u16_from_be 0xFF 0" by code_simp+
  have f: "x AND 0xFF = x" for x :: u8
    by (rule bit_word_eqI) (auto simp: bit_simps less_Suc_eq numeral_eq_Suc)
  show "u16_from_be a b AND 0xFFC0 = 0xFE80 \<longleftrightarrow> a = 0xFE \<and> b AND 0xC0 = 0x80"
    "u16_from_be a b AND 0xFE00 = 0xFC00 \<longleftrightarrow> a AND 0xFE = 0xFC"
    "u16_from_be a b AND 0xFF00 = 0xFF00 \<longleftrightarrow> a = 0xFF"
    unfolding k u16_meet u16_from_be_eq by (simp_all add: f)
qed

lemma cidr_v6:
  assumes "length r = 14"
  shows "in_cidr (a # b # r) ([0xFE, 0x80] @ replicate 14 0, 10) \<longleftrightarrow> u16_from_be a b AND 0xFFC0 = 0xFE80"
    "in_cidr (a # b # r) ([0xFC] @ replicate 15 0, 7) \<longleftrightarrow> u16_from_be a b AND 0xFE00 = 0xFC00"
    "in_cidr (a # b # r) ([0xFF] @ replicate 15 0, 8) \<longleftrightarrow> u16_from_be a b AND 0xFF00 = 0xFF00"
proof -
  obtain c r' where r: "r = c # r'" using assms by (cases r) auto
  show "in_cidr (a # b # r) ([0xFE, 0x80] @ replicate 14 0, 10) \<longleftrightarrow> u16_from_be a b AND 0xFFC0 = 0xFE80"
    "in_cidr (a # b # r) ([0xFC] @ replicate 15 0, 7) \<longleftrightarrow> u16_from_be a b AND 0xFE00 = 0xFC00"
    "in_cidr (a # b # r) ([0xFF] @ replicate 15 0, 8) \<longleftrightarrow> u16_from_be a b AND 0xFF00 = 0xFF00"
    unfolding masked_segment mask_ranges prefix_ranges
    by (simp_all add: r octet_small prefix_ranges [simplified] replicate_Suc [of 14, simplified])
qed

lemma cidr_whole: "length as = length bs \<Longrightarrow> in_cidr as (bs, 8 * length bs) \<longleftrightarrow> as = bs"
  by (induction as bs rule: list_induct2) auto

lemma v6_blocked_ref:
  assumes "length g = 8"
  shows "v6_blocked g \<longleftrightarrow> list_ex (in_cidr (ip_octets (V6 g))) BLOCKED_V6"
proof -
  let ?o = "concat (map u16_to_be g)"
  obtain g0 r where g: "g = g0 # r" using assms by (cases g) auto
  obtain a b where ab: "u16_to_be g0 = [a, b]" "g0 = u16_from_be a b" by (metis u16_from_to_be u16_to_be_def)
  have o: "?o = a # b # concat (map u16_to_be r)" "length (concat (map u16_to_be r)) = 14" using assms by (simp_all add: g ab(1))
  have inj: "concat (map u16_to_be g) = concat (map u16_to_be h) \<longleftrightarrow> g = h" for h by (metis octets_v6)
  have c: "concat (map u16_to_be [0, 0, 0, 0, 0, 0, 0, 1]) = replicate 15 0 @ [1]"
    "concat (map u16_to_be [0, 0, 0, 0, 0, 0, 0, 0]) = replicate 16 0" by code_simp+
  have w: "in_cidr ?o (replicate 15 0 @ [1], 128) \<longleftrightarrow> g = [0, 0, 0, 0, 0, 0, 0, 1]"
    "in_cidr ?o (replicate 16 0, 128) \<longleftrightarrow> g = [0, 0, 0, 0, 0, 0, 0, 0]"
    using cidr_whole [of ?o "replicate 15 0 @ [1]"] cidr_whole [of ?o "replicate 16 0"] assms
    by (simp_all add: inj [symmetric] c del: concat.simps list.map)
  show ?thesis
    unfolding BLOCKED_V6_def list_ex_Cons_iff list_ex_Nil_iff v6_blocked_def ip_octets_def ip_addr.case w
    unfolding o(1) cidr_v6 [OF o(2)] by (auto simp: g ab)
qed

text \<open>C36: The destination filter is the list of special-purpose prefixes: an address is blocked exactly
  if its leading bits match one of the nine IPv4 prefixes or the five IPv6 prefixes, and an IPv4-mapped
  IPv6 address is judged as the IPv4 address it embeds. The filter of camouflage addresses decides the
  same set.\<close>

theorem blocked_is_prefix_list:
  assumes "ip_ok ip"
  shows "(is_blocked_destination (ip, port) \<longleftrightarrow> blocked_ref ip) \<and> (is_blocked_camouflage_ip ip \<longleftrightarrow> blocked_ref ip)"
  using assms v4_blocked_ref v6_blocked_ref
  by (auto simp: is_blocked_destination_def is_blocked_camouflage_ip_def blocked_ref_def ip_ok_def to_ipv4_mapped_def
      split: ip_addr.splits option.splits if_splits)

theorem blocked_is_prefix_list_witness:
  "(is_blocked_destination (V4 [172, 20, 1, 1], 80) \<longleftrightarrow> blocked_ref (V4 [172, 20, 1, 1])) \<and>
   (is_blocked_camouflage_ip (V4 [172, 20, 1, 1]) \<longleftrightarrow> blocked_ref (V4 [172, 20, 1, 1])) \<and> blocked_ref (V4 [172, 20, 1, 1])"
  using blocked_is_prefix_list [of "V4 [172, 20, 1, 1]" 80]
  by (simp add: ip_ok_def blocked_ref_def BLOCKED_V4_def)

text \<open>C37: A resolved destination is never empty and never blocked: on success every address the outbound
  side will dial passes the filter, the addresses are those of the resolver in its order, and an address
  host is dialled only as itself. The camouflage side picks the first allowed address.\<close>

theorem resolved_targets_allowed:
  "(case resolve_remote_target resolve t of Inl _ \<Rightarrow> True
    | Inr addrs \<Rightarrow> addrs \<noteq> [] \<and> list_all (\<lambda>a. \<not> is_blocked_destination a) addrs \<and>
        (case tg_host t of
           Domain d \<Rightarrow> \<exists>rs. resolve d (tg_port t) = Some rs \<and> addrs = filter (\<lambda>a. \<not> is_blocked_destination a) rs
         | Ipv4 ip \<Rightarrow> addrs = [(V4 ip, tg_port t)]
         | Ipv6 ip \<Rightarrow> addrs = [(V6 ip, tg_port t)])) \<and>
   (case resolve_allowed_camouflage resolve h port of Inl _ \<Rightarrow> True
    | Inr a \<Rightarrow> port \<noteq> 0 \<and> \<not> is_blocked_camouflage_ip (fst a) \<and>
        (\<exists>skipped rest. resolve h port = Some (skipped @ a # rest) \<and>
           list_all (\<lambda>b. is_blocked_camouflage_ip (fst b)) skipped))"
proof -
  have first: "\<not> is_blocked_camouflage_ip (fst a) \<and>
      (\<exists>skipped rest. xs = skipped @ a # rest \<and> list_all (\<lambda>b. is_blocked_camouflage_ip (fst b)) skipped)"
    if f: "find (\<lambda>a. \<not> is_blocked_camouflage_ip (fst a)) xs = Some a" for xs :: "socket_addr list" and a
  proof -
    obtain i where i: "i < length xs" "a = xs ! i" "\<forall>j < i. is_blocked_camouflage_ip (fst (xs ! j))"
      "\<not> is_blocked_camouflage_ip (fst a)" using f unfolding find_Some_iff by metis
    have "xs = take i xs @ a # drop (Suc i) xs" unfolding i(2) by (rule id_take_nth_drop [OF i(1)])
    moreover have "list_all (\<lambda>b. is_blocked_camouflage_ip (fst b)) (take i xs)" using i by (simp add: list_all_length)
    ultimately show ?thesis using i(4) by blast
  qed
  have "case resolve_remote_target resolve t of Inl _ \<Rightarrow> True
    | Inr addrs \<Rightarrow> addrs \<noteq> [] \<and> list_all (\<lambda>a. \<not> is_blocked_destination a) addrs \<and>
        (case tg_host t of
           Domain d \<Rightarrow> \<exists>rs. resolve d (tg_port t) = Some rs \<and> addrs = filter (\<lambda>a. \<not> is_blocked_destination a) rs
         | Ipv4 ip \<Rightarrow> addrs = [(V4 ip, tg_port t)]
         | Ipv6 ip \<Rightarrow> addrs = [(V6 ip, tg_port t)])"
    by (auto simp: resolve_remote_target_def Let_def list_all_iff split: host.splits option.splits)
  moreover have "case resolve_allowed_camouflage resolve h port of Inl _ \<Rightarrow> True
    | Inr a \<Rightarrow> port \<noteq> 0 \<and> \<not> is_blocked_camouflage_ip (fst a) \<and>
        (\<exists>skipped rest. resolve h port = Some (skipped @ a # rest) \<and>
           list_all (\<lambda>b. is_blocked_camouflage_ip (fst b)) skipped)"
    by (auto simp: resolve_allowed_camouflage_def split: option.splits dest!: first)
  ultimately show ?thesis by blast
qed

end
