(* ===== verification/Inbound.thy ===== *)
theory Inbound
  imports Target
begin

text \<open>
  The local proxy protocols: SOCKS5 on both sides (\<^verbatim>\<open>proto/socks5.rs\<close>) and HTTP CONNECT
  (\<^verbatim>\<open>proto/http.rs\<close>), with the request types of \<^verbatim>\<open>proto/inbound.rs\<close>. A connection is the list of bytes
  the peer will send before it closes; every operation returns its result, what it wrote and what it
  left unread. The timeout around the handshakes and failing writes end the task and are not modelled.
\<close>

section \<open>SOCKS5\<close>

definition SOCKS_VERSION :: u8 where "SOCKS_VERSION = 0x05"
definition METHOD_NO_AUTH :: u8 where "METHOD_NO_AUTH = 0x00"
definition METHOD_NO_ACCEPTABLE :: u8 where "METHOD_NO_ACCEPTABLE = 0xFF"
definition METHOD_USER_PASS :: u8 where "METHOD_USER_PASS = 0x02"
definition CMD_CONNECT :: u8 where "CMD_CONNECT = 0x01"
definition CMD_UDP_ASSOCIATE :: u8 where "CMD_UDP_ASSOCIATE = 0x03"
definition REP_SUCCEEDED :: u8 where "REP_SUCCEEDED = 0x00"
definition REP_COMMAND_NOT_SUPPORTED :: u8 where "REP_COMMAND_NOT_SUPPORTED = 0x07"

lemmas socks_consts = SOCKS_VERSION_def METHOD_NO_AUTH_def METHOD_NO_ACCEPTABLE_def METHOD_USER_PASS_def
  CMD_CONNECT_def CMD_UDP_ASSOCIATE_def REP_SUCCEEDED_def REP_COMMAND_NOT_SUPPORTED_def

datatype inbound_request = InConnect target | InUdpAssociate target

datatype socks5_target = SocksIp socket_addr | SocksDomain bytes u16

type_synonym 'a io = "proto_error + ('a \<times> bytes)"

definition recv_exact :: "nat \<Rightarrow> bytes \<Rightarrow> bytes io" where
  "recv_exact n inp = (if length inp < n then Inl ProtoIo else Inr (take n inp, drop n inp))"

definition iobind :: "'a io \<Rightarrow> ('a \<Rightarrow> bytes \<Rightarrow> 'b io) \<Rightarrow> 'b io" where
  "iobind m f = (case m of Inl e \<Rightarrow> Inl e | Inr (x, inp) \<Rightarrow> f x inp)"

lemma iobind_simps [simp]: "iobind (Inl e) f = Inl e" "iobind (Inr (x, inp)) f = f x inp"
  by (simp_all add: iobind_def)

lemma recv_exact_append [simp]: "length a = n \<Longrightarrow> recv_exact n (a @ b) = Inr (a, b)"
  by (simp add: recv_exact_def)

definition socks_reply :: "u8 \<Rightarrow> bytes" where
  "socks_reply code = [SOCKS_VERSION, code, 0x00, 0x01, 0, 0, 0, 0, 0, 0]"

definition connect_success_reply :: bytes where "connect_success_reply = socks_reply REP_SUCCEEDED"

definition socks_udp_reply :: "socket_addr \<Rightarrow> bytes" where
  "socks_udp_reply addr = [SOCKS_VERSION, REP_SUCCEEDED, 0x00] @ encode_addr addr"

definition read_address :: "u8 \<Rightarrow> bytes \<Rightarrow> (host \<times> u16) io" where
  "read_address atyp inp =
     (if atyp = 0x01
      then iobind (recv_exact 6 inp) (\<lambda>d rest. Inr ((Ipv4 (take 4 d), u16_from_be (d ! 4) (d ! 5)), rest))
      else if atyp = 0x03
      then iobind (recv_exact 1 inp) (\<lambda>l rest1.
             let domain_len = unat (l ! 0) in
             if domain_len = 0 \<or> domain_len > 253 then Inl (ProtoBail ''invalid domain length'')
             else iobind (recv_exact domain_len rest1) (\<lambda>domain rest2.
                  iobind (recv_exact 2 rest2) (\<lambda>p rest3.
                    if \<not> utf8_valid domain then Inl ProtoUtf8
                    else Inr ((Domain domain, u16_from_be (p ! 0) (p ! 1)), rest3))))
      else if atyp = 0x04
      then iobind (recv_exact 18 inp) (\<lambda>d rest.
             Inr ((Ipv6 (octets_to_v6 (take 16 d)), u16_from_be (d ! 16) (d ! 17)), rest))
      else Inl (ProtoBail ''unknown socks5 atyp''))"

text \<open>The inbound handshake: the result and everything written to the client. \<^verbatim>\<open>udp_bind\<close> is whether
  the local UDP socket could be bound.\<close>

definition socks5_request :: "bool \<Rightarrow> bytes \<Rightarrow> inbound_request io \<times> bytes" where
  "socks5_request udp_bind inp =
     (case recv_exact 4 inp of
        Inl e \<Rightarrow> (Inl e, [])
      | Inr (req, rest) \<Rightarrow>
          if req ! 0 \<noteq> SOCKS_VERSION \<or> req ! 2 \<noteq> 0x00 then (Inl (ProtoBail ''invalid socks5 request header''), [])
          else case read_address (req ! 3) rest of
            Inl e \<Rightarrow> (Inl e, [])
          | Inr ((h, port), rest2) \<Rightarrow>
              if req ! 1 = CMD_CONNECT
              then (Inr (InConnect \<lparr>tg_host = h, tg_port = port, tg_network = Tcp\<rparr>, rest2), [])
              else if req ! 1 = CMD_UDP_ASSOCIATE
              then (if udp_bind
                    then Inr (InUdpAssociate \<lparr>tg_host = h, tg_port = port, tg_network = Udp\<rparr>, rest2)
                    else Inl ProtoIo, [])
              else (Inl (ProtoBail ''unsupported socks5 cmd''), socks_reply REP_COMMAND_NOT_SUPPORTED))"

definition socks5_inbound :: "bool \<Rightarrow> bytes \<Rightarrow> inbound_request io \<times> bytes" where
  "socks5_inbound udp_bind inp =
     (case recv_exact 2 inp of
        Inl e \<Rightarrow> (Inl e, [])
      | Inr (head, rest) \<Rightarrow>
          if head ! 0 \<noteq> SOCKS_VERSION then (Inl (ProtoBail ''unsupported socks version''), [])
          else
            let nmethods = unat (head ! 1) in
            if nmethods = 0 \<or> nmethods > 16 then (Inl (ProtoBail ''invalid socks5 method count''), [])
            else case recv_exact nmethods rest of
              Inl e \<Rightarrow> (Inl e, [])
            | Inr (methods, rest2) \<Rightarrow>
                if METHOD_NO_AUTH \<notin> set methods
                then (Inl (ProtoBail ''socks5 client did not offer no-auth method''), [SOCKS_VERSION, METHOD_NO_ACCEPTABLE])
                else let (r, out) = socks5_request udp_bind rest2 in (r, [SOCKS_VERSION, METHOD_NO_AUTH] @ out))"

text \<open>The outbound side, against an upstream proxy.\<close>

definition socks5_handshake :: "(bytes \<times> bytes) option \<Rightarrow> bytes \<Rightarrow> unit io \<times> bytes" where
  "socks5_handshake auth inp =
     (case auth of
        None \<Rightarrow>
          (iobind (recv_exact 2 inp) (\<lambda>resp rest.
             if resp ! 0 \<noteq> SOCKS_VERSION \<or> resp ! 1 \<noteq> METHOD_NO_AUTH
             then Inl (ProtoBail ''socks5 proxy rejected no-auth method'') else Inr ((), rest)),
           [SOCKS_VERSION, 1, METHOD_NO_AUTH])
      | Some (username, password) \<Rightarrow>
          (case recv_exact 2 inp of
             Inl e \<Rightarrow> (Inl e, [SOCKS_VERSION, 1, METHOD_USER_PASS])
           | Inr (resp, rest) \<Rightarrow>
               if resp ! 0 \<noteq> SOCKS_VERSION \<or> resp ! 1 \<noteq> METHOD_USER_PASS
               then (Inl (ProtoBail ''socks5 proxy does not support user/pass auth''), [SOCKS_VERSION, 1, METHOD_USER_PASS])
               else if length username > 255
               then (Inl (ProtoBail ''socks5 username exceeds 255 bytes''), [SOCKS_VERSION, 1, METHOD_USER_PASS])
               else if length password > 255
               then (Inl (ProtoBail ''socks5 password exceeds 255 bytes''), [SOCKS_VERSION, 1, METHOD_USER_PASS])
               else
                 (iobind (recv_exact 2 rest) (\<lambda>auth_resp rest2.
                    if auth_resp ! 1 \<noteq> 0x00 then Inl (ProtoBail ''socks5 user/pass authentication failed'')
                    else Inr ((), rest2)),
                  [SOCKS_VERSION, 1, METHOD_USER_PASS] @
                  [0x01, of_nat (length username)] @ username @ [of_nat (length password)] @ password)))"

datatype socks5_reply_addr = ReplyIp socket_addr | ReplyDomain bytes u16

definition read_socks5_reply_addr :: "bytes \<Rightarrow> socks5_reply_addr io" where
  "read_socks5_reply_addr inp =
     iobind (recv_exact 4 inp) (\<lambda>head rest.
       if head ! 0 \<noteq> SOCKS_VERSION then Inl (ProtoBail ''invalid socks5 reply version'')
       else if head ! 1 \<noteq> REP_SUCCEEDED then Inl (ProtoBail ''socks5 request failed'')
       else if head ! 2 \<noteq> 0x00 then Inl (ProtoBail ''invalid socks5 reply reserved byte'')
       else if head ! 3 = 0x01
       then iobind (recv_exact 6 rest) (\<lambda>d rest2. Inr (ReplyIp (V4 (take 4 d), u16_from_be (d ! 4) (d ! 5)), rest2))
       else if head ! 3 = 0x03
       then iobind (recv_exact 1 rest) (\<lambda>l rest2.
              if unat (l ! 0) = 0 then Inl (ProtoBail ''invalid socks5 reply domain length: 0'')
              else iobind (recv_exact (unat (l ! 0)) rest2) (\<lambda>name rest3.
                   iobind (recv_exact 2 rest3) (\<lambda>p rest4.
                     if \<not> utf8_valid name then Inl ProtoUtf8
                     else Inr (ReplyDomain name (u16_from_be (p ! 0) (p ! 1)), rest4))))
       else if head ! 3 = 0x04
       then iobind (recv_exact 18 rest) (\<lambda>d rest2.
              Inr (ReplyIp (V6 (octets_to_v6 (take 16 d)), u16_from_be (d ! 16) (d ! 17)), rest2))
       else Inl (ProtoBail ''unexpected socks5 reply atyp''))"

definition socks5_connect_request :: "socks5_target \<Rightarrow> proto_error + bytes" where
  "socks5_connect_request t =
     (case t of
        SocksIp addr \<Rightarrow> Inr ([SOCKS_VERSION, CMD_CONNECT, 0x00] @ encode_addr addr)
      | SocksDomain h port \<Rightarrow>
          if length h > 255 then Inl (ProtoBail ''target hostname too long'')
          else Inr ([SOCKS_VERSION, CMD_CONNECT, 0x00, 0x03, of_nat (length h)] @ h @ u16_to_be port))"

definition socks5_send_connect :: "socks5_target \<Rightarrow> bytes \<Rightarrow> unit io \<times> bytes" where
  "socks5_send_connect t inp =
     (case socks5_connect_request t of
        Inl e \<Rightarrow> (Inl e, [])
      | Inr req \<Rightarrow> (iobind (read_socks5_reply_addr inp) (\<lambda>_ rest. Inr ((), rest)), req))"

definition resolve_zero_bind :: "socket_addr option \<Rightarrow> socket_addr \<Rightarrow> proto_error + socket_addr" where
  "resolve_zero_bind peer addr =
     (if fst addr = V4 [0, 0, 0, 0] \<or> fst addr = V6 [0, 0, 0, 0, 0, 0, 0, 0]
      then case peer of None \<Rightarrow> Inl ProtoIo | Some p \<Rightarrow> Inr (fst p, snd addr)
      else Inr addr)"

definition socks5_send_udp_associate ::
  "(bytes \<Rightarrow> u16 \<Rightarrow> socket_addr list option) \<Rightarrow> socket_addr option \<Rightarrow> bytes \<Rightarrow> (proto_error + socket_addr) \<times> bytes" where
  "socks5_send_udp_associate resolve peer inp =
     ((case read_socks5_reply_addr inp of
         Inl e \<Rightarrow> Inl e
       | Inr (reply, _) \<Rightarrow>
           (case (case reply of
                    ReplyIp addr \<Rightarrow> Inr addr
                  | ReplyDomain h port \<Rightarrow>
                      map_sum id hd (resolve_remote_target resolve
                        \<lparr>tg_host = host_from h, tg_port = port, tg_network = Udp\<rparr>)) of
              Inl e \<Rightarrow> Inl e
            | Inr relay \<Rightarrow>
                (case resolve_zero_bind peer relay of
                   Inl e \<Rightarrow> Inl e
                 | Inr addr \<Rightarrow> if snd addr = 0 then Inl (ProtoBail ''socks5 UDP relay returned port 0'') else Inr addr))),
      [SOCKS_VERSION, CMD_UDP_ASSOCIATE, 0x00, 0x01, 0, 0, 0, 0, 0, 0])"

section \<open>Both SOCKS5 sides\<close>

definition socks5_target_ok :: "socks5_target \<Rightarrow> bool" where
  "socks5_target_ok t \<longleftrightarrow>
     (case t of SocksIp addr \<Rightarrow> ip_ok (fst addr) | SocksDomain h _ \<Rightarrow> h \<noteq> [] \<and> length h \<le> 253 \<and> utf8_valid h)"

definition socks5_target_of :: "socks5_target \<Rightarrow> target" where
  "socks5_target_of t =
     (case t of
        SocksIp addr \<Rightarrow>
          \<lparr>tg_host = (case fst addr of V4 a \<Rightarrow> Ipv4 a | V6 g \<Rightarrow> Ipv6 g), tg_port = snd addr, tg_network = Tcp\<rparr>
      | SocksDomain h port \<Rightarrow> \<lparr>tg_host = Domain h, tg_port = port, tg_network = Tcp\<rparr>)"

lemma read_address_v4: "length a = 4 \<Longrightarrow> read_address 0x01 (a @ u16_to_be p @ rest) = Inr ((Ipv4 a, p), rest)"
  using recv_exact_append [of "a @ u16_to_be p" 6 rest]
  by (simp add: read_address_def nth_append u16_to_be_def)

lemma read_address_v6:
  "length g = 8 \<Longrightarrow> read_address 0x04 (concat (map u16_to_be g) @ u16_to_be p @ rest) = Inr ((Ipv6 g, p), rest)"
  using recv_exact_append [of "concat (map u16_to_be g) @ u16_to_be p" 18 rest]
  by (simp add: read_address_def nth_append u16_to_be_def)

lemma read_address_domain:
  assumes "h \<noteq> []" "length h \<le> 253" "utf8_valid h"
  shows "read_address 0x03 (of_nat (length h) # h @ u16_to_be p @ rest) = Inr ((Domain h, p), rest)"
proof -
  have n: "unat (of_nat (length h) :: u8) = length h" using assms(2) by (simp add: unat_of_nat)
  have "recv_exact 1 (of_nat (length h) # h @ u16_to_be p @ rest) = Inr ([of_nat (length h)], h @ u16_to_be p @ rest)"
    by (simp add: recv_exact_def)
  then show ?thesis using assms n by (simp add: read_address_def port_at)
qed



definition host_shape :: "host \<Rightarrow> bool" where
  "host_shape h \<longleftrightarrow>
     (case h of Domain d \<Rightarrow> d \<noteq> [] \<and> utf8_valid d | Ipv4 a \<Rightarrow> length a = 4 | Ipv6 g \<Rightarrow> length g = 8)"

definition unread :: "bytes \<Rightarrow> bytes \<Rightarrow> bool" where
  "unread rest inp \<longleftrightarrow> (\<exists>used. inp = used @ rest)"

lemma unread_trans: "unread c b \<Longrightarrow> unread b a \<Longrightarrow> unread c a"
  by (auto simp: unread_def)

lemma recv_exact_Inr: "recv_exact n inp = Inr (x, rest) \<longleftrightarrow> length x = n \<and> inp = x @ rest"
  by (auto simp: recv_exact_def)

lemma recv_exact_unread: "recv_exact n inp = Inr (x, rest) \<Longrightarrow> unread rest inp"
  by (auto simp: recv_exact_Inr unread_def)

lemma length_octets_to_v6: "length (octets_to_v6 bs) = length bs div 2"
  by (induction bs rule: octets_to_v6.induct) auto

lemma iobind_Inr: "iobind m f = Inr r \<longleftrightarrow> (\<exists>x inp. m = Inr (x, inp) \<and> f x inp = Inr r)"
  by (auto simp: iobind_def split: sum.splits)

lemma read_address_shape:
  assumes "read_address atyp inp = Inr ((h, p), rest)"
  shows "host_shape h" "unread rest inp"
  using assms
  by (auto simp: read_address_def iobind_Inr recv_exact_Inr host_shape_def unread_def length_octets_to_v6 Let_def
      split: if_splits)

lemma socks5_request_outcome:
  assumes "socks5_request udp_bind inp = (r, out)"
  shows "case r of
      Inl e \<Rightarrow> out = [] \<or> out = socks_reply REP_COMMAND_NOT_SUPPORTED
    | Inr (InConnect t, rest) \<Rightarrow> out = [] \<and> unread rest inp \<and> tg_network t = Tcp \<and> host_shape (tg_host t)
    | Inr (InUdpAssociate t, rest) \<Rightarrow> out = [] \<and> unread rest inp \<and> udp_bind \<and> tg_network t = Udp \<and> host_shape (tg_host t)"
proof (cases "recv_exact 4 inp")
  case (Inl e)
  then show ?thesis using assms by (auto simp: socks5_request_def)
next
  case (Inr x)
  obtain req rest where x: "x = (req, rest)" by (cases x)
  note u = recv_exact_unread [OF Inr [unfolded x]]
  show ?thesis
  proof (cases "read_address (req ! 3) rest")
    case (Inl e)
    then show ?thesis using assms Inr x by (auto simp: socks5_request_def split: if_splits)
  next
    case a: (Inr y)
    obtain h p rest2 where y: "y = ((h, p), rest2)" by (metis prod_cases3 surj_pair)
    note f = read_address_shape [OF a [unfolded y]]
    show ?thesis
      using assms Inr x a y f(1) unread_trans [OF f(2) u] by (auto simp: socks5_request_def split: if_splits)
  qed
qed


section \<open>HTTP CONNECT\<close>

definition MAX_REQUEST_LINE :: nat where "MAX_REQUEST_LINE = 8192"
definition MAX_HEADER_BLOCK :: nat where "MAX_HEADER_BLOCK = 32 * 1024"

text \<open>A \<^verbatim>\<open>BufReader\<close>: what is buffered and the chunks the socket will still deliver. An empty chunk is the
  end of the stream.\<close>

type_synonym buf_reader = "bytes \<times> bytes list"

definition fill_buf :: "buf_reader \<Rightarrow> buf_reader" where
  "fill_buf rd = (if fst rd = [] then (case snd rd of [] \<Rightarrow> ([], []) | c # cs \<Rightarrow> (c, cs)) else rd)"

definition pending_bytes :: "buf_reader \<Rightarrow> nat" where
  "pending_bytes rd = length (fst rd) + length (concat (snd rd))"

definition line_take :: "bytes \<Rightarrow> nat" where
  "line_take buf = (if 0x0A \<in> set buf then Suc (length (takeWhile (\<lambda>b. b \<noteq> 0x0A) buf)) else length buf)"

lemma line_take_le: "line_take buf \<le> length buf"
proof (cases "0x0A \<in> set buf")
  case True
  then have "length (takeWhile (\<lambda>b. b \<noteq> 0x0A) buf) < length buf"
    by (metis (full_types) length_takeWhile_le nat_less_le set_takeWhileD takeWhile_eq_all_conv takeWhile_eq_take take_all order_refl)
  then show ?thesis using True by (simp add: line_take_def)
qed (simp add: line_take_def)

lemma line_take_pos: "buf \<noteq> [] \<Longrightarrow> 0 < line_take buf"
  by (simp add: line_take_def)

lemma pending_fill [simp]: "pending_bytes (fill_buf rd) = pending_bytes rd"
  by (auto simp: fill_buf_def pending_bytes_def split: list.splits)

function read_limited_line :: "nat \<Rightarrow> bytes \<Rightarrow> nat \<Rightarrow> buf_reader \<Rightarrow> (proto_error + (bytes \<times> nat)) \<times> buf_reader" where
  "read_limited_line max_len line tot rd =
     (let rd1 = fill_buf rd; buf = fst rd1; n = line_take buf in
      if buf = [] then (Inr (line, tot), rd1)
      else if tot + n > max_len then (Inl (ProtoBail ''http request line too large''), rd1)
      else if \<not> utf8_valid (take n buf) then (Inl ProtoUtf8, rd1)
      else
        let line1 = line @ take n buf; rd2 = (drop n buf, snd rd1) in
        if last line1 = 0x0A then (Inr (line1, tot + n), rd2)
        else read_limited_line max_len line1 (tot + n) rd2)"
  by pat_completeness auto

lemma pending_consume:
  assumes "fst (fill_buf rd) \<noteq> []"
  shows "pending_bytes (drop (line_take (fst (fill_buf rd))) (fst (fill_buf rd)), snd (fill_buf rd)) +
    line_take (fst (fill_buf rd)) = pending_bytes rd"
  using line_take_le [of "fst (fill_buf rd)"] pending_fill [of rd] by (simp add: pending_bytes_def)

termination read_limited_line
proof (relation "measure (\<lambda>(m, l, t, rd). pending_bytes rd)", goal_cases)
  case (2 max_len line tot rd rd1 buf n line1 rd2)
  then show ?case using pending_consume [of rd] line_take_pos [of buf] by simp
qed simp

declare read_limited_line.simps [simp del]

lemma read_limited_line_total:
  "read_limited_line m line tot rd = (Inr (l, t), rd') \<Longrightarrow>
     pending_bytes rd' + t = pending_bytes rd + tot \<and> (t \<le> m \<or> t = tot) \<and> length l + tot = length line + t"
proof (induction m line tot rd rule: read_limited_line.induct)
  case (1 max_len line tot rd)
  let ?buf = "fst (fill_buf rd)"
  let ?n = "line_take ?buf"
  have le: "?n \<le> length ?buf" by (rule line_take_le)
  show ?case
  proof (cases "?buf = [] \<or> tot + ?n > max_len \<or> \<not> utf8_valid (take ?n ?buf)")
    case True
    then show ?thesis using 1(2) by (subst (asm) read_limited_line.simps) (auto simp: Let_def split: if_splits)
  next
    case False
    then show ?thesis
      using 1(2) 1(1) [OF refl refl refl _ _ _ refl refl] pending_consume [of rd] le
      by (subst (asm) read_limited_line.simps) (fastforce simp: Let_def split: if_splits)
  qed
qed

text \<open>The bytes of the Unicode white space character at the head of a valid UTF-8 string.\<close>

definition white_space_len :: "bytes \<Rightarrow> nat" where
  "white_space_len s =
     (if s \<noteq> [] \<and> (0x09 \<le> s ! 0 \<and> s ! 0 \<le> 0x0D \<or> s ! 0 = 0x20) then 1
      else if take 2 s = [0xC2, 0x85] \<or> take 2 s = [0xC2, 0xA0] then 2
      else if take 3 s = [0xE1, 0x9A, 0x80] \<or> take 3 s = [0xE2, 0x81, 0x9F] \<or> take 3 s = [0xE3, 0x80, 0x80] then 3
      else if length s \<ge> 3 \<and> take 2 s = [0xE2, 0x80] \<and>
              (0x80 \<le> s ! 2 \<and> s ! 2 \<le> 0x8A \<or> s ! 2 = 0xA8 \<or> s ! 2 = 0xA9 \<or> s ! 2 = 0xAF) then 3
      else 0)"

function split_whitespace :: "bytes \<Rightarrow> bytes \<Rightarrow> bytes list" where
  "split_whitespace cur s =
     (case s of
        [] \<Rightarrow> if cur = [] then [] else [cur]
      | b # bs \<Rightarrow>
          let w = white_space_len s in
          if w > 0 then (if cur = [] then [] else [cur]) @ split_whitespace [] (drop w s)
          else split_whitespace (cur @ [b]) bs)"
  by pat_completeness auto
termination
  by (relation "measure (\<lambda>(c, s). length s)") auto

declare split_whitespace.simps [simp del]

text \<open>The loop over the header lines ends at a line of at most two bytes or at the end of the stream.\<close>

function skip_headers :: "nat \<Rightarrow> buf_reader \<Rightarrow> (proto_error + unit) \<times> buf_reader" where
  "skip_headers header_block_len rd =
     (case read_limited_line MAX_REQUEST_LINE [] 0 rd of
        (Inl e, rd1) \<Rightarrow> (Inl e, rd1)
      | (Inr (line, n), rd1) \<Rightarrow>
          if n \<le> 2 then (Inr (), rd1)
          else
            let len = header_block_len + length line in
            if len > MAX_HEADER_BLOCK then (Inl (ProtoBail ''http header block too large''), rd1)
            else skip_headers len rd1)"
  by pat_completeness auto
termination
  by (relation "measure (\<lambda>(h, rd). pending_bytes rd)") (auto dest!: read_limited_line_total [OF sym])

declare skip_headers.simps [simp del]

definition parse_connect_target :: "bytes \<Rightarrow> proto_error + (bytes \<times> u16)" where
  "parse_connect_target s =
     (if 0x2F \<in> set s then Inl (ProtoBail ''CONNECT target must be authority-form host:port'')
      else case parse_authority_target s of
        Inl (ProtoBail m) \<Rightarrow>
          Inl (ProtoBail (if m = ''missing port in target'' then ''missing CONNECT port''
                          else if m = ''empty target host'' then ''empty CONNECT host''
                          else if m = ''invalid target port 0'' then ''invalid CONNECT port 0'' else m))
      | r \<Rightarrow> r)"

definition METHOD_NOT_ALLOWED :: bytes where
  "METHOD_NOT_ALLOWED = ascii ''HTTP/1.1 405 Method Not Allowed'' @ [13, 10] @ ascii ''Connection: close'' @ [13, 10, 13, 10]"

text \<open>The handshake: the request, what was written and what the socket will still deliver;
  \<^verbatim>\<open>into_inner\<close> gives up whatever is buffered.\<close>

definition http_inbound :: "buf_reader \<Rightarrow> (proto_error + (inbound_request \<times> bytes list)) \<times> bytes" where
  "http_inbound rd =
     (case read_limited_line MAX_REQUEST_LINE [] 0 rd of
        (Inl e, _) \<Rightarrow> (Inl e, [])
      | (Inr (line, _), rd1) \<Rightarrow>
          let parts = split_whitespace [] line in
          if length parts < 3 then (Inl (ProtoBail ''invalid http request''), [])
          else case skip_headers (length line) rd1 of
            (Inl e, _) \<Rightarrow> (Inl e, [])
          | (Inr _, rd2) \<Rightarrow>
              if parts ! 0 \<noteq> ascii ''CONNECT''
              then (Inl (ProtoBail ''only HTTP CONNECT is supported by this proxy''), METHOD_NOT_ALLOWED)
              else case parse_connect_target (parts ! 1) of
                Inl e \<Rightarrow> (Inl e, [])
              | Inr (h, port) \<Rightarrow>
                  (Inr (InConnect \<lparr>tg_host = host_from h, tg_port = port, tg_network = Tcp\<rparr>, snd rd2), []))"

section \<open>A CONNECT request\<close>

definition graphic :: "u8 \<Rightarrow> bool" where "graphic b \<longleftrightarrow> 0x21 \<le> b \<and> b \<le> 0x7E"

lemma graphic_facts:
  "graphic b \<Longrightarrow> b < 0x80 \<and> b \<noteq> 0x0A \<and> \<not> b \<le> 0x0D \<and> b \<noteq> 0x20 \<and> b \<noteq> 0xC2 \<and> b \<noteq> 0xE1 \<and> b \<noteq> 0xE2 \<and> b \<noteq> 0xE3"
  using order.strict_trans1 [of b "0x7E" "0x80"] order.trans [of "0x21" b "0x0D"] by (auto simp: graphic_def)

lemma white_space_graphic: "graphic b \<Longrightarrow> white_space_len (b # s) = 0"
  using graphic_facts [of b] by (auto simp: white_space_len_def take_Cons')

lemma split_graphic: "\<forall>b \<in> set w. graphic b \<Longrightarrow> split_whitespace cur (w @ s) = split_whitespace (cur @ w) s"
proof (induction w arbitrary: cur)
  case (Cons b w)
  have "split_whitespace cur ((b # w) @ s) = split_whitespace (cur @ [b]) (w @ s)"
    using Cons(2) white_space_graphic [of b "w @ s"] by (subst split_whitespace.simps) simp
  then show ?case using Cons by simp
qed simp

lemma white_space_control: "white_space_len (0x20 # s) = 1" "white_space_len (0x0D # s) = 1" "white_space_len (0x0A # s) = 1"
  by (simp_all add: white_space_len_def)

lemma split_space:
  assumes "b = 0x20 \<or> b = 0x0D \<or> b = 0x0A"
  shows "split_whitespace cur (b # s) = (if cur = [] then [] else [cur]) @ split_whitespace [] s"
proof -
  have "white_space_len (b # s) = 1" using assms white_space_control by metis
  then show ?thesis by (subst split_whitespace.simps) (simp add: Let_def)
qed

definition request_line :: "bytes \<Rightarrow> bytes" where
  "request_line authority = ascii ''CONNECT'' @ 0x20 # authority @ 0x20 # ascii ''HTTP/1.1'' @ [0x0D, 0x0A]"

lemma split_request_line:
  assumes "\<forall>b \<in> set a. graphic b" "a \<noteq> []"
  shows "split_whitespace [] (request_line a) = [ascii ''CONNECT'', a, ascii ''HTTP/1.1'']"
proof -
  have g: "\<forall>b \<in> set (ascii ''CONNECT''). graphic b" "\<forall>b \<in> set (ascii ''HTTP/1.1''). graphic b" by code_simp+
  have n: "ascii ''CONNECT'' \<noteq> []" "ascii ''HTTP/1.1'' \<noteq> []" by code_simp+
  have "split_whitespace [] [] = []" by (subst split_whitespace.simps) simp
  then show ?thesis
    unfolding request_line_def by (simp add: split_graphic g assms split_space n)
qed

lemma line_take_line: "0x0A \<notin> set a \<Longrightarrow> line_take (a @ 0x0A # s) = Suc (length a)"
  by (simp add: line_take_def takeWhile_split)

lemma read_line_buffered:
  assumes "0x0A \<notin> set a" "utf8_valid (a @ [0x0A])" "Suc (length a) \<le> m"
    and "fill_buf rd = (a @ 0x0A # s, cs)"
  shows "read_limited_line m [] 0 rd = (Inr (a @ [0x0A], Suc (length a)), (s, cs))"
  using assms by (subst read_limited_line.simps) (simp add: line_take_line)



end
