(* ===== verification/Session.thy ===== *)
theory Session
  imports Pending Window Net
begin

text \<open>
  The stream multiplexer of \<^verbatim>\<open>crates/session/src/session.rs\<close> with the server side of
  \<^verbatim>\<open>crates/session/src/server.rs\<close>: the table of stream handles and its capacity counter, the
  reservations of inbound streams, the backlogs of \<^verbatim>\<open>pending.rs\<close>, the frame dispatcher
  \<^verbatim>\<open>handle_frame\<close>, opening, accepting and closing streams, and the read loop.

  The state is explicit. The three channels of a stream (data, FIN, SYNACK) and its send credit
  live in an endpoint that is addressed by a number, because they outlive the handle that refers to
  them. The two queues of the writer task are lists of write requests; a sender that waits
  for room in a bounded queue stands at the end of the list. Every operation is one step, except
  the delivery loop of \<^verbatim>\<open>accept_stream\<close>, whose iterations are steps of their own. What the
  code leaves to the schedule or to the random generator is an argument: whether a \<^verbatim>\<open>try_lock\<close>
  finds the lock taken, which tombstone a hash set yields first, and the draws of a sampler.
\<close>

section \<open>State\<close>

definition MAX_PENDING_STREAM_FRAMES :: nat where "MAX_PENDING_STREAM_FRAMES = 4096"
definition MAX_PENDING_STREAM_BYTES :: nat where "MAX_PENDING_STREAM_BYTES = 64 * 1024 * 1024"
definition MAX_PENDING_STREAMS :: nat where "MAX_PENDING_STREAMS = 1024"
definition STREAM_CHANNEL_CAPACITY :: nat where "STREAM_CHANNEL_CAPACITY = 128"
definition MAX_SESSION_REASSEMBLY_BYTES :: nat where "MAX_SESSION_REASSEMBLY_BYTES = 1024 * 1024"
definition WRITE_CHANNEL_CAPACITY :: nat where "WRITE_CHANNEL_CAPACITY = 64"
definition MAX_STREAM_OVERFLOW_BYTES :: nat where "MAX_STREAM_OVERFLOW_BYTES = 32 * 1024 * 1024"
definition NEW_STREAM_CHANNEL_CAPACITY :: nat where "NEW_STREAM_CHANNEL_CAPACITY = 128"

lemmas session_limits = MAX_PENDING_STREAM_FRAMES_def MAX_PENDING_STREAM_BYTES_def
  MAX_PENDING_STREAMS_def STREAM_CHANNEL_CAPACITY_def MAX_SESSION_REASSEMBLY_BYTES_def
  WRITE_CHANNEL_CAPACITY_def MAX_STREAM_OVERFLOW_BYTES_def NEW_STREAM_CHANNEL_CAPACITY_def

datatype flush_behavior = Auto | Immediate
datatype traffic_class = Bulk | Control

record write_request =
  wr_packets :: "bytes list"
  wr_flush :: flush_behavior

text \<open>The receiving ends of a stream: what is queued in each channel and whether its receiver is
  still held by a consumer.\<close>

record endpoint =
  ep_data :: "buffered_payload list"
  ep_data_rx :: bool
  ep_fin :: bool
  ep_fin_rx :: bool
  ep_synack :: "bytes option"
  ep_synack_rx :: bool
  ep_send_credit :: int

text \<open>\<^verbatim>\<open>StreamHandle\<close>: the sending ends, reached through the endpoint's number.\<close>

record stream_handle =
  sh_endpoint :: nat
  sh_synack_tx :: bool
  sh_read_closed :: bool

record session =
  se_streams :: "u32 \<rightharpoonup> stream_handle"
  se_endpoints :: "nat \<Rightarrow> endpoint"
  se_next_endpoint :: nat
  se_capacity :: nat
  se_next_stream_id :: u32
  se_is_client :: bool
  se_max_streams :: nat
  se_post_script_off :: bool
  se_alive :: bool
  se_close_requested :: bool
  se_writer_gone :: bool
  se_pending_inbound :: nat
  se_pending_open :: pending_open_streams
  se_pending_data :: pending_data
  se_pending_fin :: "u32 set"
  se_closing :: "u32 set"
  se_on_new_stream :: "u32 list option"
  se_client_settings :: "bytes option"
  se_buffered :: nat
  se_high_water :: u32
  se_goaway :: u64
  se_windows :: window_state
  se_arrivals :: nat
  se_control :: "write_request list"
  se_bulk :: "write_request list"

definition endpoint_new :: "bool \<Rightarrow> int \<Rightarrow> endpoint" where
  "endpoint_new synack credit = \<lparr>ep_data = [], ep_data_rx = True, ep_fin = False, ep_fin_rx = True,
     ep_synack = None, ep_synack_rx = synack, ep_send_credit = credit\<rparr>"

definition endpoint_gone :: endpoint where
  "endpoint_gone = \<lparr>ep_data = [], ep_data_rx = False, ep_fin = False, ep_fin_rx = False,
     ep_synack = None, ep_synack_rx = False, ep_send_credit = 0\<rparr>"

text \<open>\<^verbatim>\<open>Session::new\<close>. \<^term>\<open>accepts\<close> says whether a callback for inbound streams is installed, as
  \<^verbatim>\<open>ServerSessionHandler::new\<close> does: the queue of \<^verbatim>\<open>accept_stream\<close>.\<close>

definition Session_new :: "bool \<Rightarrow> nat \<Rightarrow> bool \<Rightarrow> bool \<Rightarrow> window_state \<Rightarrow> session" where
  "Session_new is_client max_streams post_script_off accepts windows =
     \<lparr>se_streams = Map.empty, se_endpoints = (\<lambda>_. endpoint_gone), se_next_endpoint = 0,
      se_capacity = 0, se_next_stream_id = (if is_client then 1 else 0), se_is_client = is_client,
      se_max_streams = max_streams, se_post_script_off = post_script_off, se_alive = True,
      se_close_requested = False, se_writer_gone = False, se_pending_inbound = 0,
      se_pending_open = pos_empty, se_pending_data = pd_empty, se_pending_fin = {}, se_closing = {},
      se_on_new_stream = (if accepts then Some [] else None),
      se_client_settings =
        (if is_client
         then (case Frame_encode Frame_cmd_settings of Inl _ \<Rightarrow> None | Inr b \<Rightarrow> Some b)
         else None),
      se_buffered = 0, se_high_water = 0, se_goaway = GOAWAY_NOT_RECEIVED, se_windows = windows,
      se_arrivals = 0, se_control = [], se_bulk = []\<rparr>"

section \<open>The writer's queues\<close>

definition writer_close :: "session \<Rightarrow> session" where
  "writer_close s = s\<lparr>se_close_requested := True\<rparr>"

definition enqueue_request :: "write_request \<Rightarrow> traffic_class \<Rightarrow> session \<Rightarrow> session" where
  "enqueue_request r c s =
     (case c of Control \<Rightarrow> s\<lparr>se_control := se_control s @ [r]\<rparr>
              | Bulk \<Rightarrow> s\<lparr>se_bulk := se_bulk s @ [r]\<rparr>)"

definition queue_of :: "traffic_class \<Rightarrow> session \<Rightarrow> write_request list" where
  "queue_of c s = (case c of Control \<Rightarrow> se_control s | Bulk \<Rightarrow> se_bulk s)"

definition try_write_packets ::
  "bytes list \<Rightarrow> flush_behavior \<Rightarrow> traffic_class \<Rightarrow> session \<Rightarrow> bool \<times> session" where
  "try_write_packets packets fl c s =
     (if se_close_requested s then (False, s)
      else if se_writer_gone s \<or> length (queue_of c s) \<ge> WRITE_CHANNEL_CAPACITY then (False, s)
      else (True, enqueue_request \<lparr>wr_packets = packets, wr_flush = fl\<rparr> c s))"

definition submit_write_packets ::
  "bytes list \<Rightarrow> flush_behavior \<Rightarrow> traffic_class \<Rightarrow> session \<Rightarrow> bool \<times> session" where
  "submit_write_packets packets fl c s =
     (if se_close_requested s then (False, s)
      else if se_writer_gone s then (False, s)
      else (True, enqueue_request \<lparr>wr_packets = packets, wr_flush = fl\<rparr> c s))"

definition write_frame :: "frame \<Rightarrow> traffic_class \<Rightarrow> session \<Rightarrow> bool \<times> session" where
  "write_frame f c s =
     (case Frame_encode f of
        Inl _ \<Rightarrow> (False, s)
      | Inr data \<Rightarrow> submit_write_packets (coalesce_encoded_frames [data] MAX_PAYLOAD_LEN) Immediate c s)"

lemmas writer_defs = writer_close_def enqueue_request_def queue_of_def try_write_packets_def
  submit_write_packets_def write_frame_def

section \<open>The table of streams\<close>

definition set_endpoint :: "nat \<Rightarrow> endpoint \<Rightarrow> session \<Rightarrow> session" where
  "set_endpoint e ep s = s\<lparr>se_endpoints := (se_endpoints s)(e := ep)\<rparr>"

definition handle_orphaned :: "session \<Rightarrow> stream_handle \<Rightarrow> bool" where
  "handle_orphaned s h \<longleftrightarrow>
     (let ep = se_endpoints s (sh_endpoint h) in
      \<not> ep_data_rx ep \<and> \<not> ep_fin_rx ep \<and> (\<not> sh_synack_tx h \<or> \<not> ep_synack_rx ep))"

definition prune_orphaned_streams :: "session \<Rightarrow> session" where
  "prune_orphaned_streams s =
     (let keep = (\<lambda>sid. case se_streams s sid of
                    None \<Rightarrow> None
                  | Some h \<Rightarrow> if handle_orphaned s h then None else Some h);
          counted = {sid \<in> dom (se_streams s). keep sid = None \<and> \<not> sh_read_closed (the (se_streams s sid))}
      in s\<lparr>se_streams := keep, se_capacity := usize_sub (se_capacity s) (card counted)\<rparr>)"

definition register_stream :: "u32 \<Rightarrow> stream_handle \<Rightarrow> session \<Rightarrow> session" where
  "register_stream sid h s =
     s\<lparr>se_streams := (se_streams s)(sid \<mapsto> h), se_capacity := se_capacity s + 1\<rparr>"

definition unregister_stream :: "u32 \<Rightarrow> session \<Rightarrow> session" where
  "unregister_stream sid s =
     (case se_streams s sid of
        None \<Rightarrow> s
      | Some h \<Rightarrow>
          let s1 = s\<lparr>se_streams := (se_streams s)(sid := None)\<rparr> in
          if \<not> sh_read_closed h then s1\<lparr>se_capacity := usize_sub (se_capacity s1) 1\<rparr> else s1)"

definition mark_read_closed :: "u32 \<Rightarrow> session \<Rightarrow> session" where
  "mark_read_closed sid s =
     (case se_streams s sid of
        None \<Rightarrow> s
      | Some h \<Rightarrow>
          if \<not> sh_read_closed h
          then s\<lparr>se_streams := (se_streams s)(sid \<mapsto> h\<lparr>sh_read_closed := True\<rparr>),
                 se_capacity := usize_sub (se_capacity s) 1\<rparr>
          else s)"

definition active_stream_count :: "session \<Rightarrow> nat" where
  "active_stream_count s = se_capacity s"

definition is_idle_timeout_eligible :: "session \<Rightarrow> bool \<times> session" where
  "is_idle_timeout_eligible s =
     (let s1 = prune_orphaned_streams s in
      if active_stream_count s1 > 0 then (False, s1)
      else if se_pending_inbound s1 > 0 then (False, s1)
      else (dom (pos_streams (se_pending_open s1)) = {}, s1))"

lemmas table_defs = set_endpoint_def register_stream_def unregister_stream_def mark_read_closed_def

section \<open>Dropping and storing payloads\<close>

definition drop_payload :: "buffered_payload \<Rightarrow> session \<Rightarrow> session" where
  "drop_payload p s = s\<lparr>se_buffered := bp_drop p (se_buffered s)\<rparr>"

definition drop_payloads :: "buffered_payload list \<Rightarrow> session \<Rightarrow> session" where
  "drop_payloads ps s = fold drop_payload ps s"

definition new_payload :: "bytes \<Rightarrow> session \<Rightarrow> buffered_payload \<times> session" where
  "new_payload data s = (let (p, c) = bp_new data (se_buffered s) in (p, s\<lparr>se_buffered := c\<rparr>))"

text \<open>\<^verbatim>\<open>remove\<close> on the backlog drops the queued payloads, whose destructors credit the counter.\<close>

definition clear_pending_client_stream_state :: "u32 \<Rightarrow> session \<Rightarrow> session" where
  "clear_pending_client_stream_state sid s =
     (let (removed, pd) = pd_remove sid (se_pending_data s);
          s1 = drop_payloads (case removed of None \<Rightarrow> [] | Some ps \<Rightarrow> ps) (s\<lparr>se_pending_data := pd\<rparr>)
      in s1\<lparr>se_pending_fin := se_pending_fin s1 - {sid}\<rparr>)"

definition remove_stream_state :: "u32 \<Rightarrow> session \<Rightarrow> session" where
  "remove_stream_state sid s = clear_pending_client_stream_state sid (unregister_stream sid s)"

text \<open>A full set of tombstones makes room by dropping the one its iterator yields first. Which member
  that is, is the hash set's choice: \<^term>\<open>pick\<close>, if it is a member.\<close>

definition evicted :: "u32 \<Rightarrow> u32 set \<Rightarrow> u32" where
  "evicted pick closing = (if pick \<in> closing then pick else Min closing)"

definition remember_closing_stream :: "u32 \<Rightarrow> u32 \<Rightarrow> session \<Rightarrow> session" where
  "remember_closing_stream pick sid s =
     (let closing = se_closing s;
          closing1 = (if sid \<notin> closing \<and> card closing \<ge> MAX_PENDING_STREAMS
                      then closing - {evicted pick closing} else closing)
      in s\<lparr>se_closing := insert sid closing1\<rparr>)"

definition clear_closing_stream :: "u32 \<Rightarrow> session \<Rightarrow> bool \<times> session" where
  "clear_closing_stream sid s = (sid \<in> se_closing s, s\<lparr>se_closing := se_closing s - {sid}\<rparr>)"

definition finish_closing_stream :: "u32 \<Rightarrow> u32 \<Rightarrow> session \<Rightarrow> session" where
  "finish_closing_stream pick sid s = remove_stream_state sid (remember_closing_stream pick sid s)"

definition store_pending_data :: "u32 \<Rightarrow> buffered_payload \<Rightarrow> session \<Rightarrow> bool \<times> session" where
  "store_pending_data sid p s =
     (let pending = se_pending_data s;
          overflow_limit = (if ws_peer_flow_control (se_windows s) then MAX_STREAM_OVERFLOW_BYTES * 2
                            else MAX_STREAM_OVERFLOW_BYTES) in
      if pd_total pending + bp_len p > MAX_PENDING_STREAM_BYTES then (False, drop_payload p s)
      else if \<not> pd_contains pending sid \<and> pd_len pending \<ge> MAX_PENDING_STREAMS then (False, drop_payload p s)
      else if pd_stream_bytes pending sid + bp_len p > overflow_limit then (False, drop_payload p s)
      else if pd_stream_frames pending sid \<ge> MAX_PENDING_STREAM_FRAMES then (False, drop_payload p s)
      else (True, s\<lparr>se_pending_data := pd_push_back sid p pending\<rparr>))"

definition store_pending_fin :: "u32 \<Rightarrow> session \<Rightarrow> session" where
  "store_pending_fin sid s =
     (if card (se_pending_fin s) \<ge> MAX_PENDING_STREAMS \<and> sid \<notin> se_pending_fin s then s
      else s\<lparr>se_pending_fin := insert sid (se_pending_fin s)\<rparr>)"

definition store_pending_open_data :: "u32 \<Rightarrow> bytes \<Rightarrow> session \<Rightarrow> bool \<times> session" where
  "store_pending_open_data sid data s =
     (let pending = se_pending_open s in
      if \<not> pos_contains pending sid then (False, s)
      else if pos_total pending + length data > MAX_PENDING_STREAM_BYTES then (True, s)
      else if pos_stream_frames pending sid \<ge> MAX_PENDING_STREAM_FRAMES then (True, s)
      else
        let (p, s1) = new_payload data s;
            (stored, po) = pos_push_data sid p (se_pending_open s1)
        in (True, s1\<lparr>se_pending_open := po\<rparr>))"

text \<open>Removing a pre-accept entry drops the payloads it still holds.\<close>

definition drop_pending_open :: "u32 \<Rightarrow> session \<Rightarrow> session" where
  "drop_pending_open sid s =
     drop_payloads (case pos_streams (se_pending_open s) sid of None \<Rightarrow> [] | Some po \<Rightarrow> po_buffered_data po)
       (s\<lparr>se_pending_open := pos_remove sid (se_pending_open s)\<rparr>)"

definition release_inbound_stream_reservation :: "session \<Rightarrow> session" where
  "release_inbound_stream_reservation s =
     (if se_pending_inbound s \<ge> 1 then s\<lparr>se_pending_inbound := se_pending_inbound s - 1\<rparr> else s)"

definition release_pending_open_reservation :: "u32 \<Rightarrow> session \<Rightarrow> bool \<times> session" where
  "release_pending_open_reservation sid s =
     (let (r, po) = pos_release_reservation sid (se_pending_open s)
      in (r = Some True, s\<lparr>se_pending_open := po\<rparr>))"

definition store_pending_open_fin :: "u32 \<Rightarrow> session \<Rightarrow> bool \<times> session" where
  "store_pending_open_fin sid s =
     (let (known, po) = pos_set_buffered_fin sid (se_pending_open s) in
      if \<not> known then (False, s)
      else
        let (released, s1) = release_pending_open_reservation sid (s\<lparr>se_pending_open := po\<rparr>)
        in (True, if released then release_inbound_stream_reservation s1 else s1))"

text \<open>The compare-and-swap loop of \<^verbatim>\<open>try_reserve_inbound_stream\<close> as the atomic update it performs.\<close>

definition try_reserve_inbound_stream :: "session \<Rightarrow> bool \<times> session" where
  "try_reserve_inbound_stream s =
     (if active_stream_count s + se_pending_inbound s \<ge> se_max_streams s then (False, s)
      else (True, s\<lparr>se_pending_inbound := se_pending_inbound s + 1\<rparr>))"

section \<open>Channels\<close>

datatype send_result = SendOk | SendFull | SendClosed

text \<open>\<^verbatim>\<open>data_tx.try_send\<close>: the payload comes back to the caller unless it was queued.\<close>

definition try_send_data :: "nat \<Rightarrow> buffered_payload \<Rightarrow> session \<Rightarrow> send_result \<times> session" where
  "try_send_data e p s =
     (let ep = se_endpoints s e in
      if \<not> ep_data_rx ep then (SendClosed, s)
      else if length (ep_data ep) \<ge> STREAM_CHANNEL_CAPACITY then (SendFull, s)
      else (SendOk, set_endpoint e (ep\<lparr>ep_data := ep_data ep @ [p]\<rparr>) s))"

definition try_send_fin :: "nat \<Rightarrow> session \<Rightarrow> session" where
  "try_send_fin e s =
     (let ep = se_endpoints s e in
      if ep_fin_rx ep then set_endpoint e (ep\<lparr>ep_fin := True\<rparr>) s else s)"

definition send_synack :: "nat \<Rightarrow> bytes \<Rightarrow> session \<Rightarrow> bool \<times> session" where
  "send_synack e msg s =
     (let ep = se_endpoints s e in
      if ep_synack_rx ep then (True, set_endpoint e (ep\<lparr>ep_synack := Some msg\<rparr>) s) else (False, s))"

text \<open>\<^verbatim>\<open>handle.synack_tx.take()\<close>: the endpoint to notify, if the handle still had its sender.\<close>

definition take_synack_tx :: "u32 \<Rightarrow> session \<Rightarrow> nat option \<times> session" where
  "take_synack_tx sid s =
     (case se_streams s sid of
        None \<Rightarrow> (None, s)
      | Some h \<Rightarrow>
          if sh_synack_tx h
          then (Some (sh_endpoint h), s\<lparr>se_streams := (se_streams s)(sid \<mapsto> h\<lparr>sh_synack_tx := False\<rparr>)\<rparr>)
          else (None, s))"

section \<open>Closing streams\<close>

definition force_close :: "session \<Rightarrow> session" where
  "force_close s =
     (if \<not> se_close_requested s then s\<lparr>se_close_requested := True, se_alive := False\<rparr> else s)"

definition shutdown_stream :: "u32 \<Rightarrow> session \<Rightarrow> bool \<times> session" where
  "shutdown_stream sid s = write_frame (Frame_fin sid) Control s"

definition close_stream :: "u32 \<Rightarrow> u32 \<Rightarrow> session \<Rightarrow> bool \<times> session" where
  "close_stream pick sid s = shutdown_stream sid (finish_closing_stream pick sid s)"

definition close_stream_fire_and_forget :: "u32 \<Rightarrow> u32 \<Rightarrow> session \<Rightarrow> session" where
  "close_stream_fire_and_forget pick sid s =
     (let s1 = finish_closing_stream pick sid s in
      case Frame_encode (Frame_fin sid) of
        Inl _ \<Rightarrow> s1
      | Inr packet \<Rightarrow> snd (try_write_packets [packet] Immediate Control s1))"

section \<open>GOAWAY and flow control\<close>

definition note_peer_goaway :: "bytes \<Rightarrow> session \<Rightarrow> session" where
  "note_peer_goaway payload s =
     (if \<not> se_is_client s then s
      else case decode_padding_goaway payload of
             None \<Rightarrow> s
           | Some last_stream_id \<Rightarrow> s\<lparr>se_goaway := min (se_goaway s) (ucast last_stream_id)\<rparr>)"

definition session_peer_never_processed :: "session \<Rightarrow> u32 \<Rightarrow> bool" where
  "session_peer_never_processed s sid = peer_never_processed (se_goaway s) sid"

text \<open>\<^verbatim>\<open>WindowState::send_window_update\<close> and its caller for the connection window: the arithmetic is
  \<^const>\<open>note_conn_received\<close>, whose flag is the answer of the control queue.\<close>

definition send_window_update :: "u32 \<Rightarrow> nat \<Rightarrow> session \<Rightarrow> bool \<times> session" where
  "send_window_update sid inc s = try_write_packets [window_update_packet sid inc] Auto Control s"

definition session_conn_received :: "nat \<Rightarrow> session \<Rightarrow> session" where
  "session_conn_received len s =
     (let (accepted, s1) = (case fst (bump_conn_consumed len (se_windows s)) of
                              None \<Rightarrow> (True, s)
                            | Some conn_total \<Rightarrow> send_window_update 0 conn_total s)
      in s1\<lparr>se_windows := snd (note_conn_received len accepted (se_windows s))\<rparr>)"

text \<open>The gate of \<^verbatim>\<open>write_data\<close> when no other writer runs: \<^const>\<open>None\<close> says that the call is parked
  until a WINDOW\_UPDATE arrives. Its concurrent steps are in \<^verbatim>\<open>Window\<close>.\<close>

definition acquire_credit :: "nat \<Rightarrow> nat \<Rightarrow> session \<Rightarrow> session option" where
  "acquire_credit e len s =
     (let ws = se_windows s; ep = se_endpoints s e in
      if \<not> ws_peer_flow_control ws then Some s
      else if se_close_requested s then Some s
      else if ws_conn_credit ws \<ge> int len \<and> ep_send_credit ep \<ge> int len
      then Some (set_endpoint e (ep\<lparr>ep_send_credit := ep_send_credit ep - int len\<rparr>)
                   (s\<lparr>se_windows := ws\<lparr>ws_conn_credit := ws_conn_credit ws - int len\<rparr>\<rparr>))
      else None)"

definition write_data :: "u32 \<Rightarrow> bytes \<Rightarrow> session \<Rightarrow> (bool \<times> session) option" where
  "write_data sid data s =
     (case (case se_streams s sid of None \<Rightarrow> Some s | Some h \<Rightarrow> acquire_credit (sh_endpoint h) (length data) s) of
        None \<Rightarrow> None
      | Some s1 \<Rightarrow>
          Some (if data = [] then write_frame (Frame_psh sid []) Bulk s1
                else case encode_psh_frames sid data of
                       Inl _ \<Rightarrow> (False, s1)
                     | Inr encoded \<Rightarrow>
                         submit_write_packets (coalesce_encoded_frames encoded MAX_PAYLOAD_LEN) Auto Bulk s1))"

section \<open>Opening streams\<close>

datatype session_error = SessionClosed | StreamIdExhausted | MaxStreamsReached | WriterClosed
  | RejectionNotQueued | SynNotEncoded | UnknownFrameCmd u8 | DrawsExhausted | StreamDisappeared

definition next_stream_id :: "session \<Rightarrow> (session_error + u32) \<times> session" where
  "next_stream_id s =
     (let sid = se_next_stream_id s in
      if sid = 0 \<or> sid = - 1 then (Inl StreamIdExhausted, s\<lparr>se_alive := False\<rparr>)
      else (Inr sid, s\<lparr>se_next_stream_id := sid + 1\<rparr>))"

text \<open>\<^verbatim>\<open>open_stream\<close>: the boolean says whether the open is deferred (the SYN waits for the first
  write, because the client's SETTINGS have not been sent). A refused registration leaves through
  the guard, whose destructor removes nothing that exists.\<close>

definition open_stream :: "session \<Rightarrow> (session_error + u32 \<times> nat \<times> bool) \<times> session" where
  "open_stream s =
     (if \<not> se_alive s \<or> se_close_requested s then (Inl SessionClosed, s)
      else case next_stream_id s of
        (Inl e, s1) \<Rightarrow> (Inl e, s1)
      | (Inr sid, s1) \<Rightarrow>
          (case Frame_encode (Frame_syn sid) of
             Inl _ \<Rightarrow> (Inl SynNotEncoded, s1)
           | Inr syn \<Rightarrow>
               let has_deferred_open = (se_is_client s1 \<and> se_client_settings s1 \<noteq> None);
                   e = se_next_endpoint s1;
                   s2 = set_endpoint e (endpoint_new True (ws_stream_window (se_windows s1)))
                          (s1\<lparr>se_next_endpoint := e + 1\<rparr>);
                   s3 = prune_orphaned_streams s2 in
               if active_stream_count s3 \<ge> se_max_streams s3
               then (Inl MaxStreamsReached, clear_pending_client_stream_state sid
                       (unregister_stream sid (set_endpoint e endpoint_gone s3)))
               else
                 let s4 = register_stream sid \<lparr>sh_endpoint = e, sh_synack_tx = True, sh_read_closed = False\<rparr> s3 in
                 if has_deferred_open then (Inr (sid, e, True), s4)
                 else
                   let (ok, s5) = submit_write_packets [syn] Immediate Control s4 in
                   if ok then (Inr (sid, e, False), s5)
                   else (Inl WriterClosed, writer_close (clear_pending_client_stream_state sid
                           (unregister_stream sid (set_endpoint e endpoint_gone s5))))))"

section \<open>Answers of the read loop\<close>

definition SYNACK_REJECTION_PAYLOAD_LEN :: nat where "SYNACK_REJECTION_PAYLOAD_LEN = 32"

definition rejection_payload :: "string \<Rightarrow> bytes" where
  "rejection_payload reason =
     (let payload = replicate SYNACK_REJECTION_PAYLOAD_LEN (0x20 :: u8);
          n = min (length reason) SYNACK_REJECTION_PAYLOAD_LEN
      in copy_at payload 0 (take n (ascii reason)))"

definition send_synack_rejection :: "u32 \<Rightarrow> string \<Rightarrow> session \<Rightarrow> session_error option \<times> session" where
  "send_synack_rejection sid reason s =
     (case Frame_encode (Frame_new CMD_SYNACK sid (rejection_payload reason)) of
        Inl _ \<Rightarrow> (Some RejectionNotQueued, s)
      | Inr packet \<Rightarrow>
          let (ok, s1) = try_write_packets [packet] Immediate Control s
          in (if ok then None else Some RejectionNotQueued, s1))"

text \<open>\<^verbatim>\<open>emit_h2_server_opening\<close>: the loop over \<^verbatim>\<open>h2_opening_size\<close> ends at the first index without
  a size; there are at most \<^const>\<open>H2_OPENING_MAX_LEN\<close> of them.\<close>

fun opening_packets :: "bool \<Rightarrow> bool \<Rightarrow> nat \<Rightarrow> u64 \<Rightarrow> bytes list" where
  "opening_packets large post_off 0 index = []"
| "opening_packets large post_off (Suc fuel) index =
     (case h2_opening_size large S2C index of
        None \<Rightarrow> []
      | Some sz \<Rightarrow>
          if index = 0
          then (case Frame_encode Frame_cmd_settings of Inl _ \<Rightarrow> [] | Inr b \<Rightarrow> [b])
               @ opening_packets large post_off fuel (index + 1)
          else if post_off then []
          else encode_padding_reply_sized sz # opening_packets large post_off fuel (index + 1))"

definition emit_h2_server_opening :: "bool \<Rightarrow> session \<Rightarrow> session" where
  "emit_h2_server_opening large s =
     (if se_is_client s then s
      else
        let packets = opening_packets large (se_post_script_off s) (unat H2_OPENING_MAX_LEN + 1) 0 in
        if packets = [] then s else snd (submit_write_packets packets Auto Control s))"

section \<open>The frame dispatcher\<close>

text \<open>What one call leaves to its surroundings: whether \<^verbatim>\<open>pending_data.try_lock()\<close> finds the lock
  taken, the tombstone a full set evicts, the draws of the size sampler, and the process-wide
  choice of \<^verbatim>\<open>h2_large_settings\<close>.\<close>

record frame_env =
  fe_pending_busy :: bool
  fe_pick :: u32
  fe_draws :: "rat list"
  fe_large :: bool

text \<open>\<^verbatim>\<open>flush_client_pending_stream\<close>: payloads that found the channel full go back to the backlog, and
  so does every payload behind them. The result of the loop says whether the receiver was gone.\<close>

fun flush_client_loop ::
  "nat \<Rightarrow> buffered_payload list \<Rightarrow> bool \<Rightarrow> buffered_payload list \<Rightarrow> session \<Rightarrow>
     (bool \<times> buffered_payload list) option \<times> session" where
  "flush_client_loop e [] all_delivered remaining s = (Some (all_delivered, remaining), s)"
| "flush_client_loop e (p # ps) all_delivered remaining s =
     (if all_delivered
      then (case try_send_data e p s of
              (SendOk, s1) \<Rightarrow> flush_client_loop e ps True remaining s1
            | (SendFull, s1) \<Rightarrow> flush_client_loop e ps False (remaining @ [p]) s1
            | (SendClosed, s1) \<Rightarrow> (None, drop_payloads ps (drop_payloads remaining (drop_payload p s1))))
      else flush_client_loop e ps False (remaining @ [p]) s)"

definition flush_client_pending_stream :: "u32 \<Rightarrow> u32 \<Rightarrow> session \<Rightarrow> session" where
  "flush_client_pending_stream pick sid s =
     (case se_streams s sid of
        None \<Rightarrow> s
      | Some h \<Rightarrow>
          let (removed, pd) = pd_remove sid (se_pending_data s);
              pending_fin = (sid \<in> se_pending_fin s);
              s1 = s\<lparr>se_pending_data := pd, se_pending_fin := se_pending_fin s - {sid}\<rparr> in
          case flush_client_loop (sh_endpoint h) (case removed of None \<Rightarrow> [] | Some ps \<Rightarrow> ps) True [] s1 of
            (None, s2) \<Rightarrow> close_stream_fire_and_forget pick sid s2
          | (Some (all_delivered, remaining), s2) \<Rightarrow>
              let s3 = s2\<lparr>se_pending_data := fold (pd_push_back sid) remaining (se_pending_data s2)\<rparr> in
              if pending_fin
              then if all_delivered
                   then snd (clear_closing_stream sid
                          (unregister_stream sid (try_send_fin (sh_endpoint h) s3)))
                   else s3\<lparr>se_pending_fin := insert sid (se_pending_fin s3)\<rparr>
              else s3)"

datatype psh_dispatch = Deliver nat | SynackPending | Closing | NotFound

definition dispatch_psh :: "u32 \<Rightarrow> session \<Rightarrow> psh_dispatch" where
  "dispatch_psh sid s =
     (case se_streams s sid of
        None \<Rightarrow> NotFound
      | Some h \<Rightarrow>
          if se_is_client s \<and> sh_synack_tx h then SynackPending
          else if sh_read_closed h then Closing
          else Deliver (sh_endpoint h))"

definition store_or_close :: "u32 \<Rightarrow> u32 \<Rightarrow> buffered_payload \<Rightarrow> session \<Rightarrow> session" where
  "store_or_close pick sid p s =
     (case store_pending_data sid p s of
        (True, s1) \<Rightarrow> s1
      | (False, s1) \<Rightarrow> close_stream_fire_and_forget pick sid s1)"

definition deliver_psh :: "frame_env \<Rightarrow> u32 \<Rightarrow> nat \<Rightarrow> bytes \<Rightarrow> session \<Rightarrow> session" where
  "deliver_psh env sid e data s =
     (let has_pending = (if fe_pending_busy env then True else pd_contains (se_pending_data s) sid);
          (p, s1) = new_payload data s in
      if \<not> has_pending
      then (case try_send_data e p s1 of
              (SendOk, s2) \<Rightarrow> s2
            | (SendFull, s2) \<Rightarrow> store_or_close (fe_pick env) sid p s2
            | (SendClosed, s2) \<Rightarrow> drop_payload p s2)
      else store_or_close (fe_pick env) sid p s1)"

definition handle_psh :: "frame_env \<Rightarrow> u32 \<Rightarrow> bytes \<Rightarrow> session \<Rightarrow> session" where
  "handle_psh env sid data s =
     (let s0 = session_conn_received (length data) s;
          (stored, s1) = (if pos_contains (se_pending_open s0) sid
                          then store_pending_open_data sid data s0 else (False, s0)) in
      if stored then s1
      else case dispatch_psh sid s1 of
             SynackPending \<Rightarrow> let (p, s2) = new_payload data s1 in snd (store_pending_data sid p s2)
           | Closing \<Rightarrow> s1
           | Deliver e \<Rightarrow> deliver_psh env sid e data s1
           | NotFound \<Rightarrow> s1)"

text \<open>\<^verbatim>\<open>on_new_stream\<close> as \<^verbatim>\<open>ServerSessionHandler::new\<close> installs it: a bounded queue of stream ids.\<close>

definition on_new_stream :: "u32 \<Rightarrow> u32 list \<Rightarrow> bool \<times> u32 list" where
  "on_new_stream sid q = (if length q \<ge> NEW_STREAM_CHANNEL_CAPACITY then (False, q) else (True, q @ [sid]))"

definition reject_reserved :: "u32 \<Rightarrow> string \<Rightarrow> session \<Rightarrow> session_error option \<times> session" where
  "reject_reserved sid reason s =
     send_synack_rejection sid reason
       (release_inbound_stream_reservation (drop_pending_open sid s))"

definition handle_syn :: "u32 \<Rightarrow> bool \<Rightarrow> session \<Rightarrow> session_error option \<times> session" where
  "handle_syn sid settings_received s0 =
     (let s = s0\<lparr>se_high_water := max (se_high_water s0) sid\<rparr> in
      if \<not> settings_received then send_synack_rejection sid ''settings not received'' s
      else if se_streams s sid \<noteq> None \<or> pos_contains (se_pending_open s) sid
      then send_synack_rejection sid ''duplicate stream id'' s
      else case try_reserve_inbound_stream s of
        (False, s1) \<Rightarrow> send_synack_rejection sid ''max streams per session reached'' s1
      | (True, s1) \<Rightarrow>
          let s2 = s1\<lparr>se_pending_open := pos_insert_new sid (se_pending_open s1)\<rparr> in
          (case se_on_new_stream s2 of
             Some q \<Rightarrow>
               let (ok, q') = on_new_stream sid q;
                   s3 = s2\<lparr>se_on_new_stream := Some q'\<rparr> in
               if ok then (None, s3) else reject_reserved sid ''server overloaded'' s3
           | None \<Rightarrow> reject_reserved sid ''inbound streams not accepted'' s2))"

definition handle_fin :: "u32 \<Rightarrow> session \<Rightarrow> session" where
  "handle_fin sid s =
     (let (synack_tx, s1) = (if se_is_client s then take_synack_tx sid s else (None, s)) in
      case synack_tx of
        Some e \<Rightarrow> store_pending_fin sid (snd (send_synack e (ascii ''stream closed before SYNACK'') s1))
      | None \<Rightarrow>
          (case store_pending_open_fin sid s1 of
             (True, s2) \<Rightarrow> s2
           | (False, s2) \<Rightarrow>
               (case clear_closing_stream sid s2 of
                  (True, s3) \<Rightarrow> s3
                | (False, s3) \<Rightarrow>
                    (case se_streams s3 sid of
                       None \<Rightarrow> s3
                     | Some h \<Rightarrow>
                         let s4 = try_send_fin (sh_endpoint h) (mark_read_closed sid s3) in
                         if se_streams s4 sid \<noteq> None then snd (clear_closing_stream sid s4) else s4))))"

definition handle_synack :: "frame_env \<Rightarrow> u32 \<Rightarrow> bytes \<Rightarrow> session \<Rightarrow> session" where
  "handle_synack env sid payload s =
     (case take_synack_tx sid s of
        (None, s1) \<Rightarrow> s1
      | (Some e, s1) \<Rightarrow>
          let has_pending = (pd_contains (se_pending_data s1) sid \<or> sid \<in> se_pending_fin s1);
              (sent, s2) = send_synack e payload s1 in
          if \<not> sent then remove_stream_state sid s2
          else if has_pending then flush_client_pending_stream (fe_pick env) sid s2
          else s2)"

definition announces_flow_control :: "bytes \<Rightarrow> bool" where
  "announces_flow_control p = list_ex (\<lambda>i. take 4 (drop i p) = ascii ''fc=1'') [0..<length p - 3]"

definition handle_settings :: "frame_env \<Rightarrow> bool \<Rightarrow> bytes \<Rightarrow> session \<Rightarrow> session" where
  "handle_settings env settings_received payload s =
     (let s1 = (if announces_flow_control payload
                then s\<lparr>se_windows := set_peer_flow_control (se_windows s)\<rparr> else s) in
      if \<not> settings_received
      then
        let s2 = (if se_is_client s1
                  then snd (try_write_packets [encode_padding_reply_sized PADDING_SETTINGS_ACK_WIRE] Auto Control s1)
                  else s1)
        in emit_h2_server_opening (fe_large env) s2
      else s1)"

fun padding_replies :: "nat \<Rightarrow> flow_direction \<Rightarrow> rat list \<Rightarrow> nat list \<Rightarrow> bytes list option" where
  "padding_replies request_wire dir draws [] = Some []"
| "padding_replies request_wire dir draws (i # is) =
     (case padding_reply_wire_len request_wire i dir draws of
        None \<Rightarrow> None
      | Some w \<Rightarrow> map_option ((#) (encode_padding_reply_sized w)) (padding_replies request_wire dir draws is))"

definition handle_padding :: "frame_env \<Rightarrow> u32 \<Rightarrow> bytes \<Rightarrow> session \<Rightarrow> session_error option \<times> session" where
  "handle_padding env sid payload s =
     (let flag = (case payload of [] \<Rightarrow> PADDING_FLAG_REQUEST | b # _ \<Rightarrow> b) in
      if flag = PADDING_FLAG_GOAWAY then (None, note_peer_goaway payload s)
      else if flag = PADDING_FLAG_WINDOW_UPDATE
      then (None,
        case decode_padding_window_update payload of
          None \<Rightarrow> s
        | Some inc \<Rightarrow>
            if sid = 0 then s\<lparr>se_windows := add_conn_credit inc (se_windows s)\<rparr>
            else case se_streams s sid of
                   None \<Rightarrow> s
                 | Some h \<Rightarrow>
                     let ep = se_endpoints s (sh_endpoint h)
                     in set_endpoint (sh_endpoint h) (ep\<lparr>ep_send_credit := add_stream_credit inc (ep_send_credit ep)\<rparr>) s)
      else if flag = PADDING_FLAG_REQUEST
      then
        let request_wire = FRAME_HEADER_SIZE + length payload + CONTROL_RECORD_MIN_OVERHEAD;
            m = min (max (if length payload > 1 then unat (payload ! 1) else 1) 1) MAX_PADDING_REPLIES;
            direction = (if se_is_client s then C2S else S2C) in
        (case padding_replies request_wire direction (fe_draws env) [0..<m] of
           None \<Rightarrow> (Some DrawsExhausted, s)
         | Some replies \<Rightarrow> (None, snd (try_write_packets replies Auto Control s)))
      else (None, s))"

text \<open>\<^verbatim>\<open>handle_frame\<close>: the error that ends the read loop, the new value of \<^verbatim>\<open>settings_received\<close> and the
  session afterwards.\<close>

definition handle_frame ::
  "frame_env \<Rightarrow> frame \<Rightarrow> bool \<Rightarrow> session \<Rightarrow> session_error option \<times> bool \<times> session" where
  "handle_frame env f settings_received s =
     (let sid = f_stream_id f; payload = f_payload f in
      if f_cmd f = CMD_PSH then (None, settings_received, handle_psh env sid payload s)
      else if f_cmd f = CMD_SYN
      then (let (err, s') = handle_syn sid settings_received s in (err, settings_received, s'))
      else if f_cmd f = CMD_FIN then (None, settings_received, handle_fin sid s)
      else if f_cmd f = 0 then (None, settings_received, s)
      else if f_cmd f = CMD_SYNACK then (None, settings_received, handle_synack env sid payload s)
      else if f_cmd f = CMD_SETTINGS then (None, True, handle_settings env settings_received payload s)
      else if f_cmd f = CMD_PADDING
      then (let (err, s') = handle_padding env sid payload s in (err, settings_received, s'))
      else (Some (UnknownFrameCmd (f_cmd f)), settings_received, s))"

section \<open>Accepting streams\<close>

datatype accept_flush_result = FlushOpen | PeerClosed | PeerHalfClosed | ClosedLocally

text \<open>\<^verbatim>\<open>begin_accept_pending_stream\<close> and the registration of \<^verbatim>\<open>accept_stream\<close>: the stream id comes off
  the queue of the callback, the handle is registered and the reservation released.\<close>

definition accept_begin :: "session \<Rightarrow> (session_error + u32 \<times> nat) option \<times> session" where
  "accept_begin s =
     (case se_on_new_stream s of
        None \<Rightarrow> (None, s)
      | Some [] \<Rightarrow> (None, s)
      | Some (sid # q) \<Rightarrow>
          let s1 = s\<lparr>se_on_new_stream := Some q\<rparr> in
          if \<not> pos_contains (se_pending_open s1) sid then (Some (Inl StreamDisappeared), s1)
          else
            let e = se_next_endpoint s1;
                s2 = set_endpoint e (endpoint_new False (ws_stream_window (se_windows s1)))
                       (s1\<lparr>se_next_endpoint := e + 1\<rparr>);
                s3 = register_stream sid \<lparr>sh_endpoint = e, sh_synack_tx = False, sh_read_closed = False\<rparr> s2;
                (released, s4) = release_pending_open_reservation sid s3
            in (Some (Inr (sid, e)), if released then release_inbound_stream_reservation s4 else s4))"

text \<open>The delivery of one batch: what does not fit into the channel is set aside; a receiver that is
  gone ends it.\<close>

fun accept_deliver ::
  "nat \<Rightarrow> buffered_payload list \<Rightarrow> bool \<Rightarrow> buffered_payload list \<Rightarrow> session \<Rightarrow>
     (bool \<times> buffered_payload list) option \<times> session" where
  "accept_deliver e [] delivered overflow s = (Some (delivered, overflow), s)"
| "accept_deliver e (p # ps) delivered overflow s =
     (case try_send_data e p s of
        (SendOk, s1) \<Rightarrow> accept_deliver e ps True overflow s1
      | (SendFull, s1) \<Rightarrow> accept_deliver e ps True (overflow @ [p]) s1
      | (SendClosed, s1) \<Rightarrow> (None, drop_payloads overflow (drop_payloads ps (drop_payload p s1))))"

definition store_overflow :: "u32 \<Rightarrow> buffered_payload list \<Rightarrow> session \<Rightarrow> session" where
  "store_overflow sid ps s = fold (\<lambda>p t. snd (store_pending_data sid p t)) ps s"

text \<open>One iteration of the loop of \<^verbatim>\<open>flush_pending_accept_stream\<close>; no result means that the loop goes
  round again with the new value of \<^verbatim>\<open>delivered_data\<close>.\<close>

definition accept_flush_iter ::
  "u32 \<Rightarrow> u32 \<Rightarrow> nat \<Rightarrow> bool \<Rightarrow> session \<Rightarrow> accept_flush_result option \<times> bool \<times> session" where
  "accept_flush_iter pick sid e delivered s =
     (case pos_take_ready sid (se_pending_open s) of
        (None, _) \<Rightarrow> (Some FlushOpen, delivered, s)
      | (Some (data, fin), po) \<Rightarrow>
          if data = [] \<and> \<not> fin
          then (Some FlushOpen, delivered, drop_pending_open sid (s\<lparr>se_pending_open := po\<rparr>))
          else
            (case accept_deliver e data delivered [] (s\<lparr>se_pending_open := po\<rparr>) of
               (None, s1) \<Rightarrow> (Some ClosedLocally, delivered, drop_pending_open sid (snd (close_stream pick sid s1)))
             | (Some (delivered', overflow), s1) \<Rightarrow>
                 let s2 = store_overflow sid overflow s1 in
                 if fin
                 then
                   let s3 = try_send_fin e s2 in
                   if delivered'
                   then (Some PeerHalfClosed, delivered', drop_pending_open sid (mark_read_closed sid s3))
                   else (Some PeerClosed, delivered', drop_pending_open sid (unregister_stream sid s3))
                 else (None, delivered', s2)))"

section \<open>Reading and dropping streams\<close>

text \<open>The consumer of a stream: \<^verbatim>\<open>ServerStream\<close> and \<^verbatim>\<open>StreamReadHalf\<close>.\<close>

record stream_reader =
  rd_sid :: u32
  rd_endpoint :: nat
  rd_read_closed :: bool
  rd_consumed :: nat

definition into_bytes :: "buffered_payload \<Rightarrow> session \<Rightarrow> bytes \<times> session" where
  "into_bytes p s = (let (data, c) = bp_into_bytes p (se_buffered s) in (data, s\<lparr>se_buffered := c\<rparr>))"

text \<open>\<^verbatim>\<open>data_rx.try_recv\<close>.\<close>

definition try_recv_data :: "nat \<Rightarrow> session \<Rightarrow> bytes option \<times> session" where
  "try_recv_data e s =
     (let ep = se_endpoints s e in
      case ep_data ep of
        [] \<Rightarrow> (None, s)
      | p # ps \<Rightarrow>
          let (data, s1) = into_bytes p (set_endpoint e (ep\<lparr>ep_data := ps\<rparr>) s) in (Some data, s1))"

definition server_drain_pending :: "bool \<Rightarrow> stream_reader \<Rightarrow> session \<Rightarrow> bytes option \<times> stream_reader \<times> session" where
  "server_drain_pending busy rd s =
     (if busy then (None, rd, s)
      else case pd_pop_front (rd_sid rd) (se_pending_data s) of
             (None, _) \<Rightarrow> (None, rd, s)
           | (Some p, pd) \<Rightarrow>
               let (data, s1) = into_bytes p (s\<lparr>se_pending_data := pd\<rparr>) in (Some data, rd, s1))"

definition take_queued_pending_fin :: "bool \<Rightarrow> stream_reader \<Rightarrow> session \<Rightarrow> stream_reader \<times> session" where
  "take_queued_pending_fin busy rd s =
     (if busy then (rd, s)
      else if rd_sid rd \<in> se_pending_fin s
      then (rd\<lparr>rd_read_closed := True\<rparr>, s\<lparr>se_pending_fin := se_pending_fin s - {rd_sid rd}\<rparr>)
      else (rd, s))"

definition client_drain_pending ::
  "bool \<Rightarrow> bool \<Rightarrow> stream_reader \<Rightarrow> session \<Rightarrow> bytes option \<times> stream_reader \<times> session" where
  "client_drain_pending busy fin_busy rd s =
     (if busy then (None, rd, s)
      else case pd_pop_front (rd_sid rd) (se_pending_data s) of
             (None, _) \<Rightarrow> (let (rd1, s1) = take_queued_pending_fin fin_busy rd s in (None, rd1, s1))
           | (Some p, pd) \<Rightarrow>
               let s1 = s\<lparr>se_pending_data := pd\<rparr>;
                   drained = (\<not> pd_contains pd (rd_sid rd));
                   (rd2, s2) = (if drained then take_queued_pending_fin fin_busy rd s1 else (rd, s1));
                   (data, s3) = into_bytes p s2
               in (Some data, rd2, s3))"

datatype read_pass = ReadData bytes | ReadEof | ReadAgain | ReadPark

definition senders_alive :: "stream_reader \<Rightarrow> session \<Rightarrow> bool" where
  "senders_alive rd s =
     (case se_streams s (rd_sid rd) of None \<Rightarrow> False | Some h \<Rightarrow> sh_endpoint h = rd_endpoint rd)"

text \<open>The two synchronous halves of a pass through the loop of \<^verbatim>\<open>read\<close>: the channel first, then the
  backlog and the branches of \<^verbatim>\<open>select!\<close> that are ready (\<^term>\<open>fin_first\<close> when it polls the FIN
  channel before the data channel). Nothing else runs inside a half.\<close>

type_synonym drain_fun = "stream_reader \<Rightarrow> session \<Rightarrow> bytes option \<times> stream_reader \<times> session"

definition read_select :: "bool \<Rightarrow> stream_reader \<Rightarrow> session \<Rightarrow> read_pass \<times> stream_reader \<times> session" where
  "read_select fin_first rd s =
     (let ep = se_endpoints s (rd_endpoint rd);
          fin_ready = (ep_fin ep \<or> \<not> senders_alive rd s);
          take_fin = (ReadAgain, rd\<lparr>rd_read_closed := True\<rparr>, set_endpoint (rd_endpoint rd) (ep\<lparr>ep_fin := False\<rparr>) s) in
      if fin_first \<and> fin_ready then take_fin
      else case try_recv_data (rd_endpoint rd) s of
             (Some data, s1) \<Rightarrow> (ReadData data, rd, s1)
           | (None, s1) \<Rightarrow>
               if \<not> senders_alive rd s then (ReadEof, rd, s)
               else if ep_fin ep then take_fin
               else (ReadPark, rd, s))"

definition read_backlog :: "drain_fun \<Rightarrow> bool \<Rightarrow> stream_reader \<Rightarrow> session \<Rightarrow> read_pass \<times> stream_reader \<times> session" where
  "read_backlog drain fin_first rd s =
     (case drain rd s of
        (Some data, rd1, s1) \<Rightarrow> (ReadData data, rd1, s1)
      | (None, rd1, s1) \<Rightarrow>
          if rd_read_closed rd1 then (ReadEof, rd1, s1) else read_select fin_first rd1 s1)"

definition read_step :: "drain_fun \<Rightarrow> bool \<Rightarrow> stream_reader \<Rightarrow> session \<Rightarrow> read_pass \<times> stream_reader \<times> session" where
  "read_step drain fin_first rd s =
     (case try_recv_data (rd_endpoint rd) s of
        (Some data, s1) \<Rightarrow> (ReadData data, rd, s1)
      | (None, s1) \<Rightarrow> read_backlog drain fin_first rd s1)"

text \<open>Dropping the receivers drops what the channel still holds.\<close>

definition drop_receivers :: "nat \<Rightarrow> session \<Rightarrow> session" where
  "drop_receivers e s =
     (let ep = se_endpoints s e in
      drop_payloads (ep_data ep)
        (set_endpoint e (ep\<lparr>ep_data := [], ep_data_rx := False, ep_fin := False, ep_fin_rx := False\<rparr>) s))"

definition drop_synack_receiver :: "nat \<Rightarrow> session \<Rightarrow> session" where
  "drop_synack_receiver e s =
     (let ep = se_endpoints s e in set_endpoint e (ep\<lparr>ep_synack := None, ep_synack_rx := False\<rparr>) s)"

definition reader_note_consumed :: "stream_reader \<Rightarrow> nat \<Rightarrow> session \<Rightarrow> stream_reader \<times> session" where
  "reader_note_consumed rd len s =
     (let stream_total = (rd_consumed rd + len) mod 2 ^ 64;
          (accepted, s1) = (if stream_total \<ge> ws_stream_wu_threshold (se_windows s)
                            then send_window_update (rd_sid rd) (min stream_total U32_MAX) s else (True, s))
      in (rd\<lparr>rd_consumed := snd (note_consumed len accepted (se_windows s) (rd_consumed rd))\<rparr>, s1))"

section \<open>The read loop\<close>

text \<open>What wakes the loop: the closing notification, the idle timer, the timer of the synthetic
  exchange with its draws, bytes from the tunnel (with the surroundings of each frame decoded from
  them), the end of the tunnel or a read error.\<close>

datatype loop_event = CloseNotified | IdleTimer | ExchangeTimer "rat list"
  | TunnelChunk bytes "nat \<Rightarrow> frame_env" | TunnelEof | TunnelError

fun handle_frames ::
  "(nat \<Rightarrow> frame_env) \<Rightarrow> nat \<Rightarrow> frame list \<Rightarrow> bool \<Rightarrow> session \<Rightarrow> session_error option \<times> bool \<times> session" where
  "handle_frames env i [] settings_received s = (None, settings_received, s)"
| "handle_frames env i (f # fs) settings_received s =
     (case handle_frame (env i) f settings_received s of
        (Some err, sr, s1) \<Rightarrow> (Some err, sr, s1)
      | (None, sr, s1) \<Rightarrow> handle_frames env (Suc i) fs sr s1)"

definition synthetic_exchange :: "rat list \<Rightarrow> nat \<Rightarrow> session \<Rightarrow> nat \<times> session" where
  "synthetic_exchange draws opening_left s =
     (if se_arrivals s > 0 \<and> (opening_left > 0 \<or> se_capacity s > 0)
      then case sample_h2_exchange_request_wire draws of
             None \<Rightarrow> (opening_left, s)
           | Some w \<Rightarrow> (opening_left - 1,
               snd (submit_write_packets [encode_padding_request_sized 1 w] Auto Control s))
      else (opening_left, s))"

record loop_state =
  ls_buf :: bytes
  ls_settings_received :: bool
  ls_opening_left :: nat

text \<open>One turn of the loop; the boolean says that it goes on. Frames are decoded one at a time from
  the buffer, so the frames of a chunk are those of \<^const>\<open>decode_frames\<close>; after an error the buffer is
  not used again.\<close>

definition read_loop_turn :: "loop_event \<Rightarrow> loop_state \<Rightarrow> session \<Rightarrow> bool \<times> loop_state \<times> session" where
  "read_loop_turn ev ls s =
     (if se_close_requested s then (False, ls, s)
      else case ev of
        CloseNotified \<Rightarrow> (False, ls, s)
      | IdleTimer \<Rightarrow>
          if \<not> se_is_client s
          then (let (eligible, s1) = is_idle_timeout_eligible s in (\<not> eligible, ls, s1))
          else (True, ls, s)
      | ExchangeTimer draws \<Rightarrow>
          if \<not> se_post_script_off s \<and> se_is_client s
          then (let (left', s1) = synthetic_exchange draws (ls_opening_left ls) s
                in (True, ls\<lparr>ls_opening_left := left'\<rparr>, s1))
          else (True, ls, s)
      | TunnelEof \<Rightarrow> (False, ls, s)
      | TunnelError \<Rightarrow> (False, ls, s)
      | TunnelChunk bs env \<Rightarrow>
          if bs = [] then (False, ls, s)
          else
            let s1 = s\<lparr>se_arrivals := se_arrivals s + 1\<rparr>;
                buf = ls_buf ls @ bs in
            if length buf > MAX_SESSION_REASSEMBLY_BYTES then (False, ls\<lparr>ls_buf := buf\<rparr>, s1)
            else
              let (fs, rest) = decode_frames buf;
                  (err, sr, s2) = handle_frames env 0 fs (ls_settings_received ls) s1
              in (err = None, ls\<lparr>ls_buf := rest, ls_settings_received := sr\<rparr>, s2))"

definition all_pending_payloads :: "session \<Rightarrow> nat" where
  "all_pending_payloads s = pd_total (se_pending_data s) + pos_total (se_pending_open s)"

text \<open>The end of \<^verbatim>\<open>run_read_loop\<close>: every book is emptied. The payloads in the two backlogs are dropped,
  which credits their bytes.\<close>

definition read_loop_teardown :: "session \<Rightarrow> session" where
  "read_loop_teardown s =
     (let s1 = force_close s in
      s1\<lparr>se_streams := Map.empty, se_capacity := 0,
         se_buffered := se_buffered s1 - all_pending_payloads s1,
         se_pending_open := pos_clear (se_pending_open s1), se_pending_data := pd_clear (se_pending_data s1),
         se_pending_fin := {}, se_closing := {}\<rparr>)"

fun run_read_loop :: "loop_event list \<Rightarrow> loop_state \<Rightarrow> session \<Rightarrow> session" where
  "run_read_loop [] ls s = s"
| "run_read_loop (ev # evs) ls s =
     (case read_loop_turn ev ls s of
        (True, ls1, s1) \<Rightarrow> run_read_loop evs ls1 s1
      | (False, ls1, s1) \<Rightarrow> read_loop_teardown s1)"

end
