(* ===== verification/SessionBooks.thy ===== *)
theory SessionBooks
  imports Session
begin

text \<open>
  The books of a session stay consistent under every operation. The counter of active streams is
  the number of handles that are not closed for reading, the reservations are the unreleased
  entries of the pre-accept backlog, the byte counter is the sum of what the channels and the two
  backlogs hold, and every bound the code sets is kept. A payload that an operation has taken out of
  one book and not yet put into another is in flight: the invariant carries the list of those.
\<close>

section \<open>The invariant\<close>

definition counted :: "stream_handle \<Rightarrow> nat" where
  "counted h = (if sh_read_closed h then 0 else 1)"

definition reserved :: "pending_open_stream \<Rightarrow> nat" where
  "reserved po = (if po_reservation_released po then 0 else 1)"

definition table_inv :: "session \<Rightarrow> bool" where
  "table_inv s \<longleftrightarrow> finite (dom (se_streams s)) \<and> se_capacity s = msum counted (se_streams s) \<and>
     (\<forall>sid h. se_streams s sid = Some h \<longrightarrow> sh_endpoint h < se_next_endpoint s)"

definition reserve_inv :: "session \<Rightarrow> bool" where
  "reserve_inv s \<longleftrightarrow> se_pending_inbound s = msum reserved (pos_streams (se_pending_open s))"

definition book_inv :: "session \<Rightarrow> bool" where
  "book_inv s \<longleftrightarrow> pd_inv (se_pending_data s) \<and> pos_inv (se_pending_open s)"

definition channel_bytes :: "session \<Rightarrow> nat" where
  "channel_bytes s = (\<Sum>e\<in>{..<se_next_endpoint s}. sum_len (ep_data (se_endpoints s e)))"

definition held_bytes :: "session \<Rightarrow> nat" where
  "held_bytes s = channel_bytes s + pd_total (se_pending_data s) + pos_total (se_pending_open s)"

definition acct_inv :: "buffered_payload list \<Rightarrow> session \<Rightarrow> bool" where
  "acct_inv fl s \<longleftrightarrow> se_buffered s = held_bytes s + sum_len fl \<and>
     (\<forall>p\<in>set fl. bp_accounted p) \<and>
     (\<forall>e. \<forall>p\<in>set (ep_data (se_endpoints s e)). bp_accounted p) \<and>
     (\<forall>sid. \<forall>p\<in>set (pd_contents (se_pending_data s) sid). bp_accounted p) \<and>
     (\<forall>sid po. pos_streams (se_pending_open s) sid = Some po \<longrightarrow> (\<forall>p\<in>set (po_buffered_data po). bp_accounted p)) \<and>
     (\<forall>e \<ge> se_next_endpoint s. ep_data (se_endpoints s e) = [])"

definition limit_inv :: "session \<Rightarrow> bool" where
  "limit_inv s \<longleftrightarrow>
     pd_total (se_pending_data s) \<le> MAX_PENDING_STREAM_BYTES \<and>
     pd_len (se_pending_data s) \<le> MAX_PENDING_STREAMS \<and>
     (\<forall>sid. length (pd_contents (se_pending_data s) sid) \<le> MAX_PENDING_STREAM_FRAMES) \<and>
     pos_total (se_pending_open s) \<le> MAX_PENDING_STREAM_BYTES \<and>
     (\<forall>sid. pos_stream_frames (se_pending_open s) sid \<le> MAX_PENDING_STREAM_FRAMES) \<and>
     (\<forall>e. length (ep_data (se_endpoints s e)) \<le> STREAM_CHANNEL_CAPACITY) \<and>
     finite (se_pending_fin s) \<and> card (se_pending_fin s) \<le> MAX_PENDING_STREAMS \<and>
     finite (se_closing s) \<and> card (se_closing s) \<le> MAX_PENDING_STREAMS \<and>
     (case se_on_new_stream s of None \<Rightarrow> True | Some q \<Rightarrow> length q \<le> NEW_STREAM_CHANNEL_CAPACITY)"

definition sess_inv :: "buffered_payload list \<Rightarrow> session \<Rightarrow> bool" where
  "sess_inv fl s \<longleftrightarrow> table_inv s \<and> reserve_inv s \<and> book_inv s \<and> acct_inv fl s \<and> limit_inv s"

lemmas inv_defs = sess_inv_def table_inv_def reserve_inv_def book_inv_def acct_inv_def held_bytes_def
  channel_bytes_def limit_inv_def

lemma sess_inv_new: "sess_inv [] (Session_new is_client m off acc ws)"
  by (auto simp: inv_defs Session_new_def pd_empty_def pos_empty_def pd_inv_def pos_inv_def
      endpoint_gone_def pd_contents_def pos_stream_frames_def pd_len_def)

text \<open>Fields that no book reads.\<close>

lemma sess_inv_frame [simp]:
  "sess_inv fl (s\<lparr>se_control := x1\<rparr>) = sess_inv fl s"
  "sess_inv fl (s\<lparr>se_bulk := x2\<rparr>) = sess_inv fl s"
  "sess_inv fl (s\<lparr>se_alive := x3\<rparr>) = sess_inv fl s"
  "sess_inv fl (s\<lparr>se_close_requested := x4\<rparr>) = sess_inv fl s"
  "sess_inv fl (s\<lparr>se_writer_gone := x5\<rparr>) = sess_inv fl s"
  "sess_inv fl (s\<lparr>se_next_stream_id := x6\<rparr>) = sess_inv fl s"
  "sess_inv fl (s\<lparr>se_high_water := x7\<rparr>) = sess_inv fl s"
  "sess_inv fl (s\<lparr>se_goaway := x8\<rparr>) = sess_inv fl s"
  "sess_inv fl (s\<lparr>se_windows := x9\<rparr>) = sess_inv fl s"
  "sess_inv fl (s\<lparr>se_client_settings := x10\<rparr>) = sess_inv fl s"
  "sess_inv fl (s\<lparr>se_arrivals := x11\<rparr>) = sess_inv fl s"
  by (simp_all add: inv_defs)

lemma sess_inv_writer [simp]:
  "sess_inv fl (writer_close s) = sess_inv fl s"
  "sess_inv fl (snd (try_write_packets ps b c s)) = sess_inv fl s"
  "sess_inv fl (snd (submit_write_packets ps b c s)) = sess_inv fl s"
  "sess_inv fl (snd (write_frame f c s)) = sess_inv fl s"
  by (simp_all add: writer_defs split: traffic_class.split sum.split)

lemma sess_inv_closers [simp]:
  "sess_inv fl (force_close s) = sess_inv fl s"
  "sess_inv fl (snd (shutdown_stream sid s)) = sess_inv fl s"
  "sess_inv fl (note_peer_goaway payload s) = sess_inv fl s"
  "sess_inv fl (snd (send_window_update sid i s)) = sess_inv fl s"
  "sess_inv fl (snd (send_synack_rejection sid r s)) = sess_inv fl s"
  "sess_inv fl (emit_h2_server_opening large s) = sess_inv fl s"
  "sess_inv fl (session_conn_received n s) = sess_inv fl s"
  by (simp_all add: force_close_def shutdown_stream_def note_peer_goaway_def send_window_update_def
      send_synack_rejection_def emit_h2_server_opening_def session_conn_received_def case_prod_beta
      Let_def split: option.split sum.split)

section \<open>The table\<close>

lemma unregister_inv: "sess_inv fl s \<Longrightarrow> sess_inv fl (unregister_stream sid s)"
  by (auto simp: inv_defs unregister_stream_def Let_def msum_remove counted_def split: option.split)

lemma mark_read_closed_inv: "sess_inv fl s \<Longrightarrow> sess_inv fl (mark_read_closed sid s)"
  by (auto simp: inv_defs mark_read_closed_def Let_def msum_remove msum_upd counted_def split: option.split)

lemma take_synack_inv: "sess_inv fl s \<Longrightarrow> sess_inv fl (snd (take_synack_tx sid s))"
  by (auto simp: inv_defs take_synack_tx_def msum_remove msum_upd counted_def split: option.split)

lemma msum_filter:
  assumes "finite (dom m)"
  shows "msum f m = msum f (\<lambda>k. case m k of None \<Rightarrow> None | Some v \<Rightarrow> if P v then None else Some v) +
    (\<Sum>k\<in>{k \<in> dom m. P (the (m k))}. f (the (m k)))"
proof -
  let ?m' = "\<lambda>k. case m k of None \<Rightarrow> None | Some v \<Rightarrow> if P v then None else Some v"
  have d: "dom m = dom ?m' \<union> {k \<in> dom m. P (the (m k))}"
    by (auto split: option.splits if_splits)
  have "(\<Sum>k\<in>dom m. f (the (m k))) =
      (\<Sum>k\<in>dom ?m'. f (the (m k))) + (\<Sum>k\<in>{k \<in> dom m. P (the (m k))}. f (the (m k)))"
    using assms by (subst d, subst sum.union_disjoint)
      (auto intro: finite_subset [of _ "dom m"] split: option.splits if_splits)
  moreover have "(\<Sum>k\<in>dom ?m'. f (the (m k))) = msum f ?m'"
    unfolding msum_def by (rule sum.cong) (auto split: option.splits if_splits)
  ultimately show ?thesis by (simp add: msum_def)
qed

lemma prune_capacity:
  assumes "table_inv s"
  shows "table_inv (prune_orphaned_streams s)"
proof -
  let ?keep = "\<lambda>sid. case se_streams s sid of None \<Rightarrow> None
      | Some h \<Rightarrow> if handle_orphaned s h then None else Some h"
  let ?gone = "{sid \<in> dom (se_streams s). handle_orphaned s (the (se_streams s sid))}"
  let ?counted = "{sid \<in> dom (se_streams s). ?keep sid = None \<and> \<not> sh_read_closed (the (se_streams s sid))}"
  have fin: "finite (dom (se_streams s))" using assms by (simp add: table_inv_def)
  have "?keep sid = None \<longleftrightarrow> handle_orphaned s (the (se_streams s sid))" if "sid \<in> dom (se_streams s)" for sid
    using that by (auto split: if_splits)
  then have "?counted = {sid \<in> ?gone. \<not> sh_read_closed (the (se_streams s sid))}"
    by (intro Collect_cong) blast
  moreover have "card {sid \<in> ?gone. \<not> sh_read_closed (the (se_streams s sid))} =
      (\<Sum>sid\<in>?gone. counted (the (se_streams s sid)))"
  proof -
    have "(\<Sum>sid\<in>?gone. counted (the (se_streams s sid))) =
        (\<Sum>sid\<in>?gone. if \<not> sh_read_closed (the (se_streams s sid)) then 1 else 0)"
      by (rule sum.cong) (auto simp: counted_def)
    also have "\<dots> = (\<Sum>sid\<in>{sid \<in> ?gone. \<not> sh_read_closed (the (se_streams s sid))}. 1)"
      by (rule sum.inter_filter [symmetric]) (use fin in auto)
    finally show ?thesis by simp
  qed
  ultimately have "card ?counted = (\<Sum>sid\<in>?gone. counted (the (se_streams s sid)))" by simp
  then have "se_capacity s = msum counted ?keep + card ?counted"
    using assms msum_filter [OF fin, of counted "handle_orphaned s"] by (simp add: table_inv_def)
  moreover have "finite (dom ?keep)"
    by (rule finite_subset [OF _ fin]) (auto split: option.splits)
  moreover have "\<forall>sid h. ?keep sid = Some h \<longrightarrow> sh_endpoint h < se_next_endpoint s"
    using assms by (auto simp: table_inv_def split: option.splits if_splits)
  ultimately show ?thesis by (simp add: prune_orphaned_streams_def Let_def table_inv_def)
qed

lemma prune_inv: "sess_inv fl s \<Longrightarrow> sess_inv fl (prune_orphaned_streams s)"
  using prune_capacity [of s]
  by (simp add: sess_inv_def) (simp add: prune_orphaned_streams_def Let_def reserve_inv_def book_inv_def acct_inv_def held_bytes_def
      channel_bytes_def limit_inv_def)

text \<open>A new stream is registered under an id that has no handle.\<close>

lemma register_inv:
  assumes "sess_inv fl s" "se_streams s sid = None" "sh_endpoint h < se_next_endpoint s" "\<not> sh_read_closed h"
  shows "sess_inv fl (register_stream sid h s)"
  using assms by (auto simp: inv_defs register_stream_def msum_upd msum_delete_none counted_def)

lemma new_endpoint_inv:
  assumes "sess_inv fl s" "ep_data ep = []"
  shows "sess_inv fl (set_endpoint (se_next_endpoint s) ep (s\<lparr>se_next_endpoint := se_next_endpoint s + 1\<rparr>))"
proof -
  have "(\<Sum>e\<in>{..<se_next_endpoint s}. sum_len (ep_data (if e = se_next_endpoint s then ep else se_endpoints s e))) =
      (\<Sum>e\<in>{..<se_next_endpoint s}. sum_len (ep_data (se_endpoints s e)))"
    by (rule sum.cong) auto
  then show ?thesis
    using assms by (auto simp: inv_defs set_endpoint_def less_Suc_eq intro: less_SucI)
qed

text \<open>Changing an endpoint: what leaves the channel is in flight and what enters it no longer is.\<close>

lemma channel_bytes_upd:
  fixes e n :: nat
  assumes "e < n"
  shows "(\<Sum>i\<in>{..<n}. sum_len (ep_data ((f(e := ep)) i))) + sum_len (ep_data (f e)) =
    (\<Sum>i\<in>{..<n}. sum_len (ep_data (f i))) + sum_len (ep_data ep)"
proof -
  have "(\<Sum>i\<in>{..<n}. g i) = g e + (\<Sum>i\<in>{..<n} - {e}. g i)" for g :: "nat \<Rightarrow> nat"
    using assms by (simp add: sum.remove)
  moreover have "(\<Sum>i\<in>{..<n} - {e}. sum_len (ep_data ((f(e := ep)) i))) =
      (\<Sum>i\<in>{..<n} - {e}. sum_len (ep_data (f i)))"
    by (rule sum.cong) auto
  ultimately show ?thesis by simp
qed

lemma set_endpoint_inv:
  assumes "sess_inv fl s" "e < se_next_endpoint s"
    and "length (ep_data ep) \<le> STREAM_CHANNEL_CAPACITY"
    and "mset fl + mset (ep_data (se_endpoints s e)) = mset fl' + mset (ep_data ep)"
  shows "sess_inv fl' (set_endpoint e ep s)"
proof -
  have eq: "set fl \<union> set (ep_data (se_endpoints s e)) = set fl' \<union> set (ep_data ep)"
    using arg_cong [OF assms(4), of set_mset] by simp
  have len: "sum_len fl + sum_len (ep_data (se_endpoints s e)) = sum_len fl' + sum_len (ep_data ep)"
    using arg_cong [OF assms(4), of "\<lambda>m. \<Sum>p\<in>#m. bp_len p"]
    by (simp add: sum_len_def sum_mset_sum_list flip: mset_map)
  have acc: "\<forall>p\<in>set fl' \<union> set (ep_data ep). bp_accounted p"
    using assms(1) eq by (auto simp: sess_inv_def acct_inv_def)
  show ?thesis
    using assms(1-3) acc len channel_bytes_upd [OF assms(2), of "se_endpoints s" ep]
    by (auto simp: inv_defs set_endpoint_def)
qed

lemma set_endpoint_same_data:
  assumes "sess_inv fl s" "e < se_next_endpoint s" "ep_data ep = ep_data (se_endpoints s e)"
  shows "sess_inv fl (set_endpoint e ep s)"
proof -
  have "length (ep_data ep) \<le> STREAM_CHANNEL_CAPACITY"
    using assms(1,3) by (simp add: sess_inv_def limit_inv_def)
  then show ?thesis using assms by (intro set_endpoint_inv) simp_all
qed

section \<open>Payloads in flight\<close>

lemma sess_inv_flight_perm: "mset fl = mset fl' \<Longrightarrow> sess_inv fl s = sess_inv fl' s"
proof -
  assume p: "mset fl = mset fl'"
  have "sum_len fl = sum_len fl'"
    using arg_cong [OF p, of "\<lambda>m. \<Sum>p\<in>#m. bp_len p"]
    by (simp add: sum_len_def sum_mset_sum_list flip: mset_map)
  then show ?thesis using mset_eq_setD [OF p] by (simp add: sess_inv_def acct_inv_def)
qed

lemma new_payload_inv:
  "sess_inv fl s \<Longrightarrow> new_payload data s = (p, s') \<Longrightarrow> sess_inv (p # fl) s' \<and> bp_data p = data"
  by (auto simp: new_payload_def bp_new_def Let_def inv_defs bp_len_def)

lemma drop_payload_inv: "sess_inv (p # fl) s \<Longrightarrow> sess_inv fl (drop_payload p s)"
  by (auto simp: drop_payload_def bp_defs inv_defs)

lemma drop_payloads_eq: "drop_payloads ps s = s\<lparr>se_buffered := fold bp_drop ps (se_buffered s)\<rparr>"
  by (induction ps arbitrary: s) (simp_all add: drop_payloads_def drop_payload_def)

lemma drop_payloads_inv: "sess_inv (ps @ fl) s \<Longrightarrow> sess_inv fl (drop_payloads ps s)"
  by (induction ps arbitrary: s) (auto simp: drop_payloads_def intro: drop_payload_inv)

lemma into_bytes_inv: "sess_inv (p # fl) s \<Longrightarrow> sess_inv fl (snd (into_bytes p s))"
  by (auto simp: into_bytes_def bp_defs inv_defs)

lemma fst_into_bytes [simp]: "fst (into_bytes p s) = bp_data p"
  by (simp add: into_bytes_def bp_defs)

lemma try_send_data_inv:
  assumes "sess_inv (p # fl) s" "e < se_next_endpoint s" "try_send_data e p s = (r, s')"
  shows "sess_inv (if r = SendOk then fl else p # fl) s'"
  using assms set_endpoint_inv [OF assms(1,2), of "(se_endpoints s e)\<lparr>ep_data := ep_data (se_endpoints s e) @ [p]\<rparr>" fl]
  by (auto simp: try_send_data_def Let_def split: if_splits)

lemma try_send_fin_inv:
  "sess_inv fl s \<Longrightarrow> e < se_next_endpoint s \<Longrightarrow> sess_inv fl (try_send_fin e s)"
  by (simp add: try_send_fin_def Let_def set_endpoint_same_data)

lemma send_synack_inv:
  "sess_inv fl s \<Longrightarrow> e < se_next_endpoint s \<Longrightarrow> sess_inv fl (snd (send_synack e msg s))"
  by (simp add: send_synack_def Let_def set_endpoint_same_data)

section \<open>The backlog\<close>

lemma pd_remove_contents:
  "pd_remove sid pd = (r, pd') \<Longrightarrow>
     (case r of None \<Rightarrow> [] | Some ps \<Rightarrow> ps) = pd_contents pd sid \<and> pd_contents pd' = (pd_contents pd)(sid := [])"
  using pd_contents_laws(5) [of sid pd]
  by (auto simp: pd_discard_def pd_remove_def pd_contents_def fun_eq_iff split: option.splits)

lemma pd_stream_frames_contents: "pd_stream_frames pd sid = length (pd_contents pd sid)"
  by (simp add: pd_stream_frames_def pd_contents_def split: option.split)

lemma pd_remove_total:
  "pd_inv pd \<Longrightarrow> pd_remove sid pd = (r, pd') \<Longrightarrow>
     pd_inv pd' \<and> pd_total pd = pd_total pd' + sum_len (pd_contents pd sid) \<and> pd_len pd' \<le> pd_len pd"
  using pd_inv_remove [of pd sid]
  by (auto simp: pd_inv_def pd_remove_def pd_contents_def pd_len_def msum_remove intro: card_Diff1_le
      split: option.splits)

lemma pd_push_total:
  "pd_total (pd_push_back sid p pd) = pd_total pd + bp_len p"
  by (simp add: pd_push_back_def Let_def)

lemma pd_push_len:
  "pd_inv pd \<Longrightarrow> pd_len (pd_push_back sid p pd) = (if pd_contains pd sid then pd_len pd else Suc (pd_len pd))"
  by (auto simp: pd_push_back_def Let_def pd_len_def pd_contains_def pd_inv_def insert_absorb domIff)

lemma push_inv:
  assumes "sess_inv (p # fl) s"
    and "pd_total (se_pending_data s) + bp_len p \<le> MAX_PENDING_STREAM_BYTES"
    and "pd_contains (se_pending_data s) sid \<or> pd_len (se_pending_data s) < MAX_PENDING_STREAMS"
    and "length (pd_contents (se_pending_data s) sid) < MAX_PENDING_STREAM_FRAMES"
  shows "sess_inv fl (s\<lparr>se_pending_data := pd_push_back sid p (se_pending_data s)\<rparr>)"
  using assms pd_push_len [of "se_pending_data s" sid p] pd_inv_push [of "se_pending_data s" sid p]
  by (auto simp: inv_defs pd_push_total pd_contents_laws(2))

lemma store_pending_data_inv:
  assumes "sess_inv (p # fl) s"
  shows "sess_inv fl (snd (store_pending_data sid p s))"
  using drop_payload_inv [OF assms] push_inv [OF assms, of sid]
  by (auto simp: store_pending_data_def Let_def pd_stream_frames_contents)

lemma remove_pending_inv:
  assumes "sess_inv fl s" "pd_remove sid (se_pending_data s) = (r, pd)"
  shows "sess_inv ((case r of None \<Rightarrow> [] | Some ps \<Rightarrow> ps) @ fl) (s\<lparr>se_pending_data := pd\<rparr>)"
  using assms pd_remove_contents [OF assms(2)] pd_remove_total [OF _ assms(2)]
  by (auto simp: inv_defs)

lemma pending_fin_inv:
  assumes "sess_inv fl s" "finite F" "card F \<le> MAX_PENDING_STREAMS"
  shows "sess_inv fl (s\<lparr>se_pending_fin := F\<rparr>)"
  using assms by (auto simp: inv_defs)

lemma closing_inv:
  assumes "sess_inv fl s" "finite F" "card F \<le> MAX_PENDING_STREAMS"
  shows "sess_inv fl (s\<lparr>se_closing := F\<rparr>)"
  using assms by (auto simp: inv_defs)

lemma card_diff_le: "finite F \<Longrightarrow> card F \<le> n \<Longrightarrow> card (F - A) \<le> n"
  using card_mono [of F "F - A"] by auto

lemma sess_inv_sets:
  "sess_inv fl s \<Longrightarrow> finite (se_pending_fin s) \<and> card (se_pending_fin s) \<le> MAX_PENDING_STREAMS \<and>
     finite (se_closing s) \<and> card (se_closing s) \<le> MAX_PENDING_STREAMS"
  by (simp add: sess_inv_def limit_inv_def)

lemma clear_pending_inv:
  assumes "sess_inv fl s"
  shows "sess_inv fl (clear_pending_client_stream_state sid s)"
proof -
  obtain r pd where r: "pd_remove sid (se_pending_data s) = (r, pd)" by (cases "pd_remove sid (se_pending_data s)")
  let ?s1 = "drop_payloads (case r of None \<Rightarrow> [] | Some ps \<Rightarrow> ps) (s\<lparr>se_pending_data := pd\<rparr>)"
  have "sess_inv fl ?s1" by (rule drop_payloads_inv [OF remove_pending_inv [OF assms r]])
  then show ?thesis
    using sess_inv_sets [of fl ?s1]
    by (auto simp: clear_pending_client_stream_state_def r Let_def intro!: pending_fin_inv card_diff_le)
qed

lemma remove_stream_state_inv: "sess_inv fl s \<Longrightarrow> sess_inv fl (remove_stream_state sid s)"
  by (simp add: remove_stream_state_def clear_pending_inv unregister_inv)

lemma remember_closing_inv:
  assumes "sess_inv fl s"
  shows "sess_inv fl (remember_closing_stream pick sid s)"
proof -
  let ?c = "se_closing s"
  let ?c1 = "if sid \<notin> ?c \<and> card ?c \<ge> MAX_PENDING_STREAMS then ?c - {evicted pick ?c} else ?c"
  have c: "finite ?c" "card ?c \<le> MAX_PENDING_STREAMS" using sess_inv_sets [OF assms] by auto
  have ev: "evicted pick ?c \<in> ?c" if "?c \<noteq> {}"
    using c(1) that by (simp add: evicted_def)
  have ne: "?c \<noteq> {}" if "card ?c \<ge> MAX_PENDING_STREAMS"
    using that by (auto simp: MAX_PENDING_STREAMS_def)
  have "card (insert sid ?c1) \<le> MAX_PENDING_STREAMS"
  proof (cases "sid \<in> ?c")
    case True
    then show ?thesis using c by (simp add: insert_absorb)
  next
    case False
    then show ?thesis
      using c ev ne card_Suc_Diff1 [OF c(1), of "evicted pick ?c"] by (auto simp: not_le)
  qed
  then show ?thesis
    using assms c(1) by (simp add: remember_closing_stream_def Let_def closing_inv)
qed

lemma clear_closing_inv: "sess_inv fl s \<Longrightarrow> sess_inv fl (snd (clear_closing_stream sid s))"
  using sess_inv_sets [of fl s] by (simp add: clear_closing_stream_def closing_inv card_diff_le)

lemma finish_closing_inv: "sess_inv fl s \<Longrightarrow> sess_inv fl (finish_closing_stream pick sid s)"
  by (simp add: finish_closing_stream_def remove_stream_state_inv remember_closing_inv)

lemma close_fire_inv: "sess_inv fl s \<Longrightarrow> sess_inv fl (close_stream_fire_and_forget pick sid s)"
  by (simp add: close_stream_fire_and_forget_def Let_def finish_closing_inv split: sum.split)

lemma close_stream_inv: "sess_inv fl s \<Longrightarrow> sess_inv fl (snd (close_stream pick sid s))"
  by (simp add: close_stream_def finish_closing_inv)

lemma store_pending_fin_inv: "sess_inv fl s \<Longrightarrow> sess_inv fl (store_pending_fin sid s)"
  using sess_inv_sets [of fl s]
  by (auto simp: store_pending_fin_def card_insert_if intro!: pending_fin_inv)

section \<open>The pre-accept backlog\<close>

lemma pos_total_zero: "pos_streams po sid = None \<Longrightarrow> pos_remove sid po = po"
  by (simp add: pos_remove_def)

lemma store_pending_open_data_inv:
  assumes "sess_inv fl s"
  shows "sess_inv fl (snd (store_pending_open_data sid data s))"
proof -
  obtain p s1 where n: "new_payload data s = (p, s1)" by (cases "new_payload data s")
  then have i: "sess_inv (p # fl) s1" and d: "bp_len p = length data"
    and po: "se_pending_open s1 = se_pending_open s"
    using new_payload_inv [OF assms n] by (auto simp: bp_len_def new_payload_def case_prod_beta)
  have "sess_inv fl (s1\<lparr>se_pending_open := snd (pos_push_data sid p (se_pending_open s1))\<rparr>)"
    if c: "pos_streams (se_pending_open s1) sid = Some st"
      and t: "pos_total (se_pending_open s1) + bp_len p \<le> MAX_PENDING_STREAM_BYTES"
      and f: "pos_stream_frames (se_pending_open s1) sid < MAX_PENDING_STREAM_FRAMES" for st
    using i c t f pos_inv_push [of "se_pending_open s1" sid p]
    by (auto simp: inv_defs pos_push_data_def Let_def pos_stream_frames_def reserved_def
        msum_upd msum_remove [of "pos_streams (se_pending_open s1)" sid st] pos_inv_def)
  then show ?thesis
    using assms
    by (auto simp: store_pending_open_data_def Let_def n po d pos_contains_def not_le not_less case_prod_beta)
qed

lemma set_entry_inv:
  assumes inv: "sess_inv fl s" and st: "pos_streams (se_pending_open s) sid = Some st"
    and same: "po_buffered_data st' = po_buffered_data st" "po_bytes st' = po_bytes st"
    and n: "n + reserved st = se_pending_inbound s + reserved st'"
  shows "sess_inv fl (s\<lparr>se_pending_open := (se_pending_open s)
      \<lparr>pos_streams := (pos_streams (se_pending_open s))(sid \<mapsto> st')\<rparr>, se_pending_inbound := n\<rparr>)"
proof -
  let ?m = "pos_streams (se_pending_open s)"
  have fin: "finite (dom ?m)" using inv by (simp add: inv_defs pos_inv_def)
  have "msum f (?m(sid \<mapsto> st')) + f st = msum f ?m + f st'" for f
    using fin st by (simp add: msum_upd msum_remove [of ?m sid st])
  from this [of reserved] this [of po_bytes]
  have r: "n = msum reserved (?m(sid \<mapsto> st'))" and b: "msum po_bytes (?m(sid \<mapsto> st')) = msum po_bytes ?m"
    using n inv same by (simp_all add: inv_defs)
  have "pos_stream_frames (se_pending_open s) sid \<le> MAX_PENDING_STREAM_FRAMES"
    using inv by (simp add: inv_defs)
  then have "length (po_buffered_data st) \<le> MAX_PENDING_STREAM_FRAMES"
    by (simp add: pos_stream_frames_def st)
  then show ?thesis
    using inv st same r b by (auto simp: inv_defs pos_inv_def pos_stream_frames_def split: if_splits)
qed

lemma release_inv:
  assumes "sess_inv fl s"
  shows "case release_pending_open_reservation sid s of (released, s1) \<Rightarrow>
     sess_inv fl (if released then release_inbound_stream_reservation s1 else s1)"
proof (cases "pos_streams (se_pending_open s) sid")
  case None
  then show ?thesis
    using assms by (simp add: release_pending_open_reservation_def pos_release_reservation_def)
next
  case (Some st)
  have "reserved st \<le> se_pending_inbound s"
    using assms Some msum_ge [of "pos_streams (se_pending_open s)" sid st reserved] by (simp add: inv_defs pos_inv_def)
  then show ?thesis
    using assms Some set_entry_inv [OF assms Some, of "st\<lparr>po_reservation_released := True\<rparr>" "se_pending_inbound s - 1"]
    by (auto simp: release_pending_open_reservation_def pos_release_reservation_def
        release_inbound_stream_reservation_def reserved_def)
qed

lemma set_fin_inv:
  assumes "sess_inv fl s"
  shows "sess_inv fl (s\<lparr>se_pending_open := snd (pos_set_buffered_fin sid (se_pending_open s))\<rparr>)"
proof (cases "pos_streams (se_pending_open s) sid")
  case None
  then show ?thesis using assms by (simp add: pos_set_buffered_fin_def)
next
  case (Some st)
  then show ?thesis
    using set_entry_inv [OF assms Some, of "st\<lparr>po_buffered_fin := True\<rparr>" "se_pending_inbound s"]
    by (simp add: pos_set_buffered_fin_def reserved_def)
qed

lemma store_pending_open_fin_inv:
  "sess_inv fl s \<Longrightarrow> sess_inv fl (snd (store_pending_open_fin sid s))"
  using release_inv [OF set_fin_inv, of fl s sid sid]
  by (auto simp: store_pending_open_fin_def case_prod_beta Let_def)

text \<open>Removing an entry: its payloads are dropped, and an unreleased reservation must be given back
  by the caller.\<close>

lemma drop_pending_open_inv:
  assumes "sess_inv fl s"
    and "\<And>st. pos_streams (se_pending_open s) sid = Some st \<Longrightarrow> po_reservation_released st"
  shows "sess_inv fl (drop_pending_open sid s)"
proof (cases "pos_streams (se_pending_open s) sid")
  case None
  then show ?thesis using assms(1) by (simp add: drop_pending_open_def drop_payloads_def pos_remove_def)
next
  case (Some st)
  have "sess_inv (po_buffered_data st @ fl) (s\<lparr>se_pending_open := pos_remove sid (se_pending_open s)\<rparr>)"
    using assms Some pos_inv_remove [of "se_pending_open s" sid]
    by (auto simp: inv_defs pos_remove_def reserved_def pos_inv_def pos_stream_frames_def
        msum_remove [of "pos_streams (se_pending_open s)" sid st] split: option.splits)
  then show ?thesis using Some by (simp add: drop_pending_open_def drop_payloads_inv)
qed

section \<open>What the primitive operations leave alone\<close>

text \<open>The fields that identify streams; the handlers of PSH, FIN, SYNACK, SETTINGS and PADDING keep them,
  and only ever remove handles.\<close>

definition same_ids :: "session \<Rightarrow> session \<Rightarrow> bool" where
  "same_ids s s' \<longleftrightarrow> se_next_endpoint s' = se_next_endpoint s \<and> se_next_stream_id s' = se_next_stream_id s \<and>
     se_on_new_stream s' = se_on_new_stream s \<and> se_high_water s' = se_high_water s \<and>
     se_is_client s' = se_is_client s \<and>
     (\<forall>sid h'. se_streams s' sid = Some h' \<longrightarrow>
        (\<exists>h. se_streams s sid = Some h \<and> sh_endpoint h' = sh_endpoint h))"

definition keeps_open :: "session \<Rightarrow> session \<Rightarrow> bool" where
  "keeps_open s s' \<longleftrightarrow> dom (pos_streams (se_pending_open s')) = dom (pos_streams (se_pending_open s)) \<and>
     (\<forall>sid st. pos_streams (se_pending_open s) sid = Some st \<longrightarrow> po_reservation_released st \<longrightarrow>
        (\<exists>st'. pos_streams (se_pending_open s') sid = Some st' \<and> po_reservation_released st'))"

definition evolves :: "session \<Rightarrow> session \<Rightarrow> bool" where
  "evolves s s' \<longleftrightarrow> same_ids s s' \<and> keeps_open s s'"

lemmas evolves_defs = evolves_def same_ids_def keeps_open_def

lemma evolves_refl [simp, intro]: "evolves s s"
  by (auto simp: evolves_defs)

lemma evolves_trans [trans]: "evolves s s1 \<Longrightarrow> evolves s1 s2 \<Longrightarrow> evolves s s2"
  unfolding evolves_defs by (elim conjE) (intro conjI; (simp; fail | metis))

lemma evolves_same_open:
  "se_pending_open s' = se_pending_open s \<Longrightarrow> same_ids s s' \<Longrightarrow> evolves s s'"
  by (auto simp: evolves_def keeps_open_def)

lemma evolves_writer [simp]:
  "evolves s (writer_close s)"
  "evolves s (snd (try_write_packets ps b c s))"
  "evolves s (snd (submit_write_packets ps b c s))"
  "evolves s (snd (write_frame f c s))"
  "evolves s (force_close s)"
  "evolves s (snd (shutdown_stream sid s))"
  "evolves s (note_peer_goaway payload s)"
  "evolves s (snd (send_synack_rejection sid r s))"
  "evolves s (emit_h2_server_opening large s)"
  by (auto simp: evolves_defs writer_defs force_close_def shutdown_stream_def note_peer_goaway_def
      send_synack_rejection_def emit_h2_server_opening_def case_prod_beta Let_def
      split: traffic_class.split sum.split option.split)

lemma evolves_conn_received [simp]: "evolves s (session_conn_received n s)"
  by (auto simp: evolves_defs session_conn_received_def send_window_update_def writer_defs case_prod_beta
      Let_def split: traffic_class.split option.split)

lemma evolves_table [simp]:
  "evolves s (set_endpoint e ep s)"
  "evolves s (unregister_stream sid s)"
  "evolves s (mark_read_closed sid s)"
  "evolves s (prune_orphaned_streams s)"
  "evolves s (snd (take_synack_tx sid s))"
  by (auto simp: evolves_defs table_defs prune_orphaned_streams_def take_synack_tx_def Let_def
      split: option.splits if_splits)

lemma evolves_payload [simp]:
  "evolves s (drop_payload p s)"
  "evolves s (snd (new_payload data s))"
  "evolves s (snd (into_bytes p s))"
  "evolves s (snd (try_send_data e p s))"
  "evolves s (try_send_fin e s)"
  "evolves s (snd (send_synack e msg s))"
  "evolves s (s\<lparr>se_pending_data := pd\<rparr>)"
  "evolves s (s\<lparr>se_pending_fin := fin\<rparr>)"
  "evolves s (s\<lparr>se_closing := cl\<rparr>)"
  "evolves s (s\<lparr>se_windows := ws\<rparr>)"
  "evolves s (s\<lparr>se_arrivals := n\<rparr>)"
  by (auto simp: evolves_defs drop_payload_def new_payload_def into_bytes_def try_send_data_def
      try_send_fin_def send_synack_def set_endpoint_def case_prod_beta Let_def)

lemma drop_payloads_sel [simp]:
  "se_pending_data (drop_payloads ps s) = se_pending_data s"
  "se_pending_open (drop_payloads ps s) = se_pending_open s"
  "se_pending_fin (drop_payloads ps s) = se_pending_fin s"
  "se_streams (drop_payloads ps s) = se_streams s"
  "se_endpoints (drop_payloads ps s) = se_endpoints s"
  by (simp_all add: drop_payloads_eq)

lemma drop_payload_sel [simp]:
  "se_pending_data (drop_payload p s) = se_pending_data s"
  "se_pending_open (drop_payload p s) = se_pending_open s"
  "se_pending_fin (drop_payload p s) = se_pending_fin s"
  "se_streams (drop_payload p s) = se_streams s"
  "se_endpoints (drop_payload p s) = se_endpoints s"
  by (simp_all add: drop_payload_def)

lemma evolves_drop_payloads [simp]: "evolves s (drop_payloads ps s)"
proof (induction ps arbitrary: s)
  case Nil
  then show ?case by (simp add: drop_payloads_def)
next
  case (Cons p ps)
  show ?case
    using evolves_trans [OF _ Cons.IH, of s "drop_payload p s"] by (simp add: drop_payloads_def)
qed

text \<open>The same facts as rules that extend a chain of operations at its end.\<close>

lemmas evolves_steps =
  evolves_writer [THEN [2] evolves_trans] evolves_conn_received [THEN [2] evolves_trans]
  evolves_table [THEN [2] evolves_trans] evolves_payload [THEN [2] evolves_trans]
  evolves_drop_payloads [THEN [2] evolves_trans]

lemma evolves_closing [simp]:
  "evolves s (clear_pending_client_stream_state sid s)"
  "evolves s (remember_closing_stream pick sid s)"
  "evolves s (snd (clear_closing_stream sid s))"
  "evolves s (store_pending_fin sid s)"
  "evolves s (snd (store_pending_data sid p s))"
  by (auto simp: clear_pending_client_stream_state_def remember_closing_stream_def clear_closing_stream_def
      store_pending_fin_def store_pending_data_def case_prod_beta Let_def
      intro!: evolves_steps(20-)) 

lemmas evolves_steps2 = evolves_steps evolves_closing [THEN [2] evolves_trans]

lemma evolves_closers [simp]:
  "evolves s (remove_stream_state sid s)"
  "evolves s (finish_closing_stream pick sid s)"
  "evolves s (snd (close_stream pick sid s))"
  "evolves s (close_stream_fire_and_forget pick sid s)"
  by (auto simp: remove_stream_state_def finish_closing_stream_def close_stream_def
      close_stream_fire_and_forget_def Let_def intro!: evolves_steps2 split: sum.split)

lemma evolves_open_data [simp]: "evolves s (snd (store_pending_open_data sid data s))"
  by (auto simp: store_pending_open_data_def new_payload_def pos_push_data_def pos_contains_def
      case_prod_beta Let_def evolves_defs split: option.splits)

lemma evolves_release [simp]:
  "evolves s (release_inbound_stream_reservation s)"
  "evolves s (snd (release_pending_open_reservation sid s))"
  by (auto simp: release_inbound_stream_reservation_def release_pending_open_reservation_def
      pos_release_reservation_def case_prod_beta Let_def evolves_defs split: option.splits)

lemma evolves_set_fin [simp]:
  "evolves s (s\<lparr>se_pending_open := snd (pos_set_buffered_fin sid (se_pending_open s))\<rparr>)"
  by (auto simp: pos_set_buffered_fin_def evolves_defs split: option.splits)

lemma evolves_open_fin [simp]: "evolves s (snd (store_pending_open_fin sid s))"
  by (auto simp: store_pending_open_fin_def case_prod_beta Let_def
      intro!: evolves_release [THEN [2] evolves_trans] evolves_set_fin)

lemmas evolves_steps3 = evolves_steps2 evolves_closers [THEN [2] evolves_trans]
  evolves_open_data [THEN [2] evolves_trans] evolves_release [THEN [2] evolves_trans]
  evolves_open_fin [THEN [2] evolves_trans]

lemma evolves_bound: "evolves s s' \<Longrightarrow> se_next_endpoint s' = se_next_endpoint s"
  by (simp add: evolves_defs)

lemma evolves_fun:
  "f s = (r, s') \<Longrightarrow> evolves s (snd (f s)) \<Longrightarrow> evolves s s'"
  by simp

section \<open>The dispatcher keeps the books\<close>

lemma flush_client_loop_inv:
  assumes "sess_inv (ps @ rem @ fl) s" "e < se_next_endpoint s"
    and "flush_client_loop e ps ad rem s = (r, s')"
  shows "evolves s s' \<and> se_pending_data s' = se_pending_data s \<and> se_pending_fin s' = se_pending_fin s \<and>
    (case r of None \<Rightarrow> sess_inv fl s' | Some (ad', rem') \<Rightarrow>
       sess_inv (rem' @ fl) s' \<and> sum_len rem' \<le> sum_len (rem @ ps) \<and> length rem' \<le> length (rem @ ps))"
  using assms
proof (induction e ps ad rem s arbitrary: r s' rule: flush_client_loop.induct)
  case (1 e ad rem s)
  then show ?case by auto
next
  case (2 e p ps ad rem s)
  have perm: "sess_inv (ps @ (rem @ [p]) @ fl) t" if "sess_inv (p # ps @ rem @ fl) t" for t
    using that by (subst sess_inv_flight_perm [of _ "p # ps @ rem @ fl"]) simp_all
  show ?case
  proof (cases ad)
    case False
    have "flush_client_loop e ps False (rem @ [p]) s = (r, s')" using "2.prems"(3) False by simp
    note ih = "2.IH"(3) [OF False perm "2.prems"(2) this]
    show ?thesis using ih "2.prems"(1) by (cases r) (simp_all add: ac_simps case_prod_beta)
  next
    case True
    obtain k s1 where k: "try_send_data e p s = (k, s1)" by (cases "try_send_data e p s")
    have i: "sess_inv (if k = SendOk then ps @ rem @ fl else p # ps @ rem @ fl) s1"
      using try_send_data_inv [OF _ "2.prems"(2) k] "2.prems"(1) by simp
    have ev: "evolves s s1" using evolves_payload(4) [of s e p] by (simp add: k)
    have pd: "se_pending_data s1 = se_pending_data s" "se_pending_fin s1 = se_pending_fin s"
      using k by (auto simp: try_send_data_def set_endpoint_def Let_def split: if_splits)
    have b: "e < se_next_endpoint s1" using "2.prems"(2) evolves_bound [OF ev] by simp
    show ?thesis
    proof (cases k)
      case SendOk
      have "flush_client_loop e ps True rem s1 = (r, s')" using "2.prems"(3) True k SendOk by simp
      note ih = "2.IH"(1) [OF True k [symmetric] SendOk _ b this]
      show ?thesis
        using ih i pd evolves_trans [OF ev, of s'] SendOk by (cases r) (simp_all add: ac_simps case_prod_beta)
    next
      case SendFull
      have "flush_client_loop e ps False (rem @ [p]) s1 = (r, s')" using "2.prems"(3) True k SendFull by simp
      note ih = "2.IH"(2) [OF True k [symmetric] SendFull perm b this]
      show ?thesis
        using ih i pd evolves_trans [OF ev, of s'] SendFull by (cases r) (simp_all add: ac_simps case_prod_beta)
    next
      case SendClosed
      let ?t = "drop_payloads ps (drop_payloads rem (drop_payload p s1))"
      have "sess_inv (rem @ ps @ fl) (drop_payload p s1)"
        using drop_payload_inv [of p "ps @ rem @ fl" s1] i SendClosed
        by (simp add: sess_inv_flight_perm [of "rem @ ps @ fl" "ps @ rem @ fl"])
      then have "sess_inv fl ?t" by (intro drop_payloads_inv)
      moreover have "evolves s ?t" using ev by (intro evolves_steps)
      moreover have "r = None" "s' = ?t" using "2.prems"(3) True k SendClosed by auto
      moreover have "se_pending_data ?t = se_pending_data s" "se_pending_fin ?t = se_pending_fin s"
        using pd by simp_all
      ultimately show ?thesis by simp
    qed
  qed
qed

lemma fold_push_inv:
  assumes "sess_inv (rem @ fl) s"
    and "pd_total (se_pending_data s) + sum_len rem \<le> MAX_PENDING_STREAM_BYTES"
    and "rem = [] \<or> pd_contains (se_pending_data s) sid \<or> pd_len (se_pending_data s) < MAX_PENDING_STREAMS"
    and "length (pd_contents (se_pending_data s) sid) + length rem \<le> MAX_PENDING_STREAM_FRAMES"
  shows "sess_inv fl (s\<lparr>se_pending_data := fold (pd_push_back sid) rem (se_pending_data s)\<rparr>)"
  using assms
proof (induction rem arbitrary: s)
  case Nil
  then show ?case by simp
next
  case (Cons p rem)
  let ?s1 = "s\<lparr>se_pending_data := pd_push_back sid p (se_pending_data s)\<rparr>"
  have "sess_inv (rem @ fl) ?s1" using Cons.prems by (intro push_inv) auto
  moreover have "pd_contains (se_pending_data ?s1) sid" by (simp add: pd_contains_def pd_push_back_def Let_def)
  ultimately show ?case
    using Cons.IH [of ?s1] Cons.prems by (simp add: pd_push_total pd_contents_laws(2))
qed

lemma pd_remove_len:
  "pd_inv pd \<Longrightarrow> pd_remove sid pd = (r, pd') \<Longrightarrow> pd_contents pd sid \<noteq> [] \<Longrightarrow> pd_len pd' < pd_len pd"
  using card_Diff1_less [of "dom (pd_queues pd)" sid]
  by (auto simp: pd_remove_def pd_contents_def pd_len_def pd_inv_def domIff split: option.splits)

lemma evolves_flush_client: "sess_inv fl s \<Longrightarrow> evolves s (flush_client_pending_stream pick sid s)"
  and flush_client_inv: "sess_inv fl s \<Longrightarrow> sess_inv fl (flush_client_pending_stream pick sid s)"
proof -
  assume inv: "sess_inv fl s"
  have "evolves s (flush_client_pending_stream pick sid s) \<and> sess_inv fl (flush_client_pending_stream pick sid s)"
  proof (cases "se_streams s sid")
    case None
    then show ?thesis using inv by (simp add: flush_client_pending_stream_def)
  next
    case (Some h)
    obtain r pd where r: "pd_remove sid (se_pending_data s) = (r, pd)" by (cases "pd_remove sid (se_pending_data s)")
    let ?ps = "case r of None \<Rightarrow> [] | Some ps \<Rightarrow> ps"
    let ?s1 = "s\<lparr>se_pending_data := pd, se_pending_fin := se_pending_fin s - {sid}\<rparr>"
    have ps: "?ps = pd_contents (se_pending_data s) sid" and pdc: "pd_contents pd sid = []"
      using pd_remove_contents [OF r] by auto
    have b: "sh_endpoint h < se_next_endpoint ?s1" using inv Some by (auto simp: inv_defs)
    have i1: "sess_inv (?ps @ [] @ fl) ?s1"
      using remove_pending_inv [OF inv r] sess_inv_sets [OF inv] by (simp add: pending_fin_inv card_diff_le)
    have e1: "evolves s ?s1" by (intro evolves_steps evolves_refl)
    obtain q s2 where q: "flush_client_loop (sh_endpoint h) ?ps True [] ?s1 = (q, s2)"
      by (cases "flush_client_loop (sh_endpoint h) ?ps True [] ?s1")
    note loop = flush_client_loop_inv [OF i1 b q]
    have e2: "evolves s s2" using loop evolves_trans [OF e1] by blast
    have tot: "pd_inv (se_pending_data s)" "pd_total (se_pending_data s) \<le> MAX_PENDING_STREAM_BYTES"
      "pd_len (se_pending_data s) \<le> MAX_PENDING_STREAMS"
      "length (pd_contents (se_pending_data s) sid) \<le> MAX_PENDING_STREAM_FRAMES"
      using inv by (auto simp: inv_defs)
    note rm = pd_remove_total [OF tot(1) r] pd_remove_len [OF tot(1) r]
    show ?thesis
    proof (cases q)
      case None
      then have "flush_client_pending_stream pick sid s = close_stream_fire_and_forget pick sid s2"
        using Some r q by (simp add: flush_client_pending_stream_def Let_def)
      moreover have "sess_inv fl s2" using loop None by simp
      ultimately show ?thesis using evolves_trans [OF e2 evolves_closers(4)] close_fire_inv by simp
    next
      case (Some q')
      obtain ad rem where ar: "q' = (ad, rem)" by (cases q')
      let ?s3 = "s2\<lparr>se_pending_data := fold (pd_push_back sid) rem (se_pending_data s2)\<rparr>"
      have l: "sess_inv (rem @ fl) s2" "sum_len rem \<le> sum_len ?ps" "length rem \<le> length ?ps"
        "se_pending_data s2 = pd" "se_pending_fin s2 = se_pending_fin s - {sid}"
        using loop Some ar by auto
      have le: "sum_len rem \<le> sum_len (pd_contents (se_pending_data s) sid)"
        "length rem \<le> length (pd_contents (se_pending_data s) sid)"
        using l(2,3) unfolding ps by simp_all
      have "rem = [] \<or> pd_contains pd sid \<or> pd_len pd < MAX_PENDING_STREAMS"
        using le(2) rm(2) tot(3) by (cases "pd_contents (se_pending_data s) sid") auto
      then have i3: "sess_inv fl ?s3"
        using l(1) rm(1) tot le pdc by (intro fold_push_inv) (simp_all add: l(4))
      have e3: "evolves s ?s3" using e2 by (intro evolves_steps)
      have b3: "sh_endpoint h < se_next_endpoint ?s3" using b evolves_bound [OF e3] by simp
      have fin3: "finite (insert sid (se_pending_fin ?s3))"
        "sid \<in> se_pending_fin s \<Longrightarrow> card (insert sid (se_pending_fin ?s3)) \<le> MAX_PENDING_STREAMS"
        using sess_inv_sets [OF inv] l(5) by (auto simp: insert_absorb)
      have "flush_client_pending_stream pick sid s =
          (if sid \<in> se_pending_fin s
           then if ad then snd (clear_closing_stream sid (unregister_stream sid (try_send_fin (sh_endpoint h) ?s3)))
                else ?s3\<lparr>se_pending_fin := insert sid (se_pending_fin ?s3)\<rparr>
           else ?s3)"
        using \<open>se_streams s sid = Some h\<close> r q Some ar by (simp add: flush_client_pending_stream_def Let_def)
      then show ?thesis
        using i3 e3 fin3 b3
        by (simp add: clear_closing_inv unregister_inv try_send_fin_inv pending_fin_inv evolves_steps3 del: insert_iff)
    qed
  qed
  then show "evolves s (flush_client_pending_stream pick sid s)" "sess_inv fl (flush_client_pending_stream pick sid s)"
    by simp_all
qed

lemma store_or_close_inv: "sess_inv (p # fl) s \<Longrightarrow> sess_inv fl (store_or_close pick sid p s)"
  using store_pending_data_inv [of p fl s sid] close_fire_inv
  by (auto simp: store_or_close_def case_prod_beta split: prod.split bool.split)

lemma evolves_store_or_close [simp]: "evolves s (store_or_close pick sid p s)"
proof (cases "store_pending_data sid p s")
  case (Pair b s1)
  then have "evolves s s1" by (metis evolves_closing(5) snd_conv)
  then show ?thesis using Pair evolves_trans [OF _ evolves_closers(4)]
    by (auto simp: store_or_close_def split: bool.split)
qed

lemma deliver_psh_inv:
  assumes "sess_inv fl s" "e < se_next_endpoint s"
  shows "sess_inv fl (deliver_psh env sid e data s) \<and> evolves s (deliver_psh env sid e data s)"
proof -
  obtain p s1 where n: "new_payload data s = (p, s1)" by (cases "new_payload data s")
  obtain r s2 where r: "try_send_data e p s1 = (r, s2)" by (cases "try_send_data e p s1")
  have i: "sess_inv (p # fl) s1" and e1: "evolves s s1"
    using new_payload_inv [OF assms(1) n] evolves_payload(2) [of s data] by (simp_all add: n)
  have i2: "sess_inv (if r = SendOk then fl else p # fl) s2"
    using try_send_data_inv [OF i _ r] assms(2) evolves_bound [OF e1] by simp
  have e2: "evolves s s2" using evolves_trans [OF e1 evolves_payload(4), of e p] by (simp add: r)
  show ?thesis
    using i i2 e1 e2
    by (auto simp: deliver_psh_def Let_def n r store_or_close_inv drop_payload_inv
        intro: evolves_trans split: send_result.split)
qed

lemma handle_bound: "sess_inv fl s \<Longrightarrow> se_streams s sid = Some h \<Longrightarrow> sh_endpoint h < se_next_endpoint s"
  by (auto simp: sess_inv_def table_inv_def)

lemma dispatch_bound: "sess_inv fl s \<Longrightarrow> dispatch_psh sid s = Deliver e \<Longrightarrow> e < se_next_endpoint s"
  by (auto simp: dispatch_psh_def handle_bound split: option.splits if_splits)

lemma handle_psh_inv:
  assumes "sess_inv fl s"
  shows "sess_inv fl (handle_psh env sid data s) \<and> evolves s (handle_psh env sid data s)"
proof -
  let ?s0 = "session_conn_received (length data) s"
  obtain st s1 where s1: "(if pos_contains (se_pending_open ?s0) sid
      then store_pending_open_data sid data ?s0 else (False, ?s0)) = (st, s1)" by fastforce
  have "sess_inv fl (snd (if pos_contains (se_pending_open ?s0) sid
      then store_pending_open_data sid data ?s0 else (False, ?s0)))"
    using assms by (simp add: store_pending_open_data_inv)
  then have i1: "sess_inv fl s1" by (simp add: s1)
  have "evolves s (snd (if pos_contains (se_pending_open ?s0) sid
      then store_pending_open_data sid data ?s0 else (False, ?s0)))"
    by (simp add: evolves_steps3)
  then have e1: "evolves s s1" by (simp add: s1)
  obtain p s2 where n: "new_payload data s1 = (p, s2)" by (cases "new_payload data s1")
  have i2: "sess_inv (p # fl) s2" and e2: "evolves s s2"
    using new_payload_inv [OF i1 n] evolves_trans [OF e1 evolves_payload(2), of data] by (simp_all add: n)
  have "sess_inv fl (deliver_psh env sid e data s1) \<and> evolves s (deliver_psh env sid e data s1)"
    if "dispatch_psh sid s1 = Deliver e" for e
    using deliver_psh_inv [OF i1 dispatch_bound [OF i1 that]] evolves_trans [OF e1] by blast
  then show ?thesis
    using i1 e1 store_pending_data_inv [OF i2] evolves_trans [OF e2 evolves_closing(5)]
    by (auto simp: handle_psh_def s1 n split: psh_dispatch.split)
qed

lemma handle_fin_inv:
  assumes "sess_inv fl s"
  shows "sess_inv fl (handle_fin sid s) \<and> evolves s (handle_fin sid s)"
proof -
  obtain tx s1 where t: "(if se_is_client s then take_synack_tx sid s else (None, s)) = (tx, s1)" by fastforce
  have i1: "sess_inv fl s1" and e1: "evolves s s1" and b1: "\<And>e. tx = Some e \<Longrightarrow> e < se_next_endpoint s1"
    using t take_synack_inv [OF assms, of sid] evolves_table(5) [of s sid] assms
    by (auto simp: take_synack_tx_def handle_bound split: if_splits option.splits)
  show ?thesis
  proof (cases tx)
    case (Some e)
    then show ?thesis
      using t i1 e1 b1 by (auto simp: handle_fin_def store_pending_fin_inv send_synack_inv evolves_steps3)
  next
    case None
    obtain b s2 where s2: "store_pending_open_fin sid s1 = (b, s2)" by (cases "store_pending_open_fin sid s1")
    obtain c s3 where s3: "clear_closing_stream sid s2 = (c, s3)" by (cases "clear_closing_stream sid s2")
    have i2: "sess_inv fl s2" "evolves s s2"
      using store_pending_open_fin_inv [OF i1, of sid] evolves_trans [OF e1 evolves_open_fin, of sid] by (simp_all add: s2)
    have i3: "sess_inv fl s3" "evolves s s3"
      using clear_closing_inv [OF i2(1), of sid] evolves_trans [OF i2(2) evolves_closing(3), of sid] by (simp_all add: s3)
    have "sess_inv fl (try_send_fin (sh_endpoint h) (mark_read_closed sid s3))"
      "evolves s (try_send_fin (sh_endpoint h) (mark_read_closed sid s3))"
      if "se_streams s3 sid = Some h" for h
      using i3 handle_bound [OF i3(1) that] evolves_bound [OF evolves_table(3), of sid s3]
      by (auto intro!: try_send_fin_inv mark_read_closed_inv evolves_steps3)
    then show ?thesis
      using None t s2 s3 i2 i3
      by (auto simp: handle_fin_def Let_def clear_closing_inv evolves_steps3 split: option.split bool.split)
  qed
qed

lemma handle_synack_inv:
  assumes "sess_inv fl s"
  shows "sess_inv fl (handle_synack env sid payload s) \<and> evolves s (handle_synack env sid payload s)"
proof -
  obtain tx s1 where t: "take_synack_tx sid s = (tx, s1)" by (cases "take_synack_tx sid s")
  have i1: "sess_inv fl s1" and e1: "evolves s s1" and b1: "\<And>e. tx = Some e \<Longrightarrow> e < se_next_endpoint s1"
    using t take_synack_inv [OF assms, of sid] evolves_table(5) [of s sid] assms
    by (auto simp: take_synack_tx_def handle_bound split: if_splits option.splits)
  show ?thesis
  proof (cases tx)
    case None
    then show ?thesis using t i1 e1 by (simp add: handle_synack_def)
  next
    case (Some e)
    obtain b s2 where s2: "send_synack e payload s1 = (b, s2)" by (cases "send_synack e payload s1")
    have i2: "sess_inv fl s2" "evolves s s2"
      using send_synack_inv [OF i1 b1 [OF Some], of payload] evolves_trans [OF e1 evolves_payload(6), of e payload]
      by (simp_all add: s2)
    show ?thesis
      using t Some s2 i1 e1 i2 remove_stream_state_inv [OF i2(1), of sid]
        evolves_trans [OF i2(2) evolves_closers(1), of sid]
        flush_client_inv [OF i2(1)] evolves_trans [OF i2(2) evolves_flush_client [OF i2(1)]]
      by (simp add: handle_synack_def Let_def)
  qed
qed

lemma handle_settings_inv:
  "sess_inv fl s \<Longrightarrow> sess_inv fl (handle_settings env sr payload s) \<and> evolves s (handle_settings env sr payload s)"
  by (auto simp: handle_settings_def Let_def intro!: evolves_steps3)

lemma handle_padding_inv:
  assumes "sess_inv fl s"
  shows "sess_inv fl (snd (handle_padding env sid payload s)) \<and> evolves s (snd (handle_padding env sid payload s))"
proof -
  have "sess_inv fl (set_endpoint (sh_endpoint h) ((se_endpoints s (sh_endpoint h))\<lparr>ep_send_credit := c\<rparr>) s)"
    if "se_streams s sid = Some h" for h c
    using assms handle_bound [OF assms that] by (intro set_endpoint_same_data) simp_all
  then show ?thesis
    using assms by (auto simp: handle_padding_def Let_def split: option.split)
qed

text \<open>A SYN is the only frame that changes the queue of new streams: it reserves, inserts and
  announces a stream that was unknown, or leaves everything as it was.\<close>

lemma reserve_insert_inv:
  assumes "sess_inv fl s" "try_reserve_inbound_stream s = (True, s1)" "\<not> pos_contains (se_pending_open s) sid"
  shows "sess_inv fl (s1\<lparr>se_pending_open := pos_insert_new sid (se_pending_open s1)\<rparr>)"
  using assms pos_inv_insert [of "se_pending_open s" sid]
  by (auto simp: try_reserve_inbound_stream_def inv_defs pos_insert_new_def pos_contains_def pos_remove_def
      Let_def reserved_def po_default_def pos_stream_frames_def msum_upd msum_delete_none pos_inv_def
      split: if_splits)

lemma drop_open_release_inv:
  assumes "sess_inv fl s" "pos_streams (se_pending_open s) sid = Some st" "\<not> po_reservation_released st"
  shows "sess_inv fl (release_inbound_stream_reservation (drop_pending_open sid s))"
proof -
  have ge: "1 \<le> se_pending_inbound s"
    using assms msum_ge [of "pos_streams (se_pending_open s)" sid st reserved] by (simp add: inv_defs pos_inv_def reserved_def)
  let ?s1 = "s\<lparr>se_pending_open := (se_pending_open s)\<lparr>pos_streams := (pos_streams (se_pending_open s))
      (sid \<mapsto> st\<lparr>po_reservation_released := True\<rparr>)\<rparr>, se_pending_inbound := se_pending_inbound s - 1\<rparr>"
  have "sess_inv fl (drop_pending_open sid ?s1)"
    using assms ge by (intro drop_pending_open_inv set_entry_inv) (auto simp: reserved_def)
  moreover have "drop_pending_open sid ?s1 = release_inbound_stream_reservation (drop_pending_open sid s)"
    using assms(2) ge
    by (simp add: drop_pending_open_def pos_remove_def release_inbound_stream_reservation_def drop_payloads_eq)
  ultimately show ?thesis by simp
qed

text \<open>How the ids of a session relate: an announced stream has an entry in the pre-accept backlog and
  no handle; a stream whose acceptance is under way has given its reservation back; a client hands
  out ids in increasing order.\<close>

type_synonym accepting = "u32 \<rightharpoonup> nat \<times> bool"

definition queue_inv :: "accepting \<Rightarrow> session \<Rightarrow> bool" where
  "queue_inv acc s \<longleftrightarrow>
     (case se_on_new_stream s of
        None \<Rightarrow> True
      | Some q \<Rightarrow> se_next_stream_id s = 0 \<and> distinct q \<and>
          (\<forall>sid\<in>set q. pos_contains (se_pending_open s) sid \<and> se_streams s sid = None \<and> acc sid = None))"

definition accepting_inv :: "accepting \<Rightarrow> session \<Rightarrow> bool" where
  "accepting_inv acc s \<longleftrightarrow>
     (\<forall>sid e d. acc sid = Some (e, d) \<longrightarrow> e < se_next_endpoint s \<and>
        (\<exists>st. pos_streams (se_pending_open s) sid = Some st \<and> po_reservation_released st))"

definition order_inv :: "session \<Rightarrow> bool" where
  "order_inv s \<longleftrightarrow> (\<forall>sid\<in>dom (se_streams s). se_next_stream_id s \<noteq> 0 \<longrightarrow> sid < se_next_stream_id s)"

definition endpoints_inv :: "session \<Rightarrow> bool" where
  "endpoints_inv s \<longleftrightarrow> (\<forall>sid h sid' h'. se_streams s sid = Some h \<longrightarrow> se_streams s sid' = Some h' \<longrightarrow>
     sh_endpoint h = sh_endpoint h' \<longrightarrow> sid = sid')"

definition ids_inv :: "accepting \<Rightarrow> session \<Rightarrow> bool" where
  "ids_inv acc s \<longleftrightarrow> queue_inv acc s \<and> accepting_inv acc s \<and> order_inv s \<and> endpoints_inv s"

lemmas ids_defs = ids_inv_def queue_inv_def accepting_inv_def order_inv_def endpoints_inv_def

lemma ids_inv_same:
  assumes "se_on_new_stream s' = se_on_new_stream s" "se_next_stream_id s' = se_next_stream_id s"
    "se_next_endpoint s' = se_next_endpoint s" "se_streams s' = se_streams s"
    "pos_streams (se_pending_open s') = pos_streams (se_pending_open s)"
  shows "ids_inv acc s' = ids_inv acc s"
  unfolding ids_defs pos_contains_def assms by (rule refl)

lemma evolvesD:
  assumes "evolves s s'"
  shows "se_next_endpoint s' = se_next_endpoint s" "se_next_stream_id s' = se_next_stream_id s"
    "se_on_new_stream s' = se_on_new_stream s" "se_high_water s' = se_high_water s"
    "se_is_client s' = se_is_client s"
    "sid \<in> dom (se_streams s') \<Longrightarrow> sid \<in> dom (se_streams s)"
    "se_streams s' sid = Some h' \<Longrightarrow> \<exists>h. se_streams s sid = Some h \<and> sh_endpoint h' = sh_endpoint h"
    "se_streams s sid = None \<Longrightarrow> se_streams s' sid = None"
    "pos_contains (se_pending_open s') sid = pos_contains (se_pending_open s) sid"
    "pos_streams (se_pending_open s) sid = Some st \<Longrightarrow> po_reservation_released st \<Longrightarrow>
       \<exists>st'. pos_streams (se_pending_open s') sid = Some st' \<and> po_reservation_released st'"
proof -
  have "pos_contains po x \<longleftrightarrow> x \<in> dom (pos_streams po)" for po x by (auto simp: pos_contains_def)
  then show "pos_contains (se_pending_open s') sid = pos_contains (se_pending_open s) sid"
    using assms by (simp add: evolves_defs)
  have sub: "dom (se_streams s') \<subseteq> dom (se_streams s)" 
    using assms unfolding evolves_def same_ids_def by (meson domD domI subsetI)
  then show "sid \<in> dom (se_streams s') \<Longrightarrow> sid \<in> dom (se_streams s)" by blast
  show "se_streams s sid = None \<Longrightarrow> se_streams s' sid = None" using sub by (meson domIff subsetD)
qed (use assms in \<open>simp_all add: evolves_defs\<close>)

lemma ids_inv_evolves:
  assumes "ids_inv acc s" "evolves s s'"
  shows "ids_inv acc s'"
proof -
  note ev = evolvesD [OF assms(2)]
  have "queue_inv acc s'"
    using assms(1) ev(8) unfolding ids_inv_def queue_inv_def ev(2,3) ev(9) by (auto split: option.splits)
  moreover have "accepting_inv acc s'"
    using assms(1) ev(10) unfolding ids_inv_def accepting_inv_def ev(1) by meson
  moreover have "order_inv s'"
    using assms(1) ev(6) unfolding ids_inv_def order_inv_def ev(2) by meson
  moreover have "endpoints_inv s'"
    using assms(1) ev(7) unfolding ids_inv_def endpoints_inv_def by metis
  ultimately show ?thesis by (simp add: ids_inv_def)
qed

lemma handle_syn_inv:
  assumes "sess_inv [] s" "ids_inv acc s"
  shows "sess_inv [] (snd (handle_syn sid sr s)) \<and> ids_inv acc (snd (handle_syn sid sr s))"
proof -
  let ?s = "s\<lparr>se_high_water := max (se_high_water s) sid\<rparr>"
  have i: "sess_inv [] ?s" "ids_inv acc ?s" using assms by (simp_all add: ids_inv_same [of ?s s])
  have rej: "sess_inv [] (snd (send_synack_rejection sid r t)) \<and> ids_inv acc (snd (send_synack_rejection sid r t))"
    if "sess_inv [] t" "ids_inv acc t" for r t
    using that ids_inv_evolves [OF that(2) evolves_writer(8)] by simp
  show ?thesis
  proof (cases "\<not> sr \<or> se_streams ?s sid \<noteq> None \<or> pos_contains (se_pending_open ?s) sid \<or>
      \<not> fst (try_reserve_inbound_stream ?s)")
    case True
    then show ?thesis
      using rej [OF i] by (auto simp: handle_syn_def Let_def try_reserve_inbound_stream_def)
  next
    case False
    obtain s1 where s1: "try_reserve_inbound_stream ?s = (True, s1)" and fresh: "se_streams ?s sid = None"
      and unknown: "\<not> pos_contains (se_pending_open ?s) sid" and sr
      using False by (cases "try_reserve_inbound_stream ?s") auto
    let ?s2 = "s1\<lparr>se_pending_open := pos_insert_new sid (se_pending_open s1)\<rparr>"
    have i2: "sess_inv [] ?s2" by (rule reserve_insert_inv [OF i(1) s1 unknown])
    have s1_eq: "s1 = ?s\<lparr>se_pending_inbound := se_pending_inbound ?s + 1\<rparr>"
      using s1 by (auto simp: try_reserve_inbound_stream_def split: if_splits)
    have st: "pos_streams (se_pending_open ?s2) = (pos_streams (se_pending_open s))(sid \<mapsto> po_default)"
      using unknown by (simp add: s1_eq pos_insert_new_def pos_contains_def pos_remove_def Let_def)
    have undo: "sess_inv [] (release_inbound_stream_reservation (drop_pending_open sid t)) \<and>
        ids_inv acc (release_inbound_stream_reservation (drop_pending_open sid t))"
      if "t = ?s2 \<or> (\<exists>q. t = ?s2\<lparr>se_on_new_stream := Some q\<rparr> \<and> se_on_new_stream s = Some q)" for t
    proof -
      have "sess_inv [] t" using that i2 by (auto simp: inv_defs s1_eq)
      moreover have "pos_streams (se_pending_open t) sid = Some po_default" using that st by auto
      moreover have "ids_inv acc (release_inbound_stream_reservation (drop_pending_open sid t))"
      proof -
        have "pos_streams (se_pending_open (release_inbound_stream_reservation (drop_pending_open sid t))) =
            pos_streams (se_pending_open s)"
          using that st unknown
          by (auto simp: release_inbound_stream_reservation_def drop_pending_open_def drop_payloads_eq pos_remove_def
              pos_contains_def fun_eq_iff)
        then show ?thesis
          using that assms(2)
          by (subst ids_inv_same [of _ s]) (auto simp: release_inbound_stream_reservation_def drop_pending_open_def
              drop_payloads_eq s1_eq)
      qed
      ultimately show ?thesis by (simp add: drop_open_release_inv po_default_def)
    qed
    show ?thesis
    proof (cases "se_on_new_stream s")
      case None
      then show ?thesis
        using s1 fresh unknown \<open>sr\<close> rej undo [of ?s2] by (simp add: handle_syn_def Let_def s1_eq reject_reserved_def)
    next
      case (Some q)
      show ?thesis
      proof (cases "length q \<ge> NEW_STREAM_CHANNEL_CAPACITY")
        case True
        then show ?thesis
          using s1 fresh unknown \<open>sr\<close> Some rej undo [of "?s2\<lparr>se_on_new_stream := Some q\<rparr>"]
          by (simp add: handle_syn_def Let_def s1_eq on_new_stream_def reject_reserved_def)
      next
        case False
        let ?s3 = "?s2\<lparr>se_on_new_stream := Some (q @ [sid])\<rparr>"
        have "sess_inv [] ?s3" using i2 False by (auto simp: inv_defs s1_eq)
        moreover have "ids_inv acc ?s3"
        proof -
          have q: "queue_inv acc s" "accepting_inv acc s" "order_inv s" using assms(2) by (simp_all add: ids_inv_def)
          have unk: "pos_streams (se_pending_open s) sid = None" using unknown by (simp add: pos_contains_def)
          then have new: "sid \<notin> set q" using q(1) Some by (auto simp: queue_inv_def pos_contains_def)
          have noacc: "acc sid = None"
            using q(2) unk unfolding accepting_inv_def by (cases "acc sid") force+
          have "queue_inv acc ?s3"
            using q(1) Some new noacc fresh by (auto simp: queue_inv_def s1_eq pos_contains_def pos_insert_new_def pos_remove_def unk Let_def)
          moreover have "accepting_inv acc ?s3"
            using q(2) noacc unfolding accepting_inv_def by (auto simp: s1_eq pos_insert_new_def pos_remove_def unk Let_def)
          moreover have "order_inv ?s3" "endpoints_inv ?s3"
            using assms(2) by (simp_all add: ids_inv_def order_inv_def endpoints_inv_def s1_eq)
          ultimately show ?thesis by (simp add: ids_inv_def)
        qed
        ultimately show ?thesis
          using s1 fresh unknown \<open>sr\<close> Some False by (simp add: handle_syn_def Let_def s1_eq on_new_stream_def)
      qed
    qed
  qed
qed

lemma handle_frame_inv:
  assumes "sess_inv [] s" "ids_inv acc s" "handle_frame env f sr s = (err, sr', s')"
  shows "sess_inv [] s' \<and> ids_inv acc s'"
proof -
  note pres = handle_psh_inv [OF assms(1)] handle_fin_inv [OF assms(1)] handle_synack_inv [OF assms(1)]
    handle_settings_inv [OF assms(1)] handle_padding_inv [OF assms(1)]
  show ?thesis
    using assms(3) handle_syn_inv [OF assms(1,2)] pres assms(1,2) ids_inv_evolves [OF assms(2)]
    by (auto simp: handle_frame_def Let_def case_prod_beta split: if_splits)
qed

section \<open>Accepting, opening and reading keep the books\<close>

lemma take_ready_inv:
  assumes "sess_inv fl s" "pos_streams (se_pending_open s) sid = Some st"
  shows "sess_inv (po_buffered_data st @ fl)
    (s\<lparr>se_pending_open := snd (pos_take_ready sid (se_pending_open s))\<rparr>)"
proof -
  let ?m = "pos_streams (se_pending_open s)" and ?st = "st\<lparr>po_buffered_data := [], po_bytes := 0, po_buffered_fin := False\<rparr>"
  have fin: "finite (dom ?m)" using assms by (simp add: inv_defs pos_inv_def)
  have "msum f (?m(sid \<mapsto> ?st)) + f st = msum f ?m + f ?st" for f
    using fin assms(2) by (simp add: msum_upd msum_remove [of ?m sid st])
  from this [of reserved] this [of po_bytes]
  have r: "msum reserved (?m(sid \<mapsto> ?st)) = msum reserved ?m"
    and b: "msum po_bytes (?m(sid \<mapsto> ?st)) + po_bytes st = msum po_bytes ?m"
    by (simp_all add: reserved_def)
  have "po_bytes st = sum_len (po_buffered_data st)" "pos_total (se_pending_open s) = msum po_bytes ?m"
    using assms by (simp_all add: inv_defs pos_inv_def)
  then show ?thesis
    using assms r b pos_inv_take [of "se_pending_open s" sid]
    by (auto simp: inv_defs pos_take_ready_def Let_def pos_stream_frames_def split: if_splits)
qed

lemma evolves_take_ready [simp]:
  "evolves s (s\<lparr>se_pending_open := snd (pos_take_ready sid (se_pending_open s))\<rparr>)"
  by (auto simp: pos_take_ready_def Let_def evolves_defs split: option.splits)

lemma accept_deliver_inv:
  assumes "sess_inv (ps @ ov @ fl) s" "e < se_next_endpoint s" "accept_deliver e ps d ov s = (r, s')"
  shows "evolves s s' \<and> (case r of None \<Rightarrow> sess_inv fl s' | Some (d', ov') \<Rightarrow> sess_inv (ov' @ fl) s')"
  using assms
proof (induction e ps d ov s arbitrary: r s' rule: accept_deliver.induct)
  case (1 e d ov s)
  then show ?case by auto
next
  case (2 e p ps d ov s)
  have perm: "sess_inv (ps @ (ov @ [p]) @ fl) t" "sess_inv (ps @ ov @ p # fl) t" if "sess_inv (p # ps @ ov @ fl) t" for t
    using that by (subst sess_inv_flight_perm [of _ "p # ps @ ov @ fl"]; simp)+
  obtain k s1 where k: "try_send_data e p s = (k, s1)" by (cases "try_send_data e p s")
  have i: "sess_inv (if k = SendOk then ps @ ov @ fl else p # ps @ ov @ fl) s1"
    using try_send_data_inv [OF _ "2.prems"(2) k] "2.prems"(1) by simp
  have ev: "evolves s s1" using evolves_payload(4) [of s e p] by (simp add: k)
  have b: "e < se_next_endpoint s1" using "2.prems"(2) evolves_bound [OF ev] by simp
  show ?case
  proof (cases k)
    case SendOk
    have "accept_deliver e ps True ov s1 = (r, s')" using "2.prems"(3) k SendOk by simp
    note ih = "2.IH"(1) [OF k [symmetric] SendOk _ b this]
    show ?thesis using ih i evolves_trans [OF ev, of s'] SendOk by (cases r) simp_all
  next
    case SendFull
    have "accept_deliver e ps True (ov @ [p]) s1 = (r, s')" using "2.prems"(3) k SendFull by simp
    note ih = "2.IH"(2) [OF k [symmetric] SendFull perm(1) b this]
    show ?thesis using ih i evolves_trans [OF ev, of s'] SendFull by (cases r) simp_all
  next
    case SendClosed
    have eq: "r = None" "s' = drop_payloads ov (drop_payloads ps (drop_payload p s1))"
      using "2.prems"(3) k SendClosed by simp_all
    have "sess_inv (ps @ ov @ fl) (drop_payload p s1)" using i SendClosed by (intro drop_payload_inv) simp
    then show ?thesis using ev by (simp add: eq drop_payloads_inv evolves_steps)
  qed
qed

lemma store_overflow_inv:
  "sess_inv (ps @ fl) s \<Longrightarrow> sess_inv fl (store_overflow sid ps s) \<and> evolves s (store_overflow sid ps s)"
proof (induction ps arbitrary: s)
  case Nil
  then show ?case by (simp add: store_overflow_def)
next
  case (Cons p ps)
  let ?s1 = "snd (store_pending_data sid p s)"
  have "sess_inv (ps @ fl) ?s1" using Cons.prems by (intro store_pending_data_inv) simp
  then show ?case
    using Cons.IH [of ?s1] by (simp add: store_overflow_def) (meson evolves_trans evolves_closing(5))
qed

text \<open>The end of an acceptance: the pre-accept entry goes away.\<close>

lemma drop_open_sel:
  "pos_streams (se_pending_open (drop_pending_open sid s)) = (pos_streams (se_pending_open s))(sid := None)"
  "se_streams (drop_pending_open sid s) = se_streams s"
  "se_next_endpoint (drop_pending_open sid s) = se_next_endpoint s"
  "se_next_stream_id (drop_pending_open sid s) = se_next_stream_id s"
  "se_on_new_stream (drop_pending_open sid s) = se_on_new_stream s"
  by (auto simp: drop_pending_open_def drop_payloads_eq pos_remove_def fun_eq_iff split: option.split)

lemma drop_open_ids:
  assumes "ids_inv acc s" "acc sid = Some ed"
  shows "ids_inv (acc(sid := None)) (drop_pending_open sid s)"
proof -
  have "queue_inv (acc(sid := None)) (drop_pending_open sid s)"
    using assms by (auto simp: ids_inv_def queue_inv_def drop_open_sel pos_contains_def split: option.splits)
  moreover have "accepting_inv (acc(sid := None)) (drop_pending_open sid s)"
    using assms unfolding ids_inv_def accepting_inv_def by (auto simp: drop_open_sel)
  moreover have "order_inv (drop_pending_open sid s)" "endpoints_inv (drop_pending_open sid s)"
    using assms by (simp_all add: ids_inv_def order_inv_def endpoints_inv_def drop_open_sel)
  ultimately show ?thesis by (simp add: ids_inv_def)
qed

lemma accept_end_inv:
  assumes "sess_inv [] s1" "ids_inv acc s" "evolves s s1" "acc sid = Some ed"
  shows "sess_inv [] (drop_pending_open sid s1) \<and> ids_inv (acc(sid := None)) (drop_pending_open sid s1)"
proof -
  have ids: "ids_inv acc s1" by (rule ids_inv_evolves [OF assms(2,3)])
  then obtain st where "pos_streams (se_pending_open s1) sid = Some st" "po_reservation_released st"
    using assms(4) unfolding ids_inv_def accepting_inv_def by (cases ed) metis
  then show ?thesis using assms(1,4) ids by (auto intro!: drop_pending_open_inv drop_open_ids)
qed

lemma accept_iter_inv:
  assumes inv: "sess_inv [] s" "ids_inv acc s" and acc: "acc sid = Some (e, d)"
    and step: "accept_flush_iter pick sid e d s = (r, d', s')"
  shows "sess_inv [] s' \<and> ids_inv (case r of None \<Rightarrow> acc(sid \<mapsto> (e, d')) | Some _ \<Rightarrow> acc(sid := None)) s' \<and>
    (\<exists>t. evolves s t \<and> (s' = t \<or> s' = drop_pending_open sid t))"
proof -
  obtain st where e: "e < se_next_endpoint s" and st: "pos_streams (se_pending_open s) sid = Some st"
    using inv(2) acc unfolding ids_inv_def accepting_inv_def by blast
  let ?data = "po_buffered_data st" and ?fin = "po_buffered_fin st"
  obtain po where tr: "pos_take_ready sid (se_pending_open s) = (Some (?data, ?fin), po)"
    by (simp add: pos_take_ready_def st Let_def)
  let ?s0 = "s\<lparr>se_pending_open := po\<rparr>"
  have i0: "sess_inv (?data @ [] @ []) ?s0" using take_ready_inv [OF inv(1) st] by (simp add: tr)
  have e0: "evolves s ?s0" using evolves_take_ready [of s sid] by (simp add: tr)
  have b0: "e < se_next_endpoint ?s0" using e by simp
  note fin = accept_end_inv [OF _ inv(2) _ acc]
  show ?thesis
  proof (cases "?data = [] \<and> \<not> ?fin")
    case True
    then show ?thesis using step tr fin [of ?s0] i0 e0 by (fastforce simp: accept_flush_iter_def)
  next
    case False
    obtain q s1 where q: "accept_deliver e ?data d [] ?s0 = (q, s1)" by (cases "accept_deliver e ?data d [] ?s0")
    note dl = accept_deliver_inv [OF i0 b0 q]
    have e1: "evolves s s1" using dl evolves_trans [OF e0] by blast
    show ?thesis
    proof (cases q)
      case None
      then have "r = Some ClosedLocally" "s' = drop_pending_open sid (snd (close_stream pick sid s1))"
        using step tr False q by (auto simp: accept_flush_iter_def)
      moreover have "sess_inv [] (snd (close_stream pick sid s1))" using dl None by (simp add: close_stream_inv)
      ultimately show ?thesis
        using fin [of "snd (close_stream pick sid s1)"] evolves_trans [OF e1 evolves_closers(3)] by auto
    next
      case (Some dq)
      obtain d1 ov where dq: "dq = (d1, ov)" by (cases dq)
      let ?s2 = "store_overflow sid ov s1"
      have i2: "sess_inv [] ?s2" and e2: "evolves s ?s2"
        using store_overflow_inv [of ov "[]" s1 sid] dl Some dq evolves_trans [OF e1] by auto
      have b2: "e < se_next_endpoint ?s2" using e evolves_bound [OF e2] by simp
      let ?s3 = "try_send_fin e ?s2"
      have "sess_inv [] ?s3" "evolves s ?s3" using i2 e2 b2 by (simp_all add: try_send_fin_inv evolves_steps)
      then have "sess_inv [] (mark_read_closed sid ?s3)" "evolves s (mark_read_closed sid ?s3)"
        "sess_inv [] (unregister_stream sid ?s3)" "evolves s (unregister_stream sid ?s3)"
        by (simp_all add: mark_read_closed_inv unregister_inv evolves_steps)
      moreover have "ids_inv (acc(sid \<mapsto> (e, d'))) ?s2"
        using ids_inv_evolves [OF inv(2) e2] acc unfolding ids_inv_def queue_inv_def accepting_inv_def
        by (auto split: option.splits)
      ultimately show ?thesis
        using step tr False q Some dq i2 e2 fin [of "mark_read_closed sid ?s3"] fin [of "unregister_stream sid ?s3"]
        by (auto simp: accept_flush_iter_def Let_def split: if_splits)
    qed
  qed
qed

lemma endpoints_register:
  assumes "endpoints_inv s" "\<And>sid' h'. se_streams s sid' = Some h' \<Longrightarrow> sh_endpoint h' \<noteq> sh_endpoint h"
  shows "endpoints_inv (register_stream sid h s)"
  unfolding endpoints_inv_def
proof (intro allI impI)
  fix a ha b hb
  assume ab: "se_streams (register_stream sid h s) a = Some ha" "se_streams (register_stream sid h s) b = Some hb"
    "sh_endpoint ha = sh_endpoint hb"
  show "a = b"
  proof (cases "a = sid \<or> b = sid")
    case True
    then show ?thesis using ab assms(2) [of a ha] assms(2) [of b hb] by (auto simp: register_stream_def split: if_splits)
  next
    case False
    then show ?thesis using ab assms(1) unfolding endpoints_inv_def register_stream_def by simp
  qed
qed

lemma accept_begin_inv:
  assumes inv: "sess_inv [] s" "ids_inv acc s" and step: "accept_begin s = (r, s')"
  shows "sess_inv [] s' \<and> ids_inv (case r of Some (Inr (sid, e)) \<Rightarrow> acc(sid \<mapsto> (e, False)) | _ \<Rightarrow> acc) s'"
proof (cases "se_on_new_stream s")
  case None
  then show ?thesis using inv step by (auto simp: accept_begin_def)
next
  case (Some q0)
  show ?thesis
  proof (cases q0)
    case Nil
    then show ?thesis using inv step Some by (auto simp: accept_begin_def)
  next
    case (Cons sid q)
    have qi: "queue_inv acc s" "accepting_inv acc s" "order_inv s" using inv(2) by (simp_all add: ids_inv_def)
    have id0: "se_next_stream_id s = 0" and new: "sid \<notin> set q" "se_streams s sid = None" "acc sid = None"
      and known: "pos_contains (se_pending_open s) sid"
      using qi(1) Some Cons by (auto simp: queue_inv_def)
    let ?e = "se_next_endpoint s"
    let ?s1 = "s\<lparr>se_on_new_stream := Some q\<rparr>"
    let ?s2 = "set_endpoint ?e (endpoint_new False (ws_stream_window (se_windows s)))
        (?s1\<lparr>se_next_endpoint := ?e + 1\<rparr>)"
    let ?h = "\<lparr>sh_endpoint = ?e, sh_synack_tx = False, sh_read_closed = False\<rparr>"
    let ?s3 = "register_stream sid ?h ?s2"
    obtain rel s4 where rel: "release_pending_open_reservation sid ?s3 = (rel, s4)"
      by (cases "release_pending_open_reservation sid ?s3")
    let ?s5 = "if rel then release_inbound_stream_reservation s4 else s4"
    have i1: "sess_inv [] ?s1" using inv(1) Some Cons by (auto simp: inv_defs)
    have i2: "sess_inv [] ?s2" using new_endpoint_inv [OF i1, of "endpoint_new False (ws_stream_window (se_windows s))"]
      by (simp add: endpoint_new_def)
    have i3: "sess_inv [] ?s3" using new by (intro register_inv [OF i2]) (simp_all add: set_endpoint_def)
    have i5: "sess_inv [] ?s5" using release_inv [OF i3, of sid] unfolding rel by simp
    have ids3: "queue_inv acc ?s3" "order_inv ?s3"
      using qi new id0 Some Cons by (auto simp: queue_inv_def order_inv_def register_stream_def set_endpoint_def)
    have fields: "se_on_new_stream ?s5 = Some q" "se_next_stream_id ?s5 = 0" "se_next_endpoint ?s5 = ?e + 1"
      "se_streams ?s5 = se_streams ?s3"
      using rel id0 by (auto simp: release_pending_open_reservation_def release_inbound_stream_reservation_def
          register_stream_def set_endpoint_def case_prod_beta split: if_splits)
    have pos: "pos_streams (se_pending_open ?s5) =
        (pos_streams (se_pending_open s))(sid \<mapsto> (the (pos_streams (se_pending_open s) sid))\<lparr>po_reservation_released := True\<rparr>)"
      using rel known by (auto simp: release_pending_open_reservation_def release_inbound_stream_reservation_def
          pos_release_reservation_def pos_contains_def register_stream_def set_endpoint_def case_prod_beta fun_eq_iff
          split: if_splits option.splits)
    have "queue_inv (acc(sid \<mapsto> (?e, False))) ?s5"
      using ids3(1) new fields by (auto simp: queue_inv_def pos pos_contains_def register_stream_def set_endpoint_def)
    moreover have "accepting_inv (acc(sid \<mapsto> (?e, False))) ?s5"
      using qi(2) fields(3) unfolding accepting_inv_def pos by (auto intro: less_SucI)
    moreover have "order_inv ?s5" using fields(2) by (simp add: order_inv_def)
    moreover have "endpoints_inv ?s5"
    proof -
      have "sh_endpoint h' \<noteq> ?e" if "se_streams s sid' = Some h'" for sid' h'
        using handle_bound [OF inv(1) that] by simp
      moreover have "endpoints_inv ?s2" using inv(2) by (simp add: ids_inv_def endpoints_inv_def set_endpoint_def)
      ultimately have "endpoints_inv ?s3" by (intro endpoints_register) (simp_all add: set_endpoint_def)
      then show ?thesis unfolding endpoints_inv_def fields(4) .
    qed
    ultimately show ?thesis
      using step Some Cons known i5 rel by (auto simp: accept_begin_def Let_def ids_inv_def)
  qed
qed

lemma word_less_Suc: "(a :: u32) < b \<Longrightarrow> b \<noteq> - 1 \<Longrightarrow> a < b + 1"
  using unatSuc [of b] by (simp add: word_less_nat_alt add.commute eq_neg_iff_add_eq_0)

lemma word_self_less_Suc: "(b :: u32) \<noteq> - 1 \<Longrightarrow> b < b + 1"
  using unatSuc [of b] by (simp add: word_less_nat_alt add.commute eq_neg_iff_add_eq_0)

lemma pd_pop_facts:
  assumes "pd_inv pd" "pd_pop_front sid pd = (Some p, pd')"
  shows "pd_inv pd' \<and> pd_total pd = bp_len p + pd_total pd' \<and> pd_len pd' \<le> pd_len pd \<and>
    pd_contents pd sid = p # tl (pd_contents pd sid) \<and> pd_contents pd' = (pd_contents pd)(sid := tl (pd_contents pd sid))"
proof -
  have inv': "pd_inv pd'" using pd_inv_pop [OF assms(1), of sid] by (simp add: assms(2))
  have c: "pd_contents pd' = (pd_contents pd)(sid := tl (pd_contents pd sid))"
    using pd_contents_laws(4) [of sid pd] by (simp add: assms(2))
  have p: "pd_contents pd sid = p # tl (pd_contents pd sid)"
    using pd_contents_laws(3) [of sid pd] by (auto simp: assms(2) split: list.splits)
  obtain q where q: "pd_queues pd sid = Some q" "sq_items q \<noteq> []"
  proof -
    have "pd_contents pd sid \<noteq> []" using p by (metis list.distinct(1))
    then show thesis using that by (auto simp: pd_contents_def split: option.splits)
  qed
  have "sq_bytes q \<le> pd_total pd" "sq_bytes q = sum_len (sq_items q)"
    using assms(1) q msum_ge [of "pd_queues pd" sid q sq_bytes] by (auto simp: pd_inv_def)
  then have "pd_total pd = bp_len p + pd_total pd'"
    using assms(2) q by (auto simp: pd_pop_front_def Let_def split: list.splits if_splits)
  moreover have "pd_len pd' \<le> pd_len pd"
    using assms pd_len_contents [OF inv'] pd_len_contents [OF assms(1)] c p
    by (auto simp: pd_inv_def intro!: card_mono finite_subset [of "{sid. pd_contents pd sid \<noteq> []}" "dom (pd_queues pd)"])
      (auto simp: pd_contents_def split: option.splits if_splits)
  ultimately show ?thesis using inv' c p by simp
qed

lemma pop_pending_inv:
  assumes "sess_inv fl s" "pd_pop_front sid (se_pending_data s) = (Some p, pd)"
  shows "sess_inv (p # fl) (s\<lparr>se_pending_data := pd\<rparr>)"
proof -
  have "pd_inv (se_pending_data s)" using assms(1) by (simp add: inv_defs)
  note f = pd_pop_facts [OF this assms(2)]
  then have p: "p \<in> set (pd_contents (se_pending_data s) sid)"
    and t: "set (tl (pd_contents (se_pending_data s) sid)) \<subseteq> set (pd_contents (se_pending_data s) sid)"
    by (metis list.set_intros(1), metis list.set_intros(2) subsetI)
  have "bp_accounted p" using assms(1) p by (auto simp: inv_defs)
  moreover have "length (tl (pd_contents (se_pending_data s) sid)) \<le> MAX_PENDING_STREAM_FRAMES"
  proof -
    have "length (pd_contents (se_pending_data s) sid) \<le> MAX_PENDING_STREAM_FRAMES"
      using assms(1) by (simp add: inv_defs)
    then show ?thesis by simp
  qed
  moreover have "\<forall>x\<in>set (tl (pd_contents (se_pending_data s) sid)). bp_accounted x"
    using assms(1) t by (auto simp: inv_defs)
  ultimately show ?thesis using assms(1) f by (auto simp: inv_defs)
qed

lemma try_recv_inv:
  assumes "sess_inv [] s" "e < se_next_endpoint s"
  shows "sess_inv [] (snd (try_recv_data e s)) \<and> evolves s (snd (try_recv_data e s))"
proof (cases "ep_data (se_endpoints s e)")
  case Nil
  then show ?thesis using assms by (simp add: try_recv_data_def)
next
  case (Cons p ps)
  let ?s1 = "set_endpoint e ((se_endpoints s e)\<lparr>ep_data := ps\<rparr>) s"
  have "length (p # ps) \<le> STREAM_CHANNEL_CAPACITY" using assms(1) Cons by (auto simp: inv_defs dest: spec [of _ e])
  then have "sess_inv [p] ?s1" using assms Cons by (intro set_endpoint_inv) auto
  then show ?thesis
    using Cons into_bytes_inv [of p "[]" ?s1] evolves_trans [OF evolves_table(1) evolves_payload(3)]
    by (simp add: try_recv_data_def case_prod_beta Let_def)
qed

definition good_drain :: "drain_fun \<Rightarrow> bool" where
  "good_drain drain \<longleftrightarrow> (\<forall>rd s r rd' s'. drain rd s = (r, rd', s') \<longrightarrow> sess_inv [] s \<longrightarrow>
     sess_inv [] s' \<and> evolves s s' \<and> rd_endpoint rd' = rd_endpoint rd)"

lemma good_server_drain: "good_drain (server_drain_pending busy)"
  unfolding good_drain_def
proof (intro allI impI)
  fix rd s r rd' s'
  assume d: "server_drain_pending busy rd s = (r, rd', s')" and inv: "sess_inv [] s"
  obtain pr pd where pop: "pd_pop_front (rd_sid rd) (se_pending_data s) = (pr, pd)"
    by (cases "pd_pop_front (rd_sid rd) (se_pending_data s)")
  show "sess_inv [] s' \<and> evolves s s' \<and> rd_endpoint rd' = rd_endpoint rd"
  proof (cases pr)
    case None
    then show ?thesis using d inv pop by (auto simp: server_drain_pending_def split: if_splits)
  next
    case (Some p)
    have "sess_inv [] (snd (into_bytes p (s\<lparr>se_pending_data := pd\<rparr>)))"
      using pop Some by (intro into_bytes_inv pop_pending_inv [OF inv]) simp
    moreover have "evolves s (snd (into_bytes p (s\<lparr>se_pending_data := pd\<rparr>)))"
      by (intro evolves_steps evolves_refl)
    ultimately show ?thesis
      using d inv pop Some by (auto simp: server_drain_pending_def case_prod_beta split: if_splits)
  qed
qed

lemma take_queued_fin_flight:
  assumes "sess_inv fl s"
  shows "sess_inv fl (snd (take_queued_pending_fin b rd s))" "evolves s (snd (take_queued_pending_fin b rd s))"
    "rd_endpoint (fst (take_queued_pending_fin b rd s)) = rd_endpoint rd"
  using assms sess_inv_sets [of fl s] by (auto simp: take_queued_pending_fin_def intro!: pending_fin_inv card_diff_le)

lemma good_client_drain: "good_drain (client_drain_pending busy fin_busy)"
  unfolding good_drain_def
proof (intro allI impI)
  fix rd s r rd' s'
  assume d: "client_drain_pending busy fin_busy rd s = (r, rd', s')" and inv: "sess_inv [] s"
  obtain pr pd where pop: "pd_pop_front (rd_sid rd) (se_pending_data s) = (pr, pd)"
    by (cases "pd_pop_front (rd_sid rd) (se_pending_data s)")
  show "sess_inv [] s' \<and> evolves s s' \<and> rd_endpoint rd' = rd_endpoint rd"
  proof (cases pr)
    case None
    then show ?thesis
      using d inv pop take_queued_fin_flight [OF inv, of fin_busy rd]
      by (auto simp: client_drain_pending_def case_prod_beta split: if_splits)
  next
    case (Some p)
    let ?s1 = "s\<lparr>se_pending_data := pd\<rparr>"
    obtain rd2 s2 where s2: "(if \<not> pd_contains pd (rd_sid rd) then take_queued_pending_fin fin_busy rd ?s1 else (rd, ?s1)) = (rd2, s2)"
      by fastforce
    have i1: "sess_inv [p] ?s1" using pop Some by (intro pop_pending_inv [OF inv]) simp
    have e1: "evolves s ?s1" by simp
    have "sess_inv [p] (snd (if \<not> pd_contains pd (rd_sid rd) then take_queued_pending_fin fin_busy rd ?s1 else (rd, ?s1)))"
      "evolves s (snd (if \<not> pd_contains pd (rd_sid rd) then take_queued_pending_fin fin_busy rd ?s1 else (rd, ?s1)))"
      "rd_endpoint (fst (if \<not> pd_contains pd (rd_sid rd) then take_queued_pending_fin fin_busy rd ?s1 else (rd, ?s1))) = rd_endpoint rd"
      using take_queued_fin_flight [OF i1, of fin_busy rd] i1 evolves_trans [OF e1] by simp_all
    then have "sess_inv [p] s2" "evolves s s2" and rd2: "rd_endpoint rd2 = rd_endpoint rd" unfolding s2 by simp_all
    then have "sess_inv [] (snd (into_bytes p s2))" "evolves s (snd (into_bytes p s2))"
      by (simp_all add: into_bytes_inv evolves_steps)
    then show ?thesis
      using d inv pop Some rd2 s2 by (auto simp: client_drain_pending_def case_prod_beta Let_def split: if_splits)
  qed
qed

lemma read_select_inv:
  assumes "sess_inv [] s" "rd_endpoint rd < se_next_endpoint s" "read_select ff rd s = (r, rd', s')"
  shows "sess_inv [] s' \<and> evolves s s'"
proof -
  let ?e = "rd_endpoint rd"
  have "sess_inv [] (set_endpoint ?e ((se_endpoints s ?e)\<lparr>ep_fin := False\<rparr>) s)"
    using assms by (intro set_endpoint_same_data) simp_all
  then show ?thesis
    using assms try_recv_inv [OF assms(1,2)] unfolding read_select_def Let_def
    by (auto split: if_splits prod.splits option.splits)
qed

lemma read_backlog_inv:
  assumes "good_drain drain" "sess_inv [] s" "rd_endpoint rd < se_next_endpoint s"
    and "read_backlog drain ff rd s = (r, rd', s')"
  shows "sess_inv [] s' \<and> evolves s s'"
proof -
  obtain dr rd1 s1 where d: "drain rd s = (dr, rd1, s1)" by (cases "drain rd s")
  have i: "sess_inv [] s1" "evolves s s1" "rd_endpoint rd1 = rd_endpoint rd"
    using assms(1,2) d unfolding good_drain_def by blast+
  have "sess_inv [] t \<and> evolves s t" if "read_select ff rd1 s1 = (q, rd2, t)" for q rd2 t
    using read_select_inv [OF i(1) _ that] i assms(3) evolves_bound [OF i(2)] evolves_trans by (metis (no_types))
  then show ?thesis
    using assms(4) d i by (auto simp: read_backlog_def split: option.splits if_splits)
qed

lemma drop_receivers_inv:
  assumes "sess_inv [] s" "e < se_next_endpoint s"
  shows "sess_inv [] (drop_receivers e s)" "evolves s (drop_receivers e s)"
proof -
  let ?ep = "(se_endpoints s e)\<lparr>ep_data := [], ep_data_rx := False, ep_fin := False, ep_fin_rx := False\<rparr>"
  have "sess_inv (ep_data (se_endpoints s e) @ []) (set_endpoint e ?ep s)"
    using assms by (intro set_endpoint_inv) auto
  then show "sess_inv [] (drop_receivers e s)" unfolding drop_receivers_def Let_def by (rule drop_payloads_inv)
  show "evolves s (drop_receivers e s)" unfolding drop_receivers_def Let_def by (intro evolves_steps evolves_refl)
qed

lemma acquire_credit_inv:
  "sess_inv [] s \<Longrightarrow> e < se_next_endpoint s \<Longrightarrow> acquire_credit e n s = Some s' \<Longrightarrow> sess_inv [] s' \<and> evolves s s'"
proof -
  assume a: "sess_inv [] s" "e < se_next_endpoint s" "acquire_credit e n s = Some s'"
  have "sess_inv [] (set_endpoint e ((se_endpoints s e)\<lparr>ep_send_credit := c\<rparr>) (s\<lparr>se_windows := w\<rparr>))" for c w
    using a by (intro set_endpoint_same_data) simp_all
  moreover have "evolves s (set_endpoint e ep (s\<lparr>se_windows := w\<rparr>))" for ep w
    by (intro evolves_steps evolves_refl)
  ultimately show ?thesis using a by (auto simp: acquire_credit_def Let_def split: if_splits)
qed

lemma write_data_inv:
  assumes "sess_inv [] s" "write_data sid data s = Some (ok, s')"
  shows "sess_inv [] s' \<and> evolves s s'"
proof -
  obtain s1 where c: "(case se_streams s sid of None \<Rightarrow> Some s
      | Some h \<Rightarrow> acquire_credit (sh_endpoint h) (length data) s) = Some s1"
    using assms(2) by (auto simp: write_data_def split: option.splits)
  have i: "sess_inv [] s1" "evolves s s1"
    using c assms(1) acquire_credit_inv [OF assms(1) handle_bound [OF assms(1)]] by (auto split: option.splits)
  have w: "(if data = [] then write_frame (Frame_psh sid []) Bulk s1
      else case encode_psh_frames sid data of
             Inl _ \<Rightarrow> (False, s1)
           | Inr encoded \<Rightarrow> submit_write_packets (coalesce_encoded_frames encoded MAX_PAYLOAD_LEN) Auto Bulk s1) = (ok, s')"
    using assms(2) c by (simp add: write_data_def)
  have "sess_inv [] (snd (if data = [] then write_frame (Frame_psh sid []) Bulk s1
      else case encode_psh_frames sid data of
             Inl _ \<Rightarrow> (False, s1)
           | Inr encoded \<Rightarrow> submit_write_packets (coalesce_encoded_frames encoded MAX_PAYLOAD_LEN) Auto Bulk s1))"
    and "evolves s (snd (if data = [] then write_frame (Frame_psh sid []) Bulk s1
      else case encode_psh_frames sid data of
             Inl _ \<Rightarrow> (False, s1)
           | Inr encoded \<Rightarrow> submit_write_packets (coalesce_encoded_frames encoded MAX_PAYLOAD_LEN) Auto Bulk s1))"
    using i by (simp_all add: evolves_steps split: sum.split)
  then show ?thesis unfolding w by simp
qed

text \<open>A client opens a stream under an id above all others.\<close>

lemma syn_encoded [simp]: "Frame_encode (Frame_syn sid) = Inr (frame_bytes CMD_SYN sid [])"
  using Frame_encode_fits [of "Frame_syn sid"] by (simp add: frame_ctor_defs)

lemma open_stream_inv:
  assumes inv: "sess_inv [] s" "ids_inv acc s" and step: "open_stream s = (r, s')"
  shows "sess_inv [] s' \<and> ids_inv acc s'"
proof (cases "\<not> se_alive s \<or> se_close_requested s \<or> se_next_stream_id s = 0 \<or> se_next_stream_id s = - 1")
  case True
  then have "s' = s \<or> s' = s\<lparr>se_alive := False\<rparr>"
    using step by (auto simp: open_stream_def next_stream_id_def Let_def split: if_splits)
  then show ?thesis using inv ids_inv_same [of "s\<lparr>se_alive := False\<rparr>" s] by auto
next
  case False
  let ?sid = "se_next_stream_id s" and ?e = "se_next_endpoint s"
  let ?ep = "endpoint_new True (ws_stream_window (se_windows s))"
  let ?s2 = "set_endpoint ?e ?ep (s\<lparr>se_next_stream_id := ?sid + 1, se_next_endpoint := ?e + 1\<rparr>)"
  let ?s3 = "prune_orphaned_streams ?s2"
  let ?h = "\<lparr>sh_endpoint = ?e, sh_synack_tx = True, sh_read_closed = False\<rparr>"
  let ?s4 = "register_stream ?sid ?h ?s3"
  let ?undo = "\<lambda>t. clear_pending_client_stream_state ?sid (unregister_stream ?sid (set_endpoint ?e endpoint_gone t))"
  have q: "se_on_new_stream s = None" "accepting_inv acc s" "order_inv s"
    using inv(2) False by (auto simp: ids_inv_def queue_inv_def split: option.splits)
  have below: "sid < ?sid + 1" if "sid \<in> dom (se_streams s)" for sid
    using q(3) False that by (auto simp: order_inv_def intro: word_less_Suc)
  have i2: "sess_inv [] ?s2"
    using new_endpoint_inv [of "[]" "s\<lparr>se_next_stream_id := ?sid + 1\<rparr>" ?ep] inv(1) by (simp add: endpoint_new_def)
  have fresh: "se_streams s ?sid = None" using q(3) False by (auto simp: order_inv_def)
  have "accepting_inv acc ?s2"
    using q(2) unfolding accepting_inv_def by (simp add: set_endpoint_def) (meson less_SucI)
  moreover have "order_inv ?s2" using below by (simp add: order_inv_def set_endpoint_def)
  moreover have "endpoints_inv ?s2" using inv(2) by (simp add: ids_inv_def endpoints_inv_def set_endpoint_def)
  ultimately have ids2: "ids_inv acc ?s2" using q(1) by (simp add: ids_inv_def queue_inv_def set_endpoint_def)
  have i3: "sess_inv [] ?s3" and ids3: "ids_inv acc ?s3" and b3: "se_next_endpoint ?s3 = ?e + 1"
    using prune_inv [OF i2] ids_inv_evolves [OF ids2 evolves_table(4)]
      evolves_bound [OF evolves_table(4), of ?s2] by (simp_all add: set_endpoint_def)
  have fresh3: "se_streams ?s3 ?sid = None"
    using evolvesD(8) [OF evolves_table(4), of ?s2 ?sid] fresh by (simp add: set_endpoint_def)
  have i4: "sess_inv [] ?s4" using i3 fresh3 b3 by (intro register_inv) simp_all
  have "sh_endpoint h' \<noteq> ?e" if h': "se_streams ?s3 sid = Some h'" for sid h'
  proof -
    obtain h where "se_streams ?s2 sid = Some h" "sh_endpoint h' = sh_endpoint h"
      using evolvesD(7) [OF evolves_table(4), of ?s2 sid h'] h' by blast
    then show ?thesis using handle_bound [OF inv(1), of sid h] by (simp add: set_endpoint_def)
  qed
  then have "endpoints_inv ?s4" using ids3 by (intro endpoints_register) (simp_all add: ids_inv_def)
  then have ids4: "ids_inv acc ?s4"
    using ids3 q(1) word_self_less_Suc [of ?sid] False evolvesD(2,3) [OF evolves_table(4), of ?s2]
    by (auto simp: ids_inv_def queue_inv_def accepting_inv_def order_inv_def register_stream_def set_endpoint_def)
  have undo: "sess_inv [] (?undo t) \<and> ids_inv acc (?undo t)"
    if "sess_inv [] t" "ids_inv acc t" "se_next_endpoint t = ?e + 1" "ep_data (se_endpoints t ?e) = []" for t
  proof -
    have "sess_inv [] (set_endpoint ?e endpoint_gone t)"
      using that by (intro set_endpoint_same_data) (simp_all add: endpoint_gone_def)
    moreover have "evolves t (?undo t)" by (intro evolves_steps2 evolves_refl)
    ultimately show ?thesis using that(2) ids_inv_evolves [of acc t "?undo t"] by (simp add: clear_pending_inv unregister_inv)
  qed
  have empty3: "ep_data (se_endpoints ?s3 ?e) = []"
    by (simp add: prune_orphaned_streams_def set_endpoint_def endpoint_new_def Let_def)
  show ?thesis
  proof (cases "active_stream_count ?s3 \<ge> se_max_streams ?s3")
    case True
    then have "s' = ?undo ?s3"
      using step False by (simp add: open_stream_def next_stream_id_def Let_def split: if_splits)
    then show ?thesis using undo [OF i3 ids3 b3 empty3] by simp
  next
    case room: False
    obtain b s5 where s5: "submit_write_packets [frame_bytes CMD_SYN ?sid []] Immediate Control ?s4 = (b, s5)"
      by (cases "submit_write_packets [frame_bytes CMD_SYN ?sid []] Immediate Control ?s4")
    have e5: "evolves ?s4 s5" using evolves_writer(3) [of ?s4 "[frame_bytes CMD_SYN ?sid []]" Immediate Control]
      unfolding s5 by simp
    have i5: "sess_inv [] s5" using i4 sess_inv_writer(3) [of "[]" "[frame_bytes CMD_SYN ?sid []]" Immediate Control ?s4]
      unfolding s5 by simp
    have ids5: "ids_inv acc s5" by (rule ids_inv_evolves [OF ids4 e5])
    have b5: "se_next_endpoint s5 = ?e + 1" and empty5: "ep_data (se_endpoints s5 ?e) = []"
      using evolves_bound [OF e5] b3 empty3 s5
      by (auto simp: register_stream_def submit_write_packets_def enqueue_request_def split: if_splits)
    have "s' = ?s4 \<or> s' = s5 \<or> s' = writer_close (?undo s5)"
      using step False room s5
      by (auto simp: open_stream_def next_stream_id_def Let_def case_prod_beta split: if_splits)
    moreover have "ids_inv acc (writer_close t) = ids_inv acc t" for t
      by (rule ids_inv_same) (simp_all add: writer_close_def)
    ultimately show ?thesis using i4 ids4 i5 ids5 undo [OF i5 ids5 b5 empty5] by auto
  qed
qed

section \<open>Runs of a session\<close>

text \<open>A session with the tasks that accept streams on it: which stream, into which endpoint, and whether
  data has been delivered. The read loop contributes frames, the timers and \<^verbatim>\<open>settings_received\<close>; the
  users of the session contribute the rest, in any order. The two halves of a read are separate steps.
  The writer task takes requests off its queues and may end.\<close>

record system =
  sy_session :: session
  sy_settings :: bool
  sy_accepting :: accepting

inductive sys_step :: "system \<Rightarrow> system \<Rightarrow> bool" where
  frame: "handle_frame env f (sy_settings y) (sy_session y) = (err, sr, s') \<Longrightarrow>
    sys_step y (y\<lparr>sy_session := s', sy_settings := sr\<rparr>)"
| begin_accept: "accept_begin (sy_session y) = (Some (Inr (sid, e)), s') \<Longrightarrow>
    sys_step y (y\<lparr>sy_session := s', sy_accepting := (sy_accepting y)(sid \<mapsto> (e, False))\<rparr>)"
| no_accept: "accept_begin (sy_session y) = (r, s') \<Longrightarrow> (\<forall>x. r \<noteq> Some (Inr x)) \<Longrightarrow>
    sys_step y (y\<lparr>sy_session := s'\<rparr>)"
| flush_accept: "sy_accepting y sid = Some (e, d) \<Longrightarrow>
    accept_flush_iter pick sid e d (sy_session y) = (r, d', s') \<Longrightarrow>
    sys_step y (y\<lparr>sy_session := s', sy_accepting :=
      (case r of None \<Rightarrow> (sy_accepting y)(sid \<mapsto> (e, d')) | Some _ \<Rightarrow> (sy_accepting y)(sid := None))\<rparr>)"
| open_new: "open_stream (sy_session y) = (r, s') \<Longrightarrow> sys_step y (y\<lparr>sy_session := s'\<rparr>)"
| read_channel: "e < se_next_endpoint (sy_session y) \<Longrightarrow> try_recv_data e (sy_session y) = (r, s') \<Longrightarrow>
    sys_step y (y\<lparr>sy_session := s'\<rparr>)"
| read_server: "rd_endpoint rd < se_next_endpoint (sy_session y) \<Longrightarrow>
    read_backlog (server_drain_pending busy) ff rd (sy_session y) = (r, rd', s') \<Longrightarrow>
    sys_step y (y\<lparr>sy_session := s'\<rparr>)"
| read_client: "rd_endpoint rd < se_next_endpoint (sy_session y) \<Longrightarrow>
    read_backlog (client_drain_pending busy fin_busy) ff rd (sy_session y) = (r, rd', s') \<Longrightarrow>
    sys_step y (y\<lparr>sy_session := s'\<rparr>)"
| note_read: "reader_note_consumed rd n (sy_session y) = (rd', s') \<Longrightarrow> sys_step y (y\<lparr>sy_session := s'\<rparr>)"
| write_bytes: "write_data sid data (sy_session y) = Some (ok, s') \<Longrightarrow> sys_step y (y\<lparr>sy_session := s'\<rparr>)"
| close_user: "close_stream pick sid (sy_session y) = (ok, s') \<Longrightarrow> sys_step y (y\<lparr>sy_session := s'\<rparr>)"
| unregister: "sys_step y (y\<lparr>sy_session := unregister_stream sid (sy_session y)\<rparr>)"
| read_half_dropped: "sys_step y (y\<lparr>sy_session := mark_read_closed sid (sy_session y)\<rparr>)"
| receivers_dropped: "e < se_next_endpoint (sy_session y) \<Longrightarrow>
    sys_step y (y\<lparr>sy_session := drop_receivers e (sy_session y)\<rparr>)"
| synack_dropped: "e < se_next_endpoint (sy_session y) \<Longrightarrow>
    sys_step y (y\<lparr>sy_session := drop_synack_receiver e (sy_session y)\<rparr>)"
| idle: "is_idle_timeout_eligible (sy_session y) = (b, s') \<Longrightarrow> sys_step y (y\<lparr>sy_session := s'\<rparr>)"
| exchange: "synthetic_exchange draws left (sy_session y) = (left', s') \<Longrightarrow> sys_step y (y\<lparr>sy_session := s'\<rparr>)"
| writer_takes: "sys_step y (y\<lparr>sy_session := (sy_session y)\<lparr>se_control := drop k (se_control (sy_session y)),
    se_bulk := drop m (se_bulk (sy_session y)), se_client_settings := None\<rparr>\<rparr>)"
| writer_ends: "sys_step y (y\<lparr>sy_session := (sy_session y)\<lparr>se_writer_gone := True\<rparr>\<rparr>)"
| forced: "sys_step y (y\<lparr>sy_session := force_close (sy_session y)\<rparr>)"

definition sys_start :: "bool \<Rightarrow> nat \<Rightarrow> bool \<Rightarrow> window_state \<Rightarrow> system" where
  "sys_start is_client max_streams post_script_off windows =
     \<lparr>sy_session = Session_new is_client max_streams post_script_off (\<not> is_client) windows,
      sy_settings = False, sy_accepting = Map.empty\<rparr>"

definition sys_inv :: "system \<Rightarrow> bool" where
  "sys_inv y \<longleftrightarrow> sess_inv [] (sy_session y) \<and> ids_inv (sy_accepting y) (sy_session y)"

lemma sys_inv_start: "sys_inv (sys_start is_client m off ws)"
  by (simp add: sys_inv_def sys_start_def sess_inv_new)
    (simp add: ids_defs Session_new_def pos_empty_def)

lemma note_consumed_inv:
  assumes "sess_inv [] s" "reader_note_consumed rd n s = (rd', s')"
  shows "sess_inv [] s' \<and> evolves s s'"
proof -
  have "sess_inv [] (snd (reader_note_consumed rd n s))" "evolves s (snd (reader_note_consumed rd n s))"
    using assms(1) by (simp_all add: reader_note_consumed_def case_prod_beta Let_def send_window_update_def)
  then show ?thesis using assms(2) by simp
qed

lemma idle_inv:
  assumes "sess_inv [] s" "is_idle_timeout_eligible s = (b, s')"
  shows "sess_inv [] s' \<and> evolves s s'"
  using assms prune_inv [OF assms(1)] by (auto simp: is_idle_timeout_eligible_def Let_def split: if_splits)

lemma exchange_inv:
  assumes "sess_inv [] s" "synthetic_exchange draws l s = (l', s')"
  shows "sess_inv [] s' \<and> evolves s s'"
  using assms by (auto simp: synthetic_exchange_def split: if_splits option.splits)

lemma sys_invD: "sys_inv y \<Longrightarrow> sess_inv [] (sy_session y)" "sys_inv y \<Longrightarrow> ids_inv (sy_accepting y) (sy_session y)"
  by (simp_all add: sys_inv_def)

lemma frame_evolves:
  assumes "sess_inv [] s" "handle_frame env f sr s = (err, sr', s')" "f_cmd f \<noteq> CMD_SYN"
  shows "sess_inv [] s' \<and> evolves s s'"
proof -
  note pres = handle_psh_inv [OF assms(1)] handle_fin_inv [OF assms(1)] handle_synack_inv [OF assms(1)]
    handle_settings_inv [OF assms(1)] handle_padding_inv [OF assms(1)]
  show ?thesis
    using assms pres by (auto simp: handle_frame_def Let_def case_prod_beta split: if_splits)
qed

text \<open>Only four steps change which streams a session knows: a SYN, the two parts of an acceptance and
  the opening of a stream.\<close>

definition quiet_step :: "system \<Rightarrow> system \<Rightarrow> bool" where
  "quiet_step y y' \<longleftrightarrow> sess_inv [] (sy_session y') \<and> evolves (sy_session y) (sy_session y') \<and>
     sy_accepting y' = sy_accepting y"

lemma sys_step_kinds [consumes 2, case_names quiet syn accept flush opened]:
  assumes "sys_step y y'" "sys_inv y"
    and "quiet_step y y' \<Longrightarrow> P"
    and "\<And>env f err sr. handle_frame env f (sy_settings y) (sy_session y) = (err, sr, sy_session y') \<Longrightarrow>
      f_cmd f = CMD_SYN \<Longrightarrow> sy_accepting y' = sy_accepting y \<Longrightarrow> P"
    and "\<And>r. accept_begin (sy_session y) = (r, sy_session y') \<Longrightarrow>
      sy_accepting y' = (case r of Some (Inr (sid, e)) \<Rightarrow> (sy_accepting y)(sid \<mapsto> (e, False)) | _ \<Rightarrow> sy_accepting y) \<Longrightarrow> P"
    and "\<And>pick sid e d r d'. sy_accepting y sid = Some (e, d) \<Longrightarrow>
      accept_flush_iter pick sid e d (sy_session y) = (r, d', sy_session y') \<Longrightarrow>
      sy_accepting y' = (case r of None \<Rightarrow> (sy_accepting y)(sid \<mapsto> (e, d')) | Some _ \<Rightarrow> (sy_accepting y)(sid := None)) \<Longrightarrow> P"
    and "\<And>r. open_stream (sy_session y) = (r, sy_session y') \<Longrightarrow> sy_accepting y' = sy_accepting y \<Longrightarrow> P"
  shows P
proof -
  note inv = sys_invD(1) [OF assms(2)]
  from assms(1) show P
  proof (cases rule: sys_step.cases)
    case (frame env f err sr s')
    then show P using frame_evolves [OF inv frame(2)] assms(3,4) by (cases "f_cmd f = CMD_SYN") (auto simp: quiet_step_def)
  next
    case (begin_accept sid e s')
    then show P using assms(5) by simp
  next
    case (no_accept r s')
    then show P using assms(5) [of r] by (auto split: option.splits sum.splits)
  next
    case (flush_accept sid e d pick r d' s')
    then show P using assms(6) by simp
  next
    case (open_new r s')
    then show P using assms(7) by simp
  next
    case (read_channel e r s')
    then show P using try_recv_inv [OF inv read_channel(2)] assms(3) by (simp add: quiet_step_def)
  next
    case (read_server rd busy ff r rd' s')
    then show P using read_backlog_inv [OF good_server_drain inv read_server(2,3)] assms(3) by (simp add: quiet_step_def)
  next
    case (read_client rd busy fin_busy ff r rd' s')
    then show P using read_backlog_inv [OF good_client_drain inv read_client(2,3)] assms(3) by (simp add: quiet_step_def)
  next
    case (note_read rd n rd' s')
    then show P using note_consumed_inv [OF inv note_read(2)] assms(3) by (simp add: quiet_step_def)
  next
    case (write_bytes sid data ok s')
    then show P using write_data_inv [OF inv write_bytes(2)] assms(3) by (simp add: quiet_step_def)
  next
    case (close_user pick sid ok s')
    then show P using close_stream_inv [OF inv, of pick sid] evolves_closers(3) [of "sy_session y" pick sid] assms(3)
      by (simp add: quiet_step_def)
  next
    case (idle b s')
    then show P using idle_inv [OF inv idle(2)] assms(3) by (simp add: quiet_step_def)
  next
    case (exchange draws left left' s')
    then show P using exchange_inv [OF inv exchange(2)] assms(3) by (simp add: quiet_step_def)
  next
    case (receivers_dropped e)
    then show P using drop_receivers_inv [OF inv receivers_dropped(2)] assms(3) by (simp add: quiet_step_def)
  next
    case (synack_dropped e)
    have "sess_inv [] (drop_synack_receiver e (sy_session y))"
      unfolding drop_synack_receiver_def Let_def using inv synack_dropped by (intro set_endpoint_same_data) simp_all
    then show P using synack_dropped assms(3) by (simp add: quiet_step_def drop_synack_receiver_def Let_def)
  next
    case (writer_takes k m)
    then show P using inv assms(3) by (auto simp: quiet_step_def evolves_defs)
  next
    case writer_ends
    then show P using inv assms(3) by (auto simp: quiet_step_def evolves_defs)
  qed (use inv assms(3) in \<open>simp_all add: quiet_step_def unregister_inv mark_read_closed_inv\<close>)
qed

lemma sys_step_inv:
  assumes "sys_step y y'" "sys_inv y"
  shows "sys_inv y'"
  using assms
proof (cases rule: sys_step_kinds)
  case quiet
  then show ?thesis using ids_inv_evolves sys_invD(2) [OF assms(2)] by (auto simp: quiet_step_def sys_inv_def)
next
  case (syn env f err sr)
  from handle_frame_inv [OF sys_invD [OF assms(2)] syn(1)] syn(3) show ?thesis by (simp add: sys_inv_def)
next
  case (accept r)
  from accept_begin_inv [OF sys_invD [OF assms(2)] accept(1)] accept(2) show ?thesis by (simp add: sys_inv_def)
next
  case (flush pick sid e d r d')
  from accept_iter_inv [OF sys_invD [OF assms(2)] flush(1,2)] flush(3) show ?thesis by (simp add: sys_inv_def)
next
  case (opened r)
  from open_stream_inv [OF sys_invD [OF assms(2)] opened(1)] opened(2) show ?thesis by (simp add: sys_inv_def)
qed

lemma sys_reach_inv: "sys_step\<^sup>*\<^sup>* (sys_start is_client m off ws) y \<Longrightarrow> sys_inv y"
  by (induction rule: rtranclp_induct) (auto intro: sys_inv_start sys_step_inv)

section \<open>The books of a reachable session\<close>

lemma msum_flag:
  assumes "finite (dom m)" "\<And>v. f v = (if P v then 0 else 1)"
  shows "msum f m = card {k. \<exists>v. m k = Some v \<and> \<not> P v}"
proof -
  have "{k \<in> dom m. \<not> P (the (m k))} = {k. \<exists>v. m k = Some v \<and> \<not> P v}" by auto
  then show ?thesis using assms by (simp add: msum_def sum.If_cases Int_def)
qed


lemma settings_encoded: "\<exists>b. Frame_encode Frame_cmd_settings = Inr b"
  by (auto simp: Frame_encode_def Frame_cmd_settings_def Frame_new_def SETTINGS_PAYLOAD_def MAX_PAYLOAD_LEN_def
      ascii_def Let_def)

definition books_demo :: "window_state \<Rightarrow> system" where
  "books_demo ws = (sys_start True 4 False ws)\<lparr>sy_session := snd (open_stream (sy_session (sys_start True 4 False ws)))\<rparr>"

lemma books_demo_reached: "sys_step\<^sup>*\<^sup>* (sys_start True 4 False ws) (books_demo ws)"
  unfolding books_demo_def by (intro r_into_rtranclp sys_step.open_new) (rule surjective_pairing)


text \<open>C20: The limits of a session hold in every reachable state: no channel holds more than 128 payloads,
  no stream has more than 4096 frames in either backlog, each backlog holds at most 64 MiB, at most
  1024 streams have a backlog, a pending FIN or a tombstone, and at most 128 streams wait to be
  accepted.\<close>

theorem session_limits_kept:
  assumes "sys_step\<^sup>*\<^sup>* (sys_start is_client max_streams off windows) y"
  shows "(\<forall>e. length (ep_data (se_endpoints (sy_session y) e)) \<le> STREAM_CHANNEL_CAPACITY) \<and>
         (\<forall>sid. pd_stream_frames (se_pending_data (sy_session y)) sid \<le> MAX_PENDING_STREAM_FRAMES) \<and>
         (\<forall>sid. pos_stream_frames (se_pending_open (sy_session y)) sid \<le> MAX_PENDING_STREAM_FRAMES) \<and>
         pd_total (se_pending_data (sy_session y)) \<le> MAX_PENDING_STREAM_BYTES \<and>
         pos_total (se_pending_open (sy_session y)) \<le> MAX_PENDING_STREAM_BYTES \<and>
         pd_len (se_pending_data (sy_session y)) \<le> MAX_PENDING_STREAMS \<and>
         card (se_pending_fin (sy_session y)) \<le> MAX_PENDING_STREAMS \<and>
         card (se_closing (sy_session y)) \<le> MAX_PENDING_STREAMS \<and>
         (\<forall>q. se_on_new_stream (sy_session y) \<noteq> Some q \<or> length q \<le> NEW_STREAM_CHANNEL_CAPACITY)"
proof -
  have inv: "sess_inv [] (sy_session y)" using sys_reach_inv [OF assms] by (rule sys_invD)
  then have "pd_stream_frames (se_pending_data (sy_session y)) sid = length (pd_contents (se_pending_data (sy_session y)) sid)" for sid
    by (simp add: pd_stream_frames_contents inv_defs)
  then show ?thesis using inv by (auto simp: inv_defs split: option.splits)
qed

theorem session_limits_kept_witness:
  "pd_len (se_pending_data (sy_session (books_demo (window_new 0 0)))) \<le> MAX_PENDING_STREAMS"
  using session_limits_kept [OF books_demo_reached] by simp

end
