(* ===== verification/Delivery.thy ===== *)
theory Delivery
  imports SessionBooks "HOL-Library.Sublist"
begin

text \<open>
  What a consumer of a stream sees. The bytes of an established stream are the channel's payloads
  followed by the backlog's; an arriving PSH frame appends to that sequence or closes the stream, a
  read takes its head, and frames of other streams leave it alone. So every interleaving of frames
  with reads that are not themselves interrupted delivers a prefix of what the peer sent, in order.
  An arrival between the two halves of one read breaks this; the last section shows it.
\<close>

section \<open>The view of one stream\<close>

definition stream_bytes :: "session \<Rightarrow> u32 \<Rightarrow> nat \<Rightarrow> bytes list" where
  "stream_bytes s sid e = map bp_data (ep_data (se_endpoints s e) @ pd_contents (se_pending_data s) sid)"

definition view :: "session \<Rightarrow> u32 \<Rightarrow> nat \<Rightarrow>
    stream_handle option \<times> buffered_payload list \<times> bool \<times> buffered_payload list" where
  "view s sid e = (se_streams s sid, ep_data (se_endpoints s e), ep_data_rx (se_endpoints s e),
     pd_contents (se_pending_data s) sid)"

definition same_handles :: "session \<Rightarrow> session \<Rightarrow> bool" where
  "same_handles s s' \<longleftrightarrow> (\<forall>sid h'. se_streams s' sid = Some h' \<longrightarrow>
     (\<exists>h. se_streams s sid = Some h \<and> sh_endpoint h' = sh_endpoint h))"

text \<open>An operation that leaves stream \<^term>\<open>sid\<close> with endpoint \<^term>\<open>e\<close> as it is.\<close>

definition keeps :: "u32 \<Rightarrow> nat \<Rightarrow> session \<Rightarrow> session \<Rightarrow> bool" where
  "keeps sid e s s' \<longleftrightarrow> view s' sid e = view s sid e \<and> same_handles s s' \<and> se_is_client s' = se_is_client s"

definition private_endpoint :: "session \<Rightarrow> u32 \<Rightarrow> nat \<Rightarrow> bool" where
  "private_endpoint s sid e \<longleftrightarrow> (\<forall>sid' h. sid' \<noteq> sid \<longrightarrow> se_streams s sid' = Some h \<longrightarrow> sh_endpoint h \<noteq> e)"

lemmas keeps_defs = keeps_def view_def same_handles_def

lemma keeps_refl [simp, intro]: "keeps sid e s s"
  by (auto simp: keeps_defs)

lemma same_handles_trans: "same_handles s t \<Longrightarrow> same_handles t u \<Longrightarrow> same_handles s u"
  unfolding same_handles_def by metis

lemma keeps_trans [trans]: "keeps sid e s t \<Longrightarrow> keeps sid e t u \<Longrightarrow> keeps sid e s u"
  unfolding keeps_def using same_handles_trans by metis

lemma private_keeps: "same_handles s s' \<Longrightarrow> private_endpoint s sid e \<Longrightarrow> private_endpoint s' sid e"
  unfolding same_handles_def private_endpoint_def by metis

lemma keeps_bytes: "keeps sid e s s' \<Longrightarrow> stream_bytes s' sid e = stream_bytes s sid e"
  by (simp add: keeps_def view_def stream_bytes_def)

lemma keeps_writer [simp]:
  "keeps sid e s (writer_close s)"
  "keeps sid e s (snd (try_write_packets ps b c s))"
  "keeps sid e s (snd (submit_write_packets ps b c s))"
  "keeps sid e s (note_peer_goaway payload s)"
  "keeps sid e s (snd (send_synack_rejection sid' r s))"
  "keeps sid e s (emit_h2_server_opening large s)"
  "keeps sid e s (session_conn_received n s)"
  by (auto simp: keeps_defs writer_defs note_peer_goaway_def session_conn_received_def send_window_update_def
      send_synack_rejection_def emit_h2_server_opening_def case_prod_beta Let_def
      split: traffic_class.split sum.split option.split)

lemma keeps_fields [simp]:
  "keeps sid e s (s\<lparr>se_windows := ws\<rparr>)"
  "keeps sid e s (s\<lparr>se_pending_open := po\<rparr>)"
  "keeps sid e s (s\<lparr>se_pending_inbound := n\<rparr>)"
  "keeps sid e s (s\<lparr>se_pending_fin := fin\<rparr>)"
  "keeps sid e s (s\<lparr>se_closing := cl\<rparr>)"
  "keeps sid e s (s\<lparr>se_buffered := b\<rparr>)"
  "keeps sid e s (s\<lparr>se_high_water := hw\<rparr>)"
  "keeps sid e s (s\<lparr>se_on_new_stream := q\<rparr>)"
  by (auto simp: keeps_defs)

lemma keeps_payload [simp]:
  "keeps sid e s (drop_payload p s)"
  "keeps sid e s (drop_payloads ps s)"
  "keeps sid e s (snd (new_payload data s))"
  "keeps sid e s (snd (into_bytes p s))"
  "keeps sid e s (store_pending_fin sid' s)"
  "keeps sid e s (snd (clear_closing_stream sid' s))"
  "keeps sid e s (remember_closing_stream pick sid' s)"
  by (auto simp: keeps_defs drop_payload_def drop_payloads_eq new_payload_def into_bytes_def store_pending_fin_def
      clear_closing_stream_def remember_closing_stream_def case_prod_beta Let_def)

lemma keeps_endpoint [simp]:
  "ep_data ep = ep_data (se_endpoints s e') \<Longrightarrow> ep_data_rx ep = ep_data_rx (se_endpoints s e') \<Longrightarrow>
     keeps sid e s (set_endpoint e' ep s)"
  "e' \<noteq> e \<Longrightarrow> keeps sid e s (set_endpoint e' ep s)"
  by (auto simp: keeps_defs set_endpoint_def)

lemma keeps_channels [simp]:
  "keeps sid e s (try_send_fin e' s)"
  "keeps sid e s (snd (send_synack e' msg s))"
  "e' \<noteq> e \<Longrightarrow> keeps sid e s (snd (try_send_data e' p s))"
  by (auto simp: try_send_fin_def send_synack_def try_send_data_def Let_def)

lemma keeps_table [simp]:
  "sid' \<noteq> sid \<Longrightarrow> keeps sid e s (unregister_stream sid' s)"
  "sid' \<noteq> sid \<Longrightarrow> keeps sid e s (mark_read_closed sid' s)"
  "sid' \<noteq> sid \<Longrightarrow> keeps sid e s (snd (take_synack_tx sid' s))"
  by (auto simp: keeps_defs unregister_stream_def mark_read_closed_def take_synack_tx_def Let_def
      split: option.splits if_splits)

lemma keeps_backlog [simp]:
  "pd_contents pd sid = pd_contents (se_pending_data s) sid \<Longrightarrow> keeps sid e s (s\<lparr>se_pending_data := pd\<rparr>)"
  by (auto simp: keeps_defs)

lemma keeps_store [simp]: "sid' \<noteq> sid \<Longrightarrow> keeps sid e s (snd (store_pending_data sid' p s))"
  by (simp add: store_pending_data_def Let_def pd_contents_laws(2))

lemmas keeps_steps =
  keeps_writer [THEN [2] keeps_trans] keeps_fields [THEN [2] keeps_trans] keeps_payload [THEN [2] keeps_trans]
  keeps_channels(1,2) [THEN [2] keeps_trans] keeps_table [THEN [2] keeps_trans] keeps_store [THEN [2] keeps_trans]

lemma keeps_clear [simp]:
  assumes "sid' \<noteq> sid"
  shows "keeps sid e s (clear_pending_client_stream_state sid' s)"
proof -
  obtain r pd where r: "pd_remove sid' (se_pending_data s) = (r, pd)" by (cases "pd_remove sid' (se_pending_data s)")
  have "pd_contents pd sid = pd_contents (se_pending_data s) sid" using pd_remove_contents [OF r] assms by simp
  then have "keeps sid e s (s\<lparr>se_pending_data := pd\<rparr>)" by simp
  then show ?thesis by (simp add: clear_pending_client_stream_state_def r Let_def keeps_steps)
qed

lemma keeps_close [simp]:
  "sid' \<noteq> sid \<Longrightarrow> keeps sid e s (remove_stream_state sid' s)"
  "sid' \<noteq> sid \<Longrightarrow> keeps sid e s (finish_closing_stream pick sid' s)"
  "sid' \<noteq> sid \<Longrightarrow> keeps sid e s (close_stream_fire_and_forget pick sid' s)"
  by (auto simp: remove_stream_state_def finish_closing_stream_def close_stream_fire_and_forget_def Let_def
      intro!: keeps_steps keeps_clear [THEN [2] keeps_trans] split: sum.split)

section \<open>Frames of other streams\<close>

lemma keeps_flush_loop:
  "e' \<noteq> e \<Longrightarrow> keeps sid e s (snd (flush_client_loop e' ps ad rem s))"
proof (induction e' ps ad rem s rule: flush_client_loop.induct)
  case (1 e' ad rem s)
  then show ?case by simp
next
  case (2 e' p ps ad rem s)
  obtain k s1 where k: "try_send_data e' p s = (k, s1)" by (cases "try_send_data e' p s")
  have ks: "keeps sid e s s1" using keeps_channels(3) [OF "2.prems", of sid s p] by (simp add: k)
  show ?case
  proof (cases ad)
    case False
    then show ?thesis using "2.IH"(3) [OF False "2.prems"] by simp
  next
    case True
    then show ?thesis
      using k ks "2.IH"(1) [OF True k [symmetric] _ "2.prems"] "2.IH"(2) [OF True k [symmetric] _ "2.prems"]
      by (cases k) (auto intro: keeps_trans [OF ks] keeps_steps)
  qed
qed

lemma fold_push_contents:
  "sid' \<noteq> sid \<Longrightarrow> pd_contents (fold (pd_push_back sid') ps pd) sid = pd_contents pd sid"
  by (induction ps arbitrary: pd) (simp_all add: pd_contents_laws(2))

lemma keeps_flush_client:
  assumes "sid' \<noteq> sid" "private_endpoint s sid e"
  shows "keeps sid e s (flush_client_pending_stream pick sid' s)"
proof (cases "se_streams s sid'")
  case None
  then show ?thesis by (simp add: flush_client_pending_stream_def)
next
  case (Some h)
  obtain r pd where r: "pd_remove sid' (se_pending_data s) = (r, pd)" by (cases "pd_remove sid' (se_pending_data s)")
  let ?ps = "case r of None \<Rightarrow> [] | Some ps \<Rightarrow> ps"
  let ?s1 = "s\<lparr>se_pending_data := pd, se_pending_fin := se_pending_fin s - {sid'}\<rparr>"
  have "pd_contents pd sid = pd_contents (se_pending_data s) sid" using pd_remove_contents [OF r] assms by simp
  then have k1: "keeps sid e s ?s1" by (auto simp: keeps_defs)
  obtain q s2 where q: "flush_client_loop (sh_endpoint h) ?ps True [] ?s1 = (q, s2)"
    by (cases "flush_client_loop (sh_endpoint h) ?ps True [] ?s1")
  have "sh_endpoint h \<noteq> e" using assms Some by (auto simp: private_endpoint_def)
  then have k2: "keeps sid e s s2"
    using keeps_trans [OF k1 keeps_flush_loop, of "sh_endpoint h" ?ps True "[]"] by (simp add: q)
  have k3: "keeps sid e s (s2\<lparr>se_pending_data := fold (pd_push_back sid') ps (se_pending_data s2)\<rparr>)" for ps
    by (rule keeps_trans [OF k2]) (simp add: fold_push_contents assms(1))
  show ?thesis
    using Some r q k3 keeps_trans [OF k2 keeps_close(3) [OF assms(1)]] assms(1)
    by (auto simp: flush_client_pending_stream_def Let_def intro!: keeps_steps split: option.split prod.split)
qed

lemma keeps_store_or_close [simp]: "sid' \<noteq> sid \<Longrightarrow> keeps sid e s (store_or_close pick sid' p s)"
proof (cases "store_pending_data sid' p s")
  case (Pair b s1)
  assume "sid' \<noteq> sid"
  then have "keeps sid e s s1" using keeps_store [of sid' sid e s p] by (simp add: Pair)
  then show ?thesis using Pair keeps_trans [OF _ keeps_close(3) [OF \<open>sid' \<noteq> sid\<close>]]
    by (auto simp: store_or_close_def split: bool.split)
qed

lemma keeps_deliver:
  assumes "sid' \<noteq> sid" "e' \<noteq> e"
  shows "keeps sid e s (deliver_psh env sid' e' data s)"
proof -
  obtain p s1 where n: "new_payload data s = (p, s1)" by (cases "new_payload data s")
  obtain r s2 where r: "try_send_data e' p s1 = (r, s2)" by (cases "try_send_data e' p s1")
  have k1: "keeps sid e s s1" using keeps_payload(3) [of sid e s data] by (simp add: n)
  have k2: "keeps sid e s s2" using keeps_trans [OF k1 keeps_channels(3) [OF assms(2)], of p] by (simp add: r)
  show ?thesis
    using assms k1 k2 by (auto simp: deliver_psh_def Let_def n r intro: keeps_trans split: send_result.split)
qed

lemma keeps_open_store [simp]:
  "keeps sid e s (snd (store_pending_open_data sid' data s))"
  "keeps sid e s (snd (store_pending_open_fin sid' s))"
  "keeps sid e s (release_inbound_stream_reservation s)"
  "keeps sid e s (drop_pending_open sid' s)"
  by (auto simp: store_pending_open_data_def store_pending_open_fin_def release_pending_open_reservation_def
      release_inbound_stream_reservation_def drop_pending_open_def drop_payloads_eq new_payload_def keeps_defs
      case_prod_beta Let_def)

lemma keeps_handle_psh:
  assumes "sid' \<noteq> sid" "private_endpoint s sid e"
  shows "keeps sid e s (handle_psh env sid' data s)"
proof -
  let ?s0 = "session_conn_received (length data) s"
  obtain st s1 where s1: "(if pos_contains (se_pending_open ?s0) sid'
      then store_pending_open_data sid' data ?s0 else (False, ?s0)) = (st, s1)" by fastforce
  have "keeps sid e s (snd (if pos_contains (se_pending_open ?s0) sid'
      then store_pending_open_data sid' data ?s0 else (False, ?s0)))"
    by (auto intro!: keeps_open_store [THEN [2] keeps_trans])
  then have k1: "keeps sid e s s1" by (simp add: s1)
  then have pr: "private_endpoint s1 sid e" using assms(2) by (auto simp: keeps_def intro: private_keeps)
  obtain p s2 where n: "new_payload data s1 = (p, s2)" by (cases "new_payload data s1")
  have k2: "keeps sid e s s2" using keeps_trans [OF k1 keeps_payload(3), of data] by (simp add: n)
  have "e' \<noteq> e" if "dispatch_psh sid' s1 = Deliver e'" for e'
    using that pr assms(1) by (auto simp: dispatch_psh_def private_endpoint_def split: option.splits if_splits)
  then have "keeps sid e s (deliver_psh env sid' e' data s1)" if "dispatch_psh sid' s1 = Deliver e'" for e'
    using that keeps_trans [OF k1 keeps_deliver [OF assms(1)]] by blast
  then show ?thesis
    using k1 keeps_trans [OF k2 keeps_store [OF assms(1)]]
    by (auto simp: handle_psh_def s1 n split: psh_dispatch.split)
qed

lemma keeps_handle_syn: "keeps sid e s (snd (handle_syn sid' sr s))"
  by (auto simp: handle_syn_def reject_reserved_def try_reserve_inbound_stream_def on_new_stream_def case_prod_beta
      Let_def intro!: keeps_steps keeps_open_store [THEN [2] keeps_trans] split: option.split)

lemmas keeps_steps2 = keeps_steps keeps_open_store [THEN [2] keeps_trans] keeps_clear [THEN [2] keeps_trans]
  keeps_close [THEN [2] keeps_trans]

lemma keeps_handle_fin:
  assumes "sid' \<noteq> sid"
  shows "keeps sid e s (handle_fin sid' s)"
proof -
  obtain tx s1 where t: "(if se_is_client s then take_synack_tx sid' s else (None, s)) = (tx, s1)" by fastforce
  have "keeps sid e s (snd (if se_is_client s then take_synack_tx sid' s else (None, s)))"
    using assms by simp
  then have k1: "keeps sid e s s1" by (simp add: t)
  obtain b s2 where s2: "store_pending_open_fin sid' s1 = (b, s2)" by (cases "store_pending_open_fin sid' s1")
  obtain c s3 where s3: "clear_closing_stream sid' s2 = (c, s3)" by (cases "clear_closing_stream sid' s2")
  have k2: "keeps sid e s s2" using keeps_trans [OF k1 keeps_open_store(2), of sid'] by (simp add: s2)
  have k3: "keeps sid e s s3" using keeps_trans [OF k2 keeps_payload(6), of sid'] by (simp add: s3)
  show ?thesis
    using t k1 s2 k2 s3 k3 assms
    by (auto simp: handle_fin_def Let_def intro!: keeps_steps2 split: option.split bool.split)
qed

lemma keeps_handle_synack:
  assumes "sid' \<noteq> sid" "private_endpoint s sid e"
  shows "keeps sid e s (handle_synack env sid' payload s)"
proof -
  obtain tx s1 where t: "take_synack_tx sid' s = (tx, s1)" by (cases "take_synack_tx sid' s")
  have k1: "keeps sid e s s1" using keeps_table(3) [OF assms(1), of e s] by (simp add: t)
  show ?thesis
  proof (cases tx)
    case None
    then show ?thesis using t k1 by (simp add: handle_synack_def)
  next
    case (Some e')
    obtain b s2 where s2: "send_synack e' payload s1 = (b, s2)" by (cases "send_synack e' payload s1")
    have k2: "keeps sid e s s2" using keeps_trans [OF k1 keeps_channels(2), of e' payload] by (simp add: s2)
    then have "private_endpoint s2 sid e" using assms(2) by (auto simp: keeps_def intro: private_keeps)
    then show ?thesis
      using t Some s2 k2 keeps_trans [OF k2 keeps_flush_client [OF assms(1)]] keeps_trans [OF k2 keeps_close(1) [OF assms(1)]]
      by (simp add: handle_synack_def Let_def)
  qed
qed

lemma keeps_handle_settings: "keeps sid e s (handle_settings env sr payload s)"
  by (auto simp: handle_settings_def Let_def intro!: keeps_steps2)

lemma keeps_handle_padding: "keeps sid e s (snd (handle_padding env sid' payload s))"
  by (auto simp: handle_padding_def Let_def intro!: keeps_steps2 split: option.split)

lemma keeps_other_frame:
  assumes "f_stream_id f \<noteq> sid" "private_endpoint s sid e" "handle_frame env f sr s = (err, sr', s')"
  shows "keeps sid e s s'"
  using assms(3) keeps_handle_psh [OF assms(1,2)] keeps_handle_fin [OF assms(1)] keeps_handle_synack [OF assms(1,2)]
    keeps_handle_settings [of sid e s] keeps_handle_padding [of sid e s] keeps_handle_syn [of sid e s]
  by (auto simp: handle_frame_def Let_def case_prod_beta split: if_splits)

section \<open>Frames of the stream itself\<close>

text \<open>An established stream takes data; once it is closed for reading or gone, nothing is added.\<close>

definition receiving :: "session \<Rightarrow> u32 \<Rightarrow> nat \<Rightarrow> bool" where
  "receiving s sid e \<longleftrightarrow> (\<exists>h. se_streams s sid = Some h \<and> sh_endpoint h = e \<and> \<not> sh_synack_tx h \<and> \<not> sh_read_closed h) \<and>
     ep_data_rx (se_endpoints s e) \<and> \<not> pos_contains (se_pending_open s) sid"

definition finished :: "session \<Rightarrow> u32 \<Rightarrow> bool" where
  "finished s sid \<longleftrightarrow> (case se_streams s sid of None \<Rightarrow> True | Some h \<Rightarrow> \<not> sh_synack_tx h \<and> sh_read_closed h)"

lemma close_own:
  "se_streams (close_stream_fire_and_forget pick sid s) sid = None"
  "pd_contents (se_pending_data (close_stream_fire_and_forget pick sid s)) sid = []"
  "se_endpoints (close_stream_fire_and_forget pick sid s) = se_endpoints s"
  "se_is_client (close_stream_fire_and_forget pick sid s) = se_is_client s"
proof -
  let ?s0 = "unregister_stream sid (remember_closing_stream pick sid s)"
  obtain r pd where r: "pd_remove sid (se_pending_data ?s0) = (r, pd)" by (cases "pd_remove sid (se_pending_data ?s0)")
  have c: "pd_contents pd sid = []" using pd_remove_contents [OF r] by simp
  have e: "se_endpoints ?s0 = se_endpoints s" "se_streams ?s0 sid = None" "se_is_client ?s0 = se_is_client s"
    by (auto simp: unregister_stream_def remember_closing_stream_def Let_def split: option.splits)
  show "se_streams (close_stream_fire_and_forget pick sid s) sid = None"
    "pd_contents (se_pending_data (close_stream_fire_and_forget pick sid s)) sid = []"
    "se_endpoints (close_stream_fire_and_forget pick sid s) = se_endpoints s"
    "se_is_client (close_stream_fire_and_forget pick sid s) = se_is_client s"
    using c e r
    by (auto simp: close_stream_fire_and_forget_def finish_closing_stream_def remove_stream_state_def
        clear_pending_client_stream_state_def drop_payloads_eq writer_defs Let_def split: sum.split)
qed

lemma receiving_keeps:
  "keeps sid e s s' \<Longrightarrow> pos_contains (se_pending_open s') sid = pos_contains (se_pending_open s) sid \<Longrightarrow>
     receiving s' sid e = receiving s sid e"
  by (auto simp: receiving_def keeps_def view_def)

lemma finished_keeps: "keeps sid e s s' \<Longrightarrow> finished s' sid = finished s sid"
  by (simp add: finished_def keeps_def view_def)

text \<open>What one frame may do to a stream that is receiving: append its payload and go on, or end it
  with what was already there or a beginning of that.\<close>

definition delivers :: "u32 \<Rightarrow> nat \<Rightarrow> bytes list \<Rightarrow> session \<Rightarrow> session \<Rightarrow> bool" where
  "delivers sid e ds s s' \<longleftrightarrow>
     (receiving s' sid e \<and> stream_bytes s' sid e = stream_bytes s sid e @ ds) \<or>
     (finished s' sid \<and> prefix (stream_bytes s' sid e) (stream_bytes s sid e @ ds))"

lemma delivers_keeps:
  "receiving s sid e \<Longrightarrow> keeps sid e s s' \<Longrightarrow>
     pos_contains (se_pending_open s') sid = pos_contains (se_pending_open s) sid \<Longrightarrow> delivers sid e [] s s'"
  using receiving_keeps [of sid e s s'] keeps_bytes [of sid e s s'] by (simp add: delivers_def)

lemma store_own:
  assumes "receiving s sid e"
  shows "delivers sid e [bp_data p] s (store_or_close pick sid p s)"
proof -
  obtain b s1 where s1: "store_pending_data sid p s = (b, s1)" by (cases "store_pending_data sid p s")
  show ?thesis
  proof (cases b)
    case True
    then have eq: "s1 = s\<lparr>se_pending_data := pd_push_back sid p (se_pending_data s)\<rparr>"
      using s1 by (auto simp: store_pending_data_def Let_def split: if_splits)
    have "receiving s1 sid e" using assms unfolding receiving_def eq by simp
    moreover have "stream_bytes s1 sid e = stream_bytes s sid e @ [bp_data p]"
      by (simp add: eq stream_bytes_def pd_contents_laws(2))
    ultimately show ?thesis using s1 True by (simp add: store_or_close_def delivers_def)
  next
    case False
    then have "s1 = drop_payload p s"
      using s1 by (auto simp: store_pending_data_def Let_def split: if_splits)
    then show ?thesis
      using s1 False by (auto simp: store_or_close_def delivers_def finished_def stream_bytes_def close_own)
  qed
qed

lemma deliver_own:
  assumes "receiving s sid e"
  shows "delivers sid e [data] s (deliver_psh env sid e data s)"
proof -
  obtain p s1 where n: "new_payload data s = (p, s1)" by (cases "new_payload data s")
  have p: "bp_data p = data" using n by (auto simp: new_payload_def bp_new_def)
  have k: "keeps sid e s s1" "se_pending_open s1 = se_pending_open s"
    using keeps_payload(3) [of sid e s data] n by (auto simp: new_payload_def bp_new_def)
  have r1: "receiving s1 sid e" using receiving_keeps [OF k(1)] k(2) assms by simp
  have b1: "stream_bytes s1 sid e = stream_bytes s sid e" by (rule keeps_bytes [OF k(1)])
  have "delivers sid e [data] s1 (deliver_psh env sid e data s)"
  proof (cases "fe_pending_busy env \<or> pd_contains (se_pending_data s) sid \<or>
      length (ep_data (se_endpoints s1 e)) \<ge> STREAM_CHANNEL_CAPACITY")
    case True
    then have "deliver_psh env sid e data s = store_or_close (fe_pick env) sid p s1"
      using r1 by (auto simp: deliver_psh_def n Let_def try_send_data_def receiving_def)
    then show ?thesis using store_own [OF r1, of p] p by simp
  next
    case False
    then have "pd_contents (se_pending_data s1) sid = []"
      using k(1) by (auto simp: keeps_def view_def pd_contains_def pd_contents_def)
    moreover have "deliver_psh env sid e data s =
        set_endpoint e ((se_endpoints s1 e)\<lparr>ep_data := ep_data (se_endpoints s1 e) @ [p]\<rparr>) s1"
      using False r1 by (simp add: deliver_psh_def n Let_def try_send_data_def receiving_def)
    moreover have "receiving (set_endpoint e ((se_endpoints s1 e)\<lparr>ep_data := ep_data (se_endpoints s1 e) @ [p]\<rparr>) s1) sid e"
      using r1 unfolding receiving_def by (simp add: set_endpoint_def)
    ultimately show ?thesis using p by (simp add: delivers_def stream_bytes_def set_endpoint_def)
  qed
  then show ?thesis by (simp add: delivers_def b1)
qed

lemma handle_psh_own:
  assumes "receiving s sid e"
  shows "delivers sid e [data] s (handle_psh env sid data s)"
proof -
  let ?s0 = "session_conn_received (length data) s"
  have k: "keeps sid e s ?s0" "se_pending_open ?s0 = se_pending_open s"
    by (simp, simp add: session_conn_received_def send_window_update_def writer_defs case_prod_beta Let_def
        split: option.split)
  have r0: "receiving ?s0 sid e" using receiving_keeps [OF k(1)] k(2) assms by simp
  have b0: "stream_bytes ?s0 sid e = stream_bytes s sid e" by (rule keeps_bytes [OF k(1)])
  have "dispatch_psh sid t = Deliver e \<and> \<not> pos_contains (se_pending_open t) sid" if "receiving t sid e" for t
    using that by (auto simp: receiving_def dispatch_psh_def)
  from this [OF r0] have "handle_psh env sid data s = deliver_psh env sid e data ?s0"
    unfolding handle_psh_def Let_def by (simp del: keeps_writer)
  then show ?thesis using deliver_own [OF r0, of data env] by (simp add: delivers_def b0)
qed

lemma handle_psh_finished:
  assumes "finished s sid"
  shows "keeps sid e s (handle_psh env sid data s)"
proof -
  let ?s0 = "session_conn_received (length data) s"
  have k: "keeps sid e s ?s0" by simp
  obtain st s1 where s1: "(if pos_contains (se_pending_open ?s0) sid
      then store_pending_open_data sid data ?s0 else (False, ?s0)) = (st, s1)" by fastforce
  have "keeps sid e s (snd (if pos_contains (se_pending_open ?s0) sid
      then store_pending_open_data sid data ?s0 else (False, ?s0)))"
    by (auto intro!: keeps_open_store [THEN [2] keeps_trans])
  then have k1: "keeps sid e s s1" by (simp add: s1)
  then have "finished s1 sid" using assms finished_keeps by blast
  then have "dispatch_psh sid s1 = Closing \<or> dispatch_psh sid s1 = NotFound"
    by (auto simp: finished_def dispatch_psh_def split: option.splits)
  then show ?thesis using k1 by (auto simp: handle_psh_def s1)
qed

lemma handle_synack_own:
  "se_streams s sid = None \<or> (\<exists>h. se_streams s sid = Some h \<and> \<not> sh_synack_tx h) \<Longrightarrow> handle_synack env sid payload s = s"
  by (auto simp: handle_synack_def take_synack_tx_def)

lemma open_fin_unknown: "\<not> pos_contains (se_pending_open s) sid \<Longrightarrow> store_pending_open_fin sid s = (False, s)"
  by (simp add: store_pending_open_fin_def pos_set_buffered_fin_def pos_contains_def)

lemma take_synack_none:
  "se_streams s sid = None \<or> (\<exists>h. se_streams s sid = Some h \<and> \<not> sh_synack_tx h) \<Longrightarrow> take_synack_tx sid s = (None, s)"
  by (auto simp: take_synack_tx_def)

lemma handle_fin_own:
  assumes "receiving s sid e"
  shows "delivers sid e [] s (handle_fin sid s)"
proof -
  obtain h where h: "se_streams s sid = Some h" "sh_endpoint h = e" "\<not> sh_synack_tx h" "\<not> sh_read_closed h"
    and np: "\<not> pos_contains (se_pending_open s) sid"
    using assms by (auto simp: receiving_def)
  let ?s1 = "s\<lparr>se_closing := se_closing s - {sid}\<rparr>"
  have t: "(if se_is_client s then take_synack_tx sid s else (None, s)) = (None, s)"
    using take_synack_none [of s sid] h by simp
  show ?thesis
  proof (cases "sid \<in> se_closing s")
    case True
    then have "handle_fin sid s = ?s1"
      unfolding handle_fin_def t by (simp add: open_fin_unknown [OF np] clear_closing_stream_def)
    then show ?thesis using assms by (simp add: delivers_keeps)
  next
    case False
    let ?s2 = "try_send_fin (sh_endpoint h) (mark_read_closed sid ?s1)"
    have "handle_fin sid s = ?s2 \<or> handle_fin sid s = snd (clear_closing_stream sid ?s2)"
      using False h(1) unfolding handle_fin_def t
      by (simp add: open_fin_unknown [OF np] clear_closing_stream_def Let_def)
    moreover have "finished ?s2 sid \<and> stream_bytes ?s2 sid e = stream_bytes s sid e"
      using h by (simp add: finished_def stream_bytes_def try_send_fin_def mark_read_closed_def set_endpoint_def Let_def)
    ultimately show ?thesis
      by (auto simp: delivers_def finished_def stream_bytes_def clear_closing_stream_def)
  qed
qed

lemma handle_fin_finished:
  assumes "finished s sid"
  shows "keeps sid e s (handle_fin sid s)"
proof -
  have t: "(if se_is_client s then take_synack_tx sid s else (None, s)) = (None, s)"
    using take_synack_none [of s sid] assms by (auto simp: finished_def split: option.splits)
  obtain b s2 where s2: "store_pending_open_fin sid s = (b, s2)" by (cases "store_pending_open_fin sid s")
  obtain c s3 where s3: "clear_closing_stream sid s2 = (c, s3)" by (cases "clear_closing_stream sid s2")
  have k2: "keeps sid e s s2" using keeps_open_store(2) [of sid e s sid] by (simp add: s2)
  have k3: "keeps sid e s s3" using keeps_trans [OF k2 keeps_payload(6), of sid] by (simp add: s3)
  have "finished s3 sid" using finished_keeps [OF k3] assms by simp
  then have "mark_read_closed sid s3 = s3" by (auto simp: finished_def mark_read_closed_def split: option.splits)
  then show ?thesis
    unfolding handle_fin_def t using s2 s3 k2 k3
    by (auto simp: Let_def intro!: keeps_steps2 split: option.split bool.split)
qed

definition psh_data :: "u32 \<Rightarrow> frame \<Rightarrow> bytes list" where
  "psh_data sid f = (if f_cmd f = CMD_PSH \<and> f_stream_id f = sid then [f_payload f] else [])"

lemma rejection_sel [simp]:
  "se_pending_open (snd (send_synack_rejection sid r t)) = se_pending_open t"
  "se_next_endpoint (snd (send_synack_rejection sid r t)) = se_next_endpoint t"
  "se_high_water (snd (send_synack_rejection sid r t)) = se_high_water t"
  by (auto simp: send_synack_rejection_def writer_defs case_prod_beta Let_def split: sum.split)

lemma release_sel [simp]:
  "se_pending_open (release_inbound_stream_reservation s) = se_pending_open s"
  "se_next_endpoint (release_inbound_stream_reservation s) = se_next_endpoint s"
  "se_high_water (release_inbound_stream_reservation s) = se_high_water s"
  by (simp_all add: release_inbound_stream_reservation_def)

lemma syn_known:
  assumes "receiving s sid e"
  shows "pos_contains (se_pending_open (snd (handle_syn sid sr s))) sid = pos_contains (se_pending_open s) sid"
  using assms by (auto simp: handle_syn_def receiving_def Let_def)

lemma syn_other_entries:
  assumes "sid' \<noteq> sid"
  shows "pos_streams (se_pending_open (snd (handle_syn sid' sr s))) sid = pos_streams (se_pending_open s) sid"
proof -
  have ins: "pos_streams (pos_insert_new sid' po) sid = pos_streams po sid" for po
    using assms by (simp add: pos_insert_new_def pos_remove_def Let_def split: option.split)
  show ?thesis
    using assms
    by (simp add: handle_syn_def reject_reserved_def try_reserve_inbound_stream_def on_new_stream_def drop_open_sel ins
        case_prod_beta Let_def split: option.split)
qed

lemma own_frame_receiving:
  assumes "receiving s sid e" "f_stream_id f = sid" "sess_inv [] s" "handle_frame env f sr s = (err, sr', s')"
  shows "delivers sid e (psh_data sid f) s s'"
proof -
  have ns: "se_streams s sid = None \<or> (\<exists>h. se_streams s sid = Some h \<and> \<not> sh_synack_tx h)"
    using assms(1) by (auto simp: receiving_def)
  have "delivers sid e [] s (snd (handle_syn sid sr s))"
    by (rule delivers_keeps [OF assms(1) keeps_handle_syn syn_known [OF assms(1)]])
  moreover have "delivers sid e [] s (handle_settings env sr payload s)" for payload
    using handle_settings_inv [OF assms(3)]
    by (intro delivers_keeps [OF assms(1) keeps_handle_settings]) (rule evolvesD(9), blast)
  moreover have "delivers sid e [] s (snd (handle_padding env sid payload s))" for payload
    using handle_padding_inv [OF assms(3)]
    by (intro delivers_keeps [OF assms(1) keeps_handle_padding]) (rule evolvesD(9), blast)
  moreover have "delivers sid e [] s s" by (rule delivers_keeps [OF assms(1) keeps_refl refl])
  ultimately show ?thesis
    using assms(2,4) handle_psh_own [OF assms(1)] handle_fin_own [OF assms(1)] handle_synack_own [OF ns]
    by (auto simp: handle_frame_def psh_data_def Let_def case_prod_beta split: if_splits)
qed

lemma own_frame_finished:
  assumes "finished s sid" "f_stream_id f = sid" "handle_frame env f sr s = (err, sr', s')"
  shows "keeps sid e s s'"
proof -
  have ns: "se_streams s sid = None \<or> (\<exists>h. se_streams s sid = Some h \<and> \<not> sh_synack_tx h)"
    using assms(1) by (auto simp: finished_def split: option.splits)
  show ?thesis
    using assms(2,3) handle_psh_finished [OF assms(1)] handle_fin_finished [OF assms(1)] handle_synack_own [OF ns]
      keeps_handle_syn [of sid e s] keeps_handle_settings [of sid e s] keeps_handle_padding [of sid e s]
    by (auto simp: handle_frame_def Let_def case_prod_beta split: if_splits)
qed

section \<open>Reads\<close>

text \<open>One uninterrupted pass of a reader takes the head of the stream's bytes or leaves them.\<close>

definition drain_of :: "bool \<Rightarrow> bool \<Rightarrow> bool \<Rightarrow> drain_fun" where
  "drain_of server busy fin_busy =
     (if server then server_drain_pending busy else client_drain_pending busy fin_busy)"

definition took :: "read_pass \<Rightarrow> bytes list" where
  "took r = (case r of ReadData d \<Rightarrow> [d] | _ \<Rightarrow> [])"

definition same_status :: "session \<Rightarrow> session \<Rightarrow> nat \<Rightarrow> bool" where
  "same_status s s' e \<longleftrightarrow> se_streams s' = se_streams s \<and> se_pending_open s' = se_pending_open s \<and>
     ep_data_rx (se_endpoints s' e) = ep_data_rx (se_endpoints s e)"

lemma into_bytes_sel [simp]:
  "se_streams (snd (into_bytes p s)) = se_streams s" "se_endpoints (snd (into_bytes p s)) = se_endpoints s"
  "se_pending_data (snd (into_bytes p s)) = se_pending_data s" "se_pending_open (snd (into_bytes p s)) = se_pending_open s"
  by (simp_all add: into_bytes_def case_prod_beta Let_def)

lemma try_recv_bytes:
  assumes "try_recv_data e s = (r, s')"
  shows "same_status s s' e \<and> se_pending_data s' = se_pending_data s \<and>
    (case r of None \<Rightarrow> s' = s \<and> ep_data (se_endpoints s e) = []
     | Some d \<Rightarrow> map bp_data (ep_data (se_endpoints s e)) = d # map bp_data (ep_data (se_endpoints s' e)))"
proof (cases "ep_data (se_endpoints s e)")
  case Nil
  then show ?thesis using assms by (auto simp: try_recv_data_def Let_def same_status_def)
next
  case (Cons p ps)
  then show ?thesis
    using assms by (auto simp: try_recv_data_def Let_def same_status_def case_prod_beta set_endpoint_def)
qed

lemma take_fin_sel [simp]:
  "se_streams (snd (take_queued_pending_fin b rd s)) = se_streams s"
  "se_endpoints (snd (take_queued_pending_fin b rd s)) = se_endpoints s"
  "se_pending_data (snd (take_queued_pending_fin b rd s)) = se_pending_data s"
  "se_pending_open (snd (take_queued_pending_fin b rd s)) = se_pending_open s"
  "rd_sid (fst (take_queued_pending_fin b rd s)) = rd_sid rd"
  "rd_endpoint (fst (take_queued_pending_fin b rd s)) = rd_endpoint rd"
  by (simp_all add: take_queued_pending_fin_def)

lemma drain_bytes:
  assumes "drain_of server busy fin_busy rd s = (r, rd', s')"
  shows "se_streams s' = se_streams s \<and> se_endpoints s' = se_endpoints s \<and> se_pending_open s' = se_pending_open s \<and>
    rd_sid rd' = rd_sid rd \<and> rd_endpoint rd' = rd_endpoint rd \<and>
    map bp_data (pd_contents (se_pending_data s) (rd_sid rd)) =
      (case r of None \<Rightarrow> [] | Some d \<Rightarrow> [d]) @ map bp_data (pd_contents (se_pending_data s') (rd_sid rd))"
proof -
  obtain pr pd where pop: "pd_pop_front (rd_sid rd) (se_pending_data s) = (pr, pd)"
    by (cases "pd_pop_front (rd_sid rd) (se_pending_data s)")
  have hd: "pr = (case pd_contents (se_pending_data s) (rd_sid rd) of [] \<Rightarrow> None | y # _ \<Rightarrow> Some y)"
    and tl: "pd_contents pd (rd_sid rd) = tl (pd_contents (se_pending_data s) (rd_sid rd))"
    using pd_contents_laws(3,4) [of "rd_sid rd" "se_pending_data s"] by (simp_all add: pop)
  show ?thesis
  proof (cases pr)
    case None
    then show ?thesis
      using assms pop
      by (auto simp: drain_of_def server_drain_pending_def client_drain_pending_def take_queued_pending_fin_def
          case_prod_beta split: if_splits)
  next
    case (Some p)
    then have "pd_contents (se_pending_data s) (rd_sid rd) = p # pd_contents pd (rd_sid rd)"
      using hd tl by (cases "pd_contents (se_pending_data s) (rd_sid rd)") auto
    then show ?thesis
      using assms pop Some
      by (auto simp: drain_of_def server_drain_pending_def client_drain_pending_def case_prod_beta Let_def split: if_splits)
  qed
qed

lemma select_bytes:
  assumes "read_select ff rd s = (r, rd', s')"
  shows "same_status s s' (rd_endpoint rd) \<and> se_pending_data s' = se_pending_data s \<and>
    rd_sid rd' = rd_sid rd \<and> rd_endpoint rd' = rd_endpoint rd \<and>
    map bp_data (ep_data (se_endpoints s (rd_endpoint rd))) =
      took r @ map bp_data (ep_data (se_endpoints s' (rd_endpoint rd)))"
proof -
  let ?e = "rd_endpoint rd"
  obtain q t where q: "try_recv_data ?e s = (q, t)" by (cases "try_recv_data ?e s")
  note rc = try_recv_bytes [OF q]
  show ?thesis
    using assms rc unfolding read_select_def Let_def q
    by (auto simp: took_def same_status_def set_endpoint_def split: if_splits option.splits)
qed

lemma read_step_bytes:
  assumes "read_step (drain_of server busy fin_busy) ff rd s = (r, rd', s')"
  shows "same_status s s' (rd_endpoint rd) \<and> rd_sid rd' = rd_sid rd \<and> rd_endpoint rd' = rd_endpoint rd \<and>
    stream_bytes s (rd_sid rd) (rd_endpoint rd) = took r @ stream_bytes s' (rd_sid rd) (rd_endpoint rd)"
proof -
  let ?e = "rd_endpoint rd"
  obtain q t where q: "try_recv_data ?e s = (q, t)" by (cases "try_recv_data ?e s")
  note rc = try_recv_bytes [OF q]
  show ?thesis
  proof (cases q)
    case (Some d)
    then show ?thesis using assms q rc by (auto simp: read_step_def stream_bytes_def took_def)
  next
    case None
    then have t: "t = s" and empty: "ep_data (se_endpoints s ?e) = []" using rc by auto
    obtain d rd1 s1 where d: "drain_of server busy fin_busy rd s = (d, rd1, s1)" by (cases "drain_of server busy fin_busy rd s")
    note db = drain_bytes [OF d]
    show ?thesis
    proof (cases "d = None \<and> \<not> rd_read_closed rd1")
      case True
      then have sel: "read_select ff rd1 s1 = (r, rd', s')"
        using assms q None t d by (simp add: read_step_def read_backlog_def)
      show ?thesis using select_bytes [OF sel] db empty True by (simp add: stream_bytes_def same_status_def)
    next
      case False
      then show ?thesis
        using assms q None t d db empty
        by (auto simp: read_step_def read_backlog_def stream_bytes_def took_def same_status_def split: option.splits if_splits)
    qed
  qed
qed

section \<open>Runs\<close>

text \<open>Frames of any stream arrive and the consumer of one stream reads, in any order. The run ends at
  the frame that ends the read loop.\<close>

datatype stream_event = Arrives frame_env frame | Reads bool bool bool

fun stream_run ::
  "bool \<Rightarrow> stream_event list \<Rightarrow> stream_reader \<Rightarrow> bool \<Rightarrow> session \<Rightarrow> bytes list \<times> bytes list \<times> session" where
  "stream_run server [] rd sr s = ([], [], s)"
| "stream_run server (Arrives env f # evs) rd sr s =
     (case handle_frame env f sr s of
        (Some err, sr', s') \<Rightarrow> ([], psh_data (rd_sid rd) f, s')
      | (None, sr', s') \<Rightarrow>
          let (got, sent, t) = stream_run server evs rd sr' s' in (got, psh_data (rd_sid rd) f @ sent, t))"
| "stream_run server (Reads busy fin_busy ff # evs) rd sr s =
     (let (r, rd', s') = read_step (drain_of server busy fin_busy) ff rd s;
          (got, sent, t) = stream_run server evs rd' sr s'
      in (took r @ got, sent, t))"

lemma private_ids:
  "ids_inv acc s \<Longrightarrow> receiving s sid e \<Longrightarrow> private_endpoint s sid e"
  by (auto simp: ids_inv_def endpoints_inv_def private_endpoint_def receiving_def)

lemma syn_frame:
  "handle_frame env f sr s = (err, sr', s') \<Longrightarrow> f_cmd f = CMD_SYN \<Longrightarrow> s' = snd (handle_syn (f_stream_id f) sr s)"
  by (auto simp: handle_frame_def cmd_defs Let_def split: prod.splits)

lemma frame_same_handles:
  assumes "sess_inv [] s" "handle_frame env f sr s = (err, sr', s')"
  shows "same_handles s s'"
proof (cases "f_cmd f = CMD_SYN")
  case True
  then show ?thesis using keeps_handle_syn [of _ 0 s _ sr] syn_frame [OF assms(2)] by (simp add: keeps_def)
next
  case False
  then show ?thesis using frame_evolves [OF assms] by (simp add: evolves_defs same_handles_def)
qed

lemma other_pos_contains:
  assumes "sess_inv [] s" "handle_frame env f sr s = (err, sr', s')" "f_stream_id f \<noteq> sid"
  shows "pos_contains (se_pending_open s') sid = pos_contains (se_pending_open s) sid"
proof (cases "f_cmd f = CMD_SYN")
  case True
  then show ?thesis using syn_frame [OF assms(2)] by (simp add: pos_contains_def syn_other_entries [OF assms(3)])
next
  case False
  then show ?thesis using frame_evolves [OF assms(1,2)] evolvesD(9) by metis
qed

lemma frame_delivers:
  assumes "sess_inv [] s" "private_endpoint s sid e" "handle_frame env f sr s = (err, sr', s')"
  shows "receiving s sid e \<Longrightarrow> delivers sid e (psh_data sid f) s s'"
    and "finished s sid \<Longrightarrow> finished s' sid \<and> stream_bytes s' sid e = stream_bytes s sid e"
proof -
  have other: "keeps sid e s s'" if "f_stream_id f \<noteq> sid" by (rule keeps_other_frame [OF that assms(2,3)])
  show "delivers sid e (psh_data sid f) s s'" if "receiving s sid e"
  proof (cases "f_stream_id f = sid")
    case True
    then show ?thesis using own_frame_receiving [OF that _ assms(1,3)] by simp
  next
    case False
    then show ?thesis
      using delivers_keeps [OF that other [OF False] other_pos_contains [OF assms(1,3) False]] by (simp add: psh_data_def)
  qed
  show "finished s' sid \<and> stream_bytes s' sid e = stream_bytes s sid e" if "finished s sid"
  proof -
    have "keeps sid e s s'"
      using own_frame_finished [OF that _ assms(3)] other by (cases "f_stream_id f = sid") auto
    then show ?thesis using finished_keeps keeps_bytes that by metis
  qed
qed

lemma frame_bound:
  assumes "sess_inv [] s" "handle_frame env f sr s = (err, sr', s')"
  shows "se_next_endpoint s' = se_next_endpoint s"
proof (cases "f_cmd f = CMD_SYN")
  case True
  then show ?thesis
    using syn_frame [OF assms(2)]
    by (simp add: handle_syn_def reject_reserved_def try_reserve_inbound_stream_def on_new_stream_def drop_open_sel
        case_prod_beta Let_def split: option.split)
next
  case False
  then show ?thesis using frame_evolves [OF assms] evolves_bound by blast
qed

lemma status_read:
  assumes "same_status s s' e"
  shows "receiving s' sid e = receiving s sid e" "finished s' sid = finished s sid"
    "private_endpoint s' sid e = private_endpoint s sid e"
  using assms by (simp_all add: same_status_def receiving_def finished_def private_endpoint_def)

lemma read_step_inv:
  assumes "sess_inv [] s" "rd_endpoint rd < se_next_endpoint s"
    "read_step (drain_of server busy fin_busy) ff rd s = (r, rd', s')"
  shows "sess_inv [] s' \<and> evolves s s'"
proof -
  obtain q t where q: "try_recv_data (rd_endpoint rd) s = (q, t)" by (cases "try_recv_data (rd_endpoint rd) s")
  have t: "sess_inv [] t" "evolves s t" using try_recv_inv [OF assms(1,2)] by (simp_all add: q)
  have good: "good_drain (drain_of server busy fin_busy)"
    using good_server_drain good_client_drain by (simp add: drain_of_def)
  show ?thesis
  proof (cases q)
    case None
    then have rb: "read_backlog (drain_of server busy fin_busy) ff rd t = (r, rd', s')"
      using assms(3) q by (simp add: read_step_def)
    have "sess_inv [] s' \<and> evolves t s'"
      using read_backlog_inv [OF good t(1) _ rb] assms(2) evolves_bound [OF t(2)] by simp
    then show ?thesis using evolves_trans [OF t(2)] by blast
  next
    case (Some d)
    then show ?thesis using assms(3) q t by (simp add: read_step_def)
  qed
qed

lemma run_finished:
  assumes "sess_inv [] s" "ids_inv acc s" "private_endpoint s (rd_sid rd) (rd_endpoint rd)"
    "rd_endpoint rd < se_next_endpoint s" "finished s (rd_sid rd)"
    "stream_run server evs rd sr s = (got, sent, t)"
  shows "prefix got (stream_bytes s (rd_sid rd) (rd_endpoint rd)) \<and> finished t (rd_sid rd)"
  using assms
proof (induction server evs rd sr s arbitrary: got sent rule: stream_run.induct)
  case (1 server rd sr s)
  then show ?case by simp
next
  case (2 server env f evs rd sr s)
  obtain err sr' s' where h: "handle_frame env f sr s = (err, sr', s')" by (cases "handle_frame env f sr s")
  note inv = handle_frame_inv [OF "2.prems"(1,2) h]
  have fin: "finished s' (rd_sid rd)" "stream_bytes s' (rd_sid rd) (rd_endpoint rd) = stream_bytes s (rd_sid rd) (rd_endpoint rd)"
    using frame_delivers(2) [OF "2.prems"(1,3) h "2.prems"(5)] by simp_all
  have pr: "private_endpoint s' (rd_sid rd) (rd_endpoint rd)"
    by (rule private_keeps [OF frame_same_handles [OF "2.prems"(1) h] "2.prems"(3)])
  have b: "rd_endpoint rd < se_next_endpoint s'" using "2.prems"(1,4) h by (simp add: frame_bound)
  show ?case
  proof (cases err)
    case None
    obtain got' sent' t' where r0: "stream_run server evs rd sr' s' = (got', sent', t')"
      by (cases "stream_run server evs rd sr' s'")
    then have r: "stream_run server evs rd sr' s' = (got', sent', t)" "got = got'"
      using "2.prems"(6) h None by simp_all
    then show ?thesis
      using "2.IH" [OF h [symmetric] None refl _ _ pr b fin(1) r(1)] inv fin(2) by simp
  next
    case (Some x)
    then show ?thesis using "2.prems"(6) h fin by auto
  qed
next
  case (3 server busy fin_busy ff evs rd sr s)
  obtain r rd' s' where h: "read_step (drain_of server busy fin_busy) ff rd s = (r, rd', s')"
    by (cases "read_step (drain_of server busy fin_busy) ff rd s")
  obtain got' sent' t' where g0: "stream_run server evs rd' sr s' = (got', sent', t')"
    by (cases "stream_run server evs rd' sr s'")
  then have g: "stream_run server evs rd' sr s' = (got', sent', t)" "got = took r @ got'"
    using "3.prems"(6) h by simp_all
  note rb = read_step_bytes [OF h]
  have inv: "sess_inv [] s'" "evolves s s'" using read_step_inv [OF "3.prems"(1,4) h] by simp_all
  have "prefix got' (stream_bytes s' (rd_sid rd') (rd_endpoint rd')) \<and> finished t (rd_sid rd')"
    using "3.IH" [OF h [symmetric] refl refl _ _ _ _ _ g(1)] inv "3.prems" rb status_read [of s s' "rd_endpoint rd"]
      ids_inv_evolves [OF "3.prems"(2) inv(2)] evolves_bound [OF inv(2)] by simp
  then show ?case using g(2) rb by simp
qed

lemma receiving_not_finished: "receiving s sid e \<Longrightarrow> \<not> finished s sid"
  by (auto simp: receiving_def finished_def)

lemma receiving_bound: "sess_inv fl s \<Longrightarrow> receiving s sid e \<Longrightarrow> e < se_next_endpoint s"
  by (auto simp: receiving_def handle_bound)

lemma run_receiving:
  assumes "sess_inv [] s" "ids_inv acc s" "receiving s (rd_sid rd) (rd_endpoint rd)"
    "stream_run server evs rd sr s = (got, sent, t)"
  shows "prefix got (stream_bytes s (rd_sid rd) (rd_endpoint rd) @ sent) \<and>
    (receiving t (rd_sid rd) (rd_endpoint rd) \<longrightarrow>
      got @ stream_bytes t (rd_sid rd) (rd_endpoint rd) = stream_bytes s (rd_sid rd) (rd_endpoint rd) @ sent)"
  using assms
proof (induction server evs rd sr s arbitrary: got sent rule: stream_run.induct)
  case (1 server rd sr s)
  then show ?case by simp
next
  case (2 server env f evs rd sr s)
  let ?sid = "rd_sid rd" and ?e = "rd_endpoint rd"
  obtain err sr' s' where h: "handle_frame env f sr s = (err, sr', s')" by (cases "handle_frame env f sr s")
  note inv = handle_frame_inv [OF "2.prems"(1,2) h] and prv = private_ids [OF "2.prems"(2,3)]
  have pr: "private_endpoint s' ?sid ?e" by (rule private_keeps [OF frame_same_handles [OF "2.prems"(1) h] prv])
  have b: "?e < se_next_endpoint s'"
    using receiving_bound [OF "2.prems"(1,3)] frame_bound [OF "2.prems"(1) h] by simp
  have del: "delivers ?sid ?e (psh_data ?sid f) s s'" by (rule frame_delivers(1) [OF "2.prems"(1) prv h "2.prems"(3)])
  show ?case
  proof (cases err)
    case (Some x)
    then have "got = []" "sent = psh_data ?sid f" "t = s'" using "2.prems"(4) h by auto
    then show ?thesis using del receiving_not_finished by (auto simp: delivers_def)
  next
    case None
    obtain got' sent' t' where r0: "stream_run server evs rd sr' s' = (got', sent', t')"
      by (cases "stream_run server evs rd sr' s'")
    then have r: "stream_run server evs rd sr' s' = (got', sent', t)" "got = got'" "sent = psh_data ?sid f @ sent'"
      using "2.prems"(4) h None by simp_all
    show ?thesis
    proof (cases "receiving s' ?sid ?e")
      case True
      then have "stream_bytes s' ?sid ?e = stream_bytes s ?sid ?e @ psh_data ?sid f"
        using del receiving_not_finished [OF True] by (simp add: delivers_def)
      then show ?thesis using "2.IH" [OF h [symmetric] None refl _ _ True r(1)] inv r by simp
    next
      case False
      then have fin: "finished s' ?sid" "prefix (stream_bytes s' ?sid ?e) (stream_bytes s ?sid ?e @ psh_data ?sid f)"
        using del by (simp_all add: delivers_def)
      have "prefix got' (stream_bytes s' ?sid ?e) \<and> finished t ?sid"
        using run_finished [OF _ _ pr b fin(1) r(1)] inv by blast
      then show ?thesis
        using fin(2) r receiving_not_finished [of t ?sid ?e] prefix_order.trans
        by (metis append.assoc prefix_prefix)
    qed
  qed
next
  case (3 server busy fin_busy ff evs rd sr s)
  obtain r rd' s' where h: "read_step (drain_of server busy fin_busy) ff rd s = (r, rd', s')"
    by (cases "read_step (drain_of server busy fin_busy) ff rd s")
  obtain got' sent' t' where g0: "stream_run server evs rd' sr s' = (got', sent', t')"
    by (cases "stream_run server evs rd' sr s'")
  then have g: "stream_run server evs rd' sr s' = (got', sent', t)" "got = took r @ got'" "sent = sent'"
    using "3.prems"(4) h by simp_all
  note rb = read_step_bytes [OF h]
  have inv: "sess_inv [] s'" "evolves s s'"
    using read_step_inv [OF "3.prems"(1) receiving_bound [OF "3.prems"(1,3)] h] by simp_all
  have rc: "receiving s' (rd_sid rd') (rd_endpoint rd')"
    using status_read(1) [of s s' "rd_endpoint rd" "rd_sid rd"] rb "3.prems"(3) by simp
  note ih = "3.IH" [OF h [symmetric] refl refl inv(1) ids_inv_evolves [OF "3.prems"(2) inv(2)] rc g(1)]
  then show ?case using g rb by simp
qed

section \<open>Delivery\<close>


definition quiet_env :: frame_env where
  "quiet_env = \<lparr>fe_pending_busy = False, fe_pick = 0, fe_draws = [], fe_large = False\<rparr>"

definition busy_env :: frame_env where
  "busy_env = quiet_env\<lparr>fe_pending_busy := True\<rparr>"

text \<open>A client session on which one stream was opened and acknowledged.\<close>

definition open_demo :: system where
  "open_demo = (let y = books_demo (window_new 0 0) in
     y\<lparr>sy_session := snd (snd (handle_frame quiet_env (Frame_new CMD_SYNACK 1 []) False (sy_session y))),
       sy_settings := fst (snd (handle_frame quiet_env (Frame_new CMD_SYNACK 1 []) False (sy_session y)))\<rparr>)"

definition demo_reader :: stream_reader where
  "demo_reader = \<lparr>rd_sid = 1, rd_endpoint = 0, rd_read_closed = False, rd_consumed = 0\<rparr>"

lemma open_demo_reached: "sys_step\<^sup>*\<^sup>* (sys_start True 4 False (window_new 0 0)) open_demo"
proof -
  let ?y = "books_demo (window_new 0 0)"
  have "sys_step ?y open_demo"
    unfolding open_demo_def Let_def
    by (rule sys_step.frame [where env = quiet_env and f = "Frame_new CMD_SYNACK 1 []"
          and err = "fst (handle_frame quiet_env (Frame_new CMD_SYNACK 1 []) (sy_settings ?y) (sy_session ?y))"])
      (simp add: books_demo_def sys_start_def)
  then show ?thesis using books_demo_reached by (meson rtranclp.rtrancl_into_rtrancl)
qed

lemma open_demo_state:
  "sy_session open_demo = (Session_new True 4 False False (window_new 0 0))
     \<lparr>se_streams := [1 \<mapsto> \<lparr>sh_endpoint = 0, sh_synack_tx = False, sh_read_closed = False\<rparr>],
      se_endpoints := (\<lambda>_. endpoint_gone)(0 := (endpoint_new True (ws_stream_window (window_new 0 0)))\<lparr>ep_synack := Some []\<rparr>),
      se_next_endpoint := 1, se_capacity := 1, se_next_stream_id := 2\<rparr> \<and> sy_settings open_demo = False"
proof -
  obtain b where b: "Frame_encode Frame_cmd_settings = Inr b" using settings_encoded by blast
  show ?thesis
    by (simp add: open_demo_def books_demo_def sys_start_def Session_new_def open_stream_def next_stream_id_def Let_def b
        prune_orphaned_streams_def set_endpoint_def register_stream_def active_stream_count_def handle_frame_def
        frame_const_defs Frame_new_def handle_synack_def take_synack_tx_def send_synack_def endpoint_new_def pd_contains_def pd_empty_def case_prod_beta quiet_env_def cmd_defs)
qed

text \<open>Where the payload of a PSH frame goes.\<close>

lemma conn_received_sel:
  "se_streams (session_conn_received n s) = se_streams s"
  "se_endpoints (session_conn_received n s) = se_endpoints s"
  "se_pending_open (session_conn_received n s) = se_pending_open s"
  "se_pending_data (session_conn_received n s) = se_pending_data s"
  by (simp_all add: session_conn_received_def send_window_update_def writer_defs case_prod_beta Let_def split: option.split)

lemma psh_deliver:
  assumes "receiving s sid e"
  shows "handle_frame env (Frame_psh sid data) sr s =
    (None, sr, deliver_psh env sid e data (session_conn_received (length data) s))"
  using assms
  by (auto simp: handle_frame_def Frame_psh_def Frame_new_def handle_psh_def receiving_def conn_received_sel dispatch_psh_def Let_def)

lemma psh_to_channel:
  assumes "receiving s sid e" "\<not> fe_pending_busy env" "\<not> pd_contains (se_pending_data s) sid"
    "length (ep_data (se_endpoints s e)) < STREAM_CHANNEL_CAPACITY"
  shows "\<exists>t. handle_frame env (Frame_psh sid data) sr s = (None, sr, t) \<and> receiving t sid e \<and>
    ep_data (se_endpoints t e) = ep_data (se_endpoints s e) @ [\<lparr>bp_data = data, bp_accounted = True\<rparr>] \<and>
    se_pending_data t = se_pending_data s"
  using assms unfolding psh_deliver [OF assms(1)]
  by (auto simp: deliver_psh_def conn_received_sel new_payload_def bp_new_def Let_def try_send_data_def receiving_def
      set_endpoint_def)

lemma psh_to_backlog:
  assumes "receiving s sid e" "fe_pending_busy env \<or> pd_contains (se_pending_data s) sid"
    "pd_total (se_pending_data s) + length data \<le> MAX_STREAM_OVERFLOW_BYTES"
    "pd_len (se_pending_data s) < MAX_PENDING_STREAMS" "pd_stream_bytes (se_pending_data s) sid \<le> pd_total (se_pending_data s)"
    "pd_stream_frames (se_pending_data s) sid < MAX_PENDING_STREAM_FRAMES"
  shows "\<exists>t. handle_frame env (Frame_psh sid data) sr s = (None, sr, t) \<and> receiving t sid e \<and>
    ep_data (se_endpoints t e) = ep_data (se_endpoints s e) \<and>
    se_pending_data t = pd_push_back sid \<lparr>bp_data = data, bp_accounted = True\<rparr> (se_pending_data s)"
  using assms unfolding psh_deliver [OF assms(1)]
  by (auto simp: deliver_psh_def conn_received_sel new_payload_def bp_new_def Let_def receiving_def
      set_endpoint_def store_or_close_def store_pending_data_def bp_len_def session_limits)

text \<open>A frame that reaches the channel and one that reaches the backlog behind it, between the two halves
  of one read: the consumer gets the second one first.\<close>

lemma demo_receiving: "receiving (sy_session open_demo) 1 0" "ep_data (se_endpoints (sy_session open_demo) 0) = []"
  "se_pending_data (sy_session open_demo) = pd_empty"
  by (simp_all add: open_demo_state receiving_def Session_new_def endpoint_new_def pos_empty_def pos_contains_def)

lemma demo_two_frames:
  "\<exists>s1 s2. handle_frame quiet_env (Frame_psh 1 [7]) False (sy_session open_demo) = (None, False, s1) \<and>
     handle_frame busy_env (Frame_psh 1 [8]) False s1 = (None, False, s2) \<and> receiving s2 1 0 \<and>
     ep_data (se_endpoints s2 0) = [\<lparr>bp_data = [7], bp_accounted = True\<rparr>] \<and>
     se_pending_data s2 = pd_push_back 1 \<lparr>bp_data = [8], bp_accounted = True\<rparr> pd_empty"
proof -
  obtain s1 where s1: "handle_frame quiet_env (Frame_psh 1 [7]) False (sy_session open_demo) = (None, False, s1)"
    "receiving s1 1 0" "ep_data (se_endpoints s1 0) = [\<lparr>bp_data = [7], bp_accounted = True\<rparr>]" "se_pending_data s1 = pd_empty"
    using psh_to_channel [OF demo_receiving(1), of quiet_env "[7]" False]
    by (auto simp: demo_receiving quiet_env_def pd_contains_def pd_empty_def STREAM_CHANNEL_CAPACITY_def)
  obtain s2 where "handle_frame busy_env (Frame_psh 1 [8]) False s1 = (None, False, s2)" "receiving s2 1 0"
    "ep_data (se_endpoints s2 0) = ep_data (se_endpoints s1 0)"
    "se_pending_data s2 = pd_push_back 1 \<lparr>bp_data = [8], bp_accounted = True\<rparr> pd_empty"
    using psh_to_backlog [OF s1(2), of busy_env "[8]" False]
    by (auto simp: s1(4) busy_env_def pd_empty_def pd_len_def pd_stream_bytes_def pd_stream_frames_def session_limits)
  then show ?thesis using s1 by auto
qed

theorem interrupted_read_reorders:
  "\<exists>s1 s2 rd t. try_recv_data 0 (sy_session open_demo) = (None, sy_session open_demo) \<and>
     handle_frame quiet_env (Frame_psh 1 [7]) False (sy_session open_demo) = (None, False, s1) \<and>
     handle_frame busy_env (Frame_psh 1 [8]) False s1 = (None, False, s2) \<and>
     read_backlog (drain_of False False False) False demo_reader s2 = (ReadData [8], rd, t) \<and>
     fst (read_step (drain_of False False False) False rd t) = ReadData [7]"
proof -
  obtain s1 s2 where f: "handle_frame quiet_env (Frame_psh 1 [7]) False (sy_session open_demo) = (None, False, s1)"
    "handle_frame busy_env (Frame_psh 1 [8]) False s1 = (None, False, s2)"
    "ep_data (se_endpoints s2 0) = [\<lparr>bp_data = [7], bp_accounted = True\<rparr>]"
    "se_pending_data s2 = pd_push_back 1 \<lparr>bp_data = [8], bp_accounted = True\<rparr> pd_empty"
    using demo_two_frames by metis
  moreover obtain r rd t where b: "read_backlog (drain_of False False False) False demo_reader s2 = (r, rd, t)"
    by (cases "read_backlog (drain_of False False False) False demo_reader s2")
  moreover have "r = ReadData [8] \<and> ep_data (se_endpoints t 0) = ep_data (se_endpoints s2 0) \<and> rd_endpoint rd = 0"
    using b f(4)
    by (auto simp: read_backlog_def drain_of_def client_drain_pending_def demo_reader_def pd_pop_front_def pd_push_back_def
        pd_empty_def Let_def into_bytes_def bp_into_bytes_def bp_release_def take_queued_pending_fin_def case_prod_beta split: if_splits)
  ultimately show ?thesis
    using f(3) demo_receiving(2)
    by (auto simp: try_recv_data_def read_step_def Let_def into_bytes_def bp_into_bytes_def bp_release_def case_prod_beta)
qed

text \<open>A reader that has seen the FIN reports the end of the stream when it finds the backlog locked,
  although the backlog still holds the stream's last bytes.\<close>

theorem contended_read_reports_eof:
  "\<exists>s1 s2 rd t. handle_frame quiet_env (Frame_psh 1 [7]) False (sy_session open_demo) = (None, False, s1) \<and>
     handle_frame busy_env (Frame_psh 1 [8]) False s1 = (None, False, s2) \<and>
     try_recv_data 0 s2 = (Some [7], t) \<and>
     fst (read_step (drain_of False True False) False (demo_reader\<lparr>rd_read_closed := True\<rparr>) t) = ReadEof \<and>
     pd_contents (se_pending_data t) 1 = [\<lparr>bp_data = [8], bp_accounted = True\<rparr>]"
proof -
  obtain s1 s2 where f: "handle_frame quiet_env (Frame_psh 1 [7]) False (sy_session open_demo) = (None, False, s1)"
    "handle_frame busy_env (Frame_psh 1 [8]) False s1 = (None, False, s2)"
    "ep_data (se_endpoints s2 0) = [\<lparr>bp_data = [7], bp_accounted = True\<rparr>]"
    "se_pending_data s2 = pd_push_back 1 \<lparr>bp_data = [8], bp_accounted = True\<rparr> pd_empty"
    using demo_two_frames by metis
  obtain r t where t: "try_recv_data 0 s2 = (r, t)" by (cases "try_recv_data 0 s2")
  then have "r = Some [7] \<and> ep_data (se_endpoints t 0) = [] \<and> se_pending_data t = se_pending_data s2"
    using f(3) by (auto simp: try_recv_data_def Let_def into_bytes_def bp_into_bytes_def bp_release_def case_prod_beta set_endpoint_def)
  then show ?thesis
    using f t by (auto simp: read_step_def try_recv_data_def read_backlog_def drain_of_def client_drain_pending_def demo_reader_def
        pd_push_back_def pd_contents_def pd_empty_def Let_def)
qed


end
