(* ===== verification/Goaway.thy ===== *)
theory Goaway
  imports SessionBooks
begin

text \<open>
  What a client may conclude from a GOAWAY. A server writes the largest stream id whose SYN it has
  handled into the record that announces its shutdown (\<^verbatim>\<open>emit_h2_goaway\<close>); a client that decodes it
  takes every larger id for a stream the server never processed and retries it elsewhere
  (\<^verbatim>\<open>peer_never_processed\<close>). The high-water mark bounds everything the server knows of, so such a
  retry never duplicates a stream.
\<close>

section \<open>The high-water mark\<close>

lemma reject_high_water:
  "se_high_water (snd (send_synack_rejection sid r s)) = se_high_water s"
  "se_high_water (snd (reject_reserved sid r s)) = se_high_water s"
proof -
  show a: "se_high_water (snd (send_synack_rejection sid r s)) = se_high_water s" for s
    by (simp add: send_synack_rejection_def writer_defs Let_def split: sum.split)
  have "se_high_water (drop_pending_open sid s) = se_high_water s"
    by (simp add: drop_pending_open_def drop_payloads_eq)
  then show "se_high_water (snd (reject_reserved sid r s)) = se_high_water s"
    by (simp add: reject_reserved_def a release_inbound_stream_reservation_def)
qed

lemma syn_high_water: "se_high_water (snd (handle_syn sid sr s)) = max (se_high_water s) sid"
  by (simp add: handle_syn_def try_reserve_inbound_stream_def reject_high_water Let_def case_prod_beta split: option.split)

lemma syn_state: "handle_frame env f sr s = (err, sr', s') \<Longrightarrow> f_cmd f = CMD_SYN \<Longrightarrow> s' = snd (handle_syn (f_stream_id f) sr s)"
  by (auto simp: handle_frame_def cmd_defs Let_def split: prod.splits)

definition knows :: "session \<Rightarrow> u32 \<Rightarrow> bool" where
  "knows s sid \<longleftrightarrow> se_streams s sid \<noteq> None \<or> pos_contains (se_pending_open s) sid"

text \<open>A session that accepts streams and has seen the SYN of all it knows.\<close>

definition water_inv :: "session \<Rightarrow> bool" where
  "water_inv s \<longleftrightarrow> se_on_new_stream s \<noteq> None \<and> (\<forall>sid. knows s sid \<longrightarrow> sid \<le> se_high_water s)"

definition no_new :: "session \<Rightarrow> session \<Rightarrow> bool" where
  "no_new s s' \<longleftrightarrow> se_high_water s \<le> se_high_water s' \<and> (se_on_new_stream s \<noteq> None \<longrightarrow> se_on_new_stream s' \<noteq> None) \<and>
     (\<forall>sid. knows s' sid \<longrightarrow> knows s sid)"

lemma water_no_new: "water_inv s \<Longrightarrow> no_new s s' \<Longrightarrow> water_inv s'"
  unfolding water_inv_def no_new_def by (meson order.trans)

lemma no_new_evolves: "evolves s s' \<Longrightarrow> no_new s s'"
  using evolvesD(4,8,9) [of s s'] evolvesD(3) [of s s'] unfolding no_new_def knows_def by (metis order.refl)

lemma no_new_trans: "no_new s t \<Longrightarrow> no_new t u \<Longrightarrow> no_new s u"
  unfolding no_new_def by (meson order.trans)

lemma drop_open_water: "se_high_water (drop_pending_open sid s) = se_high_water s"
  by (simp add: drop_pending_open_def drop_payloads_eq)

lemma no_new_drop_open: "no_new s (drop_pending_open sid s)"
  by (auto simp: no_new_def knows_def drop_open_sel drop_open_water pos_contains_def)

lemma reject_sel:
  "se_on_new_stream (snd (send_synack_rejection sid r t)) = se_on_new_stream t"
  "se_streams (snd (send_synack_rejection sid r t)) = se_streams t"
  "se_pending_open (snd (send_synack_rejection sid r t)) = se_pending_open t"
  "se_on_new_stream (release_inbound_stream_reservation t) = se_on_new_stream t"
  "se_streams (release_inbound_stream_reservation t) = se_streams t"
  "se_pending_open (release_inbound_stream_reservation t) = se_pending_open t"
  by (simp_all add: send_synack_rejection_def writer_defs release_inbound_stream_reservation_def Let_def split: sum.split)

lemma water_syn:
  assumes "water_inv s"
  shows "water_inv (snd (handle_syn sid sr s))"
proof -
  have ins: "pos_streams (pos_insert_new sid po) x = (if x = sid then Some po_default else pos_streams po x)" for po x
    by (simp add: pos_insert_new_def pos_remove_def Let_def split: option.split)
  have "se_on_new_stream (snd (handle_syn sid sr s)) \<noteq> None"
    using assms
    by (auto simp: water_inv_def handle_syn_def reject_reserved_def try_reserve_inbound_stream_def reject_sel drop_open_sel
        Let_def case_prod_beta split: option.split)
  moreover have "knows (snd (handle_syn sid sr s)) x \<Longrightarrow> x = sid \<or> knows s x" for x
    by (auto simp: handle_syn_def reject_reserved_def try_reserve_inbound_stream_def reject_sel ins knows_def Let_def
        case_prod_beta drop_open_sel pos_contains_def split: option.splits if_splits)
  ultimately show ?thesis using assms by (auto simp: water_inv_def syn_high_water le_max_iff_disj)
qed

lemma water_accept:
  assumes "water_inv s" "ids_inv acc s" "accept_begin s = (r, s')"
  shows "water_inv s' \<and> se_high_water s' = se_high_water s"
proof -
  have rel: "pos_contains (snd (pos_release_reservation sid po)) x = pos_contains po x" for sid po x
    by (auto simp: pos_contains_def pos_release_reservation_def split: option.split)
  have q: "se_on_new_stream s = Some q \<Longrightarrow> sid \<in> set q \<Longrightarrow> knows s sid" for q sid
    using assms(2) by (auto simp: ids_inv_def queue_inv_def knows_def)
  show ?thesis
    using assms(1,3) q
    by (auto simp: accept_begin_def water_inv_def knows_def table_defs release_pending_open_reservation_def
        release_inbound_stream_reservation_def rel Let_def case_prod_beta split: option.splits list.splits if_splits)
qed

lemma water_open:
  assumes "water_inv s" "ids_inv acc s" "open_stream s = (r, s')"
  shows "water_inv s' \<and> se_high_water s' = se_high_water s"
proof -
  have "se_next_stream_id s = 0" using assms(1,2) by (auto simp: water_inv_def ids_inv_def queue_inv_def)
  then have "s' = s \<or> s' = s\<lparr>se_alive := False\<rparr>"
    using assms(3) by (auto simp: open_stream_def next_stream_id_def Let_def split: if_splits)
  then show ?thesis using assms(1) by (auto simp: water_inv_def knows_def)
qed

lemma water_step:
  assumes "sys_step y y'" "sys_inv y" "water_inv (sy_session y)"
  shows "water_inv (sy_session y') \<and> se_high_water (sy_session y) \<le> se_high_water (sy_session y')"
  using assms(1,2)
proof (cases rule: sys_step_kinds)
  case quiet
  then show ?thesis
    using no_new_evolves water_no_new [OF assms(3)] by (auto simp: quiet_step_def no_new_def)
next
  case (syn env f err sr)
  then show ?thesis using water_syn [OF assms(3)] syn_state [OF syn(1,2)] by (simp add: syn_high_water)
next
  case (accept r)
  then show ?thesis using water_accept [OF assms(3) sys_invD(2) [OF assms(2)]] by auto
next
  case (flush pick sid e d r d')
  then obtain t where "evolves (sy_session y) t" "sy_session y' = t \<or> sy_session y' = drop_pending_open sid t"
    using accept_iter_inv [OF sys_invD [OF assms(2)] flush(1,2)] by auto
  then have "no_new (sy_session y) (sy_session y')"
    using no_new_evolves no_new_drop_open no_new_trans by metis
  then show ?thesis using water_no_new [OF assms(3)] by (simp add: no_new_def)
next
  case (opened r)
  then show ?thesis using water_open [OF assms(3) sys_invD(2) [OF assms(2)]] by auto
qed

lemma water_run:
  assumes "sys_step\<^sup>*\<^sup>* y y'" "sys_inv y" "water_inv (sy_session y)"
  shows "sys_inv y' \<and> water_inv (sy_session y') \<and> se_high_water (sy_session y) \<le> se_high_water (sy_session y')"
  using assms
proof (induction rule: rtranclp_induct)
  case (step y1 y2)
  then show ?case using water_step [OF step.hyps(2)] sys_step_inv [OF step.hyps(2)] by auto
qed simp

lemma water_start: "water_inv (sy_session (sys_start False m off ws))"
  by (simp add: sys_start_def water_inv_def knows_def Session_new_def pos_empty_def pos_contains_def)

section \<open>What the client concludes\<close>

text \<open>\<^verbatim>\<open>emit_h2_goaway\<close>: the packet of the last control record before the shutdown.\<close>

definition emit_h2_goaway :: "bool \<Rightarrow> u32 \<Rightarrow> bytes option" where
  "emit_h2_goaway post_script_off last_stream_id =
     (if post_script_off then None else Some (encode_padding_goaway_sized last_stream_id H2_GOAWAY_WIRE))"

lemma goaway_handled:
  assumes "emit_h2_goaway False hw = Some packet" "se_is_client c" "se_goaway c = GOAWAY_NOT_RECEIVED"
  shows "\<exists>g. Frame_decode packet = (Some g, []) \<and>
    handle_frame env g sr c = (None, sr, c\<lparr>se_goaway := ucast hw\<rparr>)"
proof -
  have wire: "MIN_GOAWAY_RECORD_WIRE_LEN \<le> H2_GOAWAY_WIRE" "H2_GOAWAY_WIRE \<le> 65566"
    by (simp_all add: H2_GOAWAY_WIRE_def PING_WIRE_def CONTROL_TLS_OVERHEAD_def frame_const_defs)
  obtain g where g: "Frame_decode packet = (Some g, [])" "f_cmd g = CMD_PADDING" "decode_padding_goaway (f_payload g) = Some hw"
    using goaway_window_update_roundtrip [OF wire, of hw 0 0] assms(1) by (auto simp: emit_h2_goaway_def)
  moreover have "f_payload g \<noteq> [] \<and> hd (f_payload g) = PADDING_FLAG_GOAWAY"
    using g(3) by (auto simp: decode_padding_goaway_def hd_conv_nth split: if_splits option.splits list.splits)
  moreover have "min GOAWAY_NOT_RECEIVED x = x" for x by (simp add: GOAWAY_NOT_RECEIVED_def)
  ultimately show ?thesis
    using assms(2,3)
    by (cases "f_payload g") (auto simp: handle_frame_def cmd_defs handle_padding_def note_peer_goaway_def Let_def)
qed

lemma unat_ucast_u64: "unat (ucast (w :: u32) :: u64) = unat w"
proof -
  have "unat w < 2 ^ 32" using unsigned_less [of w] by simp
  then have "unat w < 2 ^ 64" by simp
  then show ?thesis by (simp add: unsigned_ucast_eq take_bit_nat_eq_self)
qed

lemma never_processed_above: "session_peer_never_processed (c\<lparr>se_goaway := ucast (hw :: u32)\<rparr>) sid \<longleftrightarrow> sid > hw"
proof -
  have "(ucast hw :: u64) \<noteq> GOAWAY_NOT_RECEIVED"
  proof
    assume "(ucast hw :: u64) = GOAWAY_NOT_RECEIVED"
    then have "unat (ucast hw :: u64) = unat (- 1 :: u64)" by (simp add: GOAWAY_NOT_RECEIVED_def)
    moreover have "unat (ucast hw :: u64) = unat hw" by (rule unat_ucast_u64)
    ultimately have "unat hw = unat (- 1 :: u64)" by simp
    moreover have "unat hw < 2 ^ 32" using unsigned_less [of hw] by simp
    ultimately show False by (simp add: unsigned_minus_1_eq_mask mask_eq_exp_minus_1)
  qed
  then show ?thesis
    by (simp add: session_peer_never_processed_def peer_never_processed_def word_less_nat_alt unat_ucast_u64)
qed

text \<open>C9: A GOAWAY never makes a client retry a stream that the server took. Let a server session
  handle the SYN of some stream and run on in any way; let it then announce its shutdown, and let a
  client that had no GOAWAY before receive the announcement. The record decodes to one frame; after it
  the client does not consider the stream with that SYN, nor any stream that the server has registered
  or is about to accept, as never processed, whereas it does for every id above the server's mark.\<close>

theorem goaway_retry_sound:
  assumes "sys_step\<^sup>*\<^sup>* (sys_start False max_streams off windows) y0"
    and "handle_frame env f (sy_settings y0) (sy_session y0) = (err, sr, s1)" "f_cmd f = CMD_SYN"
    and "sys_step\<^sup>*\<^sup>* (y0\<lparr>sy_session := s1, sy_settings := sr\<rparr>) y"
    and "emit_h2_goaway False (se_high_water (sy_session y)) = Some packet"
    and "se_is_client c" "se_goaway c = GOAWAY_NOT_RECEIVED"
  shows "\<exists>g c'. Frame_decode packet = (Some g, []) \<and> handle_frame env' g csr c = (None, csr, c') \<and>
    \<not> session_peer_never_processed c' (f_stream_id f) \<and>
    (\<forall>sid. session_peer_never_processed c' sid \<longleftrightarrow> sid > se_high_water (sy_session y)) \<and>
    (\<forall>sid. session_peer_never_processed c' sid \<longrightarrow>
       se_streams (sy_session y) sid = None \<and> \<not> pos_contains (se_pending_open (sy_session y)) sid)"
proof -
  let ?y1 = "y0\<lparr>sy_session := s1, sy_settings := sr\<rparr>"
  have y0: "sys_inv y0" "water_inv (sy_session y0)"
    using water_run [OF assms(1) sys_inv_start water_start] by simp_all
  have "sys_step y0 ?y1" by (rule sys_step.frame [OF assms(2)])
  then have "sys_inv ?y1" "water_inv (sy_session ?y1)" using water_step [OF _ y0] sys_step_inv [OF _ y0(1)] by blast+
  then have y: "water_inv (sy_session y)" "se_high_water s1 \<le> se_high_water (sy_session y)"
    using water_run [OF assms(4)] by simp_all
  have "f_stream_id f \<le> se_high_water s1" using syn_state [OF assms(2,3)] by (simp add: syn_high_water)
  then have le: "f_stream_id f \<le> se_high_water (sy_session y)" using y(2) by simp
  have "sid > se_high_water (sy_session y) \<Longrightarrow> \<not> knows (sy_session y) sid" for sid
    using y(1) unfolding water_inv_def by (meson leD)
  moreover obtain g where "Frame_decode packet = (Some g, [])"
    "handle_frame env' g csr c = (None, csr, c\<lparr>se_goaway := ucast (se_high_water (sy_session y))\<rparr>)"
    using goaway_handled [OF assms(5,6,7)] by blast
  ultimately show ?thesis using le by (auto simp: never_processed_above knows_def)
qed

theorem goaway_retry_sound_witness:
  "\<exists>packet g c'. emit_h2_goaway False 5 = Some packet \<and> Frame_decode packet = (Some g, []) \<and>
     handle_frame \<lparr>fe_pending_busy = False, fe_pick = 0, fe_draws = [], fe_large = False\<rparr> g False
       (Session_new True 4 False False (window_new 0 0)) = (None, False, c') \<and>
     \<not> session_peer_never_processed c' 5 \<and> session_peer_never_processed c' 6"
proof -
  let ?env = "\<lparr>fe_pending_busy = False, fe_pick = 0, fe_draws = [], fe_large = False\<rparr>"
  let ?y = "sys_start False 4 False (window_new 0 0)" and ?c = "Session_new True 4 False False (window_new 0 0)"
  obtain err sr s where h: "handle_frame ?env (Frame_syn 5) (sy_settings ?y) (sy_session ?y) = (err, sr, s)"
    by (cases "handle_frame ?env (Frame_syn 5) (sy_settings ?y) (sy_session ?y)")
  have cmd: "f_cmd (Frame_syn 5) = CMD_SYN" "f_stream_id (Frame_syn 5) = 5" by (simp_all add: Frame_syn_def Frame_new_def)
  have hw: "se_high_water s = 5"
    using syn_state [OF h cmd(1)] by (simp add: syn_high_water cmd sys_start_def Session_new_def)
  obtain packet where p: "emit_h2_goaway False 5 = Some packet" by (simp add: emit_h2_goaway_def)
  have c: "se_is_client ?c" "se_goaway ?c = GOAWAY_NOT_RECEIVED" by (simp_all add: Session_new_def)
  have p': "emit_h2_goaway False (se_high_water (sy_session (?y\<lparr>sy_session := s, sy_settings := sr\<rparr>))) = Some packet"
    using p by (simp add: hw)
  show ?thesis
    using goaway_retry_sound [OF rtranclp.rtrancl_refl h cmd(1) rtranclp.rtrancl_refl p' c, of ?env False] p
    by (auto simp: hw cmd)
qed

end
