(* ===== verification/Script.thy ===== *)
theory Script
  imports Complex_Main Inbound
begin

text \<open>
  The traffic script of \<^verbatim>\<open>crates/config/src/script.rs\<close>: its data model, the parser and the lint.
  Strings are byte lists in UTF-8. The parsers of \<^verbatim>\<open>std\<close> are modelled as documented: integers with
  an optional sign and a range check, \<^verbatim>\<open>f64\<close> with its decimal grammar and the three named values. A
  finite \<^verbatim>\<open>f64\<close> is an exact rational here, so a number below the smallest subnormal is not rounded to
  zero. The errors carry the place where the parser gave up, without the formatted message.
\<close>

section \<open>Numbers and white space\<close>

definition ws_suffix_len :: "bytes \<Rightarrow> nat" where
  "ws_suffix_len s =
     (if s = [] then 0
      else if white_space_len (drop (length s - 1) s) = 1 then 1
      else if length s \<ge> 2 \<and> white_space_len (drop (length s - 2) s) = 2 then 2
      else if length s \<ge> 3 \<and> white_space_len (drop (length s - 3) s) = 3 then 3
      else 0)"

function trim_start :: "bytes \<Rightarrow> bytes" where
  "trim_start s = (let w = white_space_len s in if w = 0 \<or> s = [] then s else trim_start (drop w s))"
  by pat_completeness auto
termination by (relation "measure length") auto

function trim_end :: "bytes \<Rightarrow> bytes" where
  "trim_end s = (let w = ws_suffix_len s in if w = 0 \<or> s = [] then s else trim_end (take (length s - w) s))"
  by pat_completeness auto
termination by (relation "measure length") (auto simp: Let_def)

declare trim_start.simps [simp del] trim_end.simps [simp del]

definition trim :: "bytes \<Rightarrow> bytes" where
  "trim s = trim_end (trim_start s)"

text \<open>\<^verbatim>\<open>str::split\<close> on one character: always at least one part.\<close>

fun split_char :: "u8 \<Rightarrow> bytes \<Rightarrow> bytes \<Rightarrow> bytes list" where
  "split_char c cur [] = [cur]"
| "split_char c cur (b # bs) = (if b = c then cur # split_char c [] bs else split_char c (cur @ [b]) bs)"

definition all_digits :: "bytes \<Rightarrow> bool" where
  "all_digits ds \<longleftrightarrow> ds \<noteq> [] \<and> list_all is_ascii_digit ds"

definition parse_unsigned :: "nat \<Rightarrow> bytes \<Rightarrow> nat option" where
  "parse_unsigned limit s =
     (let ds = (if s \<noteq> [] \<and> hd s = 0x2B \<and> tl s \<noteq> [] then tl s else s) in
      if all_digits ds \<and> digits_value 10 0 ds \<le> limit then Some (digits_value 10 0 ds) else None)"

definition parse_i32 :: "bytes \<Rightarrow> int option" where
  "parse_i32 s =
     (if s \<noteq> [] \<and> hd s = 0x2D \<and> tl s \<noteq> []
      then (if all_digits (tl s) \<and> digits_value 10 0 (tl s) \<le> 2 ^ 31 then Some (- int (digits_value 10 0 (tl s))) else None)
      else map_option int (parse_unsigned (2 ^ 31 - 1) s))"

datatype f64 = Finite rat | Infinite bool | NaN

definition parse_exponent :: "bytes \<Rightarrow> int option" where
  "parse_exponent s =
     (let (neg, ds) = (case s of b # t \<Rightarrow> if b = 0x2D then (True, t) else if b = 0x2B then (False, t) else (False, s)
                               | [] \<Rightarrow> (False, [])) in
      if all_digits ds then Some ((if neg then -1 else 1) * int (digits_value 10 0 ds)) else None)"

definition parse_decimal :: "bytes \<Rightarrow> rat option" where
  "parse_decimal s =
     (let ints = takeWhile is_ascii_digit s;
          r1 = drop (length ints) s;
          (frac, r2) = (case r1 of b # t \<Rightarrow> if b = 0x2E then (takeWhile is_ascii_digit t, dropWhile is_ascii_digit t) else ([], r1)
                                 | [] \<Rightarrow> ([], []));
          mantissa = of_nat (digits_value 10 0 (ints @ frac)) in
      if ints = [] \<and> frac = [] then None
      else case r2 of
             [] \<Rightarrow> Some (mantissa / 10 ^ length frac)
           | b # t \<Rightarrow>
               if b = 0x65 \<or> b = 0x45
               then (case parse_exponent t of
                       None \<Rightarrow> None
                     | Some e \<Rightarrow> Some (if e \<ge> 0 then mantissa * 10 ^ nat e / 10 ^ length frac
                                      else mantissa / (10 ^ nat (- e) * 10 ^ length frac)))
               else None)"

definition parse_f64 :: "bytes \<Rightarrow> f64 option" where
  "parse_f64 s =
     (let (neg, t) = (case s of b # u \<Rightarrow> if b = 0x2D then (True, u) else if b = 0x2B then (False, u) else (False, s)
                              | [] \<Rightarrow> (False, [])) in
      if eq_ignore_ascii_case t (ascii ''inf'') \<or> eq_ignore_ascii_case t (ascii ''infinity'') then Some (Infinite neg)
      else if eq_ignore_ascii_case t (ascii ''nan'') then Some NaN
      else map_option (\<lambda>v. Finite (if neg then - v else v)) (parse_decimal t))"

section \<open>The script\<close>

text \<open>The position parameter \<^verbatim>\<open>mu_ms\<close> of \<^verbatim>\<open>DelaySpec::LogNormal\<close> is the logarithm of a median. It is
  represented by that median, a rational number: \<^verbatim>\<open>ln\<close> is the change of representation, and adding to
  \<^verbatim>\<open>mu_ms\<close> is scaling the median.\<close>

datatype delay_spec = DelayNone | LogNormal rat rat

record script_rule =
  sr_len_lo :: nat
  sr_len_hi :: nat
  sr_len_pinned :: bool
  sr_delay :: delay_spec
  sr_expect_responses :: nat
  sr_fake_jitter :: int

record parsed_script =
  ps_rules :: "script_rule list"
  ps_stop :: nat

definition MAX_DELAY_MEDIAN_MS :: rat where "MAX_DELAY_MEDIAN_MS = 500"
definition MAX_DELAY_SIGMA :: rat where "MAX_DELAY_SIGMA = 2"
definition MAX_FAKE_JITTER_OFFSET :: int where "MAX_FAKE_JITTER_OFFSET = 64"

datatype script_error = EmptyEntry | MissingEquals | DuplicateStop | BadStop | ZeroStop | BadRuleIndex
  | RuleOutOfOrder nat nat | NoRules | UnknownField | MissingLength | BadLength | LengthOrder nat nat
  | BadDelay | DelayMedian | DelaySigma | BadFake | FakeJitter int

definition USIZE_MAX :: nat where "USIZE_MAX = 2 ^ 64 - 1"

definition parse_len_spec :: "bytes \<Rightarrow> script_error + nat \<times> nat \<times> bool" where
  "parse_len_spec rest =
     (case split_once 0x2D rest of
        Some (l, h) \<Rightarrow>
          (case parse_unsigned USIZE_MAX (trim l) of
             None \<Rightarrow> Inl BadLength
           | Some lo \<Rightarrow>
               (case parse_unsigned USIZE_MAX (trim h) of
                  None \<Rightarrow> Inl BadLength
                | Some hi \<Rightarrow> if lo > hi then Inl (LengthOrder lo hi) else Inr (lo, hi, False)))
      | None \<Rightarrow>
          (case split_once 0x3F rest of
             Some (b, r) \<Rightarrow>
               (case parse_unsigned USIZE_MAX (trim b) of
                  None \<Rightarrow> Inl BadLength
                | Some base \<Rightarrow>
                    (case parse_unsigned USIZE_MAX (trim r) of
                       None \<Rightarrow> Inl BadLength
                     | Some width \<Rightarrow> Inr (base, min (base + width) USIZE_MAX, True)))
           | None \<Rightarrow>
               (case parse_unsigned USIZE_MAX (trim rest) of
                  None \<Rightarrow> Inl BadLength
                | Some n \<Rightarrow> Inr (n, n, False))))"

definition median_ms_to_mu :: "f64 \<Rightarrow> script_error + rat" where
  "median_ms_to_mu m =
     (case m of
        Finite v \<Rightarrow>
          if v \<le> 0 then Inl DelayMedian
          else if v > MAX_DELAY_MEDIAN_MS then Inl DelayMedian
          else Inr v
      | _ \<Rightarrow> Inl DelayMedian)"

definition parse_delay_spec :: "bytes \<Rightarrow> script_error + delay_spec" where
  "parse_delay_spec rest =
     (if parse_f64 rest = Some (Finite 0) then Inr DelayNone
      else case split_once 0x2D rest of
        Some (m, sg) \<Rightarrow>
          (case parse_f64 (trim m) of
             None \<Rightarrow> Inl BadDelay
           | Some median \<Rightarrow>
               (case parse_f64 (trim sg) of
                  None \<Rightarrow> Inl BadDelay
                | Some (Finite sigma) \<Rightarrow>
                    if sigma < 0 then Inl DelaySigma
                    else if sigma > MAX_DELAY_SIGMA then Inl DelaySigma
                    else (case median_ms_to_mu median of
                            Inl e \<Rightarrow> Inl e
                          | Inr mu \<Rightarrow> Inr (LogNormal mu sigma))
                | Some _ \<Rightarrow> Inl DelaySigma))
      | None \<Rightarrow>
          (case parse_f64 rest of
             None \<Rightarrow> Inl BadDelay
           | Some median \<Rightarrow>
               (case median_ms_to_mu median of
                  Inl e \<Rightarrow> Inl e
                | Inr mu \<Rightarrow> Inr (LogNormal mu (1 / 2)))))"

text \<open>\<^verbatim>\<open>i32::abs\<close> wraps at the least value in a release build.\<close>

definition i32_abs :: "int \<Rightarrow> int" where
  "i32_abs j = (if j = - (2 ^ 31) then - (2 ^ 31) else \<bar>j\<bar>)"

definition parse_fake_spec :: "bytes \<Rightarrow> script_error + nat \<times> int" where
  "parse_fake_spec rest =
     (case split_once 0x3F rest of
        Some (c, j) \<Rightarrow>
          (case parse_unsigned 255 (trim c) of
             None \<Rightarrow> Inl BadFake
           | Some cnt \<Rightarrow>
               (case parse_i32 (trim j) of
                  None \<Rightarrow> Inl BadFake
                | Some jitter \<Rightarrow>
                    if i32_abs jitter > MAX_FAKE_JITTER_OFFSET then Inl (FakeJitter jitter) else Inr (cnt, jitter)))
      | None \<Rightarrow>
          (case parse_unsigned 255 (trim rest) of
             None \<Rightarrow> Inl BadFake
           | Some cnt \<Rightarrow> Inr (cnt, 0)))"

record rule_fields =
  rf_len :: "(nat \<times> nat \<times> bool) option"
  rf_delay :: delay_spec
  rf_fake :: nat
  rf_jitter :: int

definition parse_field :: "bytes \<Rightarrow> rule_fields \<Rightarrow> script_error + rule_fields" where
  "parse_field part0 fs =
     (let part = trim part0 in
      case strip_prefix (ascii ''L:'') part of
        Some rest \<Rightarrow> map_sum id (\<lambda>l. fs\<lparr>rf_len := Some l\<rparr>) (parse_len_spec (trim rest))
      | None \<Rightarrow>
          (case strip_prefix (ascii ''D:'') part of
             Some rest \<Rightarrow> map_sum id (\<lambda>d. fs\<lparr>rf_delay := d\<rparr>) (parse_delay_spec (trim rest))
           | None \<Rightarrow>
               (case strip_prefix (ascii ''F:'') part of
                  Some rest \<Rightarrow> map_sum id (\<lambda>(c, j). fs\<lparr>rf_fake := c, rf_jitter := j\<rparr>) (parse_fake_spec (trim rest))
                | None \<Rightarrow> Inl UnknownField)))"

fun parse_fields :: "bytes list \<Rightarrow> rule_fields \<Rightarrow> script_error + rule_fields" where
  "parse_fields [] fs = Inr fs"
| "parse_fields (p # ps) fs = (case parse_field p fs of Inl e \<Rightarrow> Inl e | Inr fs' \<Rightarrow> parse_fields ps fs')"

definition parse_rule_body :: "bytes \<Rightarrow> script_error + script_rule" where
  "parse_rule_body body =
     (case parse_fields (split_char 0x2C [] body) \<lparr>rf_len = None, rf_delay = DelayNone, rf_fake = 0, rf_jitter = 0\<rparr> of
        Inl e \<Rightarrow> Inl e
      | Inr fs \<Rightarrow>
          (case rf_len fs of
             None \<Rightarrow> Inl MissingLength
           | Some (lo, hi, pinned) \<Rightarrow>
               Inr \<lparr>sr_len_lo = lo, sr_len_hi = hi, sr_len_pinned = pinned, sr_delay = rf_delay fs,
                    sr_expect_responses = rf_fake fs, sr_fake_jitter = rf_jitter fs\<rparr>))"

fun parse_entries :: "bytes list \<Rightarrow> script_rule list \<Rightarrow> nat option \<Rightarrow> script_error + script_rule list \<times> nat option" where
  "parse_entries [] rules stop = Inr (rules, stop)"
| "parse_entries (l # ls) rules stop =
     (let line = trim l in
      if line = [] then Inl EmptyEntry
      else case split_once 0x3D line of
        None \<Rightarrow> Inl MissingEquals
      | Some (h, b) \<Rightarrow>
          let head = trim h; body = trim b in
          if head = ascii ''stop''
          then (if stop \<noteq> None then Inl DuplicateStop
                else case parse_unsigned USIZE_MAX body of
                       None \<Rightarrow> Inl BadStop
                     | Some n \<Rightarrow> if n = 0 then Inl ZeroStop else parse_entries ls rules (Some n))
          else (case parse_unsigned USIZE_MAX head of
                  None \<Rightarrow> Inl BadRuleIndex
                | Some idx \<Rightarrow>
                    if idx \<noteq> length rules then Inl (RuleOutOfOrder idx (length rules))
                    else (case parse_rule_body body of
                            Inl e \<Rightarrow> Inl e
                          | Inr r \<Rightarrow> parse_entries ls (rules @ [r]) stop)))"

definition parse_traffic_script :: "bytes list \<Rightarrow> script_error + parsed_script" where
  "parse_traffic_script lines =
     (case parse_entries lines [] None of
        Inl e \<Rightarrow> Inl e
      | Inr (rules, stop) \<Rightarrow>
          if rules = [] then Inl NoRules
          else Inr \<lparr>ps_rules = rules, ps_stop = (case stop of None \<Rightarrow> length rules | Some n \<Rightarrow> n)\<rparr>)"

section \<open>The lint\<close>

definition SHAPER_LEN_SCALE_LO :: rat where "SHAPER_LEN_SCALE_LO = 85 / 100"
definition SHAPER_LEN_SCALE_HI :: rat where "SHAPER_LEN_SCALE_HI = 120 / 100"
definition DATA_RECORD_WIRE_OVERHEAD :: nat where "DATA_RECORD_WIRE_OVERHEAD = 24"
definition SCRIPT_L1_MAX_WIRE_LEN :: nat where "SCRIPT_L1_MAX_WIRE_LEN = 160"
definition MAX_SINGLE_SEGMENT_WIRE_LEN :: nat where "MAX_SINGLE_SEGMENT_WIRE_LEN = 1400 + DATA_RECORD_WIRE_OVERHEAD"
definition MAX_SCRIPT_CYCLES_NUM :: nat where "MAX_SCRIPT_CYCLES_NUM = 3"
definition MAX_SCRIPT_CYCLES_DEN :: nat where "MAX_SCRIPT_CYCLES_DEN = 2"

lemmas lint_const_defs = SHAPER_LEN_SCALE_LO_def SHAPER_LEN_SCALE_HI_def DATA_RECORD_WIRE_OVERHEAD_def
  SCRIPT_L1_MAX_WIRE_LEN_def MAX_SINGLE_SEGMENT_WIRE_LEN_def MAX_SCRIPT_CYCLES_NUM_def MAX_SCRIPT_CYCLES_DEN_def

definition scale_len :: "nat \<Rightarrow> rat \<Rightarrow> nat" where
  "scale_len n scale = nat \<lfloor>of_nat n * scale\<rfloor>"

definition min_randomized_wire_len :: "nat \<Rightarrow> nat" where
  "min_randomized_wire_len len_lo = max (scale_len len_lo SHAPER_LEN_SCALE_LO) 1 + DATA_RECORD_WIRE_OVERHEAD"

definition max_randomized_wire_len :: "nat \<Rightarrow> nat" where
  "max_randomized_wire_len len_hi = scale_len len_hi SHAPER_LEN_SCALE_HI + DATA_RECORD_WIRE_OVERHEAD"

datatype lint_warning = InjectsFakes nat | ReachesL1 nat | ReachesPastSegment nat | RepeatsCycle

definition lint_rule :: "nat \<Rightarrow> script_rule \<Rightarrow> lint_warning list" where
  "lint_rule idx r =
     (if sr_expect_responses r > 0 then [InjectsFakes idx] else []) @
     (if min_randomized_wire_len (sr_len_lo r) \<le> SCRIPT_L1_MAX_WIRE_LEN then [ReachesL1 idx] else []) @
     (if max_randomized_wire_len (sr_len_hi r) > MAX_SINGLE_SEGMENT_WIRE_LEN then [ReachesPastSegment idx] else [])"

definition lint_traffic_script :: "parsed_script \<Rightarrow> lint_warning list" where
  "lint_traffic_script ps =
     (let rule_count = length (ps_rules ps) in
      concat (map (\<lambda>(i, r). lint_rule i r) (zip [0..<rule_count] (ps_rules ps))) @
      (if rule_count \<ge> 2 \<and>
          min (ps_stop ps * MAX_SCRIPT_CYCLES_DEN) USIZE_MAX > min (rule_count * MAX_SCRIPT_CYCLES_NUM) USIZE_MAX
       then [RepeatsCycle] else []))"

definition REFERENCE_TRAFFIC_SCRIPT :: "bytes list" where
  "REFERENCE_TRAFFIC_SCRIPT = map ascii
     [''stop=6'', ''0=L:260-520,D:0,F:0'', ''1=L:210-330,D:2.5-0.6,F:0'', ''2=L:340-700,D:0,F:0'',
      ''3=L:280-460,D:4.0-0.55,F:0'', ''4=L:420-900,D:1.8-0.7,F:0'']"

section \<open>What the parser accepts\<close>

text \<open>Delays have a median of at most half a second and a bounded shape.\<close>

definition delay_ok :: "delay_spec \<Rightarrow> bool" where
  "delay_ok d = (case d of DelayNone \<Rightarrow> True | LogNormal median sigma \<Rightarrow> 0 < median \<and> median \<le> 500 \<and> 0 \<le> sigma \<and> sigma \<le> 2)"

definition rule_ok :: "script_rule \<Rightarrow> bool" where
  "rule_ok r \<longleftrightarrow> sr_len_lo r \<le> sr_len_hi r \<and> sr_len_hi r \<le> USIZE_MAX \<and> delay_ok (sr_delay r) \<and> sr_expect_responses r \<le> 255 \<and>
     (sr_fake_jitter r = - (2 ^ 31) \<or> \<bar>sr_fake_jitter r\<bar> \<le> MAX_FAKE_JITTER_OFFSET)"

lemma parse_unsigned_le: "parse_unsigned limit s = Some n \<Longrightarrow> n \<le> limit"
  by (auto simp: parse_unsigned_def Let_def split: if_splits)

lemma parse_len_spec_ok: "parse_len_spec s = Inr (lo, hi, p) \<Longrightarrow> lo \<le> hi \<and> hi \<le> USIZE_MAX"
  by (auto simp: parse_len_spec_def dest!: parse_unsigned_le split: option.splits if_splits)

lemma median_ms_to_mu_ok: "median_ms_to_mu m = Inr mu \<Longrightarrow> 0 < mu \<and> mu \<le> 500"
  by (auto simp: median_ms_to_mu_def MAX_DELAY_MEDIAN_MS_def split: f64.splits if_splits)

lemma parse_delay_spec_ok: "parse_delay_spec s = Inr d \<Longrightarrow> delay_ok d"
  by (auto simp: parse_delay_spec_def delay_ok_def MAX_DELAY_SIGMA_def dest!: median_ms_to_mu_ok
      split: if_splits option.splits f64.splits sum.splits)

lemma parse_fake_spec_ok:
  "parse_fake_spec s = Inr (c, j) \<Longrightarrow> c \<le> 255 \<and> (j = - (2 ^ 31) \<or> \<bar>j\<bar> \<le> MAX_FAKE_JITTER_OFFSET)"
  by (auto simp: parse_fake_spec_def i32_abs_def MAX_FAKE_JITTER_OFFSET_def dest!: parse_unsigned_le
      split: option.splits if_splits)

definition fields_ok :: "rule_fields \<Rightarrow> bool" where
  "fields_ok fs \<longleftrightarrow> (case rf_len fs of None \<Rightarrow> True | Some (lo, hi, _) \<Rightarrow> lo \<le> hi \<and> hi \<le> USIZE_MAX) \<and> delay_ok (rf_delay fs) \<and>
     rf_fake fs \<le> 255 \<and> (rf_jitter fs = - (2 ^ 31) \<or> \<bar>rf_jitter fs\<bar> \<le> MAX_FAKE_JITTER_OFFSET)"

lemma parse_field_ok: "parse_field p fs = Inr fs' \<Longrightarrow> fields_ok fs \<Longrightarrow> fields_ok fs'"
  by (auto simp: parse_field_def fields_ok_def Let_def map_sum_def
      dest: parse_len_spec_ok parse_delay_spec_ok parse_fake_spec_ok split: option.splits sum.splits)

lemma parse_fields_ok: "parse_fields ps fs = Inr fs' \<Longrightarrow> fields_ok fs \<Longrightarrow> fields_ok fs'"
  by (induction ps fs rule: parse_fields.induct) (auto dest: parse_field_ok split: sum.splits)

lemma parse_rule_body_ok:
  assumes "parse_rule_body b = Inr r"
  shows "rule_ok r"
proof -
  obtain fs where fs: "parse_fields (split_char 0x2C [] b) \<lparr>rf_len = None, rf_delay = DelayNone, rf_fake = 0, rf_jitter = 0\<rparr> = Inr fs"
    using assms by (auto simp: parse_rule_body_def split: sum.splits)
  have "fields_ok fs"
    by (rule parse_fields_ok [OF fs]) (simp add: fields_ok_def delay_ok_def MAX_FAKE_JITTER_OFFSET_def)
  then show ?thesis using assms fs by (auto simp: parse_rule_body_def fields_ok_def rule_ok_def split: option.splits)
qed

lemma parse_entries_ok:
  "parse_entries ls rules stop = Inr (rules', stop') \<Longrightarrow> list_all rule_ok rules \<Longrightarrow> stop \<noteq> Some 0 \<Longrightarrow>
     list_all rule_ok rules' \<and> stop' \<noteq> Some 0"
proof (induction ls arbitrary: rules stop)
  case (Cons l ls)
  obtain h b where sp: "split_once 0x3D (trim l) = Some (h, b)"
    using Cons.prems(1) by (auto simp: Let_def split: if_splits option.splits)
  show ?case
  proof (cases "trim h = ascii ''stop''")
    case True
    then obtain n where "n \<noteq> 0" "parse_entries ls rules (Some n) = Inr (rules', stop')"
      using Cons.prems(1) sp by (auto simp: Let_def split: if_splits option.splits)
    then show ?thesis using Cons.IH Cons.prems by blast
  next
    case False
    then obtain r where r: "parse_rule_body (trim b) = Inr r" "parse_entries ls (rules @ [r]) stop = Inr (rules', stop')"
      using Cons.prems(1) sp by (auto simp: Let_def split: if_splits option.splits sum.splits)
    then show ?thesis using Cons.IH [OF r(2)] Cons.prems parse_rule_body_ok [OF r(1)] by simp
  qed
qed simp

text \<open>C14: Every script the parser accepts is usable: it has a rule and governs at least one record; each
  rule's length window is not empty; delays have a finite median of at most half a second and a shape
  of at most two; the number of fake responses fits a byte; and the jitter is at most 64 records, except
  for the one value whose absolute value wraps.\<close>

theorem parsed_script_usable:
  assumes "parse_traffic_script lines = Inr ps"
  shows "ps_rules ps \<noteq> [] \<and> ps_stop ps \<ge> 1 \<and> list_all rule_ok (ps_rules ps)"
proof -
  obtain rules stop where e: "parse_entries lines [] None = Inr (rules, stop)" and r: "rules \<noteq> []"
    and ps: "ps = \<lparr>ps_rules = rules, ps_stop = (case stop of None \<Rightarrow> length rules | Some n \<Rightarrow> n)\<rparr>"
    using assms by (auto simp: parse_traffic_script_def split: sum.splits prod.splits if_splits)
  have "list_all rule_ok rules \<and> stop \<noteq> Some 0" using parse_entries_ok [OF e] by simp
  then show ?thesis using r ps by (cases stop) (auto simp: Suc_le_eq)
qed

lemma trim_graphic:
  assumes "list_all graphic s"
  shows "trim s = s"
proof -
  have ws: "white_space_len (drop k s) = 0" for k
  proof (cases "drop k s")
    case (Cons b t)
    then have "graphic b" using assms by (metis in_set_dropD list.set_intros(1) list_all_iff)
    then show ?thesis using white_space_graphic Cons by simp
  qed (simp add: white_space_len_def)
  have "trim_start s = s" using ws [of 0] by (subst trim_start.simps) simp
  moreover have "trim_end s = s"
  proof -
    have "ws_suffix_len s = 0" unfolding ws_suffix_len_def ws by simp
    then show ?thesis by (subst trim_end.simps) simp
  qed
  ultimately show ?thesis by (simp add: trim_def)
qed

lemmas script_eval = parse_traffic_script_def parse_rule_body_def parse_field_def parse_len_spec_def parse_delay_spec_def
  parse_fake_spec_def parse_unsigned_def parse_i32_def parse_f64_def parse_decimal_def parse_exponent_def
  all_digits_def trim_graphic graphic_def split_once_def strip_prefix_def
  USIZE_MAX_def is_ascii_digit_def digit_value_def digit_of_def ascii_def eq_ignore_ascii_case_def to_ascii_lowercase_def
  to_ascii_lower_def is_ascii_upper_def median_ms_to_mu_def MAX_DELAY_MEDIAN_MS_def MAX_DELAY_SIGMA_def Let_def

lemma reference_bodies:
  "parse_rule_body (ascii ''L:260-520,D:0,F:0'') = Inr \<lparr>sr_len_lo = 260, sr_len_hi = 520, sr_len_pinned = False,
     sr_delay = DelayNone, sr_expect_responses = 0, sr_fake_jitter = 0\<rparr>"
  "parse_rule_body (ascii ''L:210-330,D:2.5-0.6,F:0'') = Inr \<lparr>sr_len_lo = 210, sr_len_hi = 330, sr_len_pinned = False,
     sr_delay = LogNormal (5/2) (3/5), sr_expect_responses = 0, sr_fake_jitter = 0\<rparr>"
  "parse_rule_body (ascii ''L:340-700,D:0,F:0'') = Inr \<lparr>sr_len_lo = 340, sr_len_hi = 700, sr_len_pinned = False,
     sr_delay = DelayNone, sr_expect_responses = 0, sr_fake_jitter = 0\<rparr>"
  "parse_rule_body (ascii ''L:280-460,D:4.0-0.55,F:0'') = Inr \<lparr>sr_len_lo = 280, sr_len_hi = 460, sr_len_pinned = False,
     sr_delay = LogNormal 4 (11/20), sr_expect_responses = 0, sr_fake_jitter = 0\<rparr>"
  "parse_rule_body (ascii ''L:420-900,D:1.8-0.7,F:0'') = Inr \<lparr>sr_len_lo = 420, sr_len_hi = 900, sr_len_pinned = False,
     sr_delay = LogNormal (9/5) (7/10), sr_expect_responses = 0, sr_fake_jitter = 0\<rparr>"
  by (simp_all add: script_eval)

lemma entry_line:
  assumes "list_all graphic (ascii h @ 0x3D # ascii b)" "0x3D \<notin> set (ascii h)"
    "parse_unsigned USIZE_MAX (ascii h) = Some (length rules)" "parse_rule_body (ascii b) = Inr r"
  shows "parse_entries ((ascii h @ 0x3D # ascii b) # ls) rules stop = parse_entries ls (rules @ [r]) stop"
proof -
  have "list_all graphic (ascii h)" "list_all graphic (ascii b)" using assms(1) by simp_all
  moreover have "split_once 0x3D (ascii h @ 0x3D # ascii b) = Some (ascii h, ascii b)"
    by (rule split_once_append [OF assms(2)])
  moreover have "ascii h \<noteq> ascii ''stop''" using assms(3) by (auto simp: parse_unsigned_def all_digits_def ascii_def is_ascii_digit_def)
  ultimately show ?thesis using assms(3,4) trim_graphic [OF assms(1)] by (simp add: trim_graphic)
qed

text \<open>The reference script parses and the lint has nothing to say about it.\<close>

lemma reference_script_clean:
  "\<exists>ps. parse_traffic_script REFERENCE_TRAFFIC_SCRIPT = Inr ps \<and> length (ps_rules ps) = 5 \<and> ps_stop ps = 6 \<and>
     lint_traffic_script ps = []"
proof -
  let ?line = "\<lambda>h b. ascii h @ 0x3D # ascii b"
  have eq: "REFERENCE_TRAFFIC_SCRIPT = ascii ''stop=6'' #
     [?line ''0'' ''L:260-520,D:0,F:0'', ?line ''1'' ''L:210-330,D:2.5-0.6,F:0'', ?line ''2'' ''L:340-700,D:0,F:0'',
      ?line ''3'' ''L:280-460,D:4.0-0.55,F:0'', ?line ''4'' ''L:420-900,D:1.8-0.7,F:0'']"
    by (simp add: REFERENCE_TRAFFIC_SCRIPT_def ascii_def)
  have stop: "parse_entries (ascii ''stop=6'' # ls) [] None = parse_entries ls [] (Some 6)" for ls
    by (simp add: script_eval)
  have idx: "parse_unsigned USIZE_MAX (ascii ''0'') = Some 0" "parse_unsigned USIZE_MAX (ascii ''1'') = Some 1"
    "parse_unsigned USIZE_MAX (ascii ''2'') = Some 2" "parse_unsigned USIZE_MAX (ascii ''3'') = Some 3"
    "parse_unsigned USIZE_MAX (ascii ''4'') = Some 4"
    by (simp_all add: script_eval)
  have g: "list_all graphic (?line ''0'' ''L:260-520,D:0,F:0'')" "list_all graphic (?line ''1'' ''L:210-330,D:2.5-0.6,F:0'')"
    "list_all graphic (?line ''2'' ''L:340-700,D:0,F:0'')" "list_all graphic (?line ''3'' ''L:280-460,D:4.0-0.55,F:0'')"
    "list_all graphic (?line ''4'' ''L:420-900,D:1.8-0.7,F:0'')"
    by (simp_all add: graphic_def ascii_def)
  have n: "0x3D \<notin> set (ascii ''0'')" "0x3D \<notin> set (ascii ''1'')" "0x3D \<notin> set (ascii ''2'')" "0x3D \<notin> set (ascii ''3'')"
    "0x3D \<notin> set (ascii ''4'')" by (simp_all add: ascii_def)
  have "\<exists>rules. parse_entries REFERENCE_TRAFFIC_SCRIPT [] None = Inr (rules, Some 6) \<and> length rules = 5 \<and>
      lint_traffic_script \<lparr>ps_rules = rules, ps_stop = 6\<rparr> = []"
    unfolding eq stop
    by (simp add: entry_line [OF g(1) n(1)] entry_line [OF g(2) n(2)] entry_line [OF g(3) n(3)] entry_line [OF g(4) n(4)]
        entry_line [OF g(5) n(5)] idx reference_bodies del: parse_entries.simps(2))
      (simp add: lint_traffic_script_def lint_rule_def min_randomized_wire_len_def max_randomized_wire_len_def scale_len_def
        lint_const_defs USIZE_MAX_def upt_rec nat_le_iff floor_le_iff)
  then obtain rules where r: "parse_entries REFERENCE_TRAFFIC_SCRIPT [] None = Inr (rules, Some 6)" "length rules = 5"
      "lint_traffic_script \<lparr>ps_rules = rules, ps_stop = 6\<rparr> = []" by blast
  then have "rules \<noteq> []" by auto
  then show ?thesis using r by (simp add: parse_traffic_script_def)
qed

theorem parsed_script_usable_witness:
  "\<exists>ps. parse_traffic_script REFERENCE_TRAFFIC_SCRIPT = Inr ps \<and> length (ps_rules ps) = 5 \<and> list_all rule_ok (ps_rules ps)"
  using reference_script_clean parsed_script_usable by blast

text \<open>The least \<^verbatim>\<open>i32\<close> passes the check of the jitter, because its absolute value is itself.\<close>

theorem jitter_limit_bypassed:
  "\<exists>jitter. parse_fake_spec (ascii ''1?-2147483648'') = Inr (1, jitter) \<and> \<bar>jitter\<bar> > MAX_FAKE_JITTER_OFFSET"
  by (simp add: script_eval i32_abs_def MAX_FAKE_JITTER_OFFSET_def)

end
