(* ===== verification/Shaper.thy ===== *)
theory Shaper
  imports Script RecordLayer
begin

text \<open>
  The traffic shaper of \<^verbatim>\<open>crates/session/src/shaper.rs\<close>: which wire size, delay and fake interaction
  the next data record gets. The draws of the random generator are arguments: a draw from an integer
  range is a number taken modulo the width of the range, a draw from an interval of \<^verbatim>\<open>f64\<close> is a
  rational between 0 and 1, the log-normal delay is drawn as its value in microseconds. A draw from an
  empty range panics; that and a truncated-normal sampler that runs out of draws are \<^const>\<open>None\<close>.
\<close>

section \<open>Policies\<close>

definition MAX_PENDING_FLUSH_SIZE :: nat where "MAX_PENDING_FLUSH_SIZE = 256 * 1024"
definition BULK_FAST_PATH_THRESHOLD :: nat where "BULK_FAST_PATH_THRESHOLD = MAX_PENDING_FLUSH_SIZE div 2"
definition SCRIPT_LEN_SCALE_LO :: rat where "SCRIPT_LEN_SCALE_LO = 85 / 100"
definition SCRIPT_LEN_SCALE_HI :: rat where "SCRIPT_LEN_SCALE_HI = 120 / 100"
definition SCRIPT_BLEND_WINDOW :: nat where "SCRIPT_BLEND_WINDOW = 6"
definition FIRST_RECORD_PAYLOAD_LO :: nat where "FIRST_RECORD_PAYLOAD_LO = 152"
definition FIRST_RECORD_PAYLOAD_HI :: nat where "FIRST_RECORD_PAYLOAD_HI = 248"

lemmas shaper_const_defs = MAX_PENDING_FLUSH_SIZE_def BULK_FAST_PATH_THRESHOLD_def SCRIPT_LEN_SCALE_LO_def
  SCRIPT_LEN_SCALE_HI_def SCRIPT_BLEND_WINDOW_def FIRST_RECORD_PAYLOAD_LO_def FIRST_RECORD_PAYLOAD_HI_def

record traffic_shaper =
  ts_direction :: flow_direction
  ts_packet_seq :: nat
  ts_script :: "script_rule list"
  ts_script_stop :: nat
  ts_deferred_fakes :: "(nat \<times> nat) list"
  ts_post_script_off :: bool
  ts_bulk_run :: bool

record shape_policy =
  sp_target_wire_len :: nat
  sp_delay :: nat
  sp_fake :: "nat option"
  sp_pre_fake :: "nat option"
  sp_allow_full_block :: bool
  sp_quiet_gap :: bool

record policy_draws =
  dr_first :: nat
  dr_blend :: rat
  dr_len :: nat
  dr_delay :: nat
  dr_jitter :: nat
  dr_chunk :: "rat list"

text \<open>\<^verbatim>\<open>gen_range(lo..=hi)\<close>.\<close>

definition gen_range :: "nat \<Rightarrow> nat \<Rightarrow> nat \<Rightarrow> nat option" where
  "gen_range lo hi x = (if lo \<le> hi then Some (lo + x mod (hi - lo + 1)) else None)"

definition exact_policy :: "nat \<Rightarrow> shape_policy" where
  "exact_policy target = \<lparr>sp_target_wire_len = target, sp_delay = 0, sp_fake = None, sp_pre_fake = None,
     sp_allow_full_block = False, sp_quiet_gap = False\<rparr>"

definition release_due_fakes :: "shape_policy \<Rightarrow> traffic_shaper \<Rightarrow> shape_policy \<times> traffic_shaper" where
  "release_due_fakes p s =
     (if ts_deferred_fakes s = [] then (p, s)
      else
        let seq = ts_packet_seq s;
            past_script = (seq \<ge> ts_script_stop s);
            due = (\<lambda>(target, _). past_script \<or> seq \<ge> target);
            released = fold (\<lambda>(_, responses) acc. min (acc + responses) 65535)
                         (filter due (ts_deferred_fakes s)) (case sp_fake p of None \<Rightarrow> 0 | Some n \<Rightarrow> n)
        in (if released > 0 then p\<lparr>sp_fake := Some (min released 255)\<rparr> else p,
            s\<lparr>ts_deferred_fakes := filter (\<lambda>d. \<not> due d) (ts_deferred_fakes s)\<rparr>))"

definition delay_from_spec :: "delay_spec \<Rightarrow> nat \<Rightarrow> nat" where
  "delay_from_spec d micros = (case d of DelayNone \<Rightarrow> 0 | LogNormal _ _ \<Rightarrow> micros)"

text \<open>The offset of a fake response: before this record, with it, or so many records later.\<close>

definition fake_offset :: "int \<Rightarrow> nat \<Rightarrow> int" where
  "fake_offset jitter x =
     (if jitter > 0 then int (x mod (nat jitter + 1))
      else if jitter < 0 then jitter + int (x mod (nat (- jitter) + 1))
      else 0)"

definition script_policy :: "policy_draws \<Rightarrow> nat \<Rightarrow> traffic_shaper \<Rightarrow> (shape_policy \<times> traffic_shaper) option" where
  "script_policy dr cap s =
     (let rule = ts_script s ! (ts_packet_seq s mod length (ts_script s)) in
      case gen_range (sr_len_lo rule) (sr_len_hi rule) (dr_len dr) of
        None \<Rightarrow> None
      | Some payload \<Rightarrow>
          let floored = min (max payload MIN_DATA_RECORD_PAYLOAD) cap;
              p = (exact_policy (data_record_wire_len floored))\<lparr>sp_delay := delay_from_spec (sr_delay rule) (dr_delay dr)\<rparr>;
              responses = sr_expect_responses rule;
              offset = fake_offset (sr_fake_jitter rule) (dr_jitter dr) in
          Some (if responses > 0
                then if offset < 0 then (p\<lparr>sp_pre_fake := Some responses\<rparr>, s)
                     else if offset = 0 then (p\<lparr>sp_fake := Some responses\<rparr>, s)
                     else (p, s\<lparr>ts_deferred_fakes := ts_deferred_fakes s @ [(ts_packet_seq s + nat offset, responses)]\<rparr>)
                else (p, s)))"

definition interactive_policy :: "policy_draws \<Rightarrow> traffic_shaper \<Rightarrow> shape_policy option" where
  "interactive_policy dr s =
     map_option (\<lambda>payload. exact_policy (data_record_wire_len payload))
       (next_data_record_payload (ts_direction s) (dr_chunk dr))"

definition begin_drain :: "traffic_shaper \<Rightarrow> traffic_shaper" where
  "begin_drain s = s\<lparr>ts_bulk_run := False\<rparr>"

definition advance :: "traffic_shaper \<Rightarrow> traffic_shaper" where
  "advance s = s\<lparr>ts_packet_seq := min (ts_packet_seq s + 1) (2 ^ 64 - 1)\<rparr>"

definition script_blend_p :: "traffic_shaper \<Rightarrow> rat" where
  "script_blend_p s =
     (if ts_packet_seq s < ts_script_stop s then 1
      else 1 - min (of_nat (ts_packet_seq s - ts_script_stop s) / of_nat SCRIPT_BLEND_WINDOW) 1)"

definition next_data_policy ::
  "policy_draws \<Rightarrow> nat \<Rightarrow> traffic_shaper \<Rightarrow> (shape_policy \<times> traffic_shaper) option" where
  "next_data_policy dr pending_len s =
     (let cap = data_record_capacity in
      if ts_packet_seq s = 0 \<and> ts_direction s = C2S
      then map_option (\<lambda>payload. release_due_fakes
             ((exact_policy (data_record_wire_len payload))\<lparr>sp_quiet_gap := \<not> ts_post_script_off s\<rparr>) s)
             (gen_range FIRST_RECORD_PAYLOAD_LO FIRST_RECORD_PAYLOAD_HI (dr_first dr))
      else if pending_len \<ge> BULK_FAST_PATH_THRESHOLD \<or> pending_len \<ge> cap
      then Some (release_due_fakes ((exact_policy max_data_record_wire_len)\<lparr>sp_allow_full_block := True\<rparr>)
                   (s\<lparr>ts_bulk_run := True\<rparr>))
      else if ts_bulk_run s \<and> pending_len < cap
      then Some (release_due_fakes (exact_policy (data_record_wire_len pending_len)) (s\<lparr>ts_bulk_run := False\<rparr>))
      else if ts_post_script_off s \<and> ts_packet_seq s \<ge> ts_script_stop s
      then Some (release_due_fakes (exact_policy (data_record_wire_len pending_len)) s)
      else if dr_blend dr < script_blend_p s \<and> ts_script s \<noteq> []
      then map_option (\<lambda>(p, s'). release_due_fakes p s') (script_policy dr cap s)
      else map_option (\<lambda>p. release_due_fakes p s) (interactive_policy dr s))"

section \<open>The script of a connection\<close>

definition plain_rule :: "nat \<Rightarrow> nat \<Rightarrow> delay_spec \<Rightarrow> script_rule" where
  "plain_rule lo hi d = \<lparr>sr_len_lo = lo, sr_len_hi = hi, sr_len_pinned = False, sr_delay = d, sr_expect_responses = 0,
     sr_fake_jitter = 0\<rparr>"

definition embedded_script :: parsed_script where
  "embedded_script = \<lparr>ps_rules =
     [plain_rule 200 250 DelayNone, plain_rule 180 220 (LogNormal (3/2) (6/10)), plain_rule 250 350 DelayNone,
      plain_rule 300 400 (LogNormal 2 (5/10)), plain_rule 200 300 DelayNone, plain_rule 400 600 (LogNormal 3 (7/10))],
     ps_stop = 6\<rparr>"

record rule_draws =
  rr_scale :: rat
  rr_pin :: nat
  rr_median_factor :: rat

definition randomize_rule :: "nat \<Rightarrow> rule_draws \<Rightarrow> script_rule \<Rightarrow> script_rule option" where
  "randomize_rule cap dr rule =
     (let scale = SCRIPT_LEN_SCALE_LO + (SCRIPT_LEN_SCALE_HI - SCRIPT_LEN_SCALE_LO) * rr_scale dr;
          window = (if sr_len_pinned rule
                    then map_option (\<lambda>f. (f, f)) (gen_range (sr_len_lo rule) (sr_len_hi rule) (rr_pin dr))
                    else Some (sr_len_lo rule, sr_len_hi rule)) in
      case window of
        None \<Rightarrow> None
      | Some (lo, hi) \<Rightarrow>
          let lo' = min (max (scale_len lo scale) 1) cap;
              hi' = min (max (scale_len hi scale) lo') cap
          in Some (rule\<lparr>sr_len_lo := lo', sr_len_hi := hi',
                     sr_delay := (case sr_delay rule of DelayNone \<Rightarrow> DelayNone
                                  | LogNormal median sigma \<Rightarrow> LogNormal (median * rr_median_factor dr) sigma)\<rparr>))"

fun randomize_rules :: "nat \<Rightarrow> (nat \<Rightarrow> rule_draws) \<Rightarrow> nat \<Rightarrow> script_rule list \<Rightarrow> script_rule list option" where
  "randomize_rules cap drs i [] = Some []"
| "randomize_rules cap drs i (r # rs) =
     (case randomize_rule cap (drs i) r of
        None \<Rightarrow> None
      | Some r' \<Rightarrow> map_option ((#) r') (randomize_rules cap drs (Suc i) rs))"

definition randomize_script :: "nat \<Rightarrow> (nat \<Rightarrow> rule_draws) \<Rightarrow> script_rule list \<Rightarrow> script_rule list option" where
  "randomize_script offset drs script =
     (if script = [] then Some []
      else randomize_rules data_record_capacity drs 0 (rotate (offset mod length script) script))"

definition TrafficShaper_new ::
  "flow_direction \<Rightarrow> bytes list option \<Rightarrow> bool \<Rightarrow> nat \<Rightarrow> (nat \<Rightarrow> rule_draws) \<Rightarrow> traffic_shaper option" where
  "TrafficShaper_new dir script_lines post_script_off offset drs =
     (let ps = (case script_lines of
                  None \<Rightarrow> embedded_script
                | Some lines \<Rightarrow> (case parse_traffic_script lines of Inl _ \<Rightarrow> embedded_script | Inr ps \<Rightarrow> ps)) in
      map_option (\<lambda>script. \<lparr>ts_direction = dir, ts_packet_seq = 0, ts_script = script, ts_script_stop = ps_stop ps,
          ts_deferred_fakes = [], ts_post_script_off = post_script_off, ts_bulk_run = False\<rparr>)
        (randomize_script offset drs (ps_rules ps)))"

section \<open>The sizes the shaper asks for\<close>

text \<open>After the randomisation every window is a non-empty range of payloads that fit a record.\<close>

definition window_ok :: "script_rule \<Rightarrow> bool" where
  "window_ok r \<longleftrightarrow> 1 \<le> sr_len_lo r \<and> sr_len_lo r \<le> sr_len_hi r \<and> sr_len_hi r \<le> data_record_capacity"

definition shaper_ok :: "traffic_shaper \<Rightarrow> bool" where
  "shaper_ok s \<longleftrightarrow> list_all window_ok (ts_script s)"

lemma capacity_pos: "1 \<le> data_record_capacity" "MIN_DATA_RECORD_PAYLOAD \<le> data_record_capacity"
  "MAX_DATA_RECORD_PAYLOAD \<le> data_record_capacity" "FIRST_RECORD_PAYLOAD_HI \<le> data_record_capacity"
  by (simp_all add: record_const_defs data_record_capacity_def wire_defs shaper_const_defs)

lemma gen_range_bounds:
  assumes "gen_range lo hi x = Some v"
  shows "lo \<le> v \<and> v \<le> hi"
proof -
  obtain m where "m < hi - lo + 1" "v = lo + m" "lo \<le> hi"
    using assms that [of "x mod (hi - lo + 1)"] by (auto simp: gen_range_def split: if_splits)
  then show ?thesis by linarith
qed

lemma randomize_rule_ok:
  "randomize_rule data_record_capacity dr r = Some r' \<Longrightarrow> window_ok r'"
  using capacity_pos(1) by (auto simp: randomize_rule_def window_ok_def Let_def split: option.splits if_splits)

lemma randomize_rules_ok: "randomize_rules data_record_capacity drs i rs = Some rs' \<Longrightarrow> list_all window_ok rs'"
  by (induction rs arbitrary: i rs') (auto dest: randomize_rule_ok split: option.splits)

lemma shaper_new_ok: "TrafficShaper_new dir lines off n drs = Some s \<Longrightarrow> shaper_ok s"
  by (auto simp: TrafficShaper_new_def randomize_script_def shaper_ok_def Let_def dest: randomize_rules_ok split: if_splits)

lemma randomize_total:
  assumes "list_all (\<lambda>r. sr_len_lo r \<le> sr_len_hi r) rs"
  shows "randomize_rules cap drs i rs \<noteq> None"
  using assms by (induction rs arbitrary: i) (auto simp: randomize_rule_def gen_range_def Let_def split: option.splits)

lemma release_due_sel [simp]:
  "sp_target_wire_len (fst (release_due_fakes p s)) = sp_target_wire_len p"
  "sp_delay (fst (release_due_fakes p s)) = sp_delay p"
  "sp_pre_fake (fst (release_due_fakes p s)) = sp_pre_fake p"
  "sp_allow_full_block (fst (release_due_fakes p s)) = sp_allow_full_block p"
  "sp_quiet_gap (fst (release_due_fakes p s)) = sp_quiet_gap p"
  "ts_script (snd (release_due_fakes p s)) = ts_script s"
  "ts_direction (snd (release_due_fakes p s)) = ts_direction s"
  "ts_packet_seq (snd (release_due_fakes p s)) = ts_packet_seq s"
  by (simp_all add: release_due_fakes_def Let_def)

lemma exact_policy_sel [simp]:
  "sp_target_wire_len (exact_policy t) = t" "sp_delay (exact_policy t) = 0" "sp_allow_full_block (exact_policy t) = False"
  "sp_quiet_gap (exact_policy t) = False" "sp_pre_fake (exact_policy t) = None"
  by (simp_all add: exact_policy_def)

lemma interactive_bounds:
  assumes "interactive_policy dr s = Some p"
  shows "\<exists>v. MIN_DATA_RECORD_PAYLOAD \<le> v \<and> v \<le> data_record_capacity \<and> p = exact_policy (data_record_wire_len v)"
  using assms data_record_payload_range capacity_pos(3) unfolding interactive_policy_def by fastforce

lemma script_bounds:
  assumes "script_policy dr data_record_capacity s = Some (p, s')"
  shows "\<exists>v. MIN_DATA_RECORD_PAYLOAD \<le> v \<and> v \<le> data_record_capacity \<and> sp_target_wire_len p = data_record_wire_len v \<and>
    \<not> sp_allow_full_block p \<and> \<not> sp_quiet_gap p \<and> ts_script s' = ts_script s"
  using assms capacity_pos(2)
  by (auto simp: script_policy_def Let_def split: option.splits if_splits) (metis max.cobounded2 min.cobounded2 min.boundedI)+

lemma wire_values:
  "data_record_wire_len n = n + 24" "max_data_record_wire_len = data_record_capacity + 24" "MIN_DATA_WIRE_LEN = 24"
  "L1_MAX_WIRE_LEN = 160" "MIN_DATA_RECORD_PAYLOAD = 137" "FIRST_RECORD_PAYLOAD_LO = 152" "FIRST_RECORD_PAYLOAD_HI = 248"
  "248 \<le> data_record_capacity" "data_record_capacity \<le> BULK_FAST_PATH_THRESHOLD"
  by (simp_all add: data_record_wire_len_def wire_defs max_data_record_wire_len_def data_record_capacity_def record_const_defs
      shaper_const_defs)

text \<open>The four kinds of answer.\<close>

lemma policy_kinds:
  assumes pol: "next_data_policy dr n s = Some (p, s')"
  obtains (first) v where "ts_packet_seq s = 0" "ts_direction s = C2S" "152 \<le> v" "v \<le> 248"
      "sp_target_wire_len p = v + 24" "\<not> sp_allow_full_block p" "ts_script s' = ts_script s"
  | (full) "\<not> (ts_packet_seq s = 0 \<and> ts_direction s = C2S)" "data_record_capacity \<le> n" "sp_target_wire_len p = data_record_capacity + 24"
      "sp_delay p = 0" "sp_pre_fake p = None" "\<not> sp_quiet_gap p" "ts_script s' = ts_script s"
  | (tail) "\<not> (ts_packet_seq s = 0 \<and> ts_direction s = C2S)" "n < data_record_capacity" "sp_target_wire_len p = n + 24"
      "\<not> sp_allow_full_block p" "ts_script s' = ts_script s"
  | (sampled) v where "\<not> (ts_packet_seq s = 0 \<and> ts_direction s = C2S)" "137 \<le> v" "v \<le> data_record_capacity"
      "sp_target_wire_len p = v + 24" "\<not> sp_allow_full_block p" "ts_script s' = ts_script s"
proof (cases "ts_packet_seq s = 0 \<and> ts_direction s = C2S")
  case True
  then obtain v where v: "gen_range FIRST_RECORD_PAYLOAD_LO FIRST_RECORD_PAYLOAD_HI (dr_first dr) = Some v"
    and p: "release_due_fakes ((exact_policy (data_record_wire_len v))\<lparr>sp_quiet_gap := \<not> ts_post_script_off s\<rparr>) s = (p, s')"
    using pol by (auto simp: next_data_policy_def Let_def)
  show thesis
    using first [of v] True gen_range_bounds [OF v] release_due_sel(1,4,6) [of "(exact_policy (data_record_wire_len v))\<lparr>sp_quiet_gap := \<not> ts_post_script_off s\<rparr>" s]
    unfolding p by (simp add: wire_values)
next
  case notfirst: False
  consider (bulk) "data_record_capacity \<le> n" | (exact) "n < data_record_capacity"
      "ts_bulk_run s \<or> ts_post_script_off s \<and> ts_packet_seq s \<ge> ts_script_stop s"
    | (drawn) "n < data_record_capacity" "\<not> ts_bulk_run s" "\<not> (ts_post_script_off s \<and> ts_packet_seq s \<ge> ts_script_stop s)"
    by linarith
  then show thesis
  proof cases
    case bulk
    then have p: "release_due_fakes ((exact_policy max_data_record_wire_len)\<lparr>sp_allow_full_block := True\<rparr>) (s\<lparr>ts_bulk_run := True\<rparr>) = (p, s')"
      using pol notfirst by (auto simp: next_data_policy_def Let_def)
    show thesis
      using full notfirst bulk release_due_sel [of "(exact_policy max_data_record_wire_len)\<lparr>sp_allow_full_block := True\<rparr>" "s\<lparr>ts_bulk_run := True\<rparr>"]
      unfolding p by (simp add: wire_values)
  next
    case exact
    then obtain t where p: "release_due_fakes (exact_policy (data_record_wire_len n)) t = (p, s')" "ts_script t = ts_script s"
      using pol notfirst wire_values(9) by (auto simp: next_data_policy_def Let_def split: if_splits)
    show thesis
      using tail notfirst exact p(2) release_due_sel [of "exact_policy (data_record_wire_len n)" t]
      unfolding p(1) by (simp add: wire_values)
  next
    case drawn
    then obtain q t v where q: "release_due_fakes q t = (p, s')" "137 \<le> v" "v \<le> data_record_capacity"
        "sp_target_wire_len q = v + 24" "\<not> sp_allow_full_block q" "ts_script t = ts_script s"
    proof (cases "dr_blend dr < script_blend_p s \<and> ts_script s \<noteq> []")
      case True
      then obtain q t where "script_policy dr data_record_capacity s = Some (q, t)" "release_due_fakes q t = (p, s')"
        using pol notfirst drawn wire_values(9) by (auto simp: next_data_policy_def Let_def split: if_splits)
      then show ?thesis using that script_bounds by (metis wire_values(1,5))
    next
      case False
      then obtain q where "interactive_policy dr s = Some q" "release_due_fakes q s = (p, s')"
        using pol notfirst drawn wire_values(9) by (auto simp: next_data_policy_def Let_def split: if_splits)
      then show ?thesis using that interactive_bounds [of dr s q] by (auto simp: wire_values)
    qed
    then show thesis using sampled [of v] notfirst release_due_sel [of q t] unfolding q(1) by simp
  qed
qed

text \<open>C13: The shaper never asks for a size that a record cannot have, and never makes a small record out
  of its own choice. Every target leaves room for at least one byte and is at most a full record. The
  first record of a client is between 176 and 272 bytes, below the 300 bytes of the first-burst rule. A
  full block is only ordered for a backlog of at least one full record, without delay. A target in
  the smallest size class (at most 160 bytes) is the exact size of the whole backlog.\<close>

theorem shaped_record_sizes:
  assumes "0 < pending_len" "next_data_policy dr pending_len s = Some (p, s')"
  shows "MIN_DATA_WIRE_LEN < sp_target_wire_len p \<and> sp_target_wire_len p \<le> max_data_record_wire_len \<and>
    (ts_packet_seq s = 0 \<and> ts_direction s = C2S \<longrightarrow>
       176 \<le> sp_target_wire_len p \<and> sp_target_wire_len p \<le> 272 \<and> \<not> sp_allow_full_block p) \<and>
    (sp_allow_full_block p \<longrightarrow> sp_target_wire_len p = max_data_record_wire_len \<and> data_record_capacity \<le> pending_len \<and>
       sp_delay p = 0 \<and> sp_pre_fake p = None \<and> \<not> sp_quiet_gap p) \<and>
    (sp_target_wire_len p \<le> L1_MAX_WIRE_LEN \<longrightarrow> sp_target_wire_len p = data_record_wire_len pending_len)"
  using assms(2) by (cases rule: policy_kinds) (use assms(1) wire_values(8) in \<open>auto simp: wire_values(1-7)\<close>)

theorem shaped_record_sizes_witness:
  "\<exists>p s'. next_data_policy \<lparr>dr_first = 7, dr_blend = 0, dr_len = 0, dr_delay = 0, dr_jitter = 0, dr_chunk = []\<rparr> 500
     \<lparr>ts_direction = C2S, ts_packet_seq = 0, ts_script = [], ts_script_stop = 1, ts_deferred_fakes = [],
      ts_post_script_off = False, ts_bulk_run = False\<rparr> = Some (p, s') \<and>
     176 \<le> sp_target_wire_len p \<and> sp_target_wire_len p \<le> 272"
proof -
  let ?dr = "\<lparr>dr_first = 7, dr_blend = 0, dr_len = 0, dr_delay = 0, dr_jitter = 0, dr_chunk = []\<rparr>"
  let ?s = "\<lparr>ts_direction = C2S, ts_packet_seq = 0, ts_script = [], ts_script_stop = 1, ts_deferred_fakes = [],
      ts_post_script_off = False, ts_bulk_run = False\<rparr>"
  obtain p s' where "next_data_policy ?dr 500 ?s = Some (p, s')"
    by (auto simp: next_data_policy_def gen_range_def wire_values Let_def release_due_fakes_def)
  then show ?thesis using shaped_record_sizes [of 500 ?dr ?s p s'] by auto
qed

end
