(* ===== verification/Writer.thy ===== *)
theory Writer
  imports Shaper Session
begin

text \<open>
  The writer task of \<^verbatim>\<open>crates/session/src/session.rs\<close>: cutting control packets into records, draining
  the plaintext backlog through the shaper, letting control writes pass during a delay, batching the
  flushes and answering the writers. What the surroundings decide is a record of functions, one value
  per occasion: the random draws, the control requests that arrive during a delay, and whether a
  flush succeeds. The polling inside one flush is in \<^verbatim>\<open>RecordLayer\<close>; here a flush sends all of the
  write buffer or fails. \<^verbatim>\<open>wt_ops\<close> is a history of the records prepared so far; the diagnostic
  counters of the data plane are left out.
\<close>

section \<open>Frame headers in a packet\<close>

function walk_frame_headers :: "bytes \<Rightarrow> (u8 \<times> u32 \<times> nat) list" where
  "walk_frame_headers buf =
     (if length buf < FRAME_HEADER_SIZE then []
      else
        let frame_len = FRAME_HEADER_SIZE + unat (u16_from_be (buf ! 5) (buf ! 6)) in
        if length buf < frame_len then []
        else (buf ! 0, u32_from_be (buf ! 1) (buf ! 2) (buf ! 3) (buf ! 4), frame_len)
               # walk_frame_headers (drop frame_len buf))"
  by pat_completeness auto
termination by (relation "measure length") (auto simp: FRAME_HEADER_SIZE_def)

declare walk_frame_headers.simps [simp del]

text \<open>A request as the task sees it: with the number of the writer that waits for the answer.\<close>

record queued_request = write_request +
  qr_id :: nat

definition request_headers :: "queued_request \<Rightarrow> (u8 \<times> u32 \<times> nat) list" where
  "request_headers r = concat (map walk_frame_headers (wr_packets r))"

definition control_write_can_pass_through :: "queued_request \<Rightarrow> u32 set \<Rightarrow> bool" where
  "control_write_can_pass_through r pinned =
     (request_headers r \<noteq> [] \<and>
      list_all (\<lambda>(cmd, sid, _). cmd \<in> {CMD_SYN, CMD_FIN, CMD_SETTINGS, CMD_SYNACK} \<and> sid \<notin> pinned) (request_headers r))"

definition packet_carries_stream_lifecycle_frame :: "bytes \<Rightarrow> bool" where
  "packet_carries_stream_lifecycle_frame packet =
     list_ex (\<lambda>(cmd, _, _). cmd = CMD_SYN \<or> cmd = CMD_FIN) (walk_frame_headers packet)"

definition request_carries_stream_data :: "queued_request \<Rightarrow> bool" where
  "request_carries_stream_data r = list_ex (\<lambda>(cmd, _, _). cmd = CMD_PSH) (request_headers r)"

definition request_sids :: "queued_request \<Rightarrow> u32 set" where
  "request_sids r = set (map (\<lambda>(_, sid, _). sid) (request_headers r))"

section \<open>State\<close>

definition STICKY_BULK_FLUSH_MAX_RECORDS :: nat where "STICKY_BULK_FLUSH_MAX_RECORDS = 8"
definition STICKY_BULK_FLUSH_MAX_BYTES :: nat where "STICKY_BULK_FLUSH_MAX_BYTES = 128 * 1024"

record control_draws =
  cd_u :: rat
  cd_roll :: rat
  cd_control :: "rat list"
  cd_lifecycle :: "rat list"
  cd_chunk :: "rat list"

record writer_env =
  en_enc :: aead
  en_large :: bool
  en_direction :: flow_direction
  en_control :: "nat \<Rightarrow> control_draws"
  en_policy :: "nat \<Rightarrow> policy_draws"
  en_window :: "nat \<Rightarrow> queued_request list"
  en_flush :: "nat \<Rightarrow> bool"

record writer =
  wt_half :: write_half
  wt_ops :: "record_op list"
  wt_sent :: bytes
  wt_batch_records :: nat
  wt_batch_responders :: "nat list"
  wt_pending :: bytes
  wt_responders :: "nat list"
  wt_settings :: "bytes option"
  wt_shaper :: traffic_shaper
  wt_acks :: "(nat \<times> bool) list"
  wt_draw :: nat
  wt_policy :: nat
  wt_window :: nat
  wt_flush :: nat

datatype writer_error = SealFailed io_error | FlushFailed | SamplerFailed

type_synonym writer_result = "writer_error option \<times> writer"

definition then_do :: "writer_result \<Rightarrow> (writer \<Rightarrow> writer_result) \<Rightarrow> writer_result" where
  "then_do r f = (case r of (Some e, w) \<Rightarrow> (Some e, w) | (None, w) \<Rightarrow> f w)"

lemma then_do_simps [simp]: "then_do (None, w) f = f w" "then_do (Some e, w) f = (Some e, w)"
  by (simp_all add: then_do_def)

definition writer_prepare :: "writer_env \<Rightarrow> bool \<Rightarrow> bytes \<Rightarrow> nat \<Rightarrow> writer \<Rightarrow> writer_result" where
  "writer_prepare env is_control p target w =
     (case prepare_record (en_enc env) (wt_half w) (is_control, p, target) of
        (Some e, wh) \<Rightarrow> (Some (SealFailed e), w\<lparr>wt_half := wh\<rparr>)
      | (None, wh) \<Rightarrow> (None, w\<lparr>wt_half := wh, wt_ops := wt_ops w @ [(is_control, p, target)]\<rparr>))"

definition note_records :: "nat \<Rightarrow> writer \<Rightarrow> writer" where
  "note_records n w = w\<lparr>wt_batch_records := wt_batch_records w + n\<rparr>"

definition batch_is_idle :: "writer \<Rightarrow> bool" where
  "batch_is_idle w \<longleftrightarrow> wt_batch_records w = 0 \<and> wt_batch_responders w = []"

definition batch_is_full :: "writer \<Rightarrow> bool" where
  "batch_is_full w \<longleftrightarrow> wt_batch_records w \<ge> STICKY_BULK_FLUSH_MAX_RECORDS \<or>
     buffered_write_len (wt_half w) \<ge> STICKY_BULK_FLUSH_MAX_BYTES"

definition answer :: "bool \<Rightarrow> nat list \<Rightarrow> writer \<Rightarrow> writer" where
  "answer ok ids w = w\<lparr>wt_acks := wt_acks w @ map (\<lambda>i. (i, ok)) ids\<rparr>"

definition batch_flush :: "writer_env \<Rightarrow> writer \<Rightarrow> writer_result" where
  "batch_flush env w =
     (let wh = wt_half w;
          ok = en_flush env (wt_flush w);
          w1 = w\<lparr>wt_batch_records := 0, wt_flush := wt_flush w + 1\<rparr> in
      if ok
      then (None, (answer True (wt_batch_responders w1)
             (w1\<lparr>wt_sent := wt_sent w1 @ drop (wh_write_offset wh) (wh_write_buffer wh),
                 wt_half := wh\<lparr>wh_write_buffer := [], wh_write_offset := 0\<rparr>\<rparr>))\<lparr>wt_batch_responders := []\<rparr>)
      else (Some FlushFailed, (answer False (wt_batch_responders w1) w1)\<lparr>wt_batch_responders := []\<rparr>))"

definition batch_fail :: "writer \<Rightarrow> writer" where
  "batch_fail w = (answer False (wt_batch_responders w) w)\<lparr>wt_batch_records := 0, wt_batch_responders := []\<rparr>"

section \<open>Control records\<close>

text \<open>The size of the next record of a control packet and how many bytes go into it.\<close>

definition control_slice :: "writer_env \<Rightarrow> connection_phase \<Rightarrow> bool \<Rightarrow> nat \<Rightarrow> writer \<Rightarrow> (nat \<times> nat) option" where
  "control_slice env st lifecycle_sized remaining w =
     (let d = en_control env (wt_draw w); dir = en_direction env in
      case (if lifecycle_sized then map_option data_record_wire_len (next_data_record_payload dir (cd_lifecycle d))
            else next_control_size (en_large env) (wh_control_frame_count (wt_half w)) st dir (cd_u d) (cd_roll d) (cd_control d)) of
        None \<Rightarrow> None
      | Some control_target \<Rightarrow>
          let control_cap = control_target - CONTROL_RECORD_MIN_OVERHEAD in
          if remaining \<le> control_cap then Some (control_target, remaining)
          else if remaining \<ge> data_record_capacity then Some (max_data_record_wire_len, data_record_capacity)
          else map_option (\<lambda>chunk. (data_record_wire_len chunk, min remaining chunk))
                 (next_data_record_payload dir (cd_chunk d)))"

lemma control_slice_progress:
  assumes "control_slice env st l remaining w = Some (target, n)"
  shows "n \<le> remaining" "0 < remaining \<Longrightarrow> 0 < n"
proof -
  have "0 < chunk" if "next_data_record_payload dir zs = Some chunk" for dir zs chunk
    using data_record_payload_range [OF that] by (simp add: wire_values)
  moreover have "0 < data_record_capacity" using wire_values(8) by linarith
  ultimately show "n \<le> remaining" "0 < remaining \<Longrightarrow> 0 < n"
    using assms by (auto simp: control_slice_def Let_def split: option.splits if_splits)
qed

text \<open>The loop of \<^verbatim>\<open>prepare_control_packet_records\<close> on the bytes not yet consumed.\<close>

function control_records ::
  "writer_env \<Rightarrow> connection_phase \<Rightarrow> bool \<Rightarrow> bytes \<Rightarrow> nat \<Rightarrow> writer \<Rightarrow> writer_error option \<times> nat \<times> writer" where
  "control_records env st lifecycle_sized rest records w =
     (case control_slice env st lifecycle_sized (length rest) w of
        None \<Rightarrow> (Some SamplerFailed, records, w)
      | Some (target, n) \<Rightarrow>
          (case writer_prepare env True (take n rest) target (w\<lparr>wt_draw := wt_draw w + 1\<rparr>) of
             (Some e, w1) \<Rightarrow> (Some e, records, w1)
           | (None, w1) \<Rightarrow>
               if drop n rest = [] then (None, records + 1, w1)
               else control_records env st lifecycle_sized (drop n rest) (records + 1) w1))"
  by pat_completeness auto
termination
  by (relation "measure (\<lambda>(env, st, l, rest, records, w). length rest)") (auto dest!: control_slice_progress(2))

declare control_records.simps [simp del]

definition prepare_control_packet_records ::
  "writer_env \<Rightarrow> bytes \<Rightarrow> connection_phase \<Rightarrow> writer \<Rightarrow> writer_error option \<times> nat \<times> writer" where
  "prepare_control_packet_records env packet st w =
     (case self_sized_padding_wire_len packet of
        Some target \<Rightarrow>
          (case writer_prepare env True packet target w of
             (Some e, w1) \<Rightarrow> (Some e, 0, w1)
           | (None, w1) \<Rightarrow> (None, 1, w1))
      | None \<Rightarrow> control_records env st (packet_carries_stream_lifecycle_frame packet) packet 0 w)"

fun prepare_packets :: "writer_env \<Rightarrow> connection_phase \<Rightarrow> nat \<Rightarrow> bytes list \<Rightarrow> writer \<Rightarrow> writer_result" where
  "prepare_packets env st i [] w = (None, w)"
| "prepare_packets env st i (p # ps) w =
     (case prepare_control_packet_records env p st w of
        (Some e, _, w1) \<Rightarrow> (Some e, answer False [i] w1)
      | (None, n, w1) \<Rightarrow> prepare_packets env st i ps (note_records n w1))"

definition prepare_control_request :: "writer_env \<Rightarrow> queued_request \<Rightarrow> writer \<Rightarrow> writer_result" where
  "prepare_control_request env r w =
     then_do (prepare_packets env (control_state (wt_half w)) (qr_id r) (wr_packets r) w)
       (\<lambda>w1. (None, w1\<lparr>wt_batch_responders := wt_batch_responders w1 @ [qr_id r]\<rparr>))"

fun prepare_deferred_control_requests :: "writer_env \<Rightarrow> queued_request list \<Rightarrow> writer \<Rightarrow> writer_result" where
  "prepare_deferred_control_requests env [] w = (None, w)"
| "prepare_deferred_control_requests env (r # rs) w =
     then_do (prepare_control_request env r w) (prepare_deferred_control_requests env rs)"

definition fake_packet :: "nat \<Rightarrow> bytes" where
  "fake_packet m = encode_padding_request_sized (of_nat m) PADDING_REQUEST_WIRE"

fun fake_records :: "writer_env \<Rightarrow> nat list \<Rightarrow> writer \<Rightarrow> writer_result" where
  "fake_records env [] w = (None, w)"
| "fake_records env (m # ms) w =
     then_do (writer_prepare env True (fake_packet m) PADDING_REQUEST_WIRE w) (fake_records env ms)"

definition prepare_fake_frames :: "writer_env \<Rightarrow> nat list \<Rightarrow> writer \<Rightarrow> writer_result" where
  "prepare_fake_frames env responses w =
     then_do (fake_records env responses w) (\<lambda>w1. (None, note_records (length responses) w1))"

section \<open>Draining the backlog\<close>

text \<open>The client's SETTINGS go in front of the first control request.\<close>

definition take_settings :: "queued_request \<Rightarrow> writer \<Rightarrow> queued_request \<times> writer" where
  "take_settings r w =
     (case wt_settings w of
        None \<Rightarrow> (r, w)
      | Some s \<Rightarrow> (r\<lparr>wr_packets := s # wr_packets r\<rparr>, w\<lparr>wt_settings := None\<rparr>))"

text \<open>The requests that arrive during one delay: each is written at once or deferred.\<close>

fun delay_arrivals ::
  "writer_env \<Rightarrow> bool \<Rightarrow> queued_request list \<Rightarrow> u32 set \<Rightarrow> queued_request list \<Rightarrow> writer \<Rightarrow>
     writer_error option \<times> u32 set \<times> queued_request list \<times> writer" where
  "delay_arrivals env at_boundary [] pinned deferred w = (None, pinned, deferred, w)"
| "delay_arrivals env at_boundary (r0 # rs) pinned deferred w =
     (let (r, w1) = take_settings r0 w in
      if deferred = [] \<and> at_boundary \<and> control_write_can_pass_through r pinned
      then (case then_do (prepare_control_request env r w1) (batch_flush env) of
              (Some e, w2) \<Rightarrow> (Some e, pinned, deferred, w2)
            | (None, w2) \<Rightarrow> delay_arrivals env at_boundary rs pinned deferred w2)
      else delay_arrivals env at_boundary rs (pinned \<union> request_sids r) (deferred @ [r]) w1)"

definition wait_shaping_delay ::
  "writer_env \<Rightarrow> bool \<Rightarrow> u32 set \<Rightarrow> queued_request list \<Rightarrow> writer \<Rightarrow>
     writer_error option \<times> u32 set \<times> queued_request list \<times> writer" where
  "wait_shaping_delay env at_boundary pinned deferred w =
     delay_arrivals env at_boundary (en_window env (wt_window w)) pinned deferred (w\<lparr>wt_window := wt_window w + 1\<rparr>)"

definition frame_boundaries :: "bytes \<Rightarrow> nat list" where
  "frame_boundaries pending = (let ls = map (\<lambda>(_, _, l). l) (walk_frame_headers pending)
     in map (\<lambda>i. sum_list (take (Suc i) ls)) [0..<length ls])"

definition psh_sids :: "bytes \<Rightarrow> u32 set" where
  "psh_sids pending = set (map (\<lambda>(_, sid, _). sid) (filter (\<lambda>(cmd, _, _). cmd = CMD_PSH) (walk_frame_headers pending)))"

record drain_state =
  ds_pos :: nat
  ds_fakes :: "nat list"
  ds_pinned :: "u32 set"
  ds_deferred :: "queued_request list"

definition record_take :: "shape_policy \<Rightarrow> nat \<Rightarrow> nat" where
  "record_take p remaining = min (min (sp_target_wire_len p - MIN_DATA_WIRE_LEN) data_record_capacity) remaining"

text \<open>One iteration of \<^verbatim>\<open>drive_shaper\<close> under a given policy.\<close>

definition inline_fake_of :: "shape_policy \<Rightarrow> bool \<Rightarrow> nat option \<times> nat option" where
  "inline_fake_of p at_boundary =
     (let inline0 = (if sp_quiet_gap p then sp_fake p else None) in
      case sp_pre_fake p of
        None \<Rightarrow> (inline0, None)
      | Some pre \<Rightarrow> if at_boundary
                   then (Some (min ((case inline0 of None \<Rightarrow> 0 | Some m \<Rightarrow> m) + pre) 255), None)
                   else (inline0, Some pre))"

definition emit_record ::
  "writer_env \<Rightarrow> nat list \<Rightarrow> shape_policy \<Rightarrow> drain_state \<Rightarrow> writer \<Rightarrow> writer_error option \<times> drain_state \<times> writer" where
  "emit_record env boundaries p ds w =
     (let pos = ds_pos ds;
          n = record_take p (length (wt_pending w) - pos);
          (inline, late) = inline_fake_of p (pos = 0 \<or> pos \<in> set boundaries) in
      case then_do (case inline of None \<Rightarrow> (None, w)
                      | Some m \<Rightarrow> writer_prepare env True (fake_packet m) PADDING_REQUEST_WIRE w)
             (\<lambda>w0. writer_prepare env False (take n (drop pos (wt_pending w0))) (sp_target_wire_len p) w0) of
        (Some e, w1) \<Rightarrow> (Some e, ds, w1)
      | (None, w1) \<Rightarrow>
          let ds1 = ds\<lparr>ds_pos := pos + n, ds_fakes := ds_fakes ds @ (case late of None \<Rightarrow> [] | Some m \<Rightarrow> [m])\<rparr>;
              w2 = note_records (1 + (if inline = None then 0 else 1)) (w1\<lparr>wt_shaper := advance (wt_shaper w1)\<rparr>) in
          (case (if sp_quiet_gap p \<or> sp_delay p > 0 \<or> batch_is_full w2 then batch_flush env w2 else (None, w2)) of
             (Some e, w3) \<Rightarrow> (Some e, ds1, w3)
           | (None, w3) \<Rightarrow>
               let ds2 = (case sp_fake p of
                            Some m \<Rightarrow> if \<not> sp_quiet_gap p then ds1\<lparr>ds_fakes := ds_fakes ds1 @ [m]\<rparr> else ds1
                          | None \<Rightarrow> ds1) in
               if sp_delay p > 0
               then (let (err, pinned, deferred, w4) =
                       wait_shaping_delay env (ds_pos ds2 \<in> set boundaries) (ds_pinned ds2) (ds_deferred ds2) w3
                     in (err, ds2\<lparr>ds_pinned := pinned, ds_deferred := deferred\<rparr>, w4))
               else (None, ds2, w3)))"

definition sticky_policy :: "nat \<Rightarrow> shape_policy" where
  "sticky_policy remaining =
     (let n = min remaining data_record_capacity in
      (exact_policy (if n = data_record_capacity then max_data_record_wire_len else data_record_wire_len n))
        \<lparr>sp_allow_full_block := True\<rparr>)"

definition writer_policy :: "writer_env \<Rightarrow> nat \<Rightarrow> writer \<Rightarrow> (shape_policy \<times> writer) option" where
  "writer_policy env remaining w =
     (case next_data_policy (en_policy env (wt_policy w)) remaining (wt_shaper w) of
        None \<Rightarrow> None
      | Some (p, sh) \<Rightarrow> Some (p, w\<lparr>wt_shaper := sh, wt_policy := wt_policy w + 1\<rparr>))"

definition drain_policy :: "writer_env \<Rightarrow> bool \<Rightarrow> nat \<Rightarrow> writer \<Rightarrow> (shape_policy \<times> writer) option" where
  "drain_policy env sticky remaining w =
     (if sticky then Some (sticky_policy remaining, w) else writer_policy env remaining w)"

lemma policy_room:
  assumes "0 < remaining" "next_data_policy dr remaining s = Some (p, s')"
  shows "24 < sp_target_wire_len p"
  using assms(2) by (cases rule: policy_kinds) (use assms(1) wire_values(8) in \<open>auto simp: wire_values(1-7)\<close>)

lemma drain_policy_progress:
  assumes "drain_policy env sticky remaining w = Some (p, w')" "0 < remaining"
  shows "0 < record_take p remaining"
proof -
  have "24 < sp_target_wire_len p"
    using assms policy_room [OF assms(2)] wire_values(8)
    by (auto simp: drain_policy_def writer_policy_def sticky_policy_def wire_values(1-7) Let_def split: if_splits option.splits)
  moreover have "0 < data_record_capacity" using wire_values(8) by linarith
  ultimately show ?thesis using assms(2) by (auto simp: record_take_def wire_values(3))
qed

text \<open>Only \<^verbatim>\<open>queue_bulk_request\<close> and the end of a drain change the backlog.\<close>

lemma then_do_cases:
  "then_do r f = (e, w) \<Longrightarrow> (\<And>w1. r = (None, w1) \<Longrightarrow> f w1 = (e, w) \<Longrightarrow> P) \<Longrightarrow> (\<And>x. r = (Some x, w) \<Longrightarrow> e = Some x \<Longrightarrow> P) \<Longrightarrow> P"
  by (cases r; cases "fst r") (auto simp: then_do_def)

lemma writer_prepare_keeps:
  "writer_prepare env c p t w = (e, w') \<Longrightarrow> wt_pending w' = wt_pending w \<and> wt_shaper w' = wt_shaper w"
  by (auto simp: writer_prepare_def split: prod.splits option.splits)

lemma batch_flush_keeps:
  "batch_flush env w = (e, w') \<Longrightarrow> wt_pending w' = wt_pending w \<and> wt_shaper w' = wt_shaper w \<and> wt_ops w' = wt_ops w"
  by (auto simp: batch_flush_def answer_def Let_def split: if_splits)

lemma control_records_keeps:
  "control_records env st l rest n w = (e, m, w') \<Longrightarrow> wt_pending w' = wt_pending w \<and> wt_shaper w' = wt_shaper w"
proof (induction env st l rest n w rule: control_records.induct)
  case (1 env st l rest n w)
  show ?case
  proof (cases "control_slice env st l (length rest) w")
    case None
    then show ?thesis using "1.prems" by (subst (asm) control_records.simps) auto
  next
    case (Some tn)
    obtain t k where tn: "tn = (t, k)" by (cases tn)
    obtain e1 w1 where p: "writer_prepare env True (take k rest) t (w\<lparr>wt_draw := wt_draw w + 1\<rparr>) = (e1, w1)"
      by (cases "writer_prepare env True (take k rest) t (w\<lparr>wt_draw := wt_draw w + 1\<rparr>)")
    have ih: "e1 = None \<Longrightarrow> drop k rest \<noteq> [] \<Longrightarrow> control_records env st l (drop k rest) (n + 1) w1 = (e, m, w') \<Longrightarrow>
        wt_pending w' = wt_pending w1 \<and> wt_shaper w' = wt_shaper w1"
      using "1.IH" Some tn p by auto
    show ?thesis
      using "1.prems" ih Some tn p writer_prepare_keeps [OF p]
      by (subst (asm) control_records.simps) (auto split: option.splits if_splits)
  qed
qed

lemma packet_keeps:
  "prepare_control_packet_records env p st w = (e, m, w') \<Longrightarrow> wt_pending w' = wt_pending w \<and> wt_shaper w' = wt_shaper w"
  by (auto simp: prepare_control_packet_records_def dest: control_records_keeps writer_prepare_keeps split: option.splits prod.splits)

lemma packets_keeps:
  "prepare_packets env st i ps w = (e, w') \<Longrightarrow> wt_pending w' = wt_pending w \<and> wt_shaper w' = wt_shaper w"
proof (induction ps arbitrary: w)
  case (Cons p ps)
  obtain e1 n w1 where p: "prepare_control_packet_records env p st w = (e1, n, w1)"
    by (cases "prepare_control_packet_records env p st w")
  then show ?case
    using Cons packet_keeps [OF p] Cons.IH [of "note_records n w1"]
    by (cases e1) (auto simp: answer_def note_records_def)
qed simp

lemma control_request_keeps:
  "prepare_control_request env r w = (e, w') \<Longrightarrow> wt_pending w' = wt_pending w \<and> wt_shaper w' = wt_shaper w"
  by (auto simp: prepare_control_request_def elim!: then_do_cases dest: packets_keeps)

lemma take_settings_keeps:
  "take_settings r w = (r', w') \<Longrightarrow> wt_pending w' = wt_pending w \<and> wt_shaper w' = wt_shaper w \<and> wt_ops w' = wt_ops w"
  by (auto simp: take_settings_def split: option.splits)

lemma delay_arrivals_keeps:
  "delay_arrivals env b rs pinned deferred w = (e, pinned', deferred', w') \<Longrightarrow>
     wt_pending w' = wt_pending w \<and> wt_shaper w' = wt_shaper w"
proof (induction rs arbitrary: pinned deferred w)
  case (Cons r0 rs)
  obtain r w1 where t: "take_settings r0 w = (r, w1)" by (cases "take_settings r0 w")
  obtain e2 w2 where p: "then_do (prepare_control_request env r w1) (batch_flush env) = (e2, w2)"
    by (cases "then_do (prepare_control_request env r w1) (batch_flush env)")
  have "wt_pending w2 = wt_pending w1 \<and> wt_shaper w2 = wt_shaper w1"
    using p by (auto elim!: then_do_cases dest!: control_request_keeps batch_flush_keeps)
  then show ?case
    using Cons.prems Cons.IH [of pinned deferred w2] Cons.IH [of "pinned \<union> request_sids r" "deferred @ [r]" w1]
      take_settings_keeps [OF t] t p
    by (auto split: if_splits option.splits)
qed simp

text \<open>The stages of a record that was emitted without an error.\<close>

lemma emit_recordE:
  assumes "emit_record env bs p ds w = (None, ds', w')"
  obtains inline late w0 w1 w3 n where
    "n = record_take p (length (wt_pending w) - ds_pos ds)"
    "inline_fake_of p (ds_pos ds = 0 \<or> ds_pos ds \<in> set bs) = (inline, late)"
    "inline = None \<and> w0 = w \<or> (\<exists>m. inline = Some m \<and> writer_prepare env True (fake_packet m) PADDING_REQUEST_WIRE w = (None, w0))"
    "writer_prepare env False (take n (drop (ds_pos ds) (wt_pending w))) (sp_target_wire_len p) w0 = (None, w1)"
    "wt_pending w3 = wt_pending w1" "wt_shaper w3 = advance (wt_shaper w1)" "wt_ops w3 = wt_ops w1"
    "ds_pos ds' = ds_pos ds + n"
    "sp_delay p = 0 \<and> w' = w3 \<and> ds_pinned ds' = ds_pinned ds \<and> ds_deferred ds' = ds_deferred ds \<or>
     sp_delay p > 0 \<and> wait_shaping_delay env (ds_pos ds' \<in> set bs) (ds_pinned ds) (ds_deferred ds) w3 =
       (None, ds_pinned ds', ds_deferred ds', w')"
proof -
  let ?n = "record_take p (length (wt_pending w) - ds_pos ds)"
  obtain inline late where i: "inline_fake_of p (ds_pos ds = 0 \<or> ds_pos ds \<in> set bs) = (inline, late)"
    by (cases "inline_fake_of p (ds_pos ds = 0 \<or> ds_pos ds \<in> set bs)")
  let ?first = "case inline of None \<Rightarrow> (None, w) | Some m \<Rightarrow> writer_prepare env True (fake_packet m) PADDING_REQUEST_WIRE w"
  obtain w1 where w1: "then_do ?first (\<lambda>w0. writer_prepare env False (take ?n (drop (ds_pos ds) (wt_pending w0)))
      (sp_target_wire_len p) w0) = (None, w1)"
    using assms i unfolding emit_record_def Let_def by (auto split: prod.splits option.splits)
  then obtain w0 where w0: "?first = (None, w0)"
    "writer_prepare env False (take ?n (drop (ds_pos ds) (wt_pending w0))) (sp_target_wire_len p) w0 = (None, w1)"
    by (auto elim: then_do_cases)
  have first: "inline = None \<and> w0 = w \<or> (\<exists>m. inline = Some m \<and> writer_prepare env True (fake_packet m) PADDING_REQUEST_WIRE w = (None, w0))"
    using w0(1) by (auto split: option.splits)
  then have pend: "wt_pending w0 = wt_pending w" using writer_prepare_keeps by auto
  let ?w2 = "note_records (1 + (if inline = None then 0 else 1)) (w1\<lparr>wt_shaper := advance (wt_shaper w1)\<rparr>)"
  let ?fl = "if sp_quiet_gap p \<or> sp_delay p > 0 \<or> batch_is_full ?w2 then batch_flush env ?w2 else (None, ?w2)"
  obtain w3 where w3: "?fl = (None, w3)"
    using assms i w1 unfolding emit_record_def Let_def by (auto split: prod.splits option.splits if_splits)
  then have k3: "wt_pending w3 = wt_pending w1" "wt_shaper w3 = advance (wt_shaper w1)" "wt_ops w3 = wt_ops w1"
    using batch_flush_keeps [of env ?w2 None w3] by (auto simp: note_records_def split: if_splits)
  show thesis
  proof (rule that [OF refl i first w0(2) [unfolded pend] k3])
    show "ds_pos ds' = ds_pos ds + ?n"
      using assms i w1 w3 unfolding emit_record_def Let_def by (auto split: prod.splits option.splits if_splits)
    then show "sp_delay p = 0 \<and> w' = w3 \<and> ds_pinned ds' = ds_pinned ds \<and> ds_deferred ds' = ds_deferred ds \<or>
     sp_delay p > 0 \<and> wait_shaping_delay env (ds_pos ds' \<in> set bs) (ds_pinned ds) (ds_deferred ds) w3 =
       (None, ds_pinned ds', ds_deferred ds', w')"
      using assms i w1 w3 unfolding emit_record_def Let_def by (auto split: prod.splits option.splits if_splits)
  qed
qed

lemma emit_record_keeps:
  assumes "emit_record env bs p ds w = (None, ds', w')"
  shows "wt_pending w' = wt_pending w" "ds_pos ds' = ds_pos ds + record_take p (length (wt_pending w) - ds_pos ds)"
    "wt_shaper w' = advance (wt_shaper w)"
  using assms
  by (elim emit_recordE; auto simp: wait_shaping_delay_def dest!: writer_prepare_keeps delay_arrivals_keeps; fail)+

lemma writer_policy_keeps: "writer_policy env n w = Some (p, w') \<Longrightarrow> wt_pending w' = wt_pending w \<and> wt_ops w' = wt_ops w"
  by (auto simp: writer_policy_def split: option.splits)

lemma drain_policy_keeps: "drain_policy env sticky n w = Some (p, w') \<Longrightarrow> wt_pending w' = wt_pending w \<and> wt_ops w' = wt_ops w"
  by (auto simp: drain_policy_def dest: writer_policy_keeps split: if_splits)

lemma drive_progress:
  assumes "drain_policy env sticky (length (wt_pending w) - ds_pos ds) w = Some (p, w0)"
    and "emit_record env bs p ds w0 = (None, ds1, w1)" and "\<not> length (wt_pending w) \<le> ds_pos ds"
  shows "length (wt_pending w1) - ds_pos ds1 < length (wt_pending w) - ds_pos ds"
  using drain_policy_progress [OF assms(1)] drain_policy_keeps [OF assms(1)] emit_record_keeps [OF assms(2)] assms(3)
  by (simp add: record_take_def) linarith

text \<open>The loop of \<^verbatim>\<open>drive_shaper\<close> after its first record.\<close>

function drive_loop ::
  "writer_env \<Rightarrow> nat list \<Rightarrow> bool \<Rightarrow> drain_state \<Rightarrow> writer \<Rightarrow> writer_error option \<times> drain_state \<times> writer" where
  "drive_loop env boundaries sticky ds w =
     (if ds_pos ds \<ge> length (wt_pending w) then (None, ds, w)
      else case drain_policy env sticky (length (wt_pending w) - ds_pos ds) w of
        None \<Rightarrow> (Some SamplerFailed, ds, w)
      | Some (p, w0) \<Rightarrow>
          (case emit_record env boundaries p ds w0 of
             (Some e, ds1, w1) \<Rightarrow> (Some e, ds1, w1)
           | (None, ds1, w1) \<Rightarrow> drive_loop env boundaries sticky ds1 w1))"
  by pat_completeness auto
termination
  by (relation "measure (\<lambda>(env, bs, sticky, ds, w). length (wt_pending w) - ds_pos ds)") (auto intro: drive_progress [OF _ sym])

declare drive_loop.simps [simp del]

definition drive_shaper :: "writer_env \<Rightarrow> u32 set \<Rightarrow> writer \<Rightarrow> writer_error option \<times> drain_state \<times> writer" where
  "drive_shaper env pinned w =
     (let w0 = w\<lparr>wt_shaper := begin_drain (wt_shaper w)\<rparr>;
          ds0 = \<lparr>ds_pos = 0, ds_fakes = [], ds_pinned = pinned, ds_deferred = []\<rparr> in
      if wt_pending w0 = [] then (None, ds0, w0)
      else case writer_policy env (length (wt_pending w0)) w0 of
        None \<Rightarrow> (Some SamplerFailed, ds0, w0)
      | Some (p, w1) \<Rightarrow>
          let sticky = sp_allow_full_block p;
              boundaries = (if sticky then [] else frame_boundaries (wt_pending w1));
              ds1 = (if sticky then ds0 else ds0\<lparr>ds_pinned := pinned \<union> psh_sids (wt_pending w1)\<rparr>) in
          (case emit_record env boundaries p ds1 w1 of
             (Some e, ds2, w2) \<Rightarrow> (Some e, ds2, w2)
           | (None, ds2, w2) \<Rightarrow>
               (case drive_loop env boundaries sticky ds2 w2 of
                  (Some e, ds3, w3) \<Rightarrow> (Some e, ds3, w3)
                | (None, ds3, w3) \<Rightarrow> (None, ds3, w3\<lparr>wt_pending := []\<rparr>))))"

text \<open>\<^verbatim>\<open>drain_pending_and_respond\<close>: the deferred requests, or the error.\<close>

definition drain_pending_and_respond ::
  "writer_env \<Rightarrow> u32 set \<Rightarrow> writer \<Rightarrow> (writer_error + queued_request list) \<times> writer" where
  "drain_pending_and_respond env pinned w =
     (case drive_shaper env pinned w of
        (None, ds, w1) \<Rightarrow>
          let w2 = snd (prepare_fake_frames env (ds_fakes ds) w1) in
          (Inr (ds_deferred ds), w2\<lparr>wt_batch_responders := wt_batch_responders w2 @ wt_responders w2, wt_responders := []\<rparr>)
      | (Some e, ds, w1) \<Rightarrow>
          (Inl e, batch_fail ((answer False (wt_responders w1) w1)\<lparr>wt_responders := []\<rparr>)))"

text \<open>The two branches of \<^verbatim>\<open>queue_bulk_request\<close> differ only in who owns the buffer.\<close>

definition queue_bulk_request :: "queued_request \<Rightarrow> writer \<Rightarrow> writer" where
  "queue_bulk_request r w =
     (let w1 = w\<lparr>wt_pending := (if wt_pending w = [] \<and> length (wr_packets r) = 1 then hd (wr_packets r)
                               else wt_pending w @ concat (wr_packets r))\<rparr> in
      if wr_flush r = Auto then answer True [qr_id r] w1
      else w1\<lparr>wt_responders := wt_responders w1 @ [qr_id r]\<rparr>)"

definition flush_or_merge :: "writer_env \<Rightarrow> bool \<Rightarrow> writer \<Rightarrow> writer_result" where
  "flush_or_merge env more_queued w =
     (if batch_is_idle w then (None, w)
      else if more_queued \<and> \<not> batch_is_full w then (None, w)
      else batch_flush env w)"

section \<open>The loop of the task\<close>

text \<open>What wakes the task: a control request or a bulk request, each with the bulk requests that are
  already in their queue and with whether more is queued afterwards; or the request to close, with
  a request that was taken out at that moment.\<close>

datatype writer_event = ControlWrite queued_request "queued_request list" bool
  | BulkWrite queued_request "queued_request list" bool | CloseSeen "queued_request option"

definition run_control :: "writer_env \<Rightarrow> queued_request \<Rightarrow> queued_request list \<Rightarrow> bool \<Rightarrow> writer \<Rightarrow> writer_result" where
  "run_control env r0 bulk more_queued w =
     (let (r, w1) = take_settings r0 w;
          w2 = fold queue_bulk_request bulk w1;
          pinned = request_sids r;
          written =
            (if request_carries_stream_data r
             then (case drain_pending_and_respond env pinned (queue_bulk_request r w2) of
                     (Inl e, w3) \<Rightarrow> (Some e, w3)
                   | (Inr deferred, w3) \<Rightarrow> prepare_deferred_control_requests env deferred w3)
             else (case (if wt_pending w2 = [] then (Inr [], w2) else drain_pending_and_respond env pinned w2) of
                     (Inl e, w3) \<Rightarrow> (Some e, answer False [qr_id r] w3)
                   | (Inr deferred, w3) \<Rightarrow>
                       then_do (prepare_control_request env r w3) (prepare_deferred_control_requests env deferred)))
      in then_do written (flush_or_merge env more_queued))"

definition run_bulk :: "writer_env \<Rightarrow> queued_request \<Rightarrow> queued_request list \<Rightarrow> bool \<Rightarrow> writer \<Rightarrow> writer_result" where
  "run_bulk env r rs more_queued w =
     (let w1 = fold queue_bulk_request rs (queue_bulk_request r w);
          written =
            (if wt_pending w1 = [] then (None, w1)
             else case drain_pending_and_respond env {} w1 of
                    (Inl e, w2) \<Rightarrow> (Some e, w2)
                  | (Inr deferred, w2) \<Rightarrow> prepare_deferred_control_requests env deferred w2)
      in then_do written (flush_or_merge env more_queued))"

text \<open>After the loop: what is left of the backlog, the batch, and the GOAWAY (its packet is
  \<^verbatim>\<open>emit_h2_goaway\<close>, with the high-water mark of the session).\<close>

definition run_end :: "writer_env \<Rightarrow> bytes option \<Rightarrow> writer \<Rightarrow> writer" where
  "run_end env goaway w =
     (let w1 = (if wt_pending w = [] then w
                else let (_, _, w') = drive_shaper (env\<lparr>en_window := (\<lambda>_. [])\<rparr>) {} w
                     in w'\<lparr>wt_batch_responders := wt_batch_responders w' @ wt_responders w', wt_responders := []\<rparr>);
          w2 = snd (batch_flush env w1) in
      case goaway of
        None \<Rightarrow> w2
      | Some packet \<Rightarrow> snd (then_do (writer_prepare env True packet H2_GOAWAY_WIRE w2) (batch_flush env)))"

fun writer_run :: "writer_env \<Rightarrow> bytes option \<Rightarrow> writer_event list \<Rightarrow> writer \<Rightarrow> writer" where
  "writer_run env goaway [] w = w"
| "writer_run env goaway (ControlWrite r bulk more_queued # evs) w =
     (case run_control env r bulk more_queued w of
        (None, w1) \<Rightarrow> writer_run env goaway evs w1
      | (Some _, w1) \<Rightarrow> run_end env goaway w1)"
| "writer_run env goaway (BulkWrite r rs more_queued # evs) w =
     (case run_bulk env r rs more_queued w of
        (None, w1) \<Rightarrow> writer_run env goaway evs w1
      | (Some _, w1) \<Rightarrow> run_end env goaway w1)"
| "writer_run env goaway (CloseSeen r # evs) w =
     run_end env goaway
       (case r of
          None \<Rightarrow> w
        | Some q \<Rightarrow> answer False [qr_id q] ((answer False (wt_responders w) (batch_fail w))\<lparr>wt_responders := []\<rparr>))"

end
