(* ===== verification/Drain.thy ===== *)
theory Drain
  imports Writer
begin

text \<open>
  What the writer task guarantees while it drains the backlog (\<^verbatim>\<open>drive_shaper\<close> of
  \<^verbatim>\<open>crates/session/src/session.rs\<close>): the loop ends with the whole backlog written, and control
  records only appear between whole frames of the backlog.
\<close>

section \<open>A drain always ends\<close>

text \<open>What the surroundings must do for a drain to succeed: the AEAD is the one of the record layer, the
  socket takes what is flushed, and the rejection samplers find a value.\<close>

definition draws_return :: "flow_direction \<Rightarrow> control_draws \<Rightarrow> policy_draws \<Rightarrow> bool" where
  "draws_return dir c d \<longleftrightarrow> tn_sample (headers_sampler dir) (cd_control c) \<noteq> None \<and>
     tn_sample (data_record_sampler dir) (cd_lifecycle c) \<noteq> None \<and> tn_sample (data_record_sampler dir) (cd_chunk c) \<noteq> None \<and>
     (\<forall>any. tn_sample (data_record_sampler any) (dr_chunk d) \<noteq> None)"

definition env_works :: "writer_env \<Rightarrow> aead \<Rightarrow> bool" where
  "env_works env dec \<longleftrightarrow> aead_correct (en_enc env) dec \<and> aead_total (en_enc env) \<and> (\<forall>i. en_flush env i) \<and>
     (\<forall>i j. draws_return (en_direction env) (en_control env i) (en_policy env j))"

definition half_ok :: "writer \<Rightarrow> bool" where
  "half_ok w \<longleftrightarrow> length (wh_encrypt_buf (wt_half w)) = BLOCK_PLAINTEXT_SIZE"

definition data_payloads :: "record_op list \<Rightarrow> bytes list" where
  "data_payloads ops = map (\<lambda>(_, p, _). p) (filter (\<lambda>(is_control, _). \<not> is_control) ops)"

lemma data_payloads_append [simp]: "data_payloads (xs @ ys) = data_payloads xs @ data_payloads ys"
  by (simp add: data_payloads_def)

text \<open>The outcome of a stage: the data records it added, or that the nonces are used up.\<close>

definition outcome :: "writer_error option \<Rightarrow> writer \<Rightarrow> bytes list \<Rightarrow> writer \<Rightarrow> bool" where
  "outcome e w ps w' \<longleftrightarrow>
     (case e of
        None \<Rightarrow> half_ok w' \<and> data_payloads (wt_ops w') = data_payloads (wt_ops w) @ ps
      | Some x \<Rightarrow> x = SealFailed NoiseEncrypt \<and> wh_nonce (wt_half w') = - 1)"

lemma outcome_simps [simp]:
  "outcome None w ps w' \<longleftrightarrow> half_ok w' \<and> data_payloads (wt_ops w') = data_payloads (wt_ops w) @ ps"
  "outcome (Some x) w ps w' \<longleftrightarrow> x = SealFailed NoiseEncrypt \<and> wh_nonce (wt_half w') = - 1"
  by (simp_all add: outcome_def)

lemma seal_fails_exhausted:
  assumes "aead_total enc" "length p \<le> BLOCK_DATA_CAPACITY" "length (wh_encrypt_buf wh) = BLOCK_PLAINTEXT_SIZE"
    and "enc (wh_nonce wh) (op_block (c, p, t)) = None"
  shows "fst (prepare_record enc wh (c, p, t)) = Some NoiseEncrypt \<and> wh_nonce (snd (prepare_record enc wh (c, p, t))) = - 1"
proof -
  let ?tp = "target_plaintext_len p t"
  have tp: "length p + 3 \<le> ?tp" "?tp \<le> BLOCK_PLAINTEXT_SIZE"
    using assms(2) by (auto simp: target_plaintext_len_def frame_const_defs record_const_defs)
  have "length (op_block (c, p, t)) \<le> 65519"
    using length_op_block(2) [of "(c, p, t)"] assms(2) by (simp add: record_const_defs frame_const_defs)
  then have n: "wh_nonce wh = - 1" using assms(1,4) unfolding aead_total_def by blast
  have fb: "take ?tp (fill_block (wh_encrypt_buf wh) p ?tp) = block_bytes p ?tp"
    using fill_block_take(1) tp assms(3) by simp
  then show ?thesis
    using n tp assms(4) fb
    by (simp add: prepare_record_def prepare_control_record_def prepare_data_record_def encrypt_variable_block_def Let_def
        sender_write_message_def op_block_def frame_const_defs)
qed

lemma prepare_outcome:
  assumes "env_works env dec" "half_ok w" "length p \<le> data_record_capacity"
    and "writer_prepare env c p t w = (e, w')"
  shows "outcome e w (if c then [] else [p]) w'"
proof (cases "en_enc env (wh_nonce (wt_half w)) (op_block (c, p, t))")
  case None
  then show ?thesis
    using assms seal_fails_exhausted [of "en_enc env" p "wt_half w" c t]
    by (auto simp: env_works_def half_ok_def writer_prepare_def data_record_capacity_def split: prod.splits option.splits)
next
  case (Some ct)
  then have "length ct = length (op_block (c, p, t)) + AEAD_TAG_LEN"
    using assms(1) by (auto simp: env_works_def aead_correct_def)
  then show ?thesis
    using assms(2-4) prepare_record_ok [of "(c, p, t)" "wt_half w" "en_enc env" ct] Some
    by (auto simp: half_ok_def writer_prepare_def data_record_capacity_def data_payloads_def split: prod.splits option.splits)
qed

lemma flush_outcome:
  assumes "env_works env dec" "half_ok w" "batch_flush env w = (e, w')"
  shows "e = None" "half_ok w'"
  using assms by (auto simp: env_works_def batch_flush_def answer_def half_ok_def Let_def split: if_splits)

lemma control_sizes_upper: "next_control_size large cnt st dir u roll zs = Some n \<Longrightarrow> n \<le> 824"
  using control_size_next_range
  by (cases dir) (auto simp: next_control_size_def h2_opening_size_def wire_defs split: if_splits option.splits)

lemma control_slice_total:
  assumes "env_works env dec"
  shows "\<exists>t n. control_slice env st l rem w = Some (t, n) \<and> n \<le> data_record_capacity"
proof -
  let ?d = "en_control env (wt_draw w)" and ?dir = "en_direction env"
  have dr: "tn_sample (headers_sampler ?dir) (cd_control ?d) \<noteq> None" "tn_sample (data_record_sampler ?dir) (cd_lifecycle ?d) \<noteq> None"
    "tn_sample (data_record_sampler ?dir) (cd_chunk ?d) \<noteq> None"
    using assms by (auto simp: env_works_def draws_return_def)
  obtain v where "tn_sample (headers_sampler ?dir) (cd_control ?d) = Some v" using dr(1) by blast
  then have "\<exists>ct. control_size_next Transport ?dir (cd_u ?d) (cd_roll ?d) (cd_control ?d) = Some ct"
    by (simp add: control_size_next_def Let_def)
  then obtain ct where ct: "next_control_size (en_large env) (wh_control_frame_count (wt_half w)) st ?dir (cd_u ?d) (cd_roll ?d) (cd_control ?d) = Some ct"
    by (cases "if st = Handshake then h2_opening_size (en_large env) ?dir (wh_control_frame_count (wt_half w)) else None")
      (auto simp: next_control_size_def)
  obtain lp chunk where lp: "next_data_record_payload ?dir (cd_lifecycle ?d) = Some lp"
    and chunk: "next_data_record_payload ?dir (cd_chunk ?d) = Some chunk"
    using dr by (auto simp: next_data_record_payload_def)
  have "lp \<le> data_record_capacity" "chunk \<le> data_record_capacity" "ct - CONTROL_RECORD_MIN_OVERHEAD \<le> data_record_capacity"
    using data_record_payload_range [OF lp] data_record_payload_range [OF chunk] capacity_pos(3)
      control_sizes_upper [OF ct] by (auto simp: data_record_capacity_def record_const_defs frame_const_defs)
  then show ?thesis
    using lp chunk ct
    by (auto simp: control_slice_def Let_def data_record_wire_len_def frame_const_defs record_const_defs)
qed

lemma control_records_outcome:
  assumes "env_works env dec" "half_ok w" "control_records env st l rest n w = (e, m, w')"
  shows "outcome e w [] w'"
  using assms(2,3)
proof (induction "length rest" arbitrary: rest n w rule: less_induct)
  case less
  obtain t k where sl: "control_slice env st l (length rest) w = Some (t, k)" "k \<le> data_record_capacity"
    using control_slice_total [OF assms(1)] by blast
  let ?w = "w\<lparr>wt_draw := wt_draw w + 1\<rparr>"
  obtain e1 w1 where p: "writer_prepare env True (take k rest) t ?w = (e1, w1)"
    by (cases "writer_prepare env True (take k rest) t ?w")
  have o: "outcome e1 ?w [] w1"
    using prepare_outcome [OF assms(1) _ _ p] less.prems(1) sl(2) by (simp add: half_ok_def)
  have "drop k rest \<noteq> [] \<Longrightarrow> length (drop k rest) < length rest"
    using control_slice_progress [OF sl(1)] by fastforce
  then show ?case
    using less.hyps [of "drop k rest" w1 "n + 1"] less.prems(2) o sl(1) p
    unfolding control_records.simps [of env st l rest n w] by (cases e) (auto split: option.splits if_splits)
qed

lemma packet_outcome:
  assumes "env_works env dec" "half_ok w" "self_sized_padding_wire_len p = None"
    and "prepare_control_packet_records env p st w = (e, m, w')"
  shows "outcome e w [] w'"
  using assms control_records_outcome by (simp add: prepare_control_packet_records_def)

lemma packets_outcome:
  assumes "env_works env dec" "half_ok w" "list_all (\<lambda>p. self_sized_padding_wire_len p = None) ps"
    and "prepare_packets env st i ps w = (e, w')"
  shows "outcome e w [] w'"
  using assms(2-)
proof (induction ps arbitrary: w)
  case (Cons p ps)
  obtain e1 n w1 where p: "prepare_control_packet_records env p st w = (e1, n, w1)"
    by (cases "prepare_control_packet_records env p st w")
  have "outcome e1 w [] w1" using packet_outcome [OF assms(1) _ _ p] Cons.prems by simp
  then show ?case
    using Cons.prems Cons.IH [of "note_records n w1"] p
    by (cases e1; cases e) (auto simp: answer_def note_records_def half_ok_def)
qed (simp add: half_ok_def)

text \<open>A request that may pass holds no padding frame, so its packets are cut into sized slices.\<close>

lemma passing_packets:
  assumes "control_write_can_pass_through r pinned" "p \<in> set (wr_packets r)"
  shows "self_sized_padding_wire_len p = None"
proof (rule ccontr)
  assume "self_sized_padding_wire_len p \<noteq> None"
  then have "\<exists>s l tl. walk_frame_headers p = (CMD_PADDING, s, l) # tl"
    by (subst walk_frame_headers.simps) (auto simp: self_sized_padding_wire_len_def Let_def split: if_splits)
  then have "(CMD_PADDING, s, l) \<in> set (request_headers r) \<longrightarrow> CMD_PADDING \<in> {CMD_SYN, CMD_FIN, CMD_SETTINGS, CMD_SYNACK}" for s l
    using assms(1) by (auto simp: control_write_can_pass_through_def list_all_iff)
  moreover obtain s l where "(CMD_PADDING, s, l) \<in> set (request_headers r)"
    using \<open>\<exists>s l tl. walk_frame_headers p = (CMD_PADDING, s, l) # tl\<close> assms(2)
    by (fastforce simp: request_headers_def)
  ultimately show False by (simp add: cmd_defs)
qed

lemma control_request_outcome:
  assumes "env_works env dec" "half_ok w" "control_write_can_pass_through r pinned"
    and "prepare_control_request env r w = (e, w')"
  shows "outcome e w [] w'"
proof -
  have "list_all (\<lambda>p. self_sized_padding_wire_len p = None) (wr_packets r)"
    using passing_packets [OF assms(3)] by (simp add: list_all_iff)
  note o = packets_outcome [OF assms(1,2) this]
  show ?thesis
  proof (cases rule: then_do_cases [OF assms(4) [unfolded prepare_control_request_def]])
    case (1 w1)
    then show ?thesis using o [OF 1(1)] by (auto simp: half_ok_def)
  next
    case (2 x)
    then show ?thesis using o [OF 2(1)] by simp
  qed
qed

lemma delay_outcome:
  assumes "env_works env dec" "half_ok w" "delay_arrivals env b rs pinned deferred w = (e, pinned', deferred', w')"
  shows "outcome e w [] w'"
  using assms(2-)
proof (induction rs arbitrary: pinned deferred w)
  case (Cons r0 rs)
  obtain r w1 where t: "take_settings r0 w = (r, w1)" by (cases "take_settings r0 w")
  have w1: "half_ok w1" "wt_ops w1 = wt_ops w"
    using t Cons.prems(1) by (auto simp: take_settings_def half_ok_def split: option.splits)
  show ?case
  proof (cases "deferred = [] \<and> b \<and> control_write_can_pass_through r pinned")
    case True
    obtain e2 w2 where p: "then_do (prepare_control_request env r w1) (batch_flush env) = (e2, w2)"
      by (cases "then_do (prepare_control_request env r w1) (batch_flush env)")
    have "outcome e2 w1 [] w2"
    proof (cases rule: then_do_cases [OF p])
      case (1 wx)
      then have "outcome None w1 [] wx" using control_request_outcome [OF assms(1) w1(1)] True by blast
      then show ?thesis using flush_outcome [OF assms(1) _ 1(2)] batch_flush_keeps [OF 1(2)] by simp
    next
      case (2 x)
      then show ?thesis using control_request_outcome [OF assms(1) w1(1)] True by blast
    qed
    then show ?thesis
      using Cons.prems Cons.IH [of w2 pinned deferred] True t p w1(2) by (cases e2; cases e) auto
  next
    case False
    then show ?thesis
      using Cons.prems(2) Cons.IH [of w1 "pinned \<union> request_sids r" "deferred @ [r]"] t w1
      by (cases e) auto
  qed
qed (simp add: half_ok_def)

lemma record_take_bounds: "record_take p remaining \<le> remaining" "record_take p remaining \<le> data_record_capacity"
  by (simp_all add: record_take_def)

lemma fake_packet_small: "length (fake_packet m) \<le> data_record_capacity"
  by (simp add: fake_packet_def encode_padding_request_sized_def encode_padding_frame_sized_eq padding_junk_len_for_wire_def
      PADDING_REQUEST_WIRE_def wire_defs data_record_capacity_def record_const_defs frame_const_defs)

text \<open>The stages of a record, with every error.\<close>

lemma emit_stages:
  assumes "emit_record env bs p ds w = (e, ds', w')"
  obtains inline late e1 w1 where
    "inline_fake_of p (ds_pos ds = 0 \<or> ds_pos ds \<in> set bs) = (inline, late)"
    "then_do (case inline of None \<Rightarrow> (None, w) | Some m \<Rightarrow> writer_prepare env True (fake_packet m) PADDING_REQUEST_WIRE w)
       (\<lambda>w0. writer_prepare env False (take (record_take p (length (wt_pending w) - ds_pos ds)) (drop (ds_pos ds) (wt_pending w0)))
                (sp_target_wire_len p) w0) = (e1, w1)"
    "e1 \<noteq> None \<Longrightarrow> e = e1 \<and> w' = w1"
    "e1 = None \<Longrightarrow> \<exists>w2 e3 w3. wt_ops w2 = wt_ops w1 \<and> wt_half w2 = wt_half w1 \<and>
       ((e3, w3) = (None, w2) \<or> batch_flush env w2 = (e3, w3)) \<and> (e3 = None \<or> e = e3 \<and> w' = w3) \<and>
       (e3 \<noteq> None \<or> e = None \<and> w' = w3 \<or>
        (\<exists>pn df pn' df'. wait_shaping_delay env (ds_pos ds + record_take p (length (wt_pending w) - ds_pos ds) \<in> set bs) pn df w3
           = (e, pn', df', w')))"
proof -
  let ?n = "record_take p (length (wt_pending w) - ds_pos ds)"
  obtain inline late where i: "inline_fake_of p (ds_pos ds = 0 \<or> ds_pos ds \<in> set bs) = (inline, late)"
    by (cases "inline_fake_of p (ds_pos ds = 0 \<or> ds_pos ds \<in> set bs)")
  let ?first = "case inline of None \<Rightarrow> (None, w) | Some m \<Rightarrow> writer_prepare env True (fake_packet m) PADDING_REQUEST_WIRE w"
  let ?next = "\<lambda>w0. writer_prepare env False (take ?n (drop (ds_pos ds) (wt_pending w0))) (sp_target_wire_len p) w0"
  obtain e1 w1 where w1: "then_do ?first ?next = (e1, w1)" by (cases "then_do ?first ?next")
  define w2 where "w2 = note_records (1 + (if inline = None then 0 else 1)) (w1\<lparr>wt_shaper := advance (wt_shaper w1)\<rparr>)"
  define fl where "fl = (if sp_quiet_gap p \<or> sp_delay p > 0 \<or> batch_is_full w2 then batch_flush env w2 else (None, w2))"
  obtain e3 w3 where w3: "fl = (e3, w3)" by (cases fl)
  define ds1 where "ds1 = ds\<lparr>ds_pos := ds_pos ds + ?n, ds_fakes := ds_fakes ds @ (case late of None \<Rightarrow> [] | Some m \<Rightarrow> [m])\<rparr>"
  define ds2 where "ds2 = (case sp_fake p of
      Some m \<Rightarrow> if \<not> sp_quiet_gap p then ds1\<lparr>ds_fakes := ds_fakes ds1 @ [m]\<rparr> else ds1 | None \<Rightarrow> ds1)"
  have pos: "ds_pos ds2 = ds_pos ds + ?n" by (simp add: ds2_def ds1_def split: option.splits)
  have run: "emit_record env bs p ds w = (case e1 of Some x \<Rightarrow> (Some x, ds, w1) | None \<Rightarrow>
      (case e3 of Some x \<Rightarrow> (Some x, ds1, w3) | None \<Rightarrow>
        if sp_delay p > 0
        then (let (err, pinned, deferred, w4) =
                wait_shaping_delay env (ds_pos ds2 \<in> set bs) (ds_pinned ds2) (ds_deferred ds2) w3
              in (err, ds2\<lparr>ds_pinned := pinned, ds_deferred := deferred\<rparr>, w4))
        else (None, ds2, w3)))"
    unfolding emit_record_def Let_def i prod.case w1 w2_def [symmetric] fl_def [symmetric] w3 ds1_def [symmetric] ds2_def
    by (cases e1; cases e3) simp_all
  have w2: "wt_ops w2 = wt_ops w1" "wt_half w2 = wt_half w1" by (simp_all add: w2_def note_records_def)
  have w3': "(e3, w3) = (None, w2) \<or> batch_flush env w2 = (e3, w3)" using w3 by (auto simp: fl_def split: if_splits)
  have a: "e1 \<noteq> None \<Longrightarrow> e = e1 \<and> w' = w1" using assms run by auto
  have b: "e1 = None \<Longrightarrow> (e3 = None \<or> e = e3 \<and> w' = w3) \<and> (e3 \<noteq> None \<or> e = None \<and> w' = w3 \<or>
      (\<exists>pn df pn' df'. wait_shaping_delay env (ds_pos ds + ?n \<in> set bs) pn df w3 = (e, pn', df', w')))"
    using assms unfolding run pos by (cases e3) (auto simp: Let_def split: if_splits prod.splits)
  show thesis
    by (rule that [OF i w1 a], assumption) (intro exI [of _ w2] exI [of _ e3] exI [of _ w3] conjI w2 w3' b [THEN conjunct1] b [THEN conjunct2])
qed

lemma emit_outcome:
  assumes "env_works env dec" "half_ok w" "emit_record env bs p ds w = (e, ds', w')"
  shows "outcome e w [take (record_take p (length (wt_pending w) - ds_pos ds)) (drop (ds_pos ds) (wt_pending w))] w'"
  using assms(3)
proof (cases rule: emit_stages)
  case (1 inline late e1 w1)
  let ?n = "record_take p (length (wt_pending w) - ds_pos ds)"
  let ?first = "case inline of None \<Rightarrow> (None, w) | Some m \<Rightarrow> writer_prepare env True (fake_packet m) PADDING_REQUEST_WIRE w"
  have first: "outcome e0 w [] w0 \<and> wt_pending w0 = wt_pending w" if "?first = (e0, w0)" for e0 w0
    using that assms(2) prepare_outcome [OF assms(1,2) fake_packet_small] writer_prepare_keeps
    by (cases inline) fastforce+
  have o1: "outcome e1 w [take ?n (drop (ds_pos ds) (wt_pending w))] w1"
  proof (cases rule: then_do_cases [OF 1(2)])
    case (1 w0)
    have small: "length (take ?n (drop (ds_pos ds) (wt_pending w0))) \<le> data_record_capacity"
      using record_take_bounds [of p "length (wt_pending w) - ds_pos ds"] by simp
    show ?thesis
      using first [OF 1(1)] prepare_outcome [OF assms(1) _ small 1(2)] by (cases e1) auto
  next
    case (2 x)
    then show ?thesis using first [OF 2(1)] by simp
  qed
  show ?thesis
  proof (cases e1)
    case (Some x)
    then show ?thesis using 1(3) o1 by auto
  next
    case None
    obtain w2 e3 w3 where w2: "wt_ops w2 = wt_ops w1" "wt_half w2 = wt_half w1"
        "(e3, w3) = (None, w2) \<or> batch_flush env w2 = (e3, w3)" "e3 = None \<or> e = e3 \<and> w' = w3"
        "e3 \<noteq> None \<or> e = None \<and> w' = w3 \<or>
          (\<exists>pn df pn' df'. wait_shaping_delay env (ds_pos ds + ?n \<in> set bs) pn df w3 = (e, pn', df', w'))"
      using 1(4) [OF None] by metis
    have h2: "half_ok w2" using o1 None w2(2) by (simp add: half_ok_def)
    have k: "e3 = None" "half_ok w3" "wt_ops w3 = wt_ops w1"
      using w2(1,3) h2 flush_outcome [OF assms(1) h2, of e3 w3] batch_flush_keeps [of env w2 e3 w3] by auto
    have d: "outcome e' w3 [] w'" if "wait_shaping_delay env b pn df w3 = (e', pn', df', w')" for b pn df pn' df' e'
      using delay_outcome [OF assms(1) _ that [unfolded wait_shaping_delay_def]] k(2) by (cases e') (auto simp: half_ok_def)
    have "e = None \<and> w' = w3 \<or> outcome e w3 [] w'" using w2(5) k(1) d by blast
    then show ?thesis using o1 None k by (cases e) auto
  qed
qed

lemma policy_total:
  assumes "shaper_ok s" "\<forall>any. tn_sample (data_record_sampler any) (dr_chunk dr) \<noteq> None"
  shows "\<exists>p s'. next_data_policy dr n s = Some (p, s')"
proof -
  have rule: "gen_range (sr_len_lo r) (sr_len_hi r) x \<noteq> None" if "r \<in> set (ts_script s)" for r x
    using that assms(1) by (auto simp: shaper_ok_def window_ok_def gen_range_def list_all_iff)
  have "script_policy dr data_record_capacity s \<noteq> None" if "ts_script s \<noteq> []"
    using that rule [OF nth_mem, of "ts_packet_seq s mod length (ts_script s)"]
    by (auto simp: script_policy_def Let_def split: option.splits)
  moreover have "interactive_policy dr s \<noteq> None"
    using assms(2) by (simp add: interactive_policy_def next_data_record_payload_def Let_def)
  moreover have "gen_range FIRST_RECORD_PAYLOAD_LO FIRST_RECORD_PAYLOAD_HI x \<noteq> None" for x
    by (simp add: gen_range_def wire_values)
  ultimately have "next_data_policy dr n s \<noteq> None"
    unfolding next_data_policy_def Let_def by (auto simp del: not_None_eq split del: if_split split: if_splits)
  then show ?thesis by (metis not_Some_eq prod.exhaust)
qed

lemma drain_policy_total:
  assumes "env_works env dec" "half_ok w" "shaper_ok (wt_shaper w)"
  obtains p w' where "drain_policy env sticky n w = Some (p, w')" "half_ok w'" "shaper_ok (wt_shaper w')"
    "wt_pending w' = wt_pending w" "wt_ops w' = wt_ops w"
proof -
  obtain p s' where p: "next_data_policy (en_policy env (wt_policy w)) n (wt_shaper w) = Some (p, s')"
    using policy_total [OF assms(3)] assms(1) by (force simp: env_works_def draws_return_def)
  have "ts_script s' = ts_script (wt_shaper w)" using p by (cases rule: policy_kinds) auto
  then show thesis
    using that assms(2,3) p
    by (cases sticky) (auto simp: drain_policy_def writer_policy_def half_ok_def shaper_ok_def)
qed

lemma emit_step:
  assumes "env_works env dec" "half_ok w" "shaper_ok (wt_shaper w)" "drain_policy env sticky (length (wt_pending w) - ds_pos ds) w = Some (p, w0)"
    and "half_ok w0" "shaper_ok (wt_shaper w0)" "ds_pos ds < length (wt_pending w)" "emit_record env bs p ds w0 = (None, ds', w')"
  shows "half_ok w'" "shaper_ok (wt_shaper w')" "wt_pending w' = wt_pending w" "ds_pos ds < ds_pos ds'"
    "ds_pos ds' \<le> length (wt_pending w)"
    "data_payloads (wt_ops w') = data_payloads (wt_ops w) @ [take (ds_pos ds' - ds_pos ds) (drop (ds_pos ds) (wt_pending w))]"
proof -
  note keeps = emit_record_keeps [OF assms(8)] drain_policy_keeps [OF assms(4)]
  show "half_ok w'" "data_payloads (wt_ops w') = data_payloads (wt_ops w) @ [take (ds_pos ds' - ds_pos ds) (drop (ds_pos ds) (wt_pending w))]"
    using emit_outcome [OF assms(1,5,8)] keeps by auto
  show "shaper_ok (wt_shaper w')" using assms(6) keeps(3) by (simp add: advance_def shaper_ok_def)
  show "wt_pending w' = wt_pending w" "ds_pos ds < ds_pos ds'" "ds_pos ds' \<le> length (wt_pending w)"
    using keeps drain_policy_progress [OF assms(4)] assms(7) record_take_bounds(1) [of p "length (wt_pending w) - ds_pos ds"] by auto
qed

lemma loop_outcome:
  assumes "env_works env dec" "half_ok w" "shaper_ok (wt_shaper w)" "ds_pos ds \<le> length (wt_pending w)"
    and "drive_loop env bs sticky ds w = (e, ds', w')"
  shows "\<exists>ps. outcome e w ps w' \<and> (e = None \<longrightarrow> concat ps = drop (ds_pos ds) (wt_pending w) \<and> [] \<notin> set ps)"
  using assms(2-)
proof (induction "length (wt_pending w) - ds_pos ds" arbitrary: ds w rule: less_induct)
  case less
  show ?case
  proof (cases "ds_pos ds < length (wt_pending w)")
    case False
    then show ?thesis
      using less.prems by (subst (asm) drive_loop.simps) (auto intro: exI [of _ "[]"])
  next
    case True
    let ?rem = "length (wt_pending w) - ds_pos ds"
    obtain p w0 where p: "drain_policy env sticky ?rem w = Some (p, w0)" "half_ok w0" "shaper_ok (wt_shaper w0)"
      using drain_policy_total [OF assms(1) less.prems(1,2)] by metis
    obtain e1 ds1 w1 where em: "emit_record env bs p ds w0 = (e1, ds1, w1)" by (cases "emit_record env bs p ds w0")
    have run: "drive_loop env bs sticky ds w = (case e1 of None \<Rightarrow> drive_loop env bs sticky ds1 w1 | Some x \<Rightarrow> (Some x, ds1, w1))"
      using True p em by (subst drive_loop.simps) (auto split: option.splits)
    show ?thesis
    proof (cases e1)
      case (Some x)
      then show ?thesis using emit_outcome [OF assms(1) p(2) em] run less.prems(4) by auto
    next
      case None
      note st = emit_step [OF assms(1) less.prems(1,2) p True em [unfolded None]]
      let ?q = "take (ds_pos ds1 - ds_pos ds) (drop (ds_pos ds) (wt_pending w))"
      have "drive_loop env bs sticky ds1 w1 = (e, ds', w')" using run None less.prems(4) by simp
      then obtain ps where ps: "outcome e w1 ps w'" "e = None \<longrightarrow> concat ps = drop (ds_pos ds1) (wt_pending w) \<and> [] \<notin> set ps"
        using less.hyps [of w1 ds1] st True diff_less_mono2 [of "ds_pos ds" "ds_pos ds1" "length (wt_pending w)"] by auto
      have "?q @ drop (ds_pos ds1) (wt_pending w) = drop (ds_pos ds) (wt_pending w)"
        using append_take_drop_id [of "ds_pos ds1 - ds_pos ds" "drop (ds_pos ds) (wt_pending w)"] st(4) by simp
      moreover have "?q \<noteq> []" using st(4) True by simp
      ultimately show ?thesis
        using ps st(6) by (intro exI [of _ "?q # ps"]) (cases e; auto)
    qed
  qed
qed

lemma drive_outcome:
  assumes "env_works env dec" "half_ok w" "shaper_ok (wt_shaper w)"
  obtains e ds w' ps where "drive_shaper env pinned w = (e, ds, w')" "outcome e w ps w'"
    "e = None \<longrightarrow> wt_pending w' = [] \<and> concat ps = wt_pending w \<and> [] \<notin> set ps"
proof (cases "wt_pending w = []")
  case True
  then show thesis using that [of None _ _ "[]"] assms(2) by (simp add: drive_shaper_def Let_def half_ok_def)
next
  case False
  let ?w0 = "w\<lparr>wt_shaper := begin_drain (wt_shaper w)\<rparr>"
  let ?ds0 = "\<lparr>ds_pos = 0, ds_fakes = [], ds_pinned = pinned, ds_deferred = []\<rparr>"
  have w0: "half_ok ?w0" "shaper_ok (wt_shaper ?w0)" using assms by (simp_all add: half_ok_def shaper_ok_def begin_drain_def)
  obtain p w1 where p: "drain_policy env False (length (wt_pending w)) ?w0 = Some (p, w1)" "half_ok w1" "shaper_ok (wt_shaper w1)"
    "wt_pending w1 = wt_pending w" "wt_ops w1 = wt_ops w"
    using drain_policy_total [OF assms(1) w0, of False "length (wt_pending w)"] by auto
  define bs where "bs = (if sp_allow_full_block p then [] else frame_boundaries (wt_pending w1))"
  define ds1 where "ds1 = (if sp_allow_full_block p then ?ds0 else ?ds0\<lparr>ds_pinned := pinned \<union> psh_sids (wt_pending w1)\<rparr>)"
  have pos: "ds_pos ds1 = 0" by (simp add: ds1_def)
  obtain e2 ds2 w2 where em: "emit_record env bs p ds1 w1 = (e2, ds2, w2)" by (cases "emit_record env bs p ds1 w1")
  obtain e3 ds3 w3 where lp: "drive_loop env bs (sp_allow_full_block p) ds2 w2 = (e3, ds3, w3)"
    by (cases "drive_loop env bs (sp_allow_full_block p) ds2 w2")
  have run: "drive_shaper env pinned w = (case e2 of Some x \<Rightarrow> (Some x, ds2, w2) | None \<Rightarrow>
      (case e3 of Some x \<Rightarrow> (Some x, ds3, w3) | None \<Rightarrow> (None, ds3, w3\<lparr>wt_pending := []\<rparr>)))"
    using False p(1) em lp unfolding drive_shaper_def Let_def bs_def ds1_def drain_policy_def
    by (auto split: option.splits)
  show thesis
  proof (cases e2)
    case (Some x)
    then show thesis using that [of "Some x" ds2 w2 "[]"] run emit_outcome [OF assms(1) p(2) em] by simp
  next
    case None
    have pol: "drain_policy env False (length (wt_pending ?w0) - ds_pos ds1) ?w0 = Some (p, w1)" using p(1) pos by simp
    note st = emit_step [OF assms(1) w0 pol p(2,3) _ em [unfolded None]]
    have st': "half_ok w2" "shaper_ok (wt_shaper w2)" "wt_pending w2 = wt_pending w" "0 < ds_pos ds2"
      "ds_pos ds2 \<le> length (wt_pending w)"
      "data_payloads (wt_ops w2) = data_payloads (wt_ops w) @ [take (ds_pos ds2) (wt_pending w)]"
      using st False pos by auto
    obtain ps where ps: "outcome e3 w2 ps w3" "e3 = None \<longrightarrow> concat ps = drop (ds_pos ds2) (wt_pending w) \<and> [] \<notin> set ps"
      using loop_outcome [OF assms(1) st'(1,2) _ lp] st' by auto
    show thesis
    proof (cases e3)
      case (Some x)
      then show thesis using that [of "Some x" ds3 w3 "[]"] run None ps(1) by simp
    next
      case none3: None
      show thesis
        by (rule that [of None ds3 "w3\<lparr>wt_pending := []\<rparr>" "take (ds_pos ds2) (wt_pending w) # ps"])
          (use run None none3 ps st' False in \<open>auto simp: half_ok_def\<close>)
    qed
  qed
qed

section \<open>Control records keep off the frames\<close>

text \<open>Every control record of a run stands at an offset of the data stream that is in \<^term>\<open>B\<close>.\<close>

fun at_cuts :: "nat set \<Rightarrow> nat \<Rightarrow> record_op list \<Rightarrow> bool" where
  "at_cuts B pos [] = True"
| "at_cuts B pos ((is_control, p, t) # ops) =
     (if is_control then pos \<in> B \<and> at_cuts B pos ops else at_cuts B (pos + length p) ops)"

lemma data_payloads_simps [simp]:
  "data_payloads [] = []"
  "data_payloads ((c, p, t) # ops) = (if c then data_payloads ops else p # data_payloads ops)"
  by (simp_all add: data_payloads_def)

lemma at_cuts_append: "at_cuts B pos (xs @ ys) \<longleftrightarrow>
    at_cuts B pos xs \<and> at_cuts B (pos + length (concat (data_payloads xs))) ys"
  by (induction B pos xs rule: at_cuts.induct) (simp_all add: add.assoc)

lemma at_cuts_control: "list_all fst qs \<Longrightarrow> qs = [] \<or> pos \<in> B \<Longrightarrow> at_cuts B pos qs \<and> data_payloads qs = []"
  by (induction qs) auto

text \<open>The records that a stage adds, all of them control records.\<close>

definition adds_control :: "writer \<Rightarrow> writer \<Rightarrow> bool" where
  "adds_control w w' \<longleftrightarrow> (\<exists>qs. wt_ops w' = wt_ops w @ qs \<and> list_all fst qs)"

lemma adds_control_refl [simp]: "wt_ops w' = wt_ops w \<Longrightarrow> adds_control w w'"
  by (simp add: adds_control_def)

lemma adds_control_trans: "adds_control w w1 \<Longrightarrow> adds_control w1 w2 \<Longrightarrow> adds_control w w2"
  unfolding adds_control_def by fastforce

lemma adds_control_cong: "adds_control w w' \<Longrightarrow> wt_ops v = wt_ops w \<Longrightarrow> wt_ops v' = wt_ops w' \<Longrightarrow> adds_control v v'"
  by (simp add: adds_control_def)

lemma prepare_adds: "writer_prepare env c p t w = (e, w') \<Longrightarrow>
    wt_ops w' = wt_ops w @ (if e = None then [(c, p, t)] else [])"
  by (auto simp: writer_prepare_def split: prod.splits option.splits)

lemma prepare_adds_control: "writer_prepare env True p t w = (e, w') \<Longrightarrow> adds_control w w'"
  by (auto simp: adds_control_def dest!: prepare_adds)

lemma control_records_adds: "control_records env st l rest n w = (e, m, w') \<Longrightarrow> adds_control w w'"
proof (induction env st l rest n w rule: control_records.induct)
  case (1 env st l rest n w)
  show ?case
  proof (cases "control_slice env st l (length rest) w")
    case None
    then show ?thesis using "1.prems" by (subst (asm) control_records.simps) auto
  next
    case (Some tn)
    obtain t k where tn: "tn = (t, k)" by (cases tn)
    let ?w = "w\<lparr>wt_draw := wt_draw w + 1\<rparr>"
    obtain e1 w1 where p: "writer_prepare env True (take k rest) t ?w = (e1, w1)"
      by (cases "writer_prepare env True (take k rest) t ?w")
    have a: "adds_control w w1" using prepare_adds_control [OF p] by (rule adds_control_cong) simp_all
    have "e1 = None \<Longrightarrow> drop k rest \<noteq> [] \<Longrightarrow> control_records env st l (drop k rest) (n + 1) w1 = (e, m, w') \<Longrightarrow> adds_control w w'"
      using "1.IH" Some tn p adds_control_trans [OF a] by auto
    then show ?thesis
      using "1.prems" Some tn p a unfolding control_records.simps [of env st l rest n w] by (auto split: option.splits if_splits)
  qed
qed

lemma packet_adds: "prepare_control_packet_records env p st w = (e, m, w') \<Longrightarrow> adds_control w w'"
  by (auto simp: prepare_control_packet_records_def dest: control_records_adds prepare_adds_control split: option.splits prod.splits)

lemma packets_adds: "prepare_packets env st i ps w = (e, w') \<Longrightarrow> adds_control w w'"
proof (induction ps arbitrary: w)
  case (Cons p ps)
  obtain e1 n w1 where p: "prepare_control_packet_records env p st w = (e1, n, w1)"
    by (cases "prepare_control_packet_records env p st w")
  have a: "adds_control w w1" by (rule packet_adds [OF p])
  show ?case
  proof (cases e1)
    case None
    then have "adds_control (note_records n w1) w'" using Cons p by simp
    moreover have "adds_control w (note_records n w1)" using a by (rule adds_control_cong) (simp_all add: note_records_def)
    ultimately show ?thesis using adds_control_trans by blast
  next
    case (Some x)
    then have "wt_ops w' = wt_ops w1" using Cons.prems p by (auto simp: answer_def)
    then show ?thesis using a by (rule adds_control_cong [rotated 2]) simp
  qed
qed simp

lemma control_request_adds: "prepare_control_request env r w = (e, w') \<Longrightarrow> adds_control w w'"
  unfolding prepare_control_request_def
  by (erule then_do_cases) (auto intro: adds_control_cong [OF packets_adds])

lemma delay_adds:
  assumes "delay_arrivals env b rs pinned deferred w = (e, pinned', deferred', w')"
  shows "adds_control w w' \<and> (b \<or> wt_ops w' = wt_ops w)"
  using assms
proof (induction rs arbitrary: pinned deferred w)
  case (Cons r0 rs)
  obtain r w1 where t: "take_settings r0 w = (r, w1)" by (cases "take_settings r0 w")
  note w1 = take_settings_keeps [OF t]
  show ?case
  proof (cases "deferred = [] \<and> b \<and> control_write_can_pass_through r pinned")
    case True
    obtain e2 w2 where p: "then_do (prepare_control_request env r w1) (batch_flush env) = (e2, w2)"
      by (cases "then_do (prepare_control_request env r w1) (batch_flush env)")
    then have "adds_control w1 w2"
      by (rule then_do_cases) (auto intro: adds_control_cong [OF control_request_adds] dest: batch_flush_keeps)
    then have a: "adds_control w w2" by (rule adds_control_cong) (use w1 in simp_all)
    then show ?thesis
      using Cons.prems Cons.IH [of pinned deferred w2] True t p adds_control_trans [OF a] by (cases e2) auto
  next
    case False
    then have "adds_control w1 w' \<and> (b \<or> wt_ops w' = wt_ops w1)"
      using Cons.prems Cons.IH [of "pinned \<union> request_sids r" "deferred @ [r]" w1] t by auto
    then show ?thesis using w1 adds_control_cong [of w1 w' w w'] by auto
  qed
qed simp

lemma emit_cuts:
  assumes "emit_record env bs p ds w = (e, ds', w')" and quiet: "sp_quiet_gap p \<Longrightarrow> ds_pos ds = 0"
  shows "\<exists>qs m. wt_ops w' = wt_ops w @ qs \<and> at_cuts (insert 0 (set bs)) (ds_pos ds) qs \<and>
    concat (data_payloads qs) = take m (drop (ds_pos ds) (wt_pending w)) \<and> (e = None \<longrightarrow> m = ds_pos ds' - ds_pos ds)"
  using assms(1)
proof (cases rule: emit_stages)
  case (1 inline late e1 w1)
  let ?n = "record_take p (length (wt_pending w) - ds_pos ds)" and ?B = "insert 0 (set bs)" and ?pos = "ds_pos ds"
  let ?data = "take ?n (drop ?pos (wt_pending w))"
  let ?first = "case inline of None \<Rightarrow> (None, w) | Some m \<Rightarrow> writer_prepare env True (fake_packet m) PADDING_REQUEST_WIRE w"
  have len: "length ?data = ?n" using record_take_bounds(1) [of p "length (wt_pending w) - ?pos"] by simp
  have at: "inline \<noteq> None \<Longrightarrow> ?pos \<in> ?B"
    using 1(1) quiet by (auto simp: inline_fake_of_def Let_def split: option.splits if_splits)
  have first: "\<exists>qs. wt_ops w0 = wt_ops w @ qs \<and> at_cuts ?B ?pos qs \<and> data_payloads qs = [] \<and> wt_pending w0 = wt_pending w"
    if "?first = (e0, w0)" for e0 w0
  proof (cases inline)
    case (Some m)
    then show ?thesis using that at prepare_adds [of env True] writer_prepare_keeps by fastforce
  qed (use that in simp)
  have one: "\<exists>qs. wt_ops w1 = wt_ops w @ qs \<and> at_cuts ?B ?pos qs \<and> data_payloads qs = (if e1 = None then [?data] else [])"
  proof (cases rule: then_do_cases [OF 1(2)])
    case (1 w0)
    obtain qs where "wt_ops w0 = wt_ops w @ qs" "at_cuts ?B ?pos qs" "data_payloads qs = []" "wt_pending w0 = wt_pending w"
      using first [OF 1(1)] by blast
    then show ?thesis
      using prepare_adds [OF 1(2)] by (cases e1) (auto simp: at_cuts_append)
  next
    case (2 x)
    then show ?thesis using first [OF 2(1)] by auto
  qed
  show ?thesis
  proof (cases e1)
    case (Some x)
    then show ?thesis using 1(3) one by (force intro: exI [of _ 0])
  next
    case None
    obtain w2 e3 w3 where w2: "wt_ops w2 = wt_ops w1" "(e3, w3) = (None, w2) \<or> batch_flush env w2 = (e3, w3)"
        "e3 = None \<or> e = e3 \<and> w' = w3"
        "e3 \<noteq> None \<or> e = None \<and> w' = w3 \<or>
          (\<exists>pn df pn' df'. wait_shaping_delay env (?pos + ?n \<in> set bs) pn df w3 = (e, pn', df', w'))"
      using 1(4) [OF None] by metis
    have w3: "wt_ops w3 = wt_ops w1" using w2(1,2) batch_flush_keeps [of env w2 e3 w3] by auto
    have "wt_ops w' = wt_ops w3 \<or> adds_control w3 w' \<and> (?pos + ?n \<in> set bs \<or> wt_ops w' = wt_ops w3)"
      using w2(3,4) delay_adds adds_control_cong unfolding wait_shaping_delay_def by fastforce
    then obtain rs where rs: "wt_ops w' = wt_ops w1 @ rs" "list_all fst rs" "rs = [] \<or> ?pos + ?n \<in> ?B"
      using w3 by (auto simp: adds_control_def)
    obtain qs where qs: "wt_ops w1 = wt_ops w @ qs" "at_cuts ?B ?pos qs" "data_payloads qs = [?data]"
      using one None by auto
    have "at_cuts ?B (?pos + ?n) rs" "data_payloads rs = []" using at_cuts_control [OF rs(2,3)] by simp_all
    then have "wt_ops w' = wt_ops w @ (qs @ rs)" "at_cuts ?B ?pos (qs @ rs)" "concat (data_payloads (qs @ rs)) = ?data"
      using rs(1) qs len by (simp_all add: at_cuts_append)
    moreover have "e = None \<longrightarrow> ?n = ds_pos ds' - ?pos" using emit_record_keeps(2) assms(1) by auto
    ultimately show ?thesis by blast
  qed
qed

text \<open>A quiet gap is only ordered for the first record of a connection.\<close>

lemma release_quiet: "release_due_fakes q s = (p, s') \<Longrightarrow> sp_quiet_gap p = sp_quiet_gap q \<and> ts_packet_seq s' = ts_packet_seq s"
  using release_due_sel(5,8) [of q s] by simp

lemma policy_quiet:
  assumes "next_data_policy dr n s = Some (p, s')"
  shows "sp_quiet_gap p \<Longrightarrow> ts_packet_seq s = 0" "ts_packet_seq s' = ts_packet_seq s"
  using assms
  by (auto simp: next_data_policy_def interactive_policy_def script_policy_def Let_def dest!: release_quiet split: if_splits option.splits)

lemma drain_policy_quiet:
  assumes "drain_policy env sticky n w = Some (p, w')"
  shows "sp_quiet_gap p \<Longrightarrow> ts_packet_seq (wt_shaper w) = 0" "ts_packet_seq (wt_shaper w') = ts_packet_seq (wt_shaper w)"
  using assms by (auto simp: drain_policy_def writer_policy_def sticky_policy_def Let_def dest: policy_quiet split: if_splits option.splits)

lemma advance_pos: "0 < ts_packet_seq (advance s)"
  by (simp add: advance_def)

lemma cuts_join:
  assumes "at_cuts B pos qs" "concat (data_payloads qs) = take (pos1 - pos) (drop pos pend)" "pos \<le> pos1" "pos1 \<le> length pend"
    and "at_cuts B pos1 rs" "concat (data_payloads rs) = take m (drop pos1 pend)"
  shows "at_cuts B pos (qs @ rs) \<and> concat (data_payloads (qs @ rs)) = take (pos1 - pos + m) (drop pos pend)"
proof -
  have "take (pos1 - pos + m) (drop pos pend) = take (pos1 - pos) (drop pos pend) @ take m (drop pos1 pend)"
    by (subst take_add) (use assms(3) in simp)
  then show ?thesis using assms by (simp only: at_cuts_append) simp
qed

lemma loop_cuts:
  assumes "ds_pos ds \<le> length (wt_pending w)" "0 < ts_packet_seq (wt_shaper w)" "drive_loop env bs sticky ds w = (e, ds', w')"
  shows "\<exists>qs m. wt_ops w' = wt_ops w @ qs \<and> at_cuts (insert 0 (set bs)) (ds_pos ds) qs \<and>
    concat (data_payloads qs) = take m (drop (ds_pos ds) (wt_pending w))"
  using assms
proof (induction "length (wt_pending w) - ds_pos ds" arbitrary: ds w rule: less_induct)
  case less
  let ?rem = "length (wt_pending w) - ds_pos ds"
  have nothing: ?case if "wt_ops w' = wt_ops w"
    using that by (intro exI [of _ "[]"] exI [of _ 0]) simp
  show ?case
  proof (cases "ds_pos ds < length (wt_pending w) \<and> drain_policy env sticky ?rem w \<noteq> None")
    case False
    then have "length (wt_pending w) \<le> ds_pos ds \<or> drain_policy env sticky ?rem w = None" by auto
    then have "wt_ops w' = wt_ops w"
      using less.prems(3) by (subst (asm) drive_loop.simps) (auto split: if_splits)
    then show ?thesis using nothing by simp
  next
    case True
    then obtain p w0 where p: "drain_policy env sticky ?rem w = Some (p, w0)" by auto
    note keeps = drain_policy_keeps [OF p]
    obtain e1 ds1 w1 where em: "emit_record env bs p ds w0 = (e1, ds1, w1)" by (cases "emit_record env bs p ds w0")
    have run: "drive_loop env bs sticky ds w = (case e1 of None \<Rightarrow> drive_loop env bs sticky ds1 w1 | Some x \<Rightarrow> (Some x, ds1, w1))"
      using True p em by (subst drive_loop.simps) (auto split: option.splits)
    have "\<not> sp_quiet_gap p" using drain_policy_quiet(1) [OF p] less.prems(2) by auto
    then obtain qs m where qs: "wt_ops w1 = wt_ops w @ qs" "at_cuts (insert 0 (set bs)) (ds_pos ds) qs"
        "concat (data_payloads qs) = take m (drop (ds_pos ds) (wt_pending w))" "e1 = None \<longrightarrow> m = ds_pos ds1 - ds_pos ds"
      using emit_cuts [OF em] keeps by auto
    show ?thesis
    proof (cases e1)
      case (Some x)
      then show ?thesis using qs run less.prems(3) by auto
    next
      case None
      note em = em [unfolded None]
      have pos: "ds_pos ds < ds_pos ds1" "ds_pos ds1 \<le> length (wt_pending w)" "wt_pending w1 = wt_pending w"
        using emit_record_keeps [OF em] keeps drain_policy_progress [OF p] True record_take_bounds(1) [of p ?rem] by auto
      have "0 < ts_packet_seq (wt_shaper w1)" using emit_record_keeps(3) [OF em] advance_pos by simp
      then obtain rs k where rs: "wt_ops w' = wt_ops w1 @ rs" "at_cuts (insert 0 (set bs)) (ds_pos ds1) rs"
          "concat (data_payloads rs) = take k (drop (ds_pos ds1) (wt_pending w))"
        using less.hyps [of w1 ds1] less.prems(3) run None pos diff_less_mono2 [of "ds_pos ds" "ds_pos ds1" "length (wt_pending w)"] True
        by auto
      then show ?thesis
        using cuts_join [OF qs(2) _ _ pos(2) rs(2,3)] qs None pos(1) by (metis append.assoc less_imp_le)
    qed
  qed
qed

lemma drive_cuts:
  assumes "drive_shaper env pinned w = (e, ds, w')"
  shows "\<exists>qs m. wt_ops w' = wt_ops w @ qs \<and> at_cuts (insert 0 (set (frame_boundaries (wt_pending w)))) 0 qs \<and>
    concat (data_payloads qs) = take m (wt_pending w)"
proof -
  let ?w0 = "w\<lparr>wt_shaper := begin_drain (wt_shaper w)\<rparr>"
  let ?ds0 = "\<lparr>ds_pos = 0, ds_fakes = [], ds_pinned = pinned, ds_deferred = []\<rparr>"
  let ?B = "insert 0 (set (frame_boundaries (wt_pending w)))"
  have nothing: ?thesis if "wt_ops w' = wt_ops w"
    using that by (intro exI [of _ "[]"] exI [of _ 0]) simp
  show ?thesis
  proof (cases "wt_pending w \<noteq> [] \<and> drain_policy env False (length (wt_pending w)) ?w0 \<noteq> None")
    case False
    then have "wt_pending w = [] \<or> writer_policy env (length (wt_pending w)) ?w0 = None" by (auto simp: drain_policy_def)
    then have "wt_ops w' = wt_ops w" using assms by (auto simp: drive_shaper_def Let_def split: if_splits)
    then show ?thesis using nothing by simp
  next
    case True
    then obtain p w1 where p: "drain_policy env False (length (wt_pending w)) ?w0 = Some (p, w1)" by auto
    note keeps = drain_policy_keeps [OF p]
    define bs where "bs = (if sp_allow_full_block p then [] else frame_boundaries (wt_pending w1))"
    define ds1 where "ds1 = (if sp_allow_full_block p then ?ds0 else ?ds0\<lparr>ds_pinned := pinned \<union> psh_sids (wt_pending w1)\<rparr>)"
    have pos: "ds_pos ds1 = 0" by (simp add: ds1_def)
    have sub: "at_cuts (insert 0 (set bs)) k qs \<Longrightarrow> at_cuts ?B k qs" for k qs
      using keeps by (induction ?B k qs rule: at_cuts.induct) (auto simp: bs_def split: if_splits)
    obtain e2 ds2 w2 where em: "emit_record env bs p ds1 w1 = (e2, ds2, w2)" by (cases "emit_record env bs p ds1 w1")
    obtain e3 ds3 w3 where lp: "drive_loop env bs (sp_allow_full_block p) ds2 w2 = (e3, ds3, w3)"
      by (cases "drive_loop env bs (sp_allow_full_block p) ds2 w2")
    have run: "drive_shaper env pinned w = (case e2 of Some x \<Rightarrow> (Some x, ds2, w2) | None \<Rightarrow>
        (case e3 of Some x \<Rightarrow> (Some x, ds3, w3) | None \<Rightarrow> (None, ds3, w3\<lparr>wt_pending := []\<rparr>)))"
      using True p em lp unfolding drive_shaper_def Let_def bs_def ds1_def drain_policy_def
      by (auto split: option.splits)
    obtain qs m where qs: "wt_ops w2 = wt_ops w @ qs" "at_cuts (insert 0 (set bs)) 0 qs"
        "concat (data_payloads qs) = take m (wt_pending w)" "e2 = None \<longrightarrow> m = ds_pos ds2"
      using emit_cuts [OF em] keeps pos by auto
    show ?thesis
    proof (cases e2)
      case (Some x)
      then show ?thesis using qs run assms sub by auto
    next
      case None
      note em = em [unfolded None]
      have pos2: "ds_pos ds2 \<le> length (wt_pending w)" "wt_pending w2 = wt_pending w" "0 < ts_packet_seq (wt_shaper w2)"
        using emit_record_keeps [OF em] keeps pos record_take_bounds(1) [of p "length (wt_pending w)"] advance_pos by auto
      then obtain rs k where rs: "wt_ops w3 = wt_ops w2 @ rs" "at_cuts (insert 0 (set bs)) (ds_pos ds2) rs"
          "concat (data_payloads rs) = take k (drop (ds_pos ds2) (wt_pending w))"
        using loop_cuts [OF _ _ lp] by auto
      have "wt_ops w' = wt_ops w @ (qs @ rs)" using run assms None qs(1) rs(1) by (auto split: option.splits)
      moreover have "at_cuts (insert 0 (set bs)) 0 (qs @ rs) \<and> concat (data_payloads (qs @ rs)) = take (ds_pos ds2 - 0 + k) (drop 0 (wt_pending w))"
        by (rule cuts_join [OF qs(2) _ _ pos2(1) rs(2,3)]) (use qs None in simp_all)
      ultimately show ?thesis using sub by (metis drop_0)
    qed
  qed
qed

text \<open>The frame boundaries of a backlog of encoded frames.\<close>

lemma walk_frame:
  assumes "length p \<le> MAX_PAYLOAD_LEN"
  shows "walk_frame_headers (frame_bytes c sid p @ rest) = (c, sid, length (frame_bytes c sid p)) # walk_frame_headers rest"
  using assms
  by (subst walk_frame_headers.simps)
    (simp add: frame_bytes_def Let_def u32_to_be_def u16_to_be_def FRAME_HEADER_SIZE_def MAX_PAYLOAD_LEN_def drop_Cons')

lemma walk_frames:
  assumes "map Frame_encode fs = map Inr packets"
  shows "map (\<lambda>(_, _, l). l) (walk_frame_headers (concat packets)) = map length packets"
  using assms
proof (induction packets arbitrary: fs)
  case Nil
  then show ?case by (subst walk_frame_headers.simps) (simp add: FRAME_HEADER_SIZE_def)
next
  case (Cons b packets)
  then obtain f fs' where "fs = f # fs'" "Frame_encode f = Inr b" "map Frame_encode fs' = map Inr packets" by auto
  then show ?case using Cons.IH [of fs'] walk_frame by (auto simp: Frame_encode_Inr)
qed

lemma boundary_is_prefix:
  assumes "map Frame_encode fs = map Inr packets" "n \<in> insert 0 (set (frame_boundaries (concat packets)))"
  shows "\<exists>k. n = length (concat (take k packets))"
  using assms(2) walk_frames [OF assms(1)]
  by (auto simp: frame_boundaries_def Let_def length_concat take_map intro: exI [of _ 0])

section \<open>Properties\<close>

definition drain_env :: writer_env where
  "drain_env = \<lparr>en_enc = demo_enc, en_large = False, en_direction = C2S,
     en_control = (\<lambda>_. \<lparr>cd_u = 0, cd_roll = 0, cd_control = [0], cd_lifecycle = [0], cd_chunk = [0]\<rparr>),
     en_policy = (\<lambda>_. \<lparr>dr_first = 0, dr_blend = 0, dr_len = 0, dr_delay = 0, dr_jitter = 0, dr_chunk = [0]\<rparr>),
     en_window = (\<lambda>_. []), en_flush = (\<lambda>_. True)\<rparr>"

definition drain_writer :: writer where
  "drain_writer = \<lparr>wt_half = write_half_new, wt_ops = [], wt_sent = [], wt_batch_records = 0, wt_batch_responders = [],
     wt_pending = frame_bytes CMD_PSH 3 [1, 2, 3], wt_responders = [0], wt_settings = None,
     wt_shaper = \<lparr>ts_direction = C2S, ts_packet_seq = 0, ts_script = [plain_rule 200 250 DelayNone], ts_script_stop = 1,
       ts_deferred_fakes = [(0, 1)], ts_post_script_off = False, ts_bulk_run = False\<rparr>,
     wt_acks = [], wt_draw = 0, wt_policy = 0, wt_window = 0, wt_flush = 0\<rparr>"

text \<open>C11: Draining the backlog always ends. When the AEAD, the socket and the samplers do their part and the
  script of the shaper is a randomised one, \<^verbatim>\<open>drive_shaper\<close> returns: with the whole backlog written,
  as data records that are non-empty, at most as many as the backlog has bytes, whose payloads in
  order are the backlog, whatever control requests were let through in between; or because sealing
  failed on the last nonce of the connection.\<close>

theorem drain_terminates:
  assumes "env_works env dec" "half_ok w" "shaper_ok (wt_shaper w)"
  shows "(\<exists>ds w' ps. drive_shaper env pinned w = (None, ds, w') \<and> wt_pending w' = [] \<and>
       data_payloads (wt_ops w') = data_payloads (wt_ops w) @ ps \<and> concat ps = wt_pending w \<and>
       [] \<notin> set ps \<and> length ps \<le> length (wt_pending w)) \<or>
    (\<exists>ds w'. drive_shaper env pinned w = (Some (SealFailed NoiseEncrypt), ds, w') \<and> wh_nonce (wt_half w') = - 1)"
proof -
  obtain e ds w' ps where d: "drive_shaper env pinned w = (e, ds, w')" "outcome e w ps w'"
    "e = None \<longrightarrow> wt_pending w' = [] \<and> concat ps = wt_pending w \<and> [] \<notin> set ps"
    using drive_outcome [OF assms] by blast
  have "[] \<notin> set qs \<Longrightarrow> length qs \<le> length (concat qs)" for qs :: "bytes list"
  proof (induction qs)
    case (Cons q qs)
    then show ?case by (cases q) auto
  qed simp
  from this [of ps] d show ?thesis by (cases e) auto
qed

theorem drain_terminates_witness:
  "env_works drain_env demo_dec \<and> half_ok drain_writer \<and> shaper_ok (wt_shaper drain_writer) \<and>
   ((\<exists>ds w' ps. drive_shaper drain_env {} drain_writer = (None, ds, w') \<and> wt_pending w' = [] \<and>
       data_payloads (wt_ops w') = ps \<and> concat ps = frame_bytes CMD_PSH 3 [1, 2, 3]) \<or>
    (\<exists>ds w'. drive_shaper drain_env {} drain_writer = (Some (SealFailed NoiseEncrypt), ds, w') \<and> wh_nonce (wt_half w') = - 1))"
proof -
  have "tn_sample (data_record_sampler d) [0] \<noteq> None" "tn_sample (headers_sampler d) [0] \<noteq> None" for d
    by (cases d; simp add: data_record_sampler_def headers_sampler_def headers_c2s_sampler_def headers_s2c_sampler_def wire_defs)+
  then have 1: "env_works drain_env demo_dec"
    by (auto simp: env_works_def drain_env_def draws_return_def aead_correct_def aead_total_def demo_enc_def demo_dec_def AEAD_TAG_LEN_def)
  have 2: "half_ok drain_writer" by (simp add: half_ok_def drain_writer_def write_half_new_def)
  have 3: "shaper_ok (wt_shaper drain_writer)"
    using wire_values(8) by (simp add: drain_writer_def shaper_ok_def plain_rule_def window_ok_def data_record_capacity_def record_const_defs frame_const_defs)
  have "data_payloads (wt_ops drain_writer) = []" "wt_pending drain_writer = frame_bytes CMD_PSH 3 [1, 2, 3]"
    by (simp_all add: drain_writer_def data_payloads_def)
  with 1 2 3 drain_terminates [OF 1 2 3, of "{}"] show ?thesis by auto
qed

text \<open>C10: Control frames never tear a data frame apart. Let the backlog be a sequence of encoded frames. In
  whatever way \<^verbatim>\<open>drive_shaper\<close> ends, and whatever control requests arrive while it waits, each control
  record it writes (a padding request in front of a record, or a piece of a control request that was let
  through) comes when the data written so far is a whole number of frames of the backlog.\<close>

theorem control_between_frames:
  assumes "map Frame_encode fs = map Inr packets" "wt_pending w = concat packets"
    and "drive_shaper env pinned w = (e, ds, w')" "wt_ops w' = wt_ops w @ xs @ (True, p, target) # ys"
  shows "\<exists>k. concat (data_payloads xs) = concat (take k packets)"
proof -
  let ?A = "concat (data_payloads xs)"
  obtain m where m: "at_cuts (insert 0 (set (frame_boundaries (concat packets)))) 0 (xs @ (True, p, target) # ys)"
    "concat (data_payloads (xs @ (True, p, target) # ys)) = take m (concat packets)"
    using drive_cuts [OF assms(3)] assms(2,4) by auto
  then have "length ?A \<in> insert 0 (set (frame_boundaries (concat packets)))" by (simp only: at_cuts_append) simp
  then obtain k where k: "length ?A = length (concat (take k packets))"
    using boundary_is_prefix [OF assms(1)] by blast
  have whole: "concat packets = concat (take k packets) @ concat (drop k packets)"
    by (metis append_take_drop_id concat_append)
  have "?A @ concat (data_payloads ys) @ drop m (concat packets) = concat packets"
    using m(2) append_take_drop_id [of m "concat packets"] by (simp add: append_assoc [symmetric] del: append_assoc)
  with whole have "?A @ concat (data_payloads ys) @ drop m (concat packets) = concat (take k packets) @ concat (drop k packets)"
    by metis
  then show ?thesis using k by (auto simp: append_eq_append_conv)
qed

lemma demo_seal:
  assumes "fits op" "wh_nonce wh \<noteq> - 1" "length (wh_encrypt_buf wh) = BLOCK_PLAINTEXT_SIZE"
  shows "\<exists>wh'. prepare_record demo_enc wh op = (None, wh') \<and> wh_nonce wh' = sat_add (wh_nonce wh) 1 \<and>
    length (wh_encrypt_buf wh') = BLOCK_PLAINTEXT_SIZE"
  using assms prepare_record_ok [of op wh demo_enc "op_block op @ replicate 16 0"] length_op_block(2) [of op]
  by (fastforce simp: fits_def demo_enc_def frame_const_defs record_const_defs)

theorem control_between_frames_witness:
  "\<exists>e ds w' p target ys. drive_shaper drain_env {} drain_writer = (e, ds, w') \<and>
     wt_ops w' = wt_ops drain_writer @ [] @ (True, p, target) # ys \<and>
     (\<exists>k. concat (data_payloads []) = concat (take k [frame_bytes CMD_PSH 3 [1, 2, 3]]))"
proof -
  let ?pk = "frame_bytes CMD_PSH 3 [1, 2, 3]" and ?c = "(True, fake_packet 1, PADDING_REQUEST_WIRE)"
  have small: "length ?pk \<le> BLOCK_DATA_CAPACITY" "length (fake_packet 1) \<le> BLOCK_DATA_CAPACITY" "length ?pk = 10"
    using fake_packet_small [of 1] by (simp_all add: frame_bytes_def u32_to_be_def u16_to_be_def record_const_defs frame_const_defs data_record_capacity_def)
  obtain wh1 where 1: "prepare_record demo_enc write_half_new ?c = (None, wh1)" "wh_nonce wh1 = sat_add 0 1"
      "length (wh_encrypt_buf wh1) = BLOCK_PLAINTEXT_SIZE"
    using demo_seal [of ?c write_half_new] small by (auto simp: fits_def write_half_new_def)
  obtain wh2 where 2: "prepare_record demo_enc wh1 (False, ?pk, 176) = (None, wh2)"
    using demo_seal [of "(False, ?pk, 176)" wh1] small 1 by (auto simp: fits_def sat_add_def)
  define p where "p = \<lparr>sp_target_wire_len = 176, sp_delay = 0, sp_fake = Some 1, sp_pre_fake = None,
      sp_allow_full_block = False, sp_quiet_gap = True\<rparr>"
  let ?w0 = "drain_writer\<lparr>wt_shaper := begin_drain (wt_shaper drain_writer)\<rparr>"
  obtain w1 where pol: "writer_policy drain_env 10 ?w0 = Some (p, w1)" "wt_half w1 = write_half_new" "wt_ops w1 = []" "wt_pending w1 = ?pk"
    by (simp add: writer_policy_def next_data_policy_def release_due_fakes_def drain_env_def drain_writer_def begin_drain_def
        gen_range_def wire_values exact_policy_def p_def Let_def)
  have emit: "\<exists>ds' w'. emit_record drain_env bs p ds w1 = (None, ds', w') \<and> ds_pos ds' = 10 \<and> wt_pending w' = ?pk \<and>
      wt_ops w' = [?c, (False, ?pk, 176)]" if "ds_pos ds = 0" for bs ds
  proof -
    let ?wa = "w1\<lparr>wt_half := wh1, wt_ops := [?c]\<rparr>"
    let ?wb = "?wa\<lparr>wt_half := wh2, wt_ops := [?c, (False, ?pk, 176)]\<rparr>"
    have "writer_prepare drain_env True (fake_packet 1) PADDING_REQUEST_WIRE w1 = (None, ?wa)"
      "writer_prepare drain_env False ?pk 176 ?wa = (None, ?wb)"
      using 1(1) 2 pol(2-) by (simp_all add: writer_prepare_def drain_env_def)
    moreover have "record_take p 10 = 10" "inline_fake_of p b = (Some 1, None)" for b
      by (simp_all add: record_take_def inline_fake_of_def p_def wire_values data_record_capacity_def record_const_defs frame_const_defs)
    moreover have "sp_quiet_gap p" "sp_delay p = 0" "sp_target_wire_len p = 176" "sp_fake p = Some 1" by (simp_all add: p_def)
    moreover have "en_flush drain_env i" for i by (simp add: drain_env_def)
    ultimately show ?thesis
      using that pol(4) small(3) unfolding emit_record_def Let_def
      by (simp add: note_records_def batch_flush_def answer_def Let_def)
  qed
  obtain e ds w' where run: "drive_shaper drain_env {} drain_writer = (e, ds, w')" by (cases "drive_shaper drain_env {} drain_writer")
  have pend: "wt_pending drain_writer = ?pk" "sp_allow_full_block p = False" by (simp_all add: drain_writer_def p_def)
  let ?ds = "\<lparr>ds_pos = 0, ds_fakes = [], ds_pinned = psh_sids (wt_pending w1), ds_deferred = []\<rparr>"
  obtain ds2 w2 where e2: "emit_record drain_env (frame_boundaries (wt_pending w1)) p ?ds w1 = (None, ds2, w2)" "ds_pos ds2 = 10"
      "wt_pending w2 = ?pk" "wt_ops w2 = [?c, (False, ?pk, 176)]"
    using emit [of ?ds "frame_boundaries (wt_pending w1)"] by auto
  have "drive_loop drain_env bs False ds2 w2 = (None, ds2, w2)" for bs
    by (subst drive_loop.simps) (use e2 small(3) in simp)
  moreover have "?pk \<noteq> []" by (simp add: frame_bytes_def)
  ultimately have "(None, ds2, w2\<lparr>wt_pending := []\<rparr>) = (e, ds, w')"
    using run pol(1) e2(1) pend small(3) unfolding drive_shaper_def Let_def by simp
  then have "wt_ops w' = wt_ops drain_writer @ [] @ ?c # [(False, ?pk, 176)]"
    using e2(4) by (auto simp: drain_writer_def)
  moreover have "map Frame_encode [Frame_new CMD_PSH 3 [1, 2, 3]] = map Inr [?pk]" "wt_pending drain_writer = concat [?pk]"
    by (simp_all add: Frame_encode_Inr Frame_new_def MAX_PAYLOAD_LEN_def drain_writer_def)
  ultimately show ?thesis using run control_between_frames [OF _ _ run] by blast
qed

end
