(* ===== verification/PoolBehavior.thy ===== *)
theory PoolBehavior
  imports Script
begin

text \<open>
  The behaviour parameters of the connection pool, \<^verbatim>\<open>crates/pool/src/behavior.rs\<close>: the ranges
  derived from the key and the installation, the values of one run, and the gaps between
  connection attempts. The clock and the random nonce are arguments. Sizes of type \<^verbatim>\<open>usize\<close> are natural
  numbers, durations are milliseconds.
\<close>

unbundle bit_operations_syntax

section \<open>Seeded values\<close>

definition MIN_INITIAL_CONNECTIONS :: nat where "MIN_INITIAL_CONNECTIONS = 1"
definition MAX_INITIAL_CONNECTIONS :: nat where "MAX_INITIAL_CONNECTIONS = 3"
definition IDLE_DRAIN_SECS :: u64 where "IDLE_DRAIN_SECS = 115"
definition SOFT_TTL_SECS :: u64 where "SOFT_TTL_SECS = 3600"
definition DEFAULT_MONITOR_INTERVAL_MS :: u64 where "DEFAULT_MONITOR_INTERVAL_MS = 500"
definition DEFAULT_ACQUIRE_TIMEOUT_SECS :: u64 where "DEFAULT_ACQUIRE_TIMEOUT_SECS = 15"
definition TIME_OF_DAY_BUCKET_SECS :: u64 where "TIME_OF_DAY_BUCKET_SECS = 4 * 60 * 60"

fun hash_bytes :: "u64 \<Rightarrow> bytes \<Rightarrow> u64" where
  "hash_bytes seed [] = seed"
| "hash_bytes seed (b # bs) = hash_bytes ((seed XOR ucast b) * 0x100000001b3) bs"

definition hash_u64 :: "u64 \<Rightarrow> u64 \<Rightarrow> u64" where
  "hash_u64 seed v = hash_bytes seed (rev (u64_to_be v))"

definition splitmix64 :: "u64 \<Rightarrow> u64" where
  "splitmix64 x0 =
     (let x1 = x0 + 0x9e3779b97f4a7c15;
          x2 = (x1 XOR drop_bit 30 x1) * 0xbf58476d1ce4e5b9;
          x3 = (x2 XOR drop_bit 27 x2) * 0x94d049bb133111eb
      in x3 XOR drop_bit 31 x3)"

definition derive_seed :: "u64 \<Rightarrow> u64 \<Rightarrow> u64" where
  "derive_seed seed salt = splitmix64 (seed XOR (salt * 0x9e3779b97f4a7c15))"

definition seeded_usize_inclusive :: "u64 \<Rightarrow> nat \<Rightarrow> nat \<Rightarrow> nat" where
  "seeded_usize_inclusive seed lo hi = (if lo \<ge> hi then lo else lo + unat (splitmix64 seed) mod (hi - lo + 1))"

definition seeded_u64_inclusive :: "u64 \<Rightarrow> u64 \<Rightarrow> u64 \<Rightarrow> u64" where
  "seeded_u64_inclusive seed lo hi = (if lo \<ge> hi then lo else lo + splitmix64 seed mod (hi - lo + 1))"

section \<open>Ranges, context and one run\<close>

record pool_behavior_config =
  pb_min_target_pool_size :: nat
  pb_max_target_pool_size :: nat
  pb_min_initial_connections :: nat
  pb_max_initial_connections :: nat
  pb_min_startup_jitter_ms :: u64
  pb_max_startup_jitter_ms :: u64
  pb_soft_ttl_secs :: u64
  pb_idle_drain_secs :: u64
  pb_monitor_interval :: nat
  pb_acquire_timeout :: nat

definition from_psk :: "bytes \<Rightarrow> bytes \<Rightarrow> pool_behavior_config" where
  "from_psk psk install_salt =
     (let h = hash_bytes (hash_bytes 0x1337BEEF psk) install_salt;
          min_target = seeded_usize_inclusive h 4 8;
          max_target = seeded_usize_inclusive (h XOR 0x01) (min_target + 2) 16;
          min_jitter = seeded_u64_inclusive (h XOR 0x02) 50 300;
          max_jitter = seeded_u64_inclusive (h XOR 0x03) (min_jitter + 300) 2500
      in \<lparr>pb_min_target_pool_size = min_target, pb_max_target_pool_size = max_target,
          pb_min_initial_connections = MIN_INITIAL_CONNECTIONS, pb_max_initial_connections = MAX_INITIAL_CONNECTIONS,
          pb_min_startup_jitter_ms = min_jitter, pb_max_startup_jitter_ms = max_jitter,
          pb_soft_ttl_secs = SOFT_TTL_SECS, pb_idle_drain_secs = IDLE_DRAIN_SECS,
          pb_monitor_interval = unat DEFAULT_MONITOR_INTERVAL_MS,
          pb_acquire_timeout = 1000 * unat DEFAULT_ACQUIRE_TIMEOUT_SECS\<rparr>)"

record pool_behavior_context =
  cx_fingerprint_family :: bytes
  cx_sni :: bytes
  cx_startup_epoch_secs :: u64
  cx_time_of_day_bucket :: u64
  cx_random_nonce :: u64

definition PoolBehaviorContext_new :: "bytes \<Rightarrow> bytes \<Rightarrow> u64 \<Rightarrow> u64 \<Rightarrow> pool_behavior_context" where
  "PoolBehaviorContext_new fingerprint_family sni now nonce =
     \<lparr>cx_fingerprint_family = fingerprint_family, cx_sni = to_ascii_lowercase (trim sni), cx_startup_epoch_secs = now,
      cx_time_of_day_bucket = (now mod 86400) div TIME_OF_DAY_BUCKET_SECS, cx_random_nonce = nonce\<rparr>"

definition context_seed :: "u64 \<Rightarrow> pool_behavior_context \<Rightarrow> u64" where
  "context_seed now c =
     (let s1 = hash_bytes 0xcbf29ce484222325 (cx_fingerprint_family c);
          s2 = hash_bytes s1 (cx_sni c);
          s3 = hash_u64 s2 (cx_time_of_day_bucket c);
          s4 = hash_u64 s3 (cx_startup_epoch_secs c);
          s5 = hash_u64 s4 (cx_random_nonce c)
      in s5 XOR ((now div 3600) * 0x9e3779b97f4a7c15))"

record pool_lifecycle =
  lc_soft_ttl :: nat
  lc_idle_timeout :: nat

record resolved_pool_behavior =
  rb_seed :: u64
  rb_target_pool_size :: nat
  rb_initial_connection_count :: nat
  rb_spawn_cluster_len :: u64

definition resolve :: "u64 \<Rightarrow> pool_behavior_config \<Rightarrow> pool_behavior_context \<Rightarrow> resolved_pool_behavior" where
  "resolve now b c =
     (let seed = context_seed now c;
          target = seeded_usize_inclusive (derive_seed seed 0x10) (pb_min_target_pool_size b) (pb_max_target_pool_size b)
      in \<lparr>rb_seed = seed, rb_target_pool_size = target,
          rb_initial_connection_count = seeded_usize_inclusive (derive_seed seed 0x11)
            (min (pb_min_initial_connections b) (max target 1)) (min (pb_max_initial_connections b) (max target 1)),
          rb_spawn_cluster_len = seeded_u64_inclusive (derive_seed seed 0x14) 2 4\<rparr>)"

definition lifecycle :: "pool_behavior_config \<Rightarrow> pool_lifecycle" where
  "lifecycle b = \<lparr>lc_soft_ttl = 1000 * unat (pb_soft_ttl_secs b), lc_idle_timeout = 1000 * unat (pb_idle_drain_secs b)\<rparr>"

text \<open>\<^verbatim>\<open>staggered_delays\<close>: one delay per slot, each later than the one before.\<close>

definition burst_gap_max :: "pool_behavior_config \<Rightarrow> u64" where
  "burst_gap_max b = max (sat_add (pb_min_startup_jitter_ms b) (pb_max_startup_jitter_ms b) div 2) (pb_min_startup_jitter_ms b)"

definition spawn_gap :: "pool_behavior_config \<Rightarrow> resolved_pool_behavior \<Rightarrow> u64 \<Rightarrow> u64" where
  "spawn_gap b r slot =
     (let gap_seed = derive_seed (rb_seed r XOR word_rotl 11 slot) 0x30 in
      if (slot + 1) mod rb_spawn_cluster_len r = 0
      then seeded_u64_inclusive gap_seed (burst_gap_max b) (pb_max_startup_jitter_ms b)
      else seeded_u64_inclusive gap_seed (pb_min_startup_jitter_ms b) (burst_gap_max b))"

fun delays_from :: "pool_behavior_config \<Rightarrow> resolved_pool_behavior \<Rightarrow> u64 \<Rightarrow> u64 \<Rightarrow> nat \<Rightarrow> u64 list" where
  "delays_from b r slot total_ms 0 = []"
| "delays_from b r slot total_ms (Suc n) =
     (let t = sat_add total_ms (spawn_gap b r slot) in t # delays_from b r (slot + 1) t n)"

definition staggered_delays :: "pool_behavior_config \<Rightarrow> resolved_pool_behavior \<Rightarrow> u64 \<Rightarrow> nat \<Rightarrow> u64 list" where
  "staggered_delays b r start_slot n = delays_from b r start_slot 0 n"

section \<open>Ranges\<close>

lemma seeded_usize_range: "lo \<le> hi \<Longrightarrow> lo \<le> seeded_usize_inclusive s lo hi \<and> seeded_usize_inclusive s lo hi \<le> hi"
proof -
  assume "lo \<le> hi"
  then have "lo + x mod Suc (hi - lo) \<le> hi" for x using mod_less_divisor [of "Suc (hi - lo)" x] by linarith
  then show ?thesis using \<open>lo \<le> hi\<close> by (auto simp: seeded_usize_inclusive_def)
qed

lemma seeded_u64_range:
  assumes "lo \<le> hi" "unat hi < 2 ^ 64 - 1"
  shows "lo \<le> seeded_u64_inclusive s lo hi \<and> seeded_u64_inclusive s lo hi \<le> hi"
proof (cases "lo \<ge> hi")
  case False
  let ?d = "hi - lo + 1" and ?x = "splitmix64 s"
  note hi = assms(2)
  have d: "unat ?d = unat hi - unat lo + 1"
    using assms(1) hi by (simp add: unat_plus_if' unat_sub word_le_nat_alt)
  then have "unat (?x mod ?d) \<le> unat hi - unat lo"
    using mod_less_divisor [of "unat ?d" "unat ?x"] by (simp add: unat_mod)
  then have "unat (lo + ?x mod ?d) = unat lo + unat (?x mod ?d)" "unat lo + unat (?x mod ?d) \<le> unat hi"
    using assms(1) hi by (auto simp: unat_plus_if' word_le_nat_alt)
  then show ?thesis using False by (simp add: seeded_u64_inclusive_def word_le_nat_alt)
qed (use assms in \<open>simp add: seeded_u64_inclusive_def\<close>)

lemma burst_range:
  assumes "pb_min_startup_jitter_ms b \<le> pb_max_startup_jitter_ms b" "pb_max_startup_jitter_ms b \<le> 2500"
  shows "pb_min_startup_jitter_ms b \<le> burst_gap_max b \<and> burst_gap_max b \<le> pb_max_startup_jitter_ms b"
proof -
  let ?a = "pb_min_startup_jitter_ms b" and ?c = "pb_max_startup_jitter_ms b"
  have "unat ?a \<le> unat ?c" "unat ?c \<le> 2500" using assms by (simp_all add: word_le_nat_alt)
  then have "unat (sat_add ?a ?c div 2) = (unat ?a + unat ?c) div 2"
    by (simp add: unat_div unat_sat_add)
  then show ?thesis using \<open>unat ?a \<le> unat ?c\<close> by (auto simp: burst_gap_max_def word_le_nat_alt max_def)
qed

lemma gap_range:
  assumes "pb_min_startup_jitter_ms b \<le> pb_max_startup_jitter_ms b" "pb_max_startup_jitter_ms b \<le> 2500"
  shows "unat (pb_min_startup_jitter_ms b) \<le> unat (spawn_gap b r slot) \<and> unat (spawn_gap b r slot) \<le> unat (pb_max_startup_jitter_ms b)"
proof -
  have lt: "unat x < 2 ^ 64 - 1" if "x \<le> pb_max_startup_jitter_ms b" for x
    using that assms(2) by (simp add: word_le_nat_alt)
  note br = burst_range [OF assms]
  show ?thesis
    using br seeded_u64_range [OF conjunct2 [OF br] lt [OF order_refl]] seeded_u64_range [OF conjunct1 [OF br] lt [OF conjunct2 [OF br]]]
    by (auto simp: spawn_gap_def Let_def word_le_nat_alt [symmetric] intro: order_trans)
qed

lemma delays_spread:
  assumes gap: "\<And>s. lo \<le> unat (spawn_gap b r s) \<and> unat (spawn_gap b r s) \<le> hi"
  shows "unat t0 + hi * n < 2 ^ 64 \<Longrightarrow> length (delays_from b r slot t0 n) = n \<and>
    (\<forall>i<n. unat t0 + lo * Suc i \<le> unat (delays_from b r slot t0 n ! i) \<and> unat (delays_from b r slot t0 n ! i) \<le> unat t0 + hi * Suc i \<and>
       (if i = 0 then unat t0 else unat (delays_from b r slot t0 n ! (i - 1))) + lo \<le> unat (delays_from b r slot t0 n ! i))"
proof (induction n arbitrary: slot t0)
  case (Suc n)
  let ?t = "sat_add t0 (spawn_gap b r slot)"
  have t: "unat ?t = unat t0 + unat (spawn_gap b r slot)"
    using Suc.prems gap [of slot] by (simp add: unat_sat_add)
  have "unat ?t + hi * n < 2 ^ 64" using Suc.prems gap [of slot] t by (simp add: algebra_simps)
  note ih = Suc.IH [OF this, of "slot + 1"]
  have "unat t0 + lo * Suc i \<le> unat (delays_from b r slot t0 (Suc n) ! i) \<and>
      unat (delays_from b r slot t0 (Suc n) ! i) \<le> unat t0 + hi * Suc i \<and>
      (if i = 0 then unat t0 else unat (delays_from b r slot t0 (Suc n) ! (i - 1))) + lo \<le> unat (delays_from b r slot t0 (Suc n) ! i)"
    if "i < Suc n" for i
  proof (cases i)
    case 0
    then show ?thesis using t gap [of slot] by (simp add: Let_def)
  next
    case (Suc j)
    then show ?thesis
      using ih [THEN conjunct2, rule_format, of j] that t gap [of slot]
      by (cases j) (auto simp: Let_def)
  qed
  then show ?case using ih by (simp add: Let_def)
qed simp

text \<open>The pool of every key, installation and run has sane parameters. It aims at 4 to 16 connections, of
  which 1 to 3 may be opened at once. Connections opened later are staggered: there is one delay per
  connection, each at least 50 and at most 2500 milliseconds after the one before it.\<close>

lemma pool_behavior_ranges:
  assumes "b = from_psk psk salt" "r = resolve now b c" "2500 * n < 2 ^ 64"
  shows "4 \<le> rb_target_pool_size r \<and> rb_target_pool_size r \<le> 16 \<and>
    1 \<le> rb_initial_connection_count r \<and> rb_initial_connection_count r \<le> 3 \<and>
    length (staggered_delays b r slot n) = n \<and>
    (\<forall>i<n. unat (staggered_delays b r slot n ! i) \<le> 2500 * Suc i \<and>
       (if i = 0 then 0 else unat (staggered_delays b r slot n ! (i - 1))) + 50 \<le> unat (staggered_delays b r slot n ! i))"
proof -
  define h where "h = hash_bytes (hash_bytes 0x1337BEEF psk) salt"
  let ?mt = "seeded_usize_inclusive h 4 8" and ?mj = "seeded_u64_inclusive (h XOR 0x02) 50 300"
  have mt: "4 \<le> ?mt" "?mt \<le> 8" using seeded_usize_range [of 4 8 h] by simp_all
  have xt: "?mt + 2 \<le> seeded_usize_inclusive (h XOR 0x01) (?mt + 2) 16" "seeded_usize_inclusive (h XOR 0x01) (?mt + 2) 16 \<le> 16"
    using seeded_usize_range [of "?mt + 2" 16 "h XOR 0x01"] mt by simp_all
  have mj: "50 \<le> ?mj" "?mj \<le> 300" using seeded_u64_range [of 50 300 "h XOR 0x02"] by simp_all
  then have mj': "?mj + 300 \<le> 2500" "?mj \<le> ?mj + 300" by (auto simp: word_le_nat_alt unat_plus_if')
  have xj: "?mj + 300 \<le> seeded_u64_inclusive (h XOR 0x03) (?mj + 300) 2500" "seeded_u64_inclusive (h XOR 0x03) (?mj + 300) 2500 \<le> 2500"
    using seeded_u64_range [of "?mj + 300" 2500 "h XOR 0x03"] mj' by simp_all
  have b: "pb_min_target_pool_size b = ?mt" "pb_max_target_pool_size b = seeded_usize_inclusive (h XOR 0x01) (?mt + 2) 16"
    "pb_min_initial_connections b = 1" "pb_max_initial_connections b = 3" "pb_min_startup_jitter_ms b = ?mj"
    "pb_max_startup_jitter_ms b = seeded_u64_inclusive (h XOR 0x03) (?mj + 300) 2500"
    by (simp_all add: assms(1) from_psk_def Let_def h_def MIN_INITIAL_CONNECTIONS_def MAX_INITIAL_CONNECTIONS_def)
  have tg: "4 \<le> rb_target_pool_size r" "rb_target_pool_size r \<le> 16"
    using seeded_usize_range [of "pb_min_target_pool_size b" "pb_max_target_pool_size b" "derive_seed (context_seed now c) 0x10"] mt xt
    by (auto simp: assms(2) resolve_def Let_def b)
  have "1 \<le> rb_initial_connection_count r \<and> rb_initial_connection_count r \<le> 3"
    using seeded_usize_range [of 1 3 "derive_seed (context_seed now c) 0x11"] tg(1)
    by (simp add: assms(2) resolve_def Let_def b min_def max_def)
  moreover have "50 \<le> unat (spawn_gap b r s) \<and> unat (spawn_gap b r s) \<le> 2500" for s
    using gap_range [of b r s] b xj mj mj' by (auto simp: word_le_nat_alt)
  note delays_spread [of 50 b r 2500 0 n slot, OF this]
  ultimately show ?thesis using tg assms(3) unfolding staggered_delays_def by auto
qed

end
