(* ===== verification/Pool.thy ===== *)
theory Pool
  imports PoolBehavior "HOL-Library.Product_Lexorder"
begin

text \<open>
  The pool of tunnel connections, \<^verbatim>\<open>crates/pool/src/pool.rs\<close> and \<^verbatim>\<open>connection.rs\<close>. A connection is an
  object that the table, a monitor pass and a caller can hold at the same time, so objects live in a
  store and the table maps sequence numbers to them. What the pool asks of a session (its streams, its buffered bytes,
  whether it is alive or closing) is a view in the object that the session may change at any time.
  Where the code iterates over the hash map, the order is an argument. The clock is an argument, in
  milliseconds. Notifications only shorten a wait and are left out; counters of type \<^verbatim>\<open>usize\<close> are natural numbers.
\<close>

section \<open>Connections\<close>

datatype connection_state = Active | Draining | Closed

record session_view =
  sv_active_streams :: nat
  sv_buffered_stream_bytes :: nat
  sv_alive :: bool
  sv_closing :: bool

record pooled_connection =
  pc_seq :: u64
  pc_handle :: session_view
  pc_state :: connection_state
  pc_soft_ttl :: nat
  pc_idle_timeout :: nat
  pc_created_at :: nat
  pc_last_selected_tick :: u64

type_synonym connection_score = "nat \<times> nat \<times> u64 \<times> nat \<times> u64"

definition score :: "pooled_connection \<Rightarrow> connection_score" where
  "score c = (sv_active_streams (pc_handle c), sv_buffered_stream_bytes (pc_handle c), pc_last_selected_tick c,
     pc_created_at c, pc_seq c)"

definition mark_selected :: "u64 \<Rightarrow> pooled_connection \<Rightarrow> pooled_connection" where
  "mark_selected tick c = c\<lparr>pc_last_selected_tick := tick\<rparr>"

definition conn_mark_draining :: "pooled_connection \<Rightarrow> bool \<times> pooled_connection" where
  "conn_mark_draining c = (if pc_state c = Active then (True, c\<lparr>pc_state := Draining\<rparr>) else (False, c))"

definition mark_closed :: "pooled_connection \<Rightarrow> bool \<times> pooled_connection" where
  "mark_closed c = (pc_state c \<noteq> Closed, c\<lparr>pc_state := Closed\<rparr>)"

definition is_live :: "pooled_connection \<Rightarrow> bool" where
  "is_live c \<longleftrightarrow> pc_state c \<noteq> Closed \<and> sv_alive (pc_handle c)"

definition is_selectable :: "nat \<Rightarrow> pooled_connection \<Rightarrow> bool" where
  "is_selectable max_streams c \<longleftrightarrow> pc_state c = Active \<and> sv_alive (pc_handle c) \<and> \<not> sv_closing (pc_handle c) \<and>
     sv_active_streams (pc_handle c) < max_streams"

section \<open>The pool\<close>

record pool =
  pl_max_streams_per_session :: nat
  pl_behavior :: pool_behavior_config
  pl_resolved_behavior :: resolved_pool_behavior
  pl_objects :: "nat \<Rightarrow> pooled_connection"
  pl_allocated :: nat
  pl_connections :: "u64 \<rightharpoonup> nat"
  pl_next_seq :: u64
  pl_target_pool_size :: nat
  pl_max_live_connections :: nat
  pl_initial_connection_count :: nat
  pl_bootstrap_started :: bool
  pl_acquire_waiters :: nat
  pl_next_spawn_slot :: u64
  pl_pending_spawns :: nat
  pl_selection_tick :: u64

definition ClientPool_new :: "nat \<Rightarrow> pool_behavior_config \<Rightarrow> resolved_pool_behavior \<Rightarrow> pool" where
  "ClientPool_new max_streams b r =
     \<lparr>pl_max_streams_per_session = max_streams, pl_behavior = b, pl_resolved_behavior = r,
      pl_objects = (\<lambda>_. \<lparr>pc_seq = 0, pc_handle = \<lparr>sv_active_streams = 0, sv_buffered_stream_bytes = 0, sv_alive = False,
         sv_closing = True\<rparr>, pc_state = Closed, pc_soft_ttl = 0, pc_idle_timeout = 0, pc_created_at = 0, pc_last_selected_tick = 0\<rparr>),
      pl_allocated = 0, pl_connections = Map.empty, pl_next_seq = 1,
      pl_target_pool_size = rb_target_pool_size r,
      pl_max_live_connections = rb_target_pool_size r + max (rb_initial_connection_count r) 1,
      pl_initial_connection_count = rb_initial_connection_count r, pl_bootstrap_started = False, pl_acquire_waiters = 0,
      pl_next_spawn_slot = 0, pl_pending_spawns = 0, pl_selection_tick = 0\<rparr>"

definition set_object :: "nat \<Rightarrow> pooled_connection \<Rightarrow> pool \<Rightarrow> pool" where
  "set_object i c p = p\<lparr>pl_objects := (pl_objects p)(i := c)\<rparr>"

text \<open>The entries of the table in the order of an iteration over it.\<close>

definition entries :: "u64 list \<Rightarrow> pool \<Rightarrow> nat list" where
  "entries ks p = List.map_filter (pl_connections p) ks"

definition live_connection_count :: "u64 list \<Rightarrow> pool \<Rightarrow> nat" where
  "live_connection_count ks p = length (filter (\<lambda>i. is_live (pl_objects p i)) (entries ks p))"

definition streams_per_connection_target :: "pool \<Rightarrow> nat" where
  "streams_per_connection_target p = max (pl_max_streams_per_session p) 1"

definition desired_active_connection_count :: "pool \<Rightarrow> nat \<Rightarrow> nat \<Rightarrow> nat \<Rightarrow> nat" where
  "desired_active_connection_count p waiters active_connections total_active_streams =
     (if waiters = 0 then 0
      else
        let stream_target = streams_per_connection_target p;
            demand_streams = max (waiters + total_active_streams) 1;
            desired = (demand_streams + (stream_target - 1)) div stream_target
        in if active_connections = 0 then min (min desired 1) (pl_target_pool_size p)
           else min desired (pl_target_pool_size p))"

subsection \<open>Selection\<close>

definition better :: "pool \<Rightarrow> (nat \<times> connection_score) option \<Rightarrow> nat \<Rightarrow> (nat \<times> connection_score) option" where
  "better p best i =
     (let c = pl_objects p i in
      if \<not> is_selectable (pl_max_streams_per_session p) c then best
      else case best of
             Some (_, best_score) \<Rightarrow> if score c \<ge> best_score then best else Some (i, score c)
           | None \<Rightarrow> Some (i, score c))"

definition select_active_connection :: "u64 list \<Rightarrow> pool \<Rightarrow> nat option \<times> pool" where
  "select_active_connection ks p =
     (case foldl (better p) None (entries ks p) of
        None \<Rightarrow> (None, p)
      | Some (i, _) \<Rightarrow>
          let tick = pl_selection_tick p + 1 in
          (Some i, set_object i (mark_selected tick (pl_objects p i)) (p\<lparr>pl_selection_tick := tick\<rparr>)))"

subsection \<open>Closing\<close>

definition remove_connection :: "u64 \<Rightarrow> pool \<Rightarrow> nat option \<times> pool" where
  "remove_connection seq p = (pl_connections p seq, p\<lparr>pl_connections := (pl_connections p)(seq := None)\<rparr>)"

definition mark_draining :: "u64 \<Rightarrow> pool \<Rightarrow> bool \<times> pool" where
  "mark_draining seq p =
     (case pl_connections p seq of
        None \<Rightarrow> (False, p)
      | Some i \<Rightarrow> let (ok, c) = conn_mark_draining (pl_objects p i) in (ok, set_object i c p))"

text \<open>\<^verbatim>\<open>force_close\<close> of a session is an argument: what its view becomes.\<close>

definition force_close_connection :: "(session_view \<Rightarrow> session_view) \<Rightarrow> u64 \<Rightarrow> pool \<Rightarrow> pool" where
  "force_close_connection force_close seq p =
     (case remove_connection seq p of
        (None, p1) \<Rightarrow> p1
      | (Some i, p1) \<Rightarrow>
          let c = snd (mark_closed (pl_objects p1 i)) in
          set_object i (c\<lparr>pc_handle := force_close (pc_handle c)\<rparr>) p1)"

subsection \<open>Spawning\<close>

definition register_connection :: "(session_view \<Rightarrow> session_view) \<Rightarrow> u64 list \<Rightarrow> nat \<Rightarrow> session_view \<Rightarrow> pool \<Rightarrow> pool" where
  "register_connection force_close ks now handle p =
     (let seq = pl_next_seq p;
          lc = lifecycle (pl_behavior p);
          i = pl_allocated p;
          c = \<lparr>pc_seq = seq, pc_handle = handle, pc_state = Active, pc_soft_ttl = lc_soft_ttl lc,
               pc_idle_timeout = lc_idle_timeout lc, pc_created_at = now, pc_last_selected_tick = 0\<rparr>;
          p1 = set_object i c (p\<lparr>pl_next_seq := seq + 1, pl_allocated := i + 1\<rparr>) in
      if live_connection_count ks p1 \<ge> pl_max_live_connections p1
      then set_object i (c\<lparr>pc_handle := force_close handle\<rparr>) p1
      else p1\<lparr>pl_connections := (pl_connections p1)(seq \<mapsto> i)\<rparr>)"

text \<open>What \<^verbatim>\<open>replenish_locked\<close> counts under the read lock: active connections, live connections, streams.\<close>

definition count_connections :: "u64 list \<Rightarrow> pool \<Rightarrow> nat \<times> nat \<times> nat" where
  "count_connections ks p =
     (let live = filter is_live (map (pl_objects p) (entries ks p));
          open_ones = filter (\<lambda>c. \<not> sv_closing (pc_handle c)) live
      in (length (filter (\<lambda>c. pc_state c = Active) open_ones), length live,
          sum_list (map (\<lambda>c. sv_active_streams (pc_handle c)) open_ones)))"

text \<open>Its decision: the calls of \<^verbatim>\<open>schedule_spawns_locked\<close>, as count and staggered.\<close>

definition replenish_plan :: "pool \<Rightarrow> nat \<times> nat \<times> nat \<Rightarrow> (nat \<times> bool) list" where
  "replenish_plan p counts =
     (let (active, live, total_active_streams) = counts;
          pending = pl_pending_spawns p;
          desired_active = desired_active_connection_count p (pl_acquire_waiters p) active total_active_streams in
      if desired_active = 0 \<or> active + pending \<ge> desired_active then []
      else
        let missing = min (desired_active - (active + pending)) (pl_max_live_connections p - (live + pending)) in
        if missing = 0 then []
        else if live + pending = 0
        then (let immediate = min missing (max (pl_initial_connection_count p) 1); delayed = missing - immediate
              in (immediate, False) # (if delayed > 0 then [(delayed, True)] else []))
        else [(missing, True)])"

text \<open>How many of them \<^verbatim>\<open>schedule_spawns_locked\<close> starts, given its own count of the live connections.\<close>

definition spawn_count :: "nat \<Rightarrow> nat \<Rightarrow> pool \<Rightarrow> nat" where
  "spawn_count requested live p = min requested (pl_max_live_connections p - (live + pl_pending_spawns p))"

definition spawn_delays :: "nat \<Rightarrow> bool \<Rightarrow> pool \<Rightarrow> u64 list \<times> pool" where
  "spawn_delays n staggered p =
     (if staggered
      then (staggered_delays (pl_behavior p) (pl_resolved_behavior p) (pl_next_spawn_slot p) n,
            p\<lparr>pl_next_spawn_slot := pl_next_spawn_slot p + of_nat n\<rparr>)
      else (replicate n 0, p))"

subsection \<open>The monitor\<close>

text \<open>One entry of a pass of \<^verbatim>\<open>prune_dead_connections\<close>.\<close>

definition prune_entry :: "nat \<Rightarrow> pool \<Rightarrow> pool" where
  "prune_entry i p =
     (let c = pl_objects p i in
      if pc_state c = Closed then snd (remove_connection (pc_seq c) p)
      else if \<not> sv_alive (pc_handle c)
      then (let (changed, c') = mark_closed c; p1 = set_object i c' p in
            if changed then snd (remove_connection (pc_seq c) p1) else p1)
      else p)"

text \<open>One entry of a pass of \<^verbatim>\<open>drive_connection_lifecycles\<close>, with the map of idle connections.\<close>

definition drive_entry ::
  "(session_view \<Rightarrow> session_view) \<Rightarrow> nat \<Rightarrow> nat \<Rightarrow> (u64 \<rightharpoonup> nat) \<Rightarrow> pool \<Rightarrow> (u64 \<rightharpoonup> nat) \<times> pool" where
  "drive_entry force_close now i idle_since p =
     (let c = pl_objects p i; seq = pc_seq c; active_streams = sv_active_streams (pc_handle c) in
      if \<not> is_live c then (idle_since, p)
      else if sv_closing (pc_handle c) then (idle_since, force_close_connection force_close seq p)
      else case pc_state c of
        Active \<Rightarrow>
          let idle' = (if active_streams > 0 then idle_since(seq := None)
                       else idle_since(seq \<mapsto> (case idle_since seq of None \<Rightarrow> now | Some t \<Rightarrow> t))) in
          (case idle' seq of
             Some started \<Rightarrow>
               if now - started \<ge> pc_idle_timeout c then (idle', snd (mark_draining seq p))
               else if now - pc_created_at c \<ge> pc_soft_ttl c then (idle', snd (mark_draining seq p)) else (idle', p)
           | None \<Rightarrow>
               if now - pc_created_at c \<ge> pc_soft_ttl c then (idle', snd (mark_draining seq p)) else (idle', p))
      | Draining \<Rightarrow> if active_streams = 0 then (idle_since, force_close_connection force_close seq p) else (idle_since, p)
      | Closed \<Rightarrow> (idle_since, p))"

text \<open>At the start of a pass the map only keeps the connections of the table.\<close>

definition retain_idle :: "u64 list \<Rightarrow> pool \<Rightarrow> (u64 \<rightharpoonup> nat) \<Rightarrow> (u64 \<rightharpoonup> nat)" where
  "retain_idle ks p idle_since = idle_since |` set (map (\<lambda>i. pc_seq (pl_objects p i)) (entries ks p))"

section \<open>The tasks of the pool\<close>

text \<open>
  One step per section that runs without an \<^verbatim>\<open>await\<close> or outside a lock. The holder of \<^verbatim>\<open>spawn_lock\<close> has a
  program counter: it counts, plans, counts again, reads the pending spawns and starts the tasks one by
  one, and everything else may run in between. A started task connects, registers its connection
  and only then leaves the pending count. Entries of a monitor pass are single steps.
\<close>

datatype spawner = Free | Counted "nat \<times> nat \<times> nat" | Planned "(nat \<times> bool) list"
  | Measured nat bool nat "(nat \<times> bool) list" | Spawning "u64 list" "(nat \<times> bool) list"

record pool_system =
  py_pool :: pool
  py_callers :: nat
  py_connecting :: nat
  py_registered :: nat
  py_spawner :: spawner
  py_idle :: "u64 \<rightharpoonup> nat"

definition iterates :: "u64 list \<Rightarrow> pool \<Rightarrow> bool" where
  "iterates ks p \<longleftrightarrow> distinct ks \<and> set ks = dom (pl_connections p)"

inductive pool_step :: "(session_view \<Rightarrow> session_view) \<Rightarrow> pool_system \<Rightarrow> pool_system \<Rightarrow> bool" for fc where
  acquire_begin: "pool_step fc s (s\<lparr>py_callers := py_callers s + 1,
     py_pool := (py_pool s)\<lparr>pl_acquire_waiters := pl_acquire_waiters (py_pool s) + 1\<rparr>\<rparr>)"
| acquire_end: "0 < py_callers s \<Longrightarrow> pool_step fc s (s\<lparr>py_callers := py_callers s - 1,
     py_pool := (py_pool s)\<lparr>pl_acquire_waiters := pl_acquire_waiters (py_pool s) - 1\<rparr>\<rparr>)"
| started: "pool_step fc s (s\<lparr>py_pool := (py_pool s)\<lparr>pl_bootstrap_started := True\<rparr>\<rparr>)"
| replenish: "py_spawner s = Free \<Longrightarrow> pl_bootstrap_started (py_pool s) \<Longrightarrow> iterates ks (py_pool s) \<Longrightarrow>
     pool_step fc s (s\<lparr>py_spawner := Counted (count_connections ks (py_pool s))\<rparr>)"
| plan: "py_spawner s = Counted counts \<Longrightarrow>
     pool_step fc s (s\<lparr>py_spawner := Planned (replenish_plan (py_pool s) counts)\<rparr>)"
| unlock: "py_spawner s = Planned [] \<Longrightarrow> pool_step fc s (s\<lparr>py_spawner := Free\<rparr>)"
| measure: "py_spawner s = Planned ((n, staggered) # rest) \<Longrightarrow> iterates ks (py_pool s) \<Longrightarrow>
     pool_step fc s (s\<lparr>py_spawner := (if n = 0 then Planned rest
       else Measured n staggered (live_connection_count ks (py_pool s)) rest)\<rparr>)"
| schedule: "py_spawner s = Measured n staggered live rest \<Longrightarrow>
     spawn_delays (spawn_count n live (py_pool s)) staggered (py_pool s) = (delays, p) \<Longrightarrow>
     pool_step fc s (s\<lparr>py_spawner := Spawning delays rest, py_pool := p\<rparr>)"
| spawn: "py_spawner s = Spawning (d # delays) rest \<Longrightarrow>
     pool_step fc s (s\<lparr>py_spawner := Spawning delays rest, py_connecting := py_connecting s + 1,
       py_pool := (py_pool s)\<lparr>pl_pending_spawns := pl_pending_spawns (py_pool s) + 1\<rparr>\<rparr>)"
| spawned: "py_spawner s = Spawning [] rest \<Longrightarrow> pool_step fc s (s\<lparr>py_spawner := Planned rest\<rparr>)"
| connected: "0 < py_connecting s \<Longrightarrow> iterates ks (py_pool s) \<Longrightarrow>
     pool_step fc s (s\<lparr>py_connecting := py_connecting s - 1, py_registered := py_registered s + 1,
       py_pool := register_connection fc ks now handle (py_pool s)\<rparr>)"
| settled: "0 < py_registered s \<Longrightarrow>
     pool_step fc s (s\<lparr>py_registered := py_registered s - 1,
       py_pool := (py_pool s)\<lparr>pl_pending_spawns := pl_pending_spawns (py_pool s) - 1\<rparr>\<rparr>)"
| connect_failed: "0 < py_connecting s \<Longrightarrow>
     pool_step fc s (s\<lparr>py_connecting := py_connecting s - 1,
       py_pool := (py_pool s)\<lparr>pl_pending_spawns := pl_pending_spawns (py_pool s) - 1\<rparr>\<rparr>)"
| selected: "iterates ks (py_pool s) \<Longrightarrow>
     pool_step fc s (s\<lparr>py_pool := snd (select_active_connection ks (py_pool s))\<rparr>)"
| open_failed: "i < pl_allocated (py_pool s) \<Longrightarrow>
     pool_step fc s (s\<lparr>py_pool := force_close_connection fc (pc_seq (pl_objects (py_pool s) i)) (py_pool s)\<rparr>)"
| prune: "i < pl_allocated (py_pool s) \<Longrightarrow> pool_step fc s (s\<lparr>py_pool := prune_entry i (py_pool s)\<rparr>)"
| drive: "i < pl_allocated (py_pool s) \<Longrightarrow> drive_entry fc now i (py_idle s) (py_pool s) = (idle, p) \<Longrightarrow>
     pool_step fc s (s\<lparr>py_pool := p, py_idle := idle\<rparr>)"
| retain: "iterates ks (py_pool s) \<Longrightarrow> pool_step fc s (s\<lparr>py_idle := retain_idle ks (py_pool s) (py_idle s)\<rparr>)"
| session: "i < pl_allocated (py_pool s) \<Longrightarrow> c = pl_objects (py_pool s) i \<Longrightarrow>
     (sv_alive v \<longrightarrow> sv_alive (pc_handle c)) \<Longrightarrow>
     pool_step fc s (s\<lparr>py_pool := set_object i (c\<lparr>pc_handle := v\<rparr>) (py_pool s)\<rparr>)"

definition pool_start :: "pool \<Rightarrow> pool_system" where
  "pool_start p = \<lparr>py_pool = p, py_callers = 0, py_connecting = 0, py_registered = 0, py_spawner = Free, py_idle = Map.empty\<rparr>"

section \<open>Capacity\<close>

definition live_set :: "pool \<Rightarrow> u64 set" where
  "live_set p = {seq. \<exists>i. pl_connections p seq = Some i \<and> is_live (pl_objects p i)}"

definition table_ok :: "pool \<Rightarrow> bool" where
  "table_ok p \<longleftrightarrow> finite (dom (pl_connections p)) \<and>
     (\<forall>seq i. pl_connections p seq = Some i \<longrightarrow> i < pl_allocated p \<and> pc_seq (pl_objects p i) = seq)"

lemma length_delays: "length (delays_from b r slot t n) = n"
  by (induction n arbitrary: slot t) (simp_all add: Let_def)

text \<open>How far a connection has come; it never goes back.\<close>

fun stage :: "connection_state \<Rightarrow> nat" where
  "stage Active = 0"
| "stage Draining = 1"
| "stage Closed = 2"

text \<open>A step on the table that neither adds connections nor revives one.\<close>

definition shrinks :: "pool \<Rightarrow> pool \<Rightarrow> bool" where
  "shrinks p p' \<longleftrightarrow> pl_connections p' \<subseteq>\<^sub>m pl_connections p \<and> pl_allocated p' = pl_allocated p \<and>
     pl_max_live_connections p' = pl_max_live_connections p \<and> pl_pending_spawns p' = pl_pending_spawns p \<and>
     pl_acquire_waiters p' = pl_acquire_waiters p \<and>
     (\<forall>i. pc_seq (pl_objects p' i) = pc_seq (pl_objects p i) \<and> stage (pc_state (pl_objects p i)) \<le> stage (pc_state (pl_objects p' i)) \<and>
          (is_live (pl_objects p' i) \<longrightarrow> is_live (pl_objects p i)))"

lemma shrinks_refl [simp]: "shrinks p p" by (simp add: shrinks_def)

lemma shrinks_trans: "shrinks p q \<Longrightarrow> shrinks q r \<Longrightarrow> shrinks p r"
  unfolding shrinks_def by (metis map_le_trans order_trans)

lemma shrinks_table:
  assumes "shrinks p p'" "table_ok p"
  shows "table_ok p'" "card (live_set p') \<le> card (live_set p)"
proof -
  have sub: "dom (pl_connections p') \<subseteq> dom (pl_connections p)" using assms(1) by (simp add: shrinks_def map_le_implies_dom_le)
  have same: "pl_connections p' k = Some i \<Longrightarrow> pl_connections p k = Some i" for k i
    using assms(1) by (force simp: shrinks_def map_le_def)
  show "table_ok p'"
    using assms finite_subset [OF sub] same unfolding table_ok_def shrinks_def by metis
  have "live_set p' \<subseteq> live_set p" using assms(1) same by (auto simp: live_set_def shrinks_def)
  moreover have "finite (live_set p)"
    using assms(2) by (rule_tac finite_subset [of _ "dom (pl_connections p)"]) (auto simp: live_set_def table_ok_def)
  ultimately show "card (live_set p') \<le> card (live_set p)" by (rule card_mono [rotated])
qed

lemma shrinks_set_object:
  assumes "pc_seq c = pc_seq (pl_objects p i)" "stage (pc_state (pl_objects p i)) \<le> stage (pc_state c)"
    "is_live c \<longrightarrow> is_live (pl_objects p i)"
  shows "shrinks p (set_object i c p)"
  using assms by (auto simp: shrinks_def set_object_def)

lemma stage_le: "stage st \<le> 2" by (cases st) simp_all

lemma mark_draining_shrinks: "shrinks p (snd (mark_draining seq p))"
  by (auto simp: mark_draining_def conn_mark_draining_def is_live_def split: option.splits intro!: shrinks_set_object)

lemma remove_shrinks: "shrinks p (snd (remove_connection seq p))"
  by (auto simp: remove_connection_def shrinks_def map_le_def)

lemma force_close_shrinks: "shrinks p (force_close_connection fc seq p)"
proof -
  obtain r p1 where r: "remove_connection seq p = (r, p1)" by (cases "remove_connection seq p")
  have "shrinks p p1" using remove_shrinks [of p seq] r by simp
  moreover have "shrinks p1 (force_close_connection fc seq p)"
    using r by (cases r) (auto simp: force_close_connection_def mark_closed_def is_live_def stage_le Let_def intro!: shrinks_set_object)
  ultimately show ?thesis by (rule shrinks_trans)
qed

lemma prune_shrinks: "shrinks p (prune_entry i p)"
proof -
  have "shrinks p (set_object i (snd (mark_closed (pl_objects p i))) p)"
    by (rule shrinks_set_object) (simp_all add: mark_closed_def is_live_def stage_le)
  then show ?thesis
    using remove_shrinks shrinks_trans by (auto simp: prune_entry_def mark_closed_def Let_def)
qed

lemma drive_shrinks: "drive_entry fc now i idle p = (idle', p') \<Longrightarrow> shrinks p p'"
  using mark_draining_shrinks [of p] force_close_shrinks [of p]
  by (auto simp: drive_entry_def Let_def split: if_splits option.splits connection_state.splits)

lemma select_shrinks: "shrinks p (snd (select_active_connection ks p))"
proof -
  have "shrinks p (set_object i (mark_selected t (pl_objects p i)) (p\<lparr>pl_selection_tick := t\<rparr>))" for i t
    by (auto simp: shrinks_def set_object_def mark_selected_def is_live_def)
  then show ?thesis by (auto simp: select_active_connection_def Let_def split: option.splits)
qed

lemma spawn_delays_shrinks:
  "spawn_delays n st p = (ds, p') \<Longrightarrow> shrinks p p' \<and> length ds = n"
  by (auto simp: spawn_delays_def shrinks_def staggered_delays_def length_delays split: if_splits)

lemma count_filter:
  "distinct ks \<Longrightarrow> length (filter P (List.map_filter f ks)) = card {k \<in> set ks. \<exists>i. f k = Some i \<and> P i}"
proof (induction ks)
  case (Cons k ks)
  have "{x \<in> set (k # ks). \<exists>i. f x = Some i \<and> P i} =
      (if \<exists>i. f k = Some i \<and> P i then insert k {x \<in> set ks. \<exists>i. f x = Some i \<and> P i} else {x \<in> set ks. \<exists>i. f x = Some i \<and> P i})"
    by auto
  then show ?case using Cons by (auto simp: map_filter_simps split: option.splits)
qed (simp add: map_filter_simps)

lemma live_count:
  assumes "iterates ks p"
  shows "live_connection_count ks p = card (live_set p)"
proof -
  have "{k \<in> set ks. \<exists>i. pl_connections p k = Some i \<and> is_live (pl_objects p i)} = live_set p"
    using assms by (auto simp: iterates_def live_set_def)
  then show ?thesis
    using assms count_filter [of ks "\<lambda>i. is_live (pl_objects p i)" "pl_connections p"]
    by (simp add: live_connection_count_def entries_def iterates_def)
qed

lemma register_capacity:
  assumes "table_ok p" "iterates ks p" "card (live_set p) \<le> pl_max_live_connections p"
    and p'_def: "p' = register_connection fc ks now handle p"
  shows "table_ok p'" "card (live_set p') \<le> pl_max_live_connections p'"
    "pl_max_live_connections p' = pl_max_live_connections p" "pl_pending_spawns p' = pl_pending_spawns p"
    "pl_acquire_waiters p' = pl_acquire_waiters p"
    "i < pl_allocated p \<Longrightarrow> i < pl_allocated p' \<and> pl_objects p' i = pl_objects p i"
proof -
  let ?i = "pl_allocated p" and ?seq = "pl_next_seq p" and ?lc = "lifecycle (pl_behavior p)"
  define c where "c = \<lparr>pc_seq = ?seq, pc_handle = handle, pc_state = Active, pc_soft_ttl = lc_soft_ttl ?lc,
      pc_idle_timeout = lc_idle_timeout ?lc, pc_created_at = now, pc_last_selected_tick = 0\<rparr>"
  define p1 where "p1 = set_object ?i c (p\<lparr>pl_next_seq := ?seq + 1, pl_allocated := ?i + 1\<rparr>)"
  have p1: "pl_connections p1 = pl_connections p" "pl_allocated p1 = ?i + 1" "pl_max_live_connections p1 = pl_max_live_connections p"
      "pl_pending_spawns p1 = pl_pending_spawns p" "pl_acquire_waiters p1 = pl_acquire_waiters p"
      "pl_objects p1 = (pl_objects p)(?i := c)"
    by (simp_all add: p1_def set_object_def)
  have fresh: "pl_connections p k = Some j \<Longrightarrow> j \<noteq> ?i" for k j using assms(1) by (auto simp: table_ok_def)
  have ok1: "table_ok p1" using assms(1) fresh by (force simp: table_ok_def p1)
  have live1: "live_set p1 = live_set p" using fresh by (force simp: live_set_def p1)
  have it1: "iterates ks p1" using assms(2) by (simp add: iterates_def p1)
  have p': "p' = (if card (live_set p) \<ge> pl_max_live_connections p
      then set_object ?i (c\<lparr>pc_handle := fc handle\<rparr>) p1 else p1\<lparr>pl_connections := (pl_connections p1)(?seq \<mapsto> ?i)\<rparr>)"
    unfolding p'_def register_connection_def Let_def c_def [symmetric] p1_def [symmetric] live_count [OF it1] live1 p1(3) by simp
  show "pl_max_live_connections p' = pl_max_live_connections p" "pl_pending_spawns p' = pl_pending_spawns p"
      "pl_acquire_waiters p' = pl_acquire_waiters p"
    by (simp_all add: p' p1 set_object_def)
  show "i < pl_allocated p \<Longrightarrow> i < pl_allocated p' \<and> pl_objects p' i = pl_objects p i"
    by (simp add: p' p1 set_object_def)
  have fin: "finite (live_set p)"
    using assms(1) by (rule_tac finite_subset [of _ "dom (pl_connections p)"]) (auto simp: live_set_def table_ok_def)
  show "table_ok p'" "card (live_set p') \<le> pl_max_live_connections p'"
  proof (atomize (full), cases "card (live_set p) \<ge> pl_max_live_connections p")
    case True
    have "live_set p' = live_set p" using True fresh by (force simp: p' live_set_def set_object_def p1)
    moreover have "table_ok p'" using True ok1 fresh by (force simp: p' table_ok_def set_object_def p1)
    ultimately show "table_ok p' \<and> card (live_set p') \<le> pl_max_live_connections p'" using assms(3) True by (simp add: p' set_object_def p1)
  next
    case False
    have "live_set p' \<subseteq> insert ?seq (live_set p)" using False fresh by (force simp: p' live_set_def p1 split: if_splits)
    then have "card (live_set p') \<le> Suc (card (live_set p))" 
      using fin card_mono [of "insert ?seq (live_set p)" "live_set p'"] card_insert_le_m1 [of "Suc (card (live_set p))" "live_set p" ?seq] by simp
    moreover have "table_ok p'" using False ok1 by (auto simp: p' table_ok_def p1 c_def)
    ultimately show "table_ok p' \<and> card (live_set p') \<le> pl_max_live_connections p'" using False by (simp add: p' p1)
  qed
qed

definition spawning :: "spawner \<Rightarrow> nat" where
  "spawning sp = (case sp of Spawning ds _ \<Rightarrow> length ds | _ \<Rightarrow> 0)"

definition pool_inv :: "pool_system \<Rightarrow> bool" where
  "pool_inv s \<longleftrightarrow> table_ok (py_pool s) \<and> card (live_set (py_pool s)) \<le> pl_max_live_connections (py_pool s) \<and>
     pl_pending_spawns (py_pool s) = py_connecting s + py_registered s \<and>
     pl_pending_spawns (py_pool s) + spawning (py_spawner s) \<le> pl_max_live_connections (py_pool s) \<and>
     pl_acquire_waiters (py_pool s) = py_callers s"

lemma pool_inv_shrinks:
  assumes "pool_inv s" "shrinks (py_pool s) p" "spawning sp \<le> spawning (py_spawner s)"
  shows "pool_inv (s\<lparr>py_pool := p, py_spawner := sp, py_idle := idle\<rparr>)"
  using assms shrinks_table [OF assms(2)] by (auto simp: pool_inv_def shrinks_def)

lemma pool_inv_counters:
  assumes "pool_inv s" "pl_connections p = pl_connections (py_pool s)" "pl_objects p = pl_objects (py_pool s)"
    "pl_allocated p = pl_allocated (py_pool s)" "pl_max_live_connections p = pl_max_live_connections (py_pool s)"
    "pl_pending_spawns p = n + m" "pl_pending_spawns p + spawning sp \<le> pl_max_live_connections p" "pl_acquire_waiters p = callers"
  shows "pool_inv (s\<lparr>py_pool := p, py_spawner := sp, py_connecting := n, py_registered := m, py_callers := callers\<rparr>)"
  using assms by (simp add: pool_inv_def table_ok_def live_set_def)

lemma pool_step_inv: "pool_step fc s s' \<Longrightarrow> pool_inv s \<Longrightarrow> pool_inv s'"
proof (induction rule: pool_step.induct)
  case (schedule s n staggered live rest delays p)
  have sh: "shrinks (py_pool s) p" "length delays = spawn_count n live (py_pool s)"
    using spawn_delays_shrinks [OF schedule(2)] by simp_all
  then show ?case
    using schedule(3) shrinks_table [OF sh(1)] by (auto simp: pool_inv_def shrinks_def spawning_def spawn_count_def)
next
  case (connected s ks now handle)
  then show ?case
    using register_capacity [OF _ connected(2) _ refl] by (auto simp: pool_inv_def)
next
  case (selected ks s)
  then show ?case using pool_inv_shrinks [OF selected(2) select_shrinks order_refl, where idle = "py_idle s"] by simp
next
  case (open_failed i s)
  then show ?case using pool_inv_shrinks [OF open_failed(2) force_close_shrinks order_refl, where idle = "py_idle s"] by simp
next
  case (prune i s)
  then show ?case using pool_inv_shrinks [OF prune(2) prune_shrinks order_refl, where idle = "py_idle s"] by simp
next
  case (drive i s now idle p)
  then show ?case using pool_inv_shrinks [OF drive(3) drive_shrinks [OF drive(2)] order_refl, where idle = idle] by simp
next
  case (session i s c v)
  have "shrinks (py_pool s) (set_object i (c\<lparr>pc_handle := v\<rparr>) (py_pool s))"
    using session by (intro shrinks_set_object) (auto simp: is_live_def)
  then show ?case using pool_inv_shrinks [OF session(4) _ order_refl, where idle = "py_idle s"] by simp
qed (auto simp: pool_inv_def table_ok_def live_set_def spawning_def)

lemma pool_new_inv: "pool_inv (pool_start (ClientPool_new n b r))"
  by (simp add: pool_inv_def pool_start_def ClientPool_new_def table_ok_def live_set_def spawning_def)

lemma pool_reach_inv: "(pool_step fc)\<^sup>*\<^sup>* s s' \<Longrightarrow> pool_inv s \<Longrightarrow> pool_inv s'"
  by (induction rule: rtranclp_induct) (auto intro: pool_step_inv)

section \<open>Selection\<close>

lemma entries_set: "iterates ks p \<Longrightarrow> set (entries ks p) = ran (pl_connections p)"
proof -
  have "set (List.map_filter f ks) = {i. \<exists>k\<in>set ks. f k = Some i}" for f :: "u64 \<rightharpoonup> nat"
    by (induction ks) (auto simp: map_filter_simps split: option.splits)
  then show "iterates ks p \<Longrightarrow> ?thesis" by (auto simp: entries_def iterates_def ran_def)
qed

definition pick :: "(nat \<Rightarrow> bool) \<Rightarrow> (nat \<Rightarrow> 'a::linorder) \<Rightarrow> (nat \<times> 'a) option \<Rightarrow> nat \<Rightarrow> (nat \<times> 'a) option" where
  "pick P f best i =
     (if \<not> P i then best
      else case best of Some (_, b) \<Rightarrow> if f i \<ge> b then best else Some (i, f i) | None \<Rightarrow> Some (i, f i))"

lemma better_pick: "better p = pick (\<lambda>i. is_selectable (pl_max_streams_per_session p) (pl_objects p i)) (\<lambda>i. score (pl_objects p i))"
  by (intro ext) (simp add: better_def pick_def Let_def)

lemma foldl_pick_some:
  "\<exists>i. foldl (pick P f) (Some (j, f j)) xs = Some (i, f i) \<and> (i = j \<or> i \<in> set xs \<and> P i) \<and> f i \<le> f j \<and>
     (\<forall>k\<in>set xs. P k \<longrightarrow> f i \<le> f k)"
proof (induction xs arbitrary: j)
  case (Cons x xs)
  show ?case
  proof (cases "P x \<and> f x < f j")
    case True
    then have "pick P f (Some (j, f j)) x = Some (x, f x)" by (auto simp: pick_def)
    then show ?thesis using Cons.IH [of x] True by fastforce
  next
    case False
    then have "pick P f (Some (j, f j)) x = Some (j, f j)" by (auto simp: pick_def)
    then show ?thesis using Cons.IH [of j] False by fastforce
  qed
qed simp

lemma foldl_pick:
  "case foldl (pick P f) None xs of
     None \<Rightarrow> \<forall>k\<in>set xs. \<not> P k
   | Some (i, b) \<Rightarrow> b = f i \<and> i \<in> set xs \<and> P i \<and> (\<forall>k\<in>set xs. P k \<longrightarrow> f i \<le> f k)"
proof (induction xs)
  case (Cons x xs)
  show ?case
  proof (cases "P x")
    case True
    then have "pick P f None x = Some (x, f x)" by (simp add: pick_def)
    then show ?thesis using foldl_pick_some [of P f x xs] True by auto
  next
    case False
    then have "pick P f None x = None" by (simp add: pick_def)
    then show ?thesis using Cons.IH False by (auto split: option.splits)
  qed
qed simp


definition demo_behavior :: pool_behavior_config where
  "demo_behavior = from_psk [1] [2]"

definition demo_resolved :: resolved_pool_behavior where
  "demo_resolved = \<lparr>rb_seed = 0, rb_target_pool_size = 4, rb_initial_connection_count = 1, rb_spawn_cluster_len = 2\<rparr>"

definition demo_view :: session_view where
  "demo_view = \<lparr>sv_active_streams = 3, sv_buffered_stream_bytes = 0, sv_alive = True, sv_closing = False\<rparr>"

definition demo_pool :: pool where
  "demo_pool = register_connection id [] 0 demo_view (ClientPool_new 256 demo_behavior demo_resolved)"

lemma demo_pool_table: "pl_connections demo_pool = [1 \<mapsto> 0]" "pl_allocated demo_pool = 1" "pl_max_streams_per_session demo_pool = 256"
    "pc_seq (pl_objects demo_pool 0) = 1" "pc_state (pl_objects demo_pool 0) = Active" "pc_handle (pl_objects demo_pool 0) = demo_view"
  by (simp_all add: demo_pool_def register_connection_def ClientPool_new_def demo_resolved_def live_connection_count_def
      entries_def set_object_def Let_def map_filter_simps)


section \<open>Properties of the tasks\<close>

text \<open>C12: The pool keeps its capacity in every interleaving of its tasks: callers that come and go, the holder of
  the spawn lock between its steps, connections that succeed or fail, the monitor, and sessions that die. At most
  \<^verbatim>\<open>max_live_connections\<close> connections of the table are live and at most as many are being
  established. The pending count is exactly the number of tasks that have not finished and the waiter count is the number
  of callers, so neither counter can wrap below zero. A connection
  never leaves \<^verbatim>\<open>Draining\<close> or \<^verbatim>\<open>Closed\<close> for an earlier state.\<close>

theorem pool_capacity_kept:
  assumes "(pool_step fc)\<^sup>*\<^sup>* (pool_start (ClientPool_new n b r)) s"
  shows "card (live_set (py_pool s)) \<le> pl_max_live_connections (py_pool s) \<and>
    pl_pending_spawns (py_pool s) \<le> pl_max_live_connections (py_pool s) \<and>
    pl_pending_spawns (py_pool s) = py_connecting s + py_registered s \<and>
    pl_acquire_waiters (py_pool s) = py_callers s \<and>
    (pool_step fc s s' \<and> i < pl_allocated (py_pool s) \<longrightarrow>
       stage (pc_state (pl_objects (py_pool s) i)) \<le> stage (pc_state (pl_objects (py_pool s') i)))"
proof -
  have inv: "pool_inv s" using pool_reach_inv [OF assms pool_new_inv] .
  have "stage (pc_state (pl_objects (py_pool s) i)) \<le> stage (pc_state (pl_objects (py_pool s') i))"
    if "pool_step fc s s'" "i < pl_allocated (py_pool s)"
    using that inv
  proof (induction rule: pool_step.induct)
    case (connected s ks now handle)
    then show ?case
      using register_capacity(6) [OF _ connected(2) _ refl, of i fc now handle] by (auto simp: pool_inv_def)
  next
    case (schedule s n staggered live rest delays p)
    then show ?case using spawn_delays_shrinks [OF schedule(2)] by (simp add: shrinks_def)
  next
    case (selected ks s)
    then show ?case using select_shrinks [of "py_pool s" ks] by (simp add: shrinks_def)
  next
    case (open_failed j s)
    then show ?case using force_close_shrinks [of "py_pool s" fc] by (simp add: shrinks_def)
  next
    case (prune j s)
    then show ?case using prune_shrinks [of "py_pool s" j] by (simp add: shrinks_def)
  next
    case (drive j s now idle p)
    then show ?case using drive_shrinks [OF drive(2)] by (simp add: shrinks_def)
  qed (auto simp: set_object_def)
  then show ?thesis using inv by (auto simp: pool_inv_def)
qed

theorem pool_capacity_kept_witness:
  "\<exists>s. (pool_step id)\<^sup>*\<^sup>* (pool_start (ClientPool_new 256 demo_behavior demo_resolved)) s \<and>
     pl_acquire_waiters (py_pool s) = 1 \<and> py_callers s = 1 \<and> card (live_set (py_pool s)) \<le> 5"
proof -
  let ?s = "pool_start (ClientPool_new 256 demo_behavior demo_resolved)"
  define t where "t = ?s\<lparr>py_callers := py_callers ?s + 1, py_pool := (py_pool ?s)\<lparr>pl_acquire_waiters := pl_acquire_waiters (py_pool ?s) + 1\<rparr>\<rparr>"
  have r: "(pool_step id)\<^sup>*\<^sup>* ?s t" unfolding t_def by (rule r_into_rtranclp) (rule acquire_begin)
  have "pl_max_live_connections (py_pool t) = 5" "py_callers t = 1"
    by (simp_all add: t_def pool_start_def ClientPool_new_def demo_resolved_def)
  then show ?thesis using pool_capacity_kept [OF r, where s' = t and i = 0] r by (intro exI [of _ t]) simp
qed

text \<open>The monitor never tears down a connection in use: an entry that is live, not closing and has streams
  stays in the table and is at most set to draining.\<close>

lemma recycling_spares_streams:
  assumes "is_live (pl_objects p i)" "\<not> sv_closing (pc_handle (pl_objects p i))" "0 < sv_active_streams (pc_handle (pl_objects p i))"
    and "table_ok p" "drive_entry fc now i idle p = (idle', p')"
  shows "pl_connections p' = pl_connections p" "pc_state (pl_objects p' i) \<noteq> Closed" "pc_handle (pl_objects p' i) = pc_handle (pl_objects p i)"
proof -
  have live: "pc_state (pl_objects p i) \<noteq> Closed" using assms(1) by (simp add: is_live_def)
  let ?q = "snd (mark_draining (pc_seq (pl_objects p i)) p)"
  have d: "p' = p \<or> p' = ?q"
    using assms(5) live assms(1-3) by (auto simp: drive_entry_def Let_def split: if_splits connection_state.splits option.splits)
  have "pl_connections ?q = pl_connections p" "pc_state (pl_objects ?q i) \<noteq> Closed" "pc_handle (pl_objects ?q i) = pc_handle (pl_objects p i)"
    using live by (auto simp: mark_draining_def conn_mark_draining_def set_object_def split: option.splits)
  then show "pl_connections p' = pl_connections p" "pc_state (pl_objects p' i) \<noteq> Closed" "pc_handle (pl_objects p' i) = pc_handle (pl_objects p i)"
    using d live by auto
qed

text \<open>The demand of connections is the number of streams divided by the limit of a connection, rounded up; a
  rule that asks for one more connection when all are full adds nothing to it.\<close>

lemma desired_covers_demand:
  assumes "0 < waiters" "0 < active"
  shows "desired_active_connection_count p waiters active streams =
      min (pl_target_pool_size p) (LEAST n. waiters + streams \<le> n * streams_per_connection_target p)"
    and "active * streams_per_connection_target p \<le> streams \<Longrightarrow>
      min (pl_target_pool_size p) (active + 1) \<le> desired_active_connection_count p waiters active streams"
proof -
  let ?t = "streams_per_connection_target p" and ?d = "waiters + streams"
  have t: "0 < ?t" by (simp add: streams_per_connection_target_def)
  have le: "?d \<le> n * ?t \<longleftrightarrow> (?d + (?t - 1)) div ?t \<le> n" for n
  proof -
    have "(?d + (?t - 1)) div ?t < Suc n \<longleftrightarrow> ?d + (?t - 1) < Suc n * ?t" by (rule div_less_iff_less_mult [OF t])
    then show ?thesis using t by auto
  qed
  have least: "(LEAST n. ?d \<le> n * ?t) = (?d + (?t - 1)) div ?t"
    by (rule Least_equality) (use le in auto)
  show eq: "desired_active_connection_count p waiters active streams = min (pl_target_pool_size p) (LEAST n. ?d \<le> n * ?t)"
  proof -
    have "max ?d 1 = ?d" using assms(1) by simp
    then show ?thesis unfolding least using assms by (simp add: desired_active_connection_count_def Let_def min.commute)
  qed
  show "min (pl_target_pool_size p) (active + 1) \<le> desired_active_connection_count p waiters active streams" if "active * ?t \<le> streams"
  proof -
    have "\<not> ?d \<le> active * ?t" using that assms(1) by linarith
    then show ?thesis unfolding eq least using le [of active] by auto
  qed
qed

end
