(* ===== verification/Camouflage.thy ===== *)
theory Camouflage
  imports Fingerprint Frame
begin

text \<open>
  The synthetic TLS flight with which the server answers an authenticated client
  (\<^verbatim>\<open>crates/tunnel/src/server/camouflage.rs\<close>) and its reading by the client
  (\<^verbatim>\<open>crates/tunnel/src/client.rs\<close>). Profiles of a real web server are sanitised, pooled, merged and sampled; the flight
  replays their ServerHello with a fresh random, key share and session id, and hides the Noise
  response among records of the recorded sizes. Random bytes are given by a function, key
  generation and the Noise handshake state by arguments: \<^term>\<open>noise_write\<close> is the responder's second message for a
  payload, \<^term>\<open>noise_read\<close> the initiator's reading of a message, which leaves its state unchanged when it fails.
\<close>

section \<open>Profiles\<close>

definition MAX_CAMOUFLAGE_PROFILE_VARIANTS :: nat where "MAX_CAMOUFLAGE_PROFILE_VARIANTS = 4"
definition MAX_CAMOUFLAGE_APP_DATA_RECORDS :: nat where "MAX_CAMOUFLAGE_APP_DATA_RECORDS = 256"
definition MAX_CAMOUFLAGE_PREFIX_APP_DATA_RECORDS :: nat where "MAX_CAMOUFLAGE_PREFIX_APP_DATA_RECORDS = 4"
definition MIN_CAMOUFLAGE_APP_DATA_RECORD_LEN :: nat where "MIN_CAMOUFLAGE_APP_DATA_RECORD_LEN = 17"
definition MAX_CAMOUFLAGE_APP_DATA_RECORD_LEN :: nat where "MAX_CAMOUFLAGE_APP_DATA_RECORD_LEN = 16401"
definition SIGNIFICANT_REPLAY_GAP_US :: nat where "SIGNIFICANT_REPLAY_GAP_US = 5000"
definition NOISE_RESPONSE_OVERHEAD_LEN :: nat where "NOISE_RESPONSE_OVERHEAD_LEN = 48"
definition HANDSHAKE_CONTROL_MAGIC :: bytes where "HANDSHAKE_CONTROL_MAGIC = ascii ''KTL1''"
definition HANDSHAKE_CONTROL_LEN :: nat where "HANDSHAKE_CONTROL_LEN = 6"
definition MIN_NOISE_RESPONSE_RECORD_LEN :: nat where
  "MIN_NOISE_RESPONSE_RECORD_LEN = NOISE_RESPONSE_OVERHEAD_LEN + HANDSHAKE_CONTROL_LEN"
definition TLS12_DOWNGRADE_SENTINEL :: bytes where "TLS12_DOWNGRADE_SENTINEL = [0x44, 0x4F, 0x57, 0x4E, 0x47, 0x52, 0x44, 0x01]"
definition TLS11_DOWNGRADE_SENTINEL :: bytes where "TLS11_DOWNGRADE_SENTINEL = [0x44, 0x4F, 0x57, 0x4E, 0x47, 0x52, 0x44, 0x00]"
definition HELLO_RETRY_REQUEST_RANDOM :: bytes where
  "HELLO_RETRY_REQUEST_RANDOM =
    [0xcf, 0x21, 0xad, 0x74, 0xe5, 0x9a, 0x61, 0x11, 0xbe, 0x1d, 0x8c, 0x02, 0x1e, 0x65, 0xb8, 0x91,
     0xc2, 0xa2, 0x11, 0x16, 0x7a, 0xbb, 0x8c, 0x5e, 0x07, 0x9e, 0x09, 0xe2, 0xc8, 0xa8, 0x33, 0x9c]"

lemmas camouflage_const_defs = MAX_CAMOUFLAGE_PROFILE_VARIANTS_def MAX_CAMOUFLAGE_APP_DATA_RECORDS_def
  MAX_CAMOUFLAGE_PREFIX_APP_DATA_RECORDS_def MIN_CAMOUFLAGE_APP_DATA_RECORD_LEN_def MAX_CAMOUFLAGE_APP_DATA_RECORD_LEN_def
  NOISE_RESPONSE_OVERHEAD_LEN_def HANDSHAKE_CONTROL_LEN_def MIN_NOISE_RESPONSE_RECORD_LEN_def

record camouflage_profile =
  cp_server_records :: bytes
  cp_prefix_app_data_sizes :: "nat list"
  cp_app_data_sizes :: "nat list"
  cp_first_app_data_size :: "nat option"
  cp_early_app_data_count :: nat
  cp_has_ccs :: bool
  cp_visible_server_record_count :: u16
  cp_first_app_data_delay_us :: nat
  cp_early_app_data_gap_us :: "nat list"

record pooled_profile =
  pp_profile :: camouflage_profile
  pp_fetched_at :: nat

definition record_size_ok :: "nat \<Rightarrow> bool" where
  "record_size_ok n \<longleftrightarrow> MIN_CAMOUFLAGE_APP_DATA_RECORD_LEN \<le> n \<and> n \<le> MAX_CAMOUFLAGE_APP_DATA_RECORD_LEN"

definition sanitize_camouflage_profile :: "camouflage_profile \<Rightarrow> camouflage_profile" where
  "sanitize_camouflage_profile p =
     (let prefix = take MAX_CAMOUFLAGE_PREFIX_APP_DATA_RECORDS (filter record_size_ok (cp_prefix_app_data_sizes p));
          sizes = take MAX_CAMOUFLAGE_APP_DATA_RECORDS (filter record_size_ok (cp_app_data_sizes p)) in
      p\<lparr>cp_prefix_app_data_sizes := prefix, cp_app_data_sizes := sizes,
        cp_first_app_data_size := (case sizes of [] \<Rightarrow> None | x # _ \<Rightarrow> Some x),
        cp_early_app_data_count := min (length sizes) 255,
        cp_early_app_data_gap_us := take (length sizes - 1) (cp_early_app_data_gap_us p)\<rparr>)"

definition merge_camouflage_profile :: "camouflage_profile \<Rightarrow> camouflage_profile \<Rightarrow> camouflage_profile" where
  "merge_camouflage_profile cached sampled0 =
     (let s = sanitize_camouflage_profile sampled0;
          c1 = (if cp_server_records s \<noteq> []
                then cached\<lparr>cp_server_records := cp_server_records s,
                       cp_visible_server_record_count := cp_visible_server_record_count s, cp_has_ccs := cp_has_ccs s\<rparr>
                else cached);
          c2 = (if cp_prefix_app_data_sizes s \<noteq> [] \<or> cp_app_data_sizes s \<noteq> []
                then
                  let d1 = c1\<lparr>cp_prefix_app_data_sizes := cp_prefix_app_data_sizes s\<rparr>;
                      d2 = (if length (cp_app_data_sizes s) \<le> 1 \<and> length (cp_app_data_sizes d1) > 1
                            then (case cp_app_data_sizes s of
                                    [] \<Rightarrow> d1
                                  | first # _ \<Rightarrow> d1\<lparr>cp_app_data_sizes := (cp_app_data_sizes d1)[0 := first]\<rparr>)
                            else d1\<lparr>cp_app_data_sizes := cp_app_data_sizes s,
                                   cp_early_app_data_gap_us := cp_early_app_data_gap_us s\<rparr>)
                  in d2\<lparr>cp_first_app_data_delay_us := cp_first_app_data_delay_us s\<rparr>
                else c1)
      in sanitize_camouflage_profile c2)"

definition camouflage_profile_rank :: "camouflage_profile \<Rightarrow> nat" where
  "camouflage_profile_rank p =
     (if cp_server_records p = [] then (if cp_app_data_sizes p = [] then 0 else 1)
      else if length (cp_app_data_sizes p) \<le> 1 then 2 else 3)"

definition is_complete_camouflage_profile :: "camouflage_profile \<Rightarrow> bool" where
  "is_complete_camouflage_profile p \<longleftrightarrow> camouflage_profile_rank p = 3"

definition pick_best_camouflage_profile :: "camouflage_profile list \<Rightarrow> camouflage_profile option" where
  "pick_best_camouflage_profile cs =
     fst (foldl (\<lambda>(best, best_rank) c.
            let rank = camouflage_profile_rank c in if rank > best_rank then (Some c, rank) else (best, best_rank))
          (None, 0) cs)"

definition pick_refresh_base_profile :: "camouflage_profile option \<Rightarrow> camouflage_profile option \<Rightarrow> camouflage_profile option" where
  "pick_refresh_base_profile specific family =
     pick_best_camouflage_profile (concat (map (\<lambda>c. case c of None \<Rightarrow> [] | Some p \<Rightarrow> [p]) [specific, family]))"

definition sample_camouflage_profile :: "nat \<Rightarrow> pooled_profile list \<Rightarrow> camouflage_profile option" where
  "sample_camouflage_profile draw profiles =
     (if profiles = [] then None
      else
        let ranks = map (\<lambda>e. camouflage_profile_rank (pp_profile e)) profiles; max_rank = Max (set ranks) in
        if max_rank = 0 then None
        else
          let usable = filter (\<lambda>e. camouflage_profile_rank (pp_profile e) = max_rank) profiles
          in Some (sanitize_camouflage_profile (pp_profile (usable ! (draw mod length usable)))))"

definition same_variant :: "camouflage_profile \<Rightarrow> camouflage_profile \<Rightarrow> bool" where
  "same_variant a b \<longleftrightarrow> cp_server_records a = cp_server_records b \<and>
     cp_prefix_app_data_sizes a = cp_prefix_app_data_sizes b \<and> cp_app_data_sizes a = cp_app_data_sizes b \<and>
     cp_early_app_data_gap_us a = cp_early_app_data_gap_us b \<and>
     cp_first_app_data_delay_us a = cp_first_app_data_delay_us b \<and> cp_has_ccs a = cp_has_ccs b"

text \<open>The index of the entry fetched first; the earlier one among equals.\<close>

fun oldest_idx :: "pooled_profile list \<Rightarrow> nat" where
  "oldest_idx [] = 0"
| "oldest_idx [e] = 0"
| "oldest_idx (e # es) = (let i = oldest_idx es in if pp_fetched_at (es ! i) < pp_fetched_at e then Suc i else 0)"

definition remove_at :: "nat \<Rightarrow> 'a list \<Rightarrow> 'a list" where
  "remove_at i xs = take i xs @ drop (Suc i) xs"

fun replace_first :: "('a \<Rightarrow> bool) \<Rightarrow> 'a \<Rightarrow> 'a list \<Rightarrow> 'a list option" where
  "replace_first P y [] = None"
| "replace_first P y (x # xs) = (if P x then Some (y # xs) else map_option ((#) x) (replace_first P y xs))"

definition push_profile_variant :: "nat \<Rightarrow> pooled_profile list \<Rightarrow> camouflage_profile \<Rightarrow> pooled_profile list" where
  "push_profile_variant now profiles p0 =
     (let p = sanitize_camouflage_profile p0; entry = \<lparr>pp_profile = p, pp_fetched_at = now\<rparr> in
      case replace_first (\<lambda>e. same_variant (pp_profile e) p) entry profiles of
        Some profiles' \<Rightarrow> profiles'
      | None \<Rightarrow>
          let profiles' = profiles @ [entry] in
          if length profiles' > MAX_CAMOUFLAGE_PROFILE_VARIANTS then remove_at (oldest_idx profiles') profiles' else profiles')"

definition sanitize_waste_record_sizes :: "nat list \<Rightarrow> nat list" where
  "sanitize_waste_record_sizes sizes = filter record_size_ok sizes"

definition fallback_noise_response_record_len :: "nat list \<Rightarrow> nat" where
  "fallback_noise_response_record_len sizes =
     (if sizes \<noteq> [] \<and> Max (set sizes) \<ge> MIN_NOISE_RESPONSE_RECORD_LEN
      then min (Max (set sizes)) MAX_CAMOUFLAGE_APP_DATA_RECORD_LEN
      else MIN_NOISE_RESPONSE_RECORD_LEN)"

section \<open>The replayed ServerHello\<close>

definition is_hello_retry_request :: "bytes \<Rightarrow> bool" where
  "is_hello_retry_request r \<longleftrightarrow> is_server_hello r \<and> \<not> length r < 43 \<and> take 32 (drop 11 r) = HELLO_RETRY_REQUEST_RANDOM"

definition extract_client_hello_session_id :: "bytes \<Rightarrow> bytes option" where
  "extract_client_hello_session_id ch =
     (case client_hello_random_and_session_id_ranges ch of
        None \<Rightarrow> None
      | Some (_, (a, b)) \<Rightarrow> Some (take (b - a) (drop a ch)))"

function session_id_echo_loop :: "bytes \<Rightarrow> bytes \<Rightarrow> nat \<Rightarrow> bytes option" where
  "session_id_echo_loop rs sid offset =
     (if offset + 5 \<le> length rs
      then
        let rec_len = unat (u16_at rs (offset + 3)); record_total = 5 + rec_len in
        if offset + record_total > length rs then None
        else if rs ! offset = 0x16 \<and> rec_len > 0 \<and> rs ! (offset + 5) = 0x02
        then
          let len_offset = offset + 43 in
          if len_offset \<ge> offset + record_total then None
          else
            let echo_len = unat (rs ! len_offset); echo_start = len_offset + 1; echo_end = echo_start + echo_len in
            if echo_end > offset + record_total then None
            else if length sid \<noteq> echo_len then None
            else Some (copy_at rs echo_start sid)
        else session_id_echo_loop rs sid (offset + record_total)
      else None)"
  by pat_completeness auto
termination by (relation "measure (\<lambda>(rs, sid, offset). length rs - offset)") auto

definition patch_server_hello_session_id_echo :: "bytes \<Rightarrow> bytes \<Rightarrow> bytes option" where
  "patch_server_hello_session_id_echo rs sid = session_id_echo_loop rs sid 0"

text \<open>\<^verbatim>\<open>patch_server_hello_random\<close>; the draw is the list of 32 fresh bytes for the record at an offset.\<close>

definition random_step :: "(nat \<Rightarrow> bytes) \<Rightarrow> bytes \<Rightarrow> nat \<Rightarrow> (bytes \<times> nat) option" where
  "random_step fresh rs offset =
     (if offset + 5 \<le> length rs
      then
        let rec_len = unat (u16_at rs (offset + 3)); record_total = 5 + rec_len in
        if offset + record_total > length rs then None
        else if rs ! offset = 0x16 \<and> rec_len > 0 \<and> rs ! (offset + 5) = 0x02
        then
          let random_start = offset + 11 in
          if random_start + 32 > offset + record_total then None
          else if take 32 (drop random_start rs) = HELLO_RETRY_REQUEST_RANDOM then Some (rs, offset + record_total)
          else
            let last8 = take 8 (drop (random_start + 24) rs);
                n = (if last8 = TLS12_DOWNGRADE_SENTINEL \<or> last8 = TLS11_DOWNGRADE_SENTINEL then 24 else 32)
            in Some (copy_at rs random_start (take n (fresh offset)), offset + record_total)
        else Some (rs, offset + record_total)
      else None)"

lemma random_step_moves:
  assumes "random_step fresh rs offset = Some (rs', offset')"
  shows "length rs' = length rs" "offset < offset'" "offset' \<le> length rs"
proof -
  have "length (copy_at rs (offset + 11) (take n (fresh offset))) = length rs" if "offset + 43 \<le> length rs" "n \<le> 32" for n
    using that by (simp add: length_copy_at)
  then show "length rs' = length rs" "offset < offset'" "offset' \<le> length rs"
    using assms by (auto simp: random_step_def Let_def split: if_splits)
qed

lemma random_step_measure: "random_step fresh rs offset = Some (rs', offset') \<Longrightarrow> length rs' - offset' < length rs - offset"
  using random_step_moves [of fresh rs offset rs' offset'] by simp

function random_loop :: "(nat \<Rightarrow> bytes) \<Rightarrow> bytes \<Rightarrow> nat \<Rightarrow> bytes" where
  "random_loop fresh rs offset =
     (case random_step fresh rs offset of
        None \<Rightarrow> rs
      | Some (rs', offset') \<Rightarrow> random_loop fresh rs' offset')"
  by pat_completeness auto
termination
  by (relation "measure (\<lambda>(fresh, rs, offset). length rs - offset)") (auto dest: random_step_measure)

declare random_loop.simps [simp del] session_id_echo_loop.simps [simp del]

definition patch_server_hello_random :: "(nat \<Rightarrow> bytes) \<Rightarrow> bytes \<Rightarrow> bytes" where
  "patch_server_hello_random fresh rs = random_loop fresh rs 0"

text \<open>The key generators of \<^verbatim>\<open>ring\<close> are arguments and may fail.\<close>

definition patch_server_hello_key_share ::
  "bytes option \<Rightarrow> bytes option \<Rightarrow> bytes \<Rightarrow> bytes \<Rightarrow> bytes option" where
  "patch_server_hello_key_share x25519 p256 ciphertext rs =
     (case server_hello_key_share_range rs of
        None \<Rightarrow> None
      | Some (g, (a, b)) \<Rightarrow>
          let n = b - a in
          if g = 0x001D \<and> n = 32 then map_option (copy_at rs a) x25519
          else if g = 0x0017 \<and> n = 65 then map_option (copy_at rs a) p256
          else if g = 0x11EC \<and> n = 1088 + 32 then map_option (copy_at (copy_at rs a (take 1088 ciphertext)) (a + 1088)) x25519
          else None)"

section \<open>The flight of the server\<close>

definition make_control_payload :: "u16 \<Rightarrow> bytes" where
  "make_control_payload ghost_count = HANDSHAKE_CONTROL_MAGIC @ u16_to_be ghost_count"

definition app_record :: "bytes \<Rightarrow> bytes" where
  "app_record body = [0x17, 0x03, 0x03] @ u16_to_be (of_nat (length body)) @ body"

definition junk :: "(nat \<Rightarrow> nat \<Rightarrow> u8) \<Rightarrow> nat \<Rightarrow> nat \<Rightarrow> bytes" where
  "junk draw i n = map (draw i) [0..<n]"

datatype flight_error = NoSampledFlight | NoSessionId | EchoMismatch | KeyShareUnsupported | ResponseTooShort | NoiseFailed

text \<open>The ghost records use the draws from \<^term>\<open>k\<close> on.\<close>

fun junk_records :: "(nat \<Rightarrow> nat \<Rightarrow> u8) \<Rightarrow> nat \<Rightarrow> nat list \<Rightarrow> bytes list" where
  "junk_records draw k [] = []"
| "junk_records draw k (n # ns) = app_record (junk draw k n) # junk_records draw (Suc k) ns"

definition build_noise_response_sequence ::
  "(bytes \<Rightarrow> bytes) \<Rightarrow> (bytes \<Rightarrow> bytes option) \<Rightarrow> bytes \<Rightarrow> bytes \<Rightarrow> (nat \<Rightarrow> nat \<Rightarrow> u8) \<Rightarrow> nat \<Rightarrow> nat list \<Rightarrow> flight_error + bytes list" where
  "build_noise_response_sequence H noise_write derived_psk client_noise_tag draw k sizes =
     (case sizes of
        [] \<Rightarrow> Inr []
      | first_size # ghosts \<Rightarrow>
          let dummy_len = first_size - NOISE_RESPONSE_OVERHEAD_LEN in
          if dummy_len < HANDSHAKE_CONTROL_LEN then Inl ResponseTooShort
          else
            let dummy = copy_at (replicate dummy_len 0) 0 (make_control_payload (of_nat (length ghosts))) in
            case noise_write dummy of
              None \<Rightarrow> Inl NoiseFailed
            | Some msg \<Rightarrow>
                if length msg < MIN_NOISE_RESPONSE_RECORD_LEN then Inl ResponseTooShort
                else case derive_noise_e_mask H derived_psk client_noise_tag of
                  None \<Rightarrow> Inl NoiseFailed
                | Some msk \<Rightarrow>
                    (case xor_in_place msg msk of
                       None \<Rightarrow> Inl NoiseFailed
                     | Some masked \<Rightarrow> Inr (app_record masked # junk_records draw k ghosts)))"

definition replay_gap_before_us :: "camouflage_profile \<Rightarrow> nat \<Rightarrow> nat" where
  "replay_gap_before_us p idx =
     (case idx of
        0 \<Rightarrow> cp_first_app_data_delay_us p
      | Suc prev \<Rightarrow> if prev < length (cp_early_app_data_gap_us p) then cp_early_app_data_gap_us p ! prev else 0)"

text \<open>The bursts that are written, each with the pause that follows it.\<close>

fun write_bursts :: "camouflage_profile \<Rightarrow> nat \<Rightarrow> bytes \<Rightarrow> bytes list \<Rightarrow> (bytes \<times> nat) list" where
  "write_bursts p idx burst [] = (if burst = [] then [] else [(burst, 0)])"
| "write_bursts p idx burst (r # rs) =
     (let gap = replay_gap_before_us p idx in
      if gap \<ge> SIGNIFICANT_REPLAY_GAP_US
      then (burst, gap) # write_bursts p (Suc idx) r rs
      else write_bursts p (Suc idx) (burst @ r) rs)"

record flight_draws =
  fd_junk :: "nat \<Rightarrow> nat \<Rightarrow> u8"
  fd_fresh :: "nat \<Rightarrow> bytes"
  fd_x25519 :: "bytes option"
  fd_p256 :: "bytes option"
  fd_ciphertext :: bytes

text \<open>\<^verbatim>\<open>establish_synthetic_camouflage_tunnel\<close> from the sampled flight on: the patched ServerHello
  records and the application-data records.\<close>

definition response_sizes :: "nat list \<Rightarrow> nat list" where
  "response_sizes sizes =
     (let sampled = sanitize_waste_record_sizes sizes;
          remaining = dropWhile (\<lambda>n. n < MIN_NOISE_RESPONSE_RECORD_LEN) sampled
      in if remaining = [] then [fallback_noise_response_record_len sampled] else remaining)"

definition synthetic_flight ::
  "(bytes \<Rightarrow> bytes) \<Rightarrow> (bytes \<Rightarrow> bytes option) \<Rightarrow> bytes \<Rightarrow> bytes \<Rightarrow> flight_draws \<Rightarrow> bytes \<Rightarrow> bytes \<Rightarrow> nat list \<Rightarrow> camouflage_profile \<Rightarrow>
     flight_error + bytes \<times> bytes list" where
  "synthetic_flight H noise_write derived_psk client_noise_tag d client_hello server_records sizes p =
     (case extract_client_hello_session_id client_hello of
        None \<Rightarrow> Inl NoSessionId
      | Some sid \<Rightarrow>
          (case patch_server_hello_session_id_echo server_records sid of
             None \<Rightarrow> Inl EchoMismatch
           | Some rs1 \<Rightarrow>
               (case patch_server_hello_key_share (fd_x25519 d) (fd_p256 d) (fd_ciphertext d)
                       (patch_server_hello_random (fd_fresh d) rs1) of
                  None \<Rightarrow> Inl KeyShareUnsupported
                | Some rs2 \<Rightarrow>
                    let prefix = junk_records (fd_junk d) 0 (cp_prefix_app_data_sizes p) in
                    (case build_noise_response_sequence H noise_write derived_psk client_noise_tag (fd_junk d)
                            (length prefix) (response_sizes sizes) of
                       Inl e \<Rightarrow> Inl e
                     | Inr noise_records \<Rightarrow> Inr (rs2, prefix @ noise_records)))))"

section \<open>The client\<close>

definition CLIENT_HANDSHAKE_MAX_RECORDS :: nat where "CLIENT_HANDSHAKE_MAX_RECORDS = 64"
definition CLIENT_HANDSHAKE_MAX_BYTES :: nat where "CLIENT_HANDSHAKE_MAX_BYTES = 256 * 1024"
definition CLIENT_HANDSHAKE_MAX_CCS_RECORDS :: nat where "CLIENT_HANDSHAKE_MAX_CCS_RECORDS = 1"
definition CLIENT_HANDSHAKE_MAX_HANDSHAKE_RECORDS :: nat where "CLIENT_HANDSHAKE_MAX_HANDSHAKE_RECORDS = 8"
definition CLIENT_HANDSHAKE_MAX_APP_DATA_PROBES :: nat where "CLIENT_HANDSHAKE_MAX_APP_DATA_PROBES = 8"

lemmas client_const_defs = CLIENT_HANDSHAKE_MAX_RECORDS_def CLIENT_HANDSHAKE_MAX_BYTES_def CLIENT_HANDSHAKE_MAX_CCS_RECORDS_def
  CLIENT_HANDSHAKE_MAX_HANDSHAKE_RECORDS_def CLIENT_HANDSHAKE_MAX_APP_DATA_PROBES_def

datatype tunnel_connect_error = TooManyHandshake | TooManyCcs | NoNoiseResponse | DataBeforeServerHello | UnexpectedType u8
  | ReadFailed read_error | MaskFailed | NotAGhost nat u8

definition auth_rejected :: "tunnel_connect_error \<Rightarrow> bool" where
  "auth_rejected e \<longleftrightarrow> e \<in> {TooManyHandshake, TooManyCcs, NoNoiseResponse}"

record client_scan =
  cs_found_server_hello :: bool
  cs_ccs_records :: nat
  cs_handshake_records :: nat
  cs_app_data_probes :: nat

text \<open>One record of the waiting loop: go on, stop with the number of ghost records, or fail.\<close>

definition client_record ::
  "(bytes \<Rightarrow> bytes) \<Rightarrow> (bytes \<Rightarrow> bytes option) \<Rightarrow> bytes \<Rightarrow> bytes \<Rightarrow> u8 \<Rightarrow> bytes \<Rightarrow> client_scan \<Rightarrow> tunnel_connect_error + nat option \<times> client_scan" where
  "client_record H noise_read derived_psk client_noise_tag typ r c =
     (let payload = drop TLS_RECORD_HEADER_LEN r in
      if typ = 0x16
      then (let c1 = c\<lparr>cs_handshake_records := cs_handshake_records c + 1\<rparr> in
            if cs_handshake_records c1 > CLIENT_HANDSHAKE_MAX_HANDSHAKE_RECORDS then Inl TooManyHandshake
            else Inr (None, if is_server_hello r then c1\<lparr>cs_found_server_hello := True\<rparr> else c1))
      else if typ = 0x14
      then (let c1 = c\<lparr>cs_ccs_records := cs_ccs_records c + 1\<rparr> in
            if cs_ccs_records c1 > CLIENT_HANDSHAKE_MAX_CCS_RECORDS then Inl TooManyCcs else Inr (None, c1))
      else if typ = 0x17
      then
        if \<not> cs_found_server_hello c then Inl DataBeforeServerHello
        else
          let c1 = c\<lparr>cs_app_data_probes := cs_app_data_probes c + 1\<rparr> in
          if cs_app_data_probes c1 > CLIENT_HANDSHAKE_MAX_APP_DATA_PROBES then Inl NoNoiseResponse
          else if length payload < 32 then Inr (None, c1)
          else case derive_noise_e_mask H derived_psk client_noise_tag of
            None \<Rightarrow> Inl MaskFailed
          | Some msk \<Rightarrow>
              (case xor_in_place payload msk of
                 None \<Rightarrow> Inl MaskFailed
               | Some unmasked \<Rightarrow>
                   (case noise_read unmasked of
                      None \<Rightarrow> Inr (None, c1)
                    | Some e_ee \<Rightarrow>
                        Inr (Some (if length e_ee \<ge> HANDSHAKE_CONTROL_LEN \<and> take 4 e_ee = HANDSHAKE_CONTROL_MAGIC
                                   then unat (u16_from_be (e_ee ! 4) (e_ee ! 5)) else 0), c1)))
      else Inl (UnexpectedType typ))"

definition handshake_limits :: tls_record_read_limits where
  "handshake_limits = \<lparr>lim_max_records = CLIENT_HANDSHAKE_MAX_RECORDS, lim_max_bytes = CLIENT_HANDSHAKE_MAX_BYTES\<rparr>"

lemma read_progress:
  assumes "read_tls_record_bounded handshake_limits st s = Inr ((typ, len), buf, st', s')"
  shows "CLIENT_HANDSHAKE_MAX_RECORDS - rs_records st' < CLIENT_HANDSHAKE_MAX_RECORDS - rs_records st"
  using read_tls_record_ok(6,7) [OF assms] by (simp add: handshake_limits_def)

function await_response ::
  "(bytes \<Rightarrow> bytes) \<Rightarrow> (bytes \<Rightarrow> bytes option) \<Rightarrow> bytes \<Rightarrow> bytes \<Rightarrow> tls_record_read_state \<Rightarrow> client_scan \<Rightarrow> socket \<Rightarrow>
     tunnel_connect_error + nat \<times> socket" where
  "await_response H noise_read derived_psk client_noise_tag st c s =
     (case read_tls_record_bounded handshake_limits st s of
        Inl e \<Rightarrow> Inl (ReadFailed e)
      | Inr ((typ, _), r, st1, s1) \<Rightarrow>
          (case client_record H noise_read derived_psk client_noise_tag typ r c of
             Inl e \<Rightarrow> Inl e
           | Inr (Some ghost_count, _) \<Rightarrow> Inr (ghost_count, s1)
           | Inr (None, c1) \<Rightarrow> await_response H noise_read derived_psk client_noise_tag st1 c1 s1))"
  by pat_completeness auto
termination
  by (relation "measure (\<lambda>(H, nr, psk, tag, st, c, s). CLIENT_HANDSHAKE_MAX_RECORDS - rs_records st)")
    (auto dest: read_progress)

declare await_response.simps [simp del]

fun drain_ghosts :: "tls_record_read_limits \<Rightarrow> nat \<Rightarrow> nat \<Rightarrow> tls_record_read_state \<Rightarrow> socket \<Rightarrow> tunnel_connect_error + socket" where
  "drain_ghosts lim i 0 st s = Inr s"
| "drain_ghosts lim i (Suc n) st s =
     (case read_tls_record_bounded lim st s of
        Inl e \<Rightarrow> Inl (ReadFailed e)
      | Inr ((typ, _), _, st1, s1) \<Rightarrow>
          if typ \<noteq> 0x17 then Inl (NotAGhost i typ) else drain_ghosts lim (Suc i) n st1 s1)"

text \<open>\<^verbatim>\<open>client_tunnel\<close> after the ClientHello was sent, up to the point where both sides switch to the tunnel.\<close>

definition client_handshake ::
  "(bytes \<Rightarrow> bytes) \<Rightarrow> (bytes \<Rightarrow> bytes option) \<Rightarrow> bytes \<Rightarrow> bytes \<Rightarrow> socket \<Rightarrow> tunnel_connect_error + socket" where
  "client_handshake H noise_read derived_psk client_noise_tag s =
     (case await_response H noise_read derived_psk client_noise_tag \<lparr>rs_records = 0, rs_bytes = 0\<rparr>
             \<lparr>cs_found_server_hello = False, cs_ccs_records = 0, cs_handshake_records = 0, cs_app_data_probes = 0\<rparr> s of
        Inl e \<Rightarrow> Inl e
      | Inr (ghost_count, s1) \<Rightarrow>
          drain_ghosts \<lparr>lim_max_records = ghost_count,
              lim_max_bytes = ghost_count * (TLS_RECORD_HEADER_LEN + MAX_TLS_RECORD_PAYLOAD_LEN)\<rparr>
            0 ghost_count \<lparr>rs_records = 0, rs_bytes = 0\<rparr> s1)"

section \<open>The pool of profiles\<close>

lemma filter_take_filter: "filter P (take n (filter P xs)) = take n (filter P xs)"
  by (rule filter_True) (auto dest: in_set_takeD)

lemma sanitize_idem: "sanitize_camouflage_profile (sanitize_camouflage_profile p) = sanitize_camouflage_profile p"
  by (simp add: sanitize_camouflage_profile_def Let_def filter_take_filter min_def)

definition pool_ok :: "pooled_profile list \<Rightarrow> bool" where
  "pool_ok ps \<longleftrightarrow> length ps \<le> MAX_CAMOUFLAGE_PROFILE_VARIANTS \<and>
     list_all (\<lambda>e. sanitize_camouflage_profile (pp_profile e) = pp_profile e) ps"

lemma oldest_idx_bound: "es \<noteq> [] \<Longrightarrow> oldest_idx es < length es"
  by (induction es rule: oldest_idx.induct) (auto simp: Let_def)

text \<open>A later entry is only the oldest one when it is strictly older than all before it.\<close>

lemma oldest_idx_last: "\<forall>e\<in>set es. pp_fetched_at e \<le> pp_fetched_at x \<Longrightarrow> es \<noteq> [] \<Longrightarrow> oldest_idx (es @ [x]) < length es"
proof (induction es)
  case (Cons e es)
  show ?case
  proof (cases "es = []")
    case True
    then show ?thesis using Cons.prems(1) by simp
  next
    case False
    then have "oldest_idx (es @ [x]) < length es" using Cons by simp
    moreover obtain f fs where "es @ [x] = f # fs" by (cases "es @ [x]") auto
    ultimately show ?thesis by (auto simp: Let_def)
  qed
qed simp

lemma replace_first_some:
  "replace_first P y xs = Some ys \<Longrightarrow> length ys = length xs \<and> y \<in> set ys \<and> set ys \<subseteq> insert y (set xs)"
  by (induction xs arbitrary: ys) (auto split: if_splits)

lemma set_remove_at: "set (remove_at i xs) \<subseteq> set xs"
  by (auto simp: remove_at_def dest: in_set_takeD in_set_dropD)

lemma length_remove_at: "i < length xs \<Longrightarrow> length (remove_at i xs) = length xs - 1"
  by (simp add: remove_at_def)

lemma push_shape:
  assumes "length ps \<le> MAX_CAMOUFLAGE_PROFILE_VARIANTS" "\<forall>e\<in>set ps. pp_fetched_at e \<le> now"
    and entry_def: "entry = \<lparr>pp_profile = sanitize_camouflage_profile p, pp_fetched_at = now\<rparr>"
  shows "length (push_profile_variant now ps p) \<le> MAX_CAMOUFLAGE_PROFILE_VARIANTS"
    "entry \<in> set (push_profile_variant now ps p)" "set (push_profile_variant now ps p) \<subseteq> insert entry (set ps)"
proof (atomize (full), cases "replace_first (\<lambda>e. same_variant (pp_profile e) (sanitize_camouflage_profile p)) entry ps")
  case (Some qs)
  then show "length (push_profile_variant now ps p) \<le> MAX_CAMOUFLAGE_PROFILE_VARIANTS \<and>
      entry \<in> set (push_profile_variant now ps p) \<and> set (push_profile_variant now ps p) \<subseteq> insert entry (set ps)"
    using replace_first_some [OF Some] assms by (simp add: push_profile_variant_def Let_def entry_def)
next
  case None
  let ?qs = "ps @ [entry]"
  have push: "push_profile_variant now ps p = (if length ?qs > MAX_CAMOUFLAGE_PROFILE_VARIANTS then remove_at (oldest_idx ?qs) ?qs else ?qs)"
    using None by (simp add: push_profile_variant_def Let_def entry_def)
  show "length (push_profile_variant now ps p) \<le> MAX_CAMOUFLAGE_PROFILE_VARIANTS \<and>
      entry \<in> set (push_profile_variant now ps p) \<and> set (push_profile_variant now ps p) \<subseteq> insert entry (set ps)"
  proof (cases "length ?qs > MAX_CAMOUFLAGE_PROFILE_VARIANTS")
    case True
    then have "ps \<noteq> []" by (auto simp: camouflage_const_defs)
    then have old: "oldest_idx ?qs < length ps" using oldest_idx_last [of ps entry] assms(2) by (simp add: entry_def)
    have "entry \<in> set (remove_at (oldest_idx ?qs) ?qs)" using old by (auto simp: remove_at_def)
    then show ?thesis
      using True push set_remove_at [of "oldest_idx ?qs" ?qs] length_remove_at [of "oldest_idx ?qs" ?qs] old assms(1) by auto
  qed (use push in auto)
qed

text \<open>The pool of camouflage profiles keeps its promises. Pushing a profile leaves at most four variants, all
  of them sanitised, and the pushed one is among them. Sampling then returns a variant of the pool unchanged, one of the
  most complete ones, unless no variant of the pool is usable at all.\<close>

lemma profile_pool_promises:
  assumes "pool_ok ps" "\<forall>e\<in>set ps. pp_fetched_at e \<le> now" "ps' = push_profile_variant now ps p"
  shows "pool_ok ps' \<and> (\<exists>e\<in>set ps'. pp_profile e = sanitize_camouflage_profile p \<and> pp_fetched_at e = now) \<and>
    (case sample_camouflage_profile draw ps' of
       None \<Rightarrow> list_all (\<lambda>e. camouflage_profile_rank (pp_profile e) = 0) ps'
     | Some q \<Rightarrow> \<exists>e\<in>set ps'. q = pp_profile e \<and> 0 < camouflage_profile_rank q \<and>
         (\<forall>f\<in>set ps'. camouflage_profile_rank (pp_profile f) \<le> camouflage_profile_rank q))"
proof -
  note push = push_shape [OF _ _ refl, of ps now p, folded assms(3)]
  have ok: "pool_ok ps'" using assms(1,2) push sanitize_idem unfolding pool_ok_def list_all_iff by fastforce
  have ne: "ps' \<noteq> []" using assms(1,2) push by (auto simp: pool_ok_def)
  let ?rank = "\<lambda>e. camouflage_profile_rank (pp_profile e)"
  let ?m = "Max (set (map ?rank ps'))"
  have le: "f \<in> set ps' \<Longrightarrow> ?rank f \<le> ?m" for f by simp
  have "?m \<in> set (map ?rank ps')" using ne by (intro Max_in) auto
  then have "filter (\<lambda>e. ?rank e = ?m) ps' \<noteq> []" by (auto simp: filter_empty_conv)
  then have "filter (\<lambda>e. ?rank e = ?m) ps' ! (draw mod length (filter (\<lambda>e. ?rank e = ?m) ps')) \<in> set (filter (\<lambda>e. ?rank e = ?m) ps')"
    by (intro nth_mem) simp
  then obtain e where e: "e \<in> set ps'" "?rank e = ?m"
      "filter (\<lambda>e. ?rank e = ?m) ps' ! (draw mod length (filter (\<lambda>e. ?rank e = ?m) ps')) = e" by auto
  have "case sample_camouflage_profile draw ps' of
       None \<Rightarrow> list_all (\<lambda>e. ?rank e = 0) ps'
     | Some q \<Rightarrow> \<exists>e\<in>set ps'. q = pp_profile e \<and> 0 < camouflage_profile_rank q \<and> (\<forall>f\<in>set ps'. ?rank f \<le> camouflage_profile_rank q)"
  proof (cases "?m = 0")
    case True
    then show ?thesis using ne le by (auto simp: sample_camouflage_profile_def Let_def list_all_iff)
  next
    case False
    have "sanitize_camouflage_profile (pp_profile e) = pp_profile e" using ok e(1) by (simp add: pool_ok_def list_all_iff)
    then have "sample_camouflage_profile draw ps' = Some (pp_profile e)"
      using False ne e(3) by (simp add: sample_camouflage_profile_def Let_def)
    then show ?thesis using e le False by auto
  qed
  then show ?thesis using ok push assms(1,2) by (force simp: pool_ok_def)
qed

section \<open>The client finds the response\<close>

definition raw_record :: "u8 \<times> u8 \<times> u8 \<times> bytes \<Rightarrow> bytes" where
  "raw_record r = (case r of (typ, v, w, body) \<Rightarrow> [typ, v, w] @ u16_to_be (of_nat (length body)) @ body)"

lemma read_raw:
  assumes "length body \<le> MAX_TLS_RECORD_PAYLOAD_LEN" "rs_records st < lim_max_records lim"
    "rs_bytes st + length (raw_record (typ, v, w, body)) \<le> lim_max_bytes lim"
  shows "read_tls_record_bounded lim st (raw_record (typ, v, w, body) @ rest, e) =
    Inr ((typ, length body), raw_record (typ, v, w, body),
      \<lparr>rs_records = rs_records st + 1, rs_bytes = rs_bytes st + length (raw_record (typ, v, w, body))\<rparr>, (rest, e))"
proof -
  have "unat (of_nat (length body) :: u16) = length body"
    using assms(1) by (simp add: unat_of_nat MAX_TLS_RECORD_PAYLOAD_LEN_def)
  then show ?thesis
    using assms
    by (simp add: read_tls_record_bounded_def read_exact_def raw_record_def Let_def u16_at_def u16_to_be_def take_Cons' drop_Cons' nth_Cons')
qed

lemma app_record_raw: "app_record body = raw_record (0x17, 0x03, 0x03, body)"
  by (simp add: app_record_def raw_record_def)

lemma length_raw: "length (raw_record (t, v, w, body)) = 5 + length body"
  by (simp add: raw_record_def u16_to_be_def)

lemma await_skip:
  assumes "length body \<le> MAX_TLS_RECORD_PAYLOAD_LEN" "rs_records st < CLIENT_HANDSHAKE_MAX_RECORDS"
    "rs_bytes st + (5 + length body) \<le> CLIENT_HANDSHAKE_MAX_BYTES"
    "client_record H nr psk tag t (raw_record (t, v, w, body)) c = Inr (None, c')"
  shows "await_response H nr psk tag st c (raw_record (t, v, w, body) @ rest, e) =
    await_response H nr psk tag \<lparr>rs_records = rs_records st + 1, rs_bytes = rs_bytes st + (5 + length body)\<rparr> c' (rest, e)"
  using assms read_raw [of body st handshake_limits t v w rest e]
  by (subst await_response.simps) (simp add: handshake_limits_def length_raw)

text \<open>The records of the ServerHello flight: handshake and change-cipher-spec records within the client's limits.\<close>

definition scan_server :: "(u8 \<times> u8 \<times> u8 \<times> bytes) list \<Rightarrow> client_scan \<Rightarrow> client_scan" where
  "scan_server recs c = c\<lparr>
     cs_found_server_hello := cs_found_server_hello c \<or> list_ex (\<lambda>r. fst r = 0x16 \<and> is_server_hello (raw_record r)) recs,
     cs_handshake_records := cs_handshake_records c + length (filter (\<lambda>r. fst r = 0x16) recs),
     cs_ccs_records := cs_ccs_records c + length (filter (\<lambda>r. fst r = 0x14) recs)\<rparr>"

lemma await_server:
  assumes "list_all (\<lambda>(t, v, w, b). t \<in> {0x16, 0x14} \<and> length b \<le> MAX_TLS_RECORD_PAYLOAD_LEN) recs"
    "cs_handshake_records c + length (filter (\<lambda>r. fst r = 0x16) recs) \<le> CLIENT_HANDSHAKE_MAX_HANDSHAKE_RECORDS"
    "cs_ccs_records c + length (filter (\<lambda>r. fst r = 0x14) recs) \<le> CLIENT_HANDSHAKE_MAX_CCS_RECORDS"
    "rs_records st + length recs \<le> CLIENT_HANDSHAKE_MAX_RECORDS"
    "rs_bytes st + length (concat (map raw_record recs)) \<le> CLIENT_HANDSHAKE_MAX_BYTES"
  shows "await_response H nr psk tag st c (concat (map raw_record recs) @ rest, e) =
    await_response H nr psk tag \<lparr>rs_records = rs_records st + length recs, rs_bytes = rs_bytes st + length (concat (map raw_record recs))\<rparr>
      (scan_server recs c) (rest, e)"
  using assms
proof (induction recs arbitrary: st c)
  case Nil
  then show ?case by (cases st) (simp add: scan_server_def)
next
  case (Cons r recs)
  obtain t v w b where r: "r = (t, v, w, b)" by (cases r)
  have cr: "client_record H nr psk tag t (raw_record (t, v, w, b)) c = Inr (None, scan_server [r] c)"
    using Cons.prems(1-3) r by (auto simp: client_record_def scan_server_def Let_def)
  let ?st = "\<lparr>rs_records = rs_records st + 1, rs_bytes = rs_bytes st + (5 + length b)\<rparr>"
  have "await_response H nr psk tag st c (raw_record r @ concat (map raw_record recs) @ rest, e) =
      await_response H nr psk tag ?st (scan_server [r] c) (concat (map raw_record recs) @ rest, e)"
    unfolding r by (rule await_skip) (use Cons.prems r cr in \<open>auto simp: length_raw scan_server_def\<close>)
  moreover have "await_response H nr psk tag ?st (scan_server [r] c) (concat (map raw_record recs) @ rest, e) =
      await_response H nr psk tag \<lparr>rs_records = rs_records ?st + length recs, rs_bytes = rs_bytes ?st + length (concat (map raw_record recs))\<rparr>
        (scan_server recs (scan_server [r] c)) (rest, e)"
    by (rule Cons.IH) (use Cons.prems r in \<open>auto simp: scan_server_def length_raw split: if_splits\<close>)
  moreover have "scan_server recs (scan_server [r] c) = scan_server (r # recs) c" by (auto simp: scan_server_def)
  ultimately show ?case using r by (simp add: length_raw add.assoc)
qed

text \<open>Junk in front of the response is skipped when it does not open as a Noise message.\<close>

definition junk_rejected :: "(bytes \<Rightarrow> bytes) \<Rightarrow> (bytes \<Rightarrow> bytes option) \<Rightarrow> bytes \<Rightarrow> bytes \<Rightarrow> bytes \<Rightarrow> bool" where
  "junk_rejected H noise_read psk tag body \<longleftrightarrow>
     (case derive_noise_e_mask H psk tag of
        None \<Rightarrow> False
      | Some msk \<Rightarrow> (case xor_in_place body msk of None \<Rightarrow> True | Some u \<Rightarrow> noise_read u = None))"

lemma await_junk:
  assumes "list_all record_size_ok ns" "cs_found_server_hello c" "cs_app_data_probes c + length ns \<le> CLIENT_HANDSHAKE_MAX_APP_DATA_PROBES"
    "list_all (\<lambda>i. junk_rejected H nr psk tag (junk draw (k + i) (ns ! i))) [0..<length ns]"
    "rs_records st + length ns \<le> CLIENT_HANDSHAKE_MAX_RECORDS"
    "rs_bytes st + length (concat (junk_records draw k ns)) \<le> CLIENT_HANDSHAKE_MAX_BYTES"
  shows "await_response H nr psk tag st c (concat (junk_records draw k ns) @ rest, e) =
    await_response H nr psk tag \<lparr>rs_records = rs_records st + length ns, rs_bytes = rs_bytes st + length (concat (junk_records draw k ns))\<rparr>
      (c\<lparr>cs_app_data_probes := cs_app_data_probes c + length ns\<rparr>) (rest, e)"
  using assms
proof (induction ns arbitrary: st c k)
  case Nil
  then show ?case by (cases st) simp
next
  case (Cons n ns)
  let ?b = "junk draw k n" and ?c = "c\<lparr>cs_app_data_probes := cs_app_data_probes c + 1\<rparr>"
  have len: "length ?b = n" by (simp add: junk_def)
  have up: "[0..<length (n # ns)] = 0 # map Suc [0..<length ns]" by (simp add: map_Suc_upt upt_conv_Cons del: upt_Suc)
  have rej: "junk_rejected H nr psk tag ?b" and rejs: "list_all (\<lambda>i. junk_rejected H nr psk tag (junk draw (Suc k + i) (ns ! i))) [0..<length ns]"
    using Cons.prems(4) unfolding up by (simp_all add: list.pred_map comp_def del: upt_Suc)
  have cr: "client_record H nr psk tag 0x17 (raw_record (0x17, 0x03, 0x03, ?b)) c = Inr (None, ?c)"
    using Cons.prems(2,3) rej len
    by (auto simp: client_record_def Let_def raw_record_def u16_to_be_def TLS_RECORD_HEADER_LEN_def junk_rejected_def xor_in_place_def
        drop_Cons' split: option.splits if_splits)
  let ?st = "\<lparr>rs_records = rs_records st + 1, rs_bytes = rs_bytes st + (5 + length ?b)\<rparr>"
  have "await_response H nr psk tag st c (raw_record (0x17, 0x03, 0x03, ?b) @ concat (junk_records draw (Suc k) ns) @ rest, e) =
      await_response H nr psk tag ?st ?c (concat (junk_records draw (Suc k) ns) @ rest, e)"
    by (rule await_skip) (use Cons.prems len cr in \<open>auto simp: record_size_ok_def camouflage_const_defs MAX_TLS_RECORD_PAYLOAD_LEN_def app_record_raw length_raw\<close>)
  moreover have "await_response H nr psk tag ?st ?c (concat (junk_records draw (Suc k) ns) @ rest, e) =
      await_response H nr psk tag \<lparr>rs_records = rs_records ?st + length ns, rs_bytes = rs_bytes ?st + length (concat (junk_records draw (Suc k) ns))\<rparr>
        (?c\<lparr>cs_app_data_probes := cs_app_data_probes ?c + length ns\<rparr>) (rest, e)"
    by (rule Cons.IH) (use Cons.prems rejs len in \<open>auto simp: app_record_raw length_raw\<close>)
  ultimately show ?case by (simp add: app_record_raw length_raw len add.assoc)
qed

lemma drain_junk:
  assumes "list_all record_size_ok ns" "rs_records st + length ns \<le> lim_max_records lim"
    "rs_bytes st + length ns * (TLS_RECORD_HEADER_LEN + MAX_TLS_RECORD_PAYLOAD_LEN) \<le> lim_max_bytes lim"
  shows "drain_ghosts lim i (length ns) st (concat (junk_records draw k ns) @ rest, e) = Inr (rest, e)"
  using assms
proof (induction ns arbitrary: st i k)
  case (Cons n ns)
  let ?b = "junk draw k n"
  have len: "length ?b = n" "n \<le> MAX_TLS_RECORD_PAYLOAD_LEN"
    using Cons.prems(1) by (simp_all add: junk_def record_size_ok_def camouflage_const_defs MAX_TLS_RECORD_PAYLOAD_LEN_def)
  have "rs_bytes st + (5 + n) \<le> lim_max_bytes lim" using Cons.prems(3) len(2) by (simp add: TLS_RECORD_HEADER_LEN_def)
  then have rd: "read_tls_record_bounded lim st (raw_record (0x17, 0x03, 0x03, ?b) @ concat (junk_records draw (Suc k) ns) @ rest, e) =
      Inr ((0x17, n), raw_record (0x17, 0x03, 0x03, ?b), \<lparr>rs_records = rs_records st + 1, rs_bytes = rs_bytes st + (5 + n)\<rparr>,
        (concat (junk_records draw (Suc k) ns) @ rest, e))"
    using read_raw [of ?b st lim] Cons.prems(2) len by (simp add: length_raw)
  show ?case
    using Cons.IH [of "\<lparr>rs_records = rs_records st + 1, rs_bytes = rs_bytes st + (5 + n)\<rparr>" "Suc i" "Suc k"] Cons.prems len rd
    by (simp add: app_record_raw TLS_RECORD_HEADER_LEN_def)
qed simp

lemma bursts_concat: "concat (map fst (write_bursts p i burst rs)) = burst @ concat rs"
  by (induction rs arbitrary: i burst) (auto simp: Let_def)

lemma response_sizes_ok:
  obtains first ghosts where "response_sizes sizes = first # ghosts" "MIN_NOISE_RESPONSE_RECORD_LEN \<le> first"
    "list_all record_size_ok (first # ghosts)" "length ghosts \<le> length sizes"
proof (cases "dropWhile (\<lambda>n. n < MIN_NOISE_RESPONSE_RECORD_LEN) (sanitize_waste_record_sizes sizes)")
  case Nil
  then have "response_sizes sizes = [fallback_noise_response_record_len (sanitize_waste_record_sizes sizes)]"
    by (simp add: response_sizes_def Let_def)
  then show ?thesis
    by (rule that) (auto simp: fallback_noise_response_record_len_def record_size_ok_def camouflage_const_defs)
next
  case (Cons first ghosts)
  have eq: "response_sizes sizes = first # ghosts" unfolding response_sizes_def Let_def Cons by simp
  have "length (first # ghosts) \<le> length (sanitize_waste_record_sizes sizes)"
    unfolding Cons [symmetric] by (rule length_dropWhile_le)
  also have "\<dots> \<le> length sizes" by (simp add: sanitize_waste_record_sizes_def)
  finally have len: "length ghosts \<le> length sizes" by simp
  have ok: "list_all record_size_ok (first # ghosts)"
    unfolding Cons [symmetric] by (auto simp: list_all_iff sanitize_waste_record_sizes_def dest: set_dropWhileD)
  have "MIN_NOISE_RESPONSE_RECORD_LEN \<le> first"
    using hd_dropWhile [of "\<lambda>n. n < MIN_NOISE_RESPONSE_RECORD_LEN" "sanitize_waste_record_sizes sizes"] by (simp add: Cons)
  then show ?thesis using that eq ok len by blast
qed

text \<open>What the client relies on of the Noise handshake: the message that the responder writes opens to its
  payload, and is 48 bytes longer (the ephemeral key and the tag).\<close>

definition noise_pair :: "(bytes \<Rightarrow> bytes option) \<Rightarrow> (bytes \<Rightarrow> bytes option) \<Rightarrow> bool" where
  "noise_pair noise_write noise_read \<longleftrightarrow>
     (\<forall>m c. noise_write m = Some c \<longrightarrow> noise_read c = Some m \<and> length c = length m + NOISE_RESPONSE_OVERHEAD_LEN)"

lemma response_record:
  assumes "build_noise_response_sequence H noise_write psk tag draw k (first # ghosts) = Inr recs"
    "hash_ok H" "length psk = 32" "length tag = 16" "noise_pair noise_write noise_read"
    "length ghosts < 2 ^ 16" "cs_found_server_hello c" "cs_app_data_probes c < CLIENT_HANDSHAKE_MAX_APP_DATA_PROBES"
  obtains masked c' where "recs = app_record masked # junk_records draw k ghosts" "length masked = first"
    "client_record H noise_read psk tag 0x17 (app_record masked) c = Inr (Some (length ghosts), c')"
proof -
  let ?dummy = "copy_at (replicate (first - NOISE_RESPONSE_OVERHEAD_LEN) 0) 0 (make_control_payload (of_nat (length ghosts)))"
  let ?msk = "hash_with_key H NOISE_E_MASK_CONTEXT (tag @ psk)"
  have ctl: "length (make_control_payload g) = HANDSHAKE_CONTROL_LEN" for g
    by (simp add: make_control_payload_def HANDSHAKE_CONTROL_MAGIC_def HANDSHAKE_CONTROL_LEN_def ascii_def)
  have msk: "derive_noise_e_mask H psk tag = Some ?msk" using assms(3,4) by (simp add: derive_noise_e_mask_def)
  from assms(1) msk obtain msg where big: "HANDSHAKE_CONTROL_LEN \<le> first - NOISE_RESPONSE_OVERHEAD_LEN"
      and msg: "noise_write ?dummy = Some msg" "MIN_NOISE_RESPONSE_RECORD_LEN \<le> length msg"
      and recs: "recs = app_record (xor_bytes (take 32 msg) (take 32 ?msk) @ drop 32 msg) # junk_records draw k ghosts"
    by (auto simp: build_noise_response_sequence_def Let_def xor_in_place_def split: if_splits option.splits)
  let ?masked = "xor_bytes (take 32 msg) (take 32 ?msk) @ drop 32 msg"
  have dlen: "length ?dummy = first - NOISE_RESPONSE_OVERHEAD_LEN" using big by (simp add: ctl)
  have nr: "noise_read msg = Some ?dummy" "length msg = length ?dummy + NOISE_RESPONSE_OVERHEAD_LEN"
    using assms(5) msg(1) unfolding noise_pair_def by blast+
  have len: "length msg = first" using nr(2) dlen big by (simp add: HANDSHAKE_CONTROL_LEN_def)
  have long: "54 \<le> length msg" using msg(2) by (simp add: camouflage_const_defs)
  have unmask: "xor_in_place ?masked ?msk = Some msg"
    using long assms(2) by (simp add: xor_in_place_def xor_bytes_twice)
  have dummy: "?dummy = make_control_payload (of_nat (length ghosts)) @ drop HANDSHAKE_CONTROL_LEN (replicate (first - NOISE_RESPONSE_OVERHEAD_LEN) 0)"
    by (simp add: copy_at_def ctl)
  have g: "unat (of_nat (length ghosts) :: u16) = length ghosts" using assms(6) by (simp add: unat_of_nat)
  have read: "take 4 ?dummy = HANDSHAKE_CONTROL_MAGIC" "unat (u16_from_be (?dummy ! 4) (?dummy ! 5)) = length ghosts"
    unfolding dummy
    by (simp_all add: make_control_payload_def HANDSHAKE_CONTROL_MAGIC_def ascii_def u16_to_be_def take_Cons' nth_Cons' g)
  have body: "drop TLS_RECORD_HEADER_LEN (app_record ?masked) = ?masked"
    by (simp add: app_record_def u16_to_be_def TLS_RECORD_HEADER_LEN_def drop_Cons')
  have mlen: "length ?masked = first" using len long assms(2) by simp
  have "client_record H noise_read psk tag 0x17 (app_record ?masked) c =
      Inr (Some (length ghosts), c\<lparr>cs_app_data_probes := cs_app_data_probes c + 1\<rparr>)"
    unfolding client_record_def Let_def body msk
    using assms(7,8) long mlen len unmask nr(1) read dlen big by simp
  then show ?thesis using that recs mlen by blast
qed

lemma flight_parts:
  assumes "synthetic_flight H noise_write psk tag d hello server sizes p = Inr (rs, apps)"
  obtains noise_records where "apps = junk_records (fd_junk d) 0 (cp_prefix_app_data_sizes p) @ noise_records"
    "build_noise_response_sequence H noise_write psk tag (fd_junk d) (length (cp_prefix_app_data_sizes p)) (response_sizes sizes) = Inr noise_records"
proof -
  have "length (junk_records draw k ns) = length ns" for draw k ns by (induction ns arbitrary: k) auto
  then show ?thesis
    using assms that by (auto simp: synthetic_flight_def Let_def split: option.splits sum.splits)
qed

lemma sanitized_profile:
  assumes "sanitize_camouflage_profile p = p"
  shows "length (cp_prefix_app_data_sizes p) \<le> 4" "list_all record_size_ok (cp_prefix_app_data_sizes p)"
    "length (cp_app_data_sizes p) \<le> 256" "list_all record_size_ok (cp_app_data_sizes p)"
proof -
  have eq: "cp_prefix_app_data_sizes p = take 4 (filter record_size_ok (cp_prefix_app_data_sizes p))"
      "cp_app_data_sizes p = take 256 (filter record_size_ok (cp_app_data_sizes p))"
    using arg_cong [OF assms, of cp_prefix_app_data_sizes] arg_cong [OF assms, of cp_app_data_sizes]
    by (simp_all add: sanitize_camouflage_profile_def Let_def camouflage_const_defs)
  show "length (cp_prefix_app_data_sizes p) \<le> 4" by (subst eq(1)) simp
  show "list_all record_size_ok (cp_prefix_app_data_sizes p)"
    by (subst eq(1)) (auto simp: list_all_iff dest: in_set_takeD)
  show "length (cp_app_data_sizes p) \<le> 256" by (subst eq(2)) simp
  show "list_all record_size_ok (cp_app_data_sizes p)"
    by (subst eq(2)) (auto simp: list_all_iff dest: in_set_takeD)
qed

lemma junk_records_bytes:
  "list_all record_size_ok ns \<Longrightarrow> length (concat (junk_records draw k ns)) \<le> length ns * 16406"
  by (induction ns arbitrary: k)
    (auto simp: app_record_raw length_raw junk_def record_size_ok_def camouflage_const_defs add_le_mono)

lemma records_bytes:
  "list_all (\<lambda>(t, v, w, b). length b \<le> MAX_TLS_RECORD_PAYLOAD_LEN) recs \<Longrightarrow>
    length (concat (map raw_record recs)) \<le> length recs * 16645"
  by (induction recs) (auto simp: length_raw MAX_TLS_RECORD_PAYLOAD_LEN_def add_le_mono)

text \<open>The records in front of the application data that the client accepts: at most eight handshake records,
  a ServerHello among them, and at most one change-cipher-spec record.\<close>

definition server_flight_ok :: "(u8 \<times> u8 \<times> u8 \<times> bytes) list \<Rightarrow> bool" where
  "server_flight_ok recs \<longleftrightarrow>
     list_all (\<lambda>(t, v, w, b). t \<in> {0x16, 0x14} \<and> length b \<le> MAX_TLS_RECORD_PAYLOAD_LEN) recs \<and>
     list_ex (\<lambda>r. fst r = 0x16 \<and> is_server_hello (raw_record r)) recs \<and>
     length (filter (\<lambda>r. fst r = 0x16) recs) \<le> CLIENT_HANDSHAKE_MAX_HANDSHAKE_RECORDS \<and>
     length (filter (\<lambda>r. fst r = 0x14) recs) \<le> CLIENT_HANDSHAKE_MAX_CCS_RECORDS"

lemma server_flight_size:
  assumes "server_flight_ok recs"
  shows "length recs \<le> 9" "length (concat (map raw_record recs)) \<le> 149805"
proof -
  have "length recs \<le> length (filter (\<lambda>r. fst r = 0x16) recs) + length (filter (\<lambda>r. fst r = 0x14) recs)"
    if "list_all (\<lambda>(t, v, w, b). t \<in> {0x16, 0x14} \<and> length b \<le> MAX_TLS_RECORD_PAYLOAD_LEN) recs" for recs :: "(u8 \<times> u8 \<times> u8 \<times> bytes) list"
    using that by (induction recs) auto
  then show nine: "length recs \<le> 9" using assms by (fastforce simp: server_flight_ok_def client_const_defs)
  have "list_all (\<lambda>(t, v, w, b). length b \<le> MAX_TLS_RECORD_PAYLOAD_LEN) recs"
    using assms by (auto simp: server_flight_ok_def list_all_iff)
  then show "length (concat (map raw_record recs)) \<le> 149805" using records_bytes [of recs] nine by simp
qed

text \<open>C5: The client finds the server's Noise response inside the synthetic flight, and consumes exactly the flight.
  Whatever pauses split the flight into bursts, a client that shares the key material and reads a flight made from a
  sanitised profile skips the replayed handshake records and the junk in front of the response, opens the response, learns
  the number of ghost records from it, drains them all, and is left at the first byte behind the flight, where the tunnel
  begins. The server records are assumed to be ones the client's limits admit, the junk records not to
  open as Noise messages, and the Noise messages of the two sides to fit together.\<close>

theorem client_reads_flight:
  assumes "synthetic_flight H noise_write psk tag d hello server (cp_app_data_sizes p) p = Inr (concat (map raw_record recs), apps)"
    "hash_ok H" "length psk = 32" "length tag = 16" "noise_pair noise_write noise_read"
    "sanitize_camouflage_profile p = p" "server_flight_ok recs"
    "list_all (\<lambda>i. junk_rejected H noise_read psk tag (junk (fd_junk d) i (cp_prefix_app_data_sizes p ! i)))
       [0..<length (cp_prefix_app_data_sizes p)]"
  shows "client_handshake H noise_read psk tag
      (concat (map fst (write_bursts p 0 (concat (map raw_record recs)) apps)) @ rest, e) = Inr (rest, e)"
proof -
  let ?pre = "cp_prefix_app_data_sizes p" and ?srv = "concat (map raw_record recs)"
  let ?junk = "concat (junk_records (fd_junk d) 0 ?pre)"
  let ?c0 = "\<lparr>cs_found_server_hello = False, cs_ccs_records = 0, cs_handshake_records = 0, cs_app_data_probes = 0\<rparr>"
  note p = sanitized_profile [OF assms(6)]
  note srv = server_flight_size [OF assms(7)]
  obtain noise_records where apps: "apps = junk_records (fd_junk d) 0 ?pre @ noise_records"
      and build: "build_noise_response_sequence H noise_write psk tag (fd_junk d) (length ?pre) (response_sizes (cp_app_data_sizes p)) = Inr noise_records"
    by (rule flight_parts [OF assms(1)])
  obtain first ghosts where sizes: "response_sizes (cp_app_data_sizes p) = first # ghosts" "list_all record_size_ok (first # ghosts)"
      "length ghosts \<le> length (cp_app_data_sizes p)"
    by (rule response_sizes_ok [of "cp_app_data_sizes p"])
  let ?c1 = "scan_server recs ?c0"
  let ?c2 = "?c1\<lparr>cs_app_data_probes := cs_app_data_probes ?c1 + length ?pre\<rparr>"
  have c1: "cs_found_server_hello ?c1" "cs_app_data_probes ?c1 = 0"
    using assms(7) by (simp_all add: scan_server_def server_flight_ok_def)
  obtain masked c' where resp: "noise_records = app_record masked # junk_records (fd_junk d) (length ?pre) ghosts" "length masked = first"
      "client_record H noise_read psk tag 0x17 (app_record masked) ?c2 = Inr (Some (length ghosts), c')"
    by (rule response_record [where c = ?c2, OF build [unfolded sizes(1)] assms(2-5)])
      (use c1 p sizes(3) in \<open>auto simp: client_const_defs\<close>)
  have jb: "length ?junk \<le> 65624" using junk_records_bytes [OF p(2), of "fd_junk d" 0] p(1) by simp
  let ?tail = "concat (junk_records (fd_junk d) (length ?pre) ghosts) @ rest"
  let ?st1 = "\<lparr>rs_records = 0 + length recs, rs_bytes = 0 + length ?srv\<rparr>"
  let ?st2 = "\<lparr>rs_records = rs_records ?st1 + length ?pre, rs_bytes = rs_bytes ?st1 + length ?junk\<rparr>"
  have flen: "first \<le> 16401" using sizes(2) by (simp add: record_size_ok_def camouflage_const_defs)
  have "await_response H noise_read psk tag \<lparr>rs_records = 0, rs_bytes = 0\<rparr> ?c0 (?srv @ ?junk @ app_record masked @ ?tail, e) =
      await_response H noise_read psk tag ?st1 ?c1 (?junk @ app_record masked @ ?tail, e)"
    using await_server [of recs ?c0 "\<lparr>rs_records = 0, rs_bytes = 0\<rparr>"] assms(7) srv by (simp add: server_flight_ok_def client_const_defs)
  also have "\<dots> = await_response H noise_read psk tag ?st2 ?c2 (app_record masked @ ?tail, e)"
    by (rule await_junk) (use p(1,2) c1 assms(8) srv jb in \<open>auto simp: client_const_defs\<close>)
  also have "\<dots> = Inr (length ghosts, (?tail, e))"
    using read_raw [of masked ?st2 handshake_limits "0x17" "0x03" "0x03" ?tail e] resp(2,3) flen srv jb p(1)
    by (subst await_response.simps)
      (simp add: app_record_raw length_raw handshake_limits_def client_const_defs MAX_TLS_RECORD_PAYLOAD_LEN_def)
  finally have wait: "await_response H noise_read psk tag \<lparr>rs_records = 0, rs_bytes = 0\<rparr> ?c0 (?srv @ ?junk @ app_record masked @ ?tail, e) =
      Inr (length ghosts, (?tail, e))" .
  show ?thesis
    using wait drain_junk [of ghosts] sizes(2) by (simp add: client_handshake_def bursts_concat apps resp(1))
qed

text \<open>A small flight: two junk records, a response of 60 bytes and one ghost record, behind a ServerHello
  with an X25519 key share; the hash, the Noise messages and the random bytes are constant.\<close>

definition demo_profile :: camouflage_profile where
  "demo_profile = \<lparr>
     cp_server_records = raw_record (0x16, 3, 3, [2, 0, 0, 82, 3, 3] @ replicate 32 1 @ [2, 4, 4, 0x13, 1, 0, 0, 40]
       @ [0, 0x33, 0, 36, 0, 0x1D, 0, 32] @ replicate 32 8),
     cp_prefix_app_data_sizes = [20, 40], cp_app_data_sizes = [60, 17], cp_first_app_data_size = Some 60,
     cp_early_app_data_count = 2, cp_has_ccs = False, cp_visible_server_record_count = 1,
     cp_first_app_data_delay_us = 6000, cp_early_app_data_gap_us = [7000]\<rparr>"

definition demo_draws :: flight_draws where
  "demo_draws = \<lparr>fd_junk = (\<lambda>_ _. 0xFF), fd_fresh = (\<lambda>_. replicate 32 5), fd_x25519 = Some (replicate 32 6),
     fd_p256 = None, fd_ciphertext = []\<rparr>"

definition demo_write :: "bytes \<Rightarrow> bytes option" where
  "demo_write m = Some (replicate 48 0 @ m)"

definition demo_read :: "bytes \<Rightarrow> bytes option" where
  "demo_read c = (if take 48 c = replicate 48 0 then Some (drop 48 c) else None)"

definition demo_patched :: "(u8 \<times> u8 \<times> u8 \<times> bytes) list" where
  "demo_patched = [(0x16, 3, 3, [2, 0, 0, 82, 3, 3] @ replicate 32 5 @ [2, 9, 9, 0x13, 1, 0, 0, 40]
     @ [0, 0x33, 0, 36, 0, 0x1D, 0, 32] @ replicate 32 6)]"

definition demo_apps :: "bytes list" where
  "demo_apps = junk_records (\<lambda>_ _. 0xFF) 0 [20, 40] @ [app_record (replicate 48 0 @ make_control_payload 1 @ replicate 6 0)]
     @ junk_records (\<lambda>_ _. 0xFF) 2 [17]"

lemma demo_flight:
  "synthetic_flight (\<lambda>_. replicate 32 0) demo_write (replicate 32 1) (replicate 16 2) demo_draws demo_hello
     (cp_server_records demo_profile) (cp_app_data_sizes demo_profile) demo_profile = Inr (concat (map raw_record demo_patched), demo_apps)"
  by code_simp

lemma demo_noise: "noise_pair demo_write demo_read"
  by (simp add: noise_pair_def demo_write_def demo_read_def NOISE_RESPONSE_OVERHEAD_LEN_def)

lemma demo_sanitized: "sanitize_camouflage_profile demo_profile = demo_profile"
  by (simp add: sanitize_camouflage_profile_def demo_profile_def record_size_ok_def camouflage_const_defs Let_def)

lemma demo_server_ok: "server_flight_ok demo_patched"
  by code_simp

lemma demo_junk_rejected:
  "list_all (\<lambda>i. junk_rejected (\<lambda>_. replicate 32 0) demo_read (replicate 32 1) (replicate 16 2)
      (junk (fd_junk demo_draws) i (cp_prefix_app_data_sizes demo_profile ! i)))
    [0..<length (cp_prefix_app_data_sizes demo_profile)]"
  by code_simp

theorem client_reads_flight_witness:
  "client_handshake (\<lambda>_. replicate 32 0) demo_read (replicate 32 1) (replicate 16 2)
      (concat (map fst (write_bursts demo_profile 0 (concat (map raw_record demo_patched)) demo_apps)) @ [7, 8], UnexpectedEof) =
    Inr ([7, 8], UnexpectedEof)"
  by (rule client_reads_flight [OF demo_flight _ _ _ demo_noise demo_sanitized demo_server_ok demo_junk_rejected])
    (simp_all add: hash_ok_def)

end
