(* ===== verification/Sampling.thy ===== *)
theory Sampling
  imports Camouflage Replay
begin

text \<open>
  How the server learns camouflage profiles (\<^verbatim>\<open>crates/tunnel/src/server/camouflage.rs\<close>): the sampling of a
  real site, the cache of profile pools, the decision of \<^verbatim>\<open>fetch_camouflage_flight\<close>, the startup probe and the
  background refresh. The site is a socket, the arrival times of its records are given by a function of the
  record's number (microseconds), and the cache is an LRU map as in \<^verbatim>\<open>Replay\<close>.
\<close>

section \<open>Sampling a site\<close>

definition MAX_CAMOUFLAGE_TOTAL_RECORDS :: nat where "MAX_CAMOUFLAGE_TOTAL_RECORDS = 512"
definition MAX_CAMOUFLAGE_TOTAL_RECORD_BYTES :: nat where "MAX_CAMOUFLAGE_TOTAL_RECORD_BYTES = 512 * 1024"
definition MAX_CAMOUFLAGE_SERVER_RECORD_BYTES :: nat where "MAX_CAMOUFLAGE_SERVER_RECORD_BYTES = 256 * 1024"
definition STARTUP_CAMOUFLAGE_SAMPLE_COUNT :: nat where "STARTUP_CAMOUFLAGE_SAMPLE_COUNT = 4"
definition MAX_CAMOUFLAGE_PROFILES :: nat where "MAX_CAMOUFLAGE_PROFILES = 1024"
definition CAMOUFLAGE_REFRESH_FAILURE_COOLDOWN_SECS :: nat where "CAMOUFLAGE_REFRESH_FAILURE_COOLDOWN_SECS = 30"

datatype sample_error = ConnectFailed | HelloRetryRequest | NoServerHello

record sampler =
  sl_server_records :: bytes
  sl_found_server_hello :: bool
  sl_prefix_app_data_sizes :: "nat list"
  sl_in_prefix_run :: bool
  sl_app_data_sizes :: "nat list"
  sl_total_records :: nat
  sl_visible_server_record_count :: u16
  sl_has_ccs :: bool
  sl_server_hello_seen :: "nat option"
  sl_first_app_data_delay_us :: "nat option"
  sl_last_app_data_seen :: "nat option"
  sl_early_app_data_gap_us :: "nat list"

definition sampler_new :: sampler where
  "sampler_new = \<lparr>sl_server_records = [], sl_found_server_hello = False, sl_prefix_app_data_sizes = [], sl_in_prefix_run = True,
     sl_app_data_sizes = [], sl_total_records = 0, sl_visible_server_record_count = 0, sl_has_ccs = False,
     sl_server_hello_seen = None, sl_first_app_data_delay_us = None, sl_last_app_data_seen = None, sl_early_app_data_gap_us = []\<rparr>"

definition micros_between :: "nat \<Rightarrow> nat \<Rightarrow> nat" where
  "micros_between later earlier = min (later - earlier) (2 ^ 32 - 1)"

definition note_prefix :: "nat \<Rightarrow> sampler \<Rightarrow> sampler" where
  "note_prefix len st =
     (if sl_in_prefix_run st \<and> len < MIN_NOISE_RESPONSE_RECORD_LEN
         \<and> length (sl_prefix_app_data_sizes st) < MAX_CAMOUFLAGE_PREFIX_APP_DATA_RECORDS
      then st\<lparr>sl_prefix_app_data_sizes := sl_prefix_app_data_sizes st @ [len]\<rparr>
      else st\<lparr>sl_in_prefix_run := False\<rparr>)"

definition note_app_data :: "nat \<Rightarrow> nat \<Rightarrow> sampler \<Rightarrow> sampler" where
  "note_app_data now len st = st\<lparr>
     sl_first_app_data_delay_us :=
       (case sl_first_app_data_delay_us st of
          Some x \<Rightarrow> Some x
        | None \<Rightarrow> Some (case sl_server_hello_seen st of None \<Rightarrow> 0 | Some seen \<Rightarrow> micros_between now seen)),
     sl_early_app_data_gap_us := sl_early_app_data_gap_us st @
       (case sl_last_app_data_seen st of None \<Rightarrow> [] | Some last_seen \<Rightarrow> [micros_between now last_seen]),
     sl_last_app_data_seen := Some now,
     sl_app_data_sizes := sl_app_data_sizes st @ [len]\<rparr>"

text \<open>One record; the flag says that the loop is left.\<close>

definition sample_step :: "bool \<Rightarrow> nat option \<Rightarrow> nat \<Rightarrow> u8 \<Rightarrow> nat \<Rightarrow> bytes \<Rightarrow> sampler \<Rightarrow> sample_error + bool \<times> sampler" where
  "sample_step fast expected_first now typ len r st0 =
     (let st = st0\<lparr>sl_total_records := sl_total_records st0 + 1\<rparr>; hello = (typ = 0x16 \<and> is_server_hello r) in
      if sl_total_records st > MAX_CAMOUFLAGE_TOTAL_RECORDS then Inr (True, st)
      else if hello \<and> is_hello_retry_request r then Inl HelloRetryRequest
      else
        let st1 = (if hello then st\<lparr>sl_found_server_hello := True, sl_server_hello_seen := Some now\<rparr> else st);
            st2 = (if typ = 0x14 then st1\<lparr>sl_has_ccs := True\<rparr> else st1) in
        if sl_found_server_hello st2 \<and> typ = 0x17
        then
          let st3 = note_prefix len st2 in
          if length (sl_app_data_sizes st3) \<ge> MAX_CAMOUFLAGE_APP_DATA_RECORDS then Inr (True, st3)
          else Inr (fast \<and> (case expected_first of None \<Rightarrow> True | Some e \<Rightarrow> e = len), note_app_data now len st3)
        else
          let v = sl_visible_server_record_count st2;
              st3 = st2\<lparr>sl_visible_server_record_count := (if v = 0xFFFF then v else v + 1)\<rparr> in
          if length (sl_server_records st3) + length r > MAX_CAMOUFLAGE_SERVER_RECORD_BYTES then Inr (True, st3)
          else Inr (False, st3\<lparr>sl_server_records := sl_server_records st3 @ r\<rparr>))"

definition sample_limits :: tls_record_read_limits where
  "sample_limits = \<lparr>lim_max_records = MAX_CAMOUFLAGE_TOTAL_RECORDS, lim_max_bytes = MAX_CAMOUFLAGE_TOTAL_RECORD_BYTES\<rparr>"

lemma sample_progress:
  assumes "read_tls_record_bounded sample_limits rst s = Inr ((typ, len), buf, rst', s')"
  shows "MAX_CAMOUFLAGE_TOTAL_RECORDS - rs_records rst' < MAX_CAMOUFLAGE_TOTAL_RECORDS - rs_records rst"
  using read_tls_record_ok(6,7) [OF assms] by (simp add: sample_limits_def)

function sample_loop ::
  "bool \<Rightarrow> nat option \<Rightarrow> (nat \<Rightarrow> nat) \<Rightarrow> sampler \<Rightarrow> tls_record_read_state \<Rightarrow> socket \<Rightarrow> sample_error + sampler" where
  "sample_loop fast expected_first clock st rst s =
     (case read_tls_record_bounded sample_limits rst s of
        Inl _ \<Rightarrow> Inr st
      | Inr ((typ, len), r, rst1, s1) \<Rightarrow>
          (case sample_step fast expected_first (clock (rs_records rst)) typ len r st of
             Inl e \<Rightarrow> Inl e
           | Inr (True, st1) \<Rightarrow> Inr st1
           | Inr (False, st1) \<Rightarrow> sample_loop fast expected_first clock st1 rst1 s1))"
  by pat_completeness auto
termination
  by (relation "measure (\<lambda>(fast, ex, clock, st, rst, s). MAX_CAMOUFLAGE_TOTAL_RECORDS - rs_records rst)")
    (auto dest: sample_progress)

declare sample_loop.simps [simp del]

definition profile_of :: "sampler \<Rightarrow> camouflage_profile" where
  "profile_of st = \<lparr>cp_server_records = sl_server_records st, cp_prefix_app_data_sizes = sl_prefix_app_data_sizes st,
     cp_app_data_sizes = sl_app_data_sizes st,
     cp_first_app_data_size = (case sl_app_data_sizes st of [] \<Rightarrow> None | x # _ \<Rightarrow> Some x),
     cp_early_app_data_count = min (length (sl_app_data_sizes st)) 255, cp_has_ccs = sl_has_ccs st,
     cp_visible_server_record_count = sl_visible_server_record_count st,
     cp_first_app_data_delay_us = (case sl_first_app_data_delay_us st of None \<Rightarrow> 0 | Some x \<Rightarrow> x),
     cp_early_app_data_gap_us = sl_early_app_data_gap_us st\<rparr>"

text \<open>\<^verbatim>\<open>read_camouflage_server_records\<close>; no socket means that the site could not be reached.\<close>

definition read_camouflage_server_records ::
  "socket option \<Rightarrow> (nat \<Rightarrow> nat) \<Rightarrow> bool \<Rightarrow> nat option \<Rightarrow> sample_error + bytes \<times> camouflage_profile" where
  "read_camouflage_server_records site clock fast expected_first =
     (case site of
        None \<Rightarrow> Inl ConnectFailed
      | Some s \<Rightarrow>
          (case sample_loop fast expected_first clock sampler_new \<lparr>rs_records = 0, rs_bytes = 0\<rparr> s of
             Inl e \<Rightarrow> Inl e
           | Inr st \<Rightarrow>
               if \<not> sl_found_server_hello st then Inl NoServerHello
               else Inr (sl_server_records st, profile_of st)))"

section \<open>The cache\<close>

definition get_cached_camouflage_profile_entry ::
  "('c, 'k, pooled_profile list) lru_ops \<Rightarrow> nat \<Rightarrow> 'k \<Rightarrow> 'c \<Rightarrow> camouflage_profile option \<times> 'c" where
  "get_cached_camouflage_profile_entry L draw key c =
     (let (entry, c') = lru_get L key c in
      (case entry of None \<Rightarrow> None | Some pool \<Rightarrow> sample_camouflage_profile draw pool, c'))"

fun lookup_keys ::
  "('c, 'k, pooled_profile list) lru_ops \<Rightarrow> (nat \<Rightarrow> nat) \<Rightarrow> 'k list \<Rightarrow> camouflage_profile option \<Rightarrow> nat \<Rightarrow> 'c \<Rightarrow>
     camouflage_profile option \<times> 'c" where
  "lookup_keys L draw [] best best_rank c = (best, c)"
| "lookup_keys L draw (key # keys) best best_rank c =
     (let (entry, c') = get_cached_camouflage_profile_entry L (draw (length keys)) key c in
      case entry of
        None \<Rightarrow> lookup_keys L draw keys best best_rank c'
      | Some p \<Rightarrow>
          let rank = camouflage_profile_rank p in
          if rank = 3 then (Some p, c')
          else if rank > best_rank then lookup_keys L draw keys (Some p) rank c'
          else lookup_keys L draw keys best best_rank c')"

definition lookup_cached_camouflage_profile ::
  "('c, 'k, pooled_profile list) lru_ops \<Rightarrow> (nat \<Rightarrow> nat) \<Rightarrow> 'k option \<Rightarrow> 'k option \<Rightarrow> 'k \<Rightarrow> 'c \<Rightarrow> camouflage_profile option \<times> 'c" where
  "lookup_cached_camouflage_profile L draw profile_key family_key probe_key c =
     lookup_keys L draw (concat (map (\<lambda>k. case k of None \<Rightarrow> [] | Some x \<Rightarrow> [x]) [profile_key, family_key, Some probe_key])) None 0 c"

definition store_camouflage_profile ::
  "('c, 'k, pooled_profile list) lru_ops \<Rightarrow> nat \<Rightarrow> 'k \<Rightarrow> camouflage_profile \<Rightarrow> 'c \<Rightarrow> 'c" where
  "store_camouflage_profile L now key p c =
     (let (entry, c') = lru_get L key c; pool = (case entry of None \<Rightarrow> [] | Some ps \<Rightarrow> ps)
      in lru_put L key (push_profile_variant now pool p) c')"

text \<open>The cooldown of a key, given the failure that is noted for it; an outdated failure is removed.\<close>

definition camouflage_refresh_is_cooling_down :: "nat \<Rightarrow> nat option \<Rightarrow> bool \<times> nat option" where
  "camouflage_refresh_is_cooling_down now failed_at =
     (case failed_at of
        None \<Rightarrow> (False, None)
      | Some t \<Rightarrow> if now - t \<le> CAMOUFLAGE_REFRESH_FAILURE_COOLDOWN_SECS * 1000000 then (True, Some t) else (False, None))"

section \<open>Which flight is replayed\<close>

text \<open>What one call of \<^verbatim>\<open>fetch_camouflage_flight\<close> observes: the cache is shared, so each of its lookups
  may see another state. The sampler is a function of the fast flag and the expected first size.\<close>

record fetch_view =
  fv_cached :: "camouflage_profile option"
  fv_specific :: "camouflage_profile option"
  fv_family :: "camouflage_profile option"
  fv_probe :: "camouflage_profile option"
  fv_cooling_down :: bool
  fv_refresh_leader :: bool
  fv_after_wait :: "camouflage_profile option"
  fv_cooling_down_after :: bool
  fv_sample :: "bool \<Rightarrow> nat option \<Rightarrow> sample_error + bytes \<times> camouflage_profile"
  fv_specific_late :: "camouflage_profile option"

datatype fetch_error = CoolingDown | SampleFailed sample_error

text \<open>The profile that is stored under the fingerprint's key and under the family's key, and whether the
  failure of the key is noted or cleared.\<close>

record fetch_effect =
  fx_store :: "camouflage_profile option"
  fx_failure :: "bool option"

type_synonym flight_source = "bytes \<times> nat list \<times> camouflage_profile"

definition no_effect :: fetch_effect where "no_effect = \<lparr>fx_store = None, fx_failure = None\<rparr>"

definition flight_of :: "camouflage_profile \<Rightarrow> flight_source" where
  "flight_of p = (cp_server_records p, cp_app_data_sizes p, p)"

definition keep_if :: "('a \<Rightarrow> bool) \<Rightarrow> 'a option \<Rightarrow> 'a option" where
  "keep_if P x = (case x of None \<Rightarrow> None | Some a \<Rightarrow> if P a then Some a else None)"

definition or_else :: "'a option \<Rightarrow> 'a option \<Rightarrow> 'a option" where
  "or_else x y = (case x of None \<Rightarrow> y | Some a \<Rightarrow> Some a)"

definition fetch_by_sampling :: "fetch_view \<Rightarrow> (fetch_error + flight_source) \<times> fetch_effect" where
  "fetch_by_sampling v =
     (let refresh_base = pick_refresh_base_profile (fv_specific v) (fv_family v);
          cached_sizes = map_option cp_app_data_sizes refresh_base;
          expected_first = (case cached_sizes of Some (x # _) \<Rightarrow> Some x | _ \<Rightarrow> None) in
      case fv_sample v (expected_first \<noteq> None) expected_first of
        Inl e \<Rightarrow>
          (case keep_if (\<lambda>p. cp_server_records p \<noteq> []) (fv_cached v) of
             Some p \<Rightarrow> Inr (flight_of p)
           | None \<Rightarrow> Inl (SampleFailed e), \<lparr>fx_store = None, fx_failure = Some True\<rparr>)
      | Inr (server_records, sampled) \<Rightarrow>
          (case cached_sizes of
             Some _ \<Rightarrow>
               let cached_entry = (case or_else (fv_specific_late v) (or_else refresh_base (fv_cached v)) of
                                     Some p \<Rightarrow> p | None \<Rightarrow> sanitize_camouflage_profile sampled);
                   merged = merge_camouflage_profile cached_entry sampled
               in (Inr (server_records, sanitize_waste_record_sizes (cp_app_data_sizes merged), merged),
                   \<lparr>fx_store = Some merged, fx_failure = Some False\<rparr>)
           | None \<Rightarrow>
               let p = sanitize_camouflage_profile sampled
               in (Inr (server_records, cp_app_data_sizes p, p), \<lparr>fx_store = Some p, fx_failure = Some False\<rparr>)))"

definition fetch_camouflage_flight :: "fetch_view \<Rightarrow> (fetch_error + flight_source) \<times> fetch_effect" where
  "fetch_camouflage_flight v =
     (case pick_best_camouflage_profile (filter is_complete_camouflage_profile
             (concat (map (\<lambda>c. case c of None \<Rightarrow> [] | Some p \<Rightarrow> [p]) [fv_specific v, fv_family v]))) of
        Some p \<Rightarrow> (Inr (flight_of p), no_effect)
      | None \<Rightarrow>
          (case keep_if (\<lambda>p. is_complete_camouflage_profile p \<and> fv_specific v = None \<and> fv_family v = None) (fv_probe v) of
             Some p \<Rightarrow> (Inr (flight_of p), no_effect)
           | None \<Rightarrow>
               if fv_cooling_down v
               then (case keep_if (\<lambda>p. cp_server_records p \<noteq> []) (fv_cached v) of
                       Some p \<Rightarrow> (Inr (flight_of p), no_effect)
                     | None \<Rightarrow> (Inl CoolingDown, no_effect))
               else if fv_refresh_leader v then fetch_by_sampling v
               else
                 (case keep_if (\<lambda>p. cp_server_records p \<noteq> []) (fv_after_wait v) of
                    Some p \<Rightarrow> (Inr (flight_of p), no_effect)
                  | None \<Rightarrow> if fv_cooling_down_after v then (Inl CoolingDown, no_effect) else fetch_by_sampling v)))"

text \<open>One round of the background refresh: what it stores, given the cached profile and the sampler.\<close>

definition daemon_refresh ::
  "camouflage_profile option \<Rightarrow> (bool \<Rightarrow> nat option \<Rightarrow> sample_error + bytes \<times> camouflage_profile) \<Rightarrow> camouflage_profile option" where
  "daemon_refresh cached sample =
     (let expected_first = (case map_option cp_app_data_sizes cached of Some (x # _) \<Rightarrow> Some x | _ \<Rightarrow> None) in
      case sample (expected_first \<noteq> None) expected_first of
        Inl _ \<Rightarrow> None
      | Inr (_, p) \<Rightarrow> Some (case cached of Some c \<Rightarrow> merge_camouflage_profile c p | None \<Rightarrow> p))"

text \<open>The startup probe: four samples, any of which may fail the start; those with application data are
  stored under the two keys.\<close>

datatype validate_error = ProbeFailed sample_error | NoAppData

fun probe_samples :: "(sample_error + bytes \<times> camouflage_profile) list \<Rightarrow> sample_error + camouflage_profile list" where
  "probe_samples [] = Inr []"
| "probe_samples (Inl e # rs) = Inl e"
| "probe_samples (Inr (_, p) # rs) =
     (case probe_samples rs of Inl e \<Rightarrow> Inl e | Inr ps \<Rightarrow> Inr (if cp_first_app_data_size p \<noteq> None then p # ps else ps))"

definition validate_camouflage_tls13_flight ::
  "('c, 'k, pooled_profile list) lru_ops \<Rightarrow> nat \<Rightarrow> 'k \<Rightarrow> 'k \<Rightarrow> (nat \<Rightarrow> sample_error + bytes \<times> camouflage_profile) \<Rightarrow> 'c \<Rightarrow>
     validate_error + 'c" where
  "validate_camouflage_tls13_flight L now profile_key probe_key sample c =
     (case probe_samples (map sample [0..<STARTUP_CAMOUFLAGE_SAMPLE_COUNT]) of
        Inl e \<Rightarrow> Inl (ProbeFailed e)
      | Inr [] \<Rightarrow> Inl NoAppData
      | Inr ps \<Rightarrow> Inr (fold (\<lambda>p c. store_camouflage_profile L now probe_key p (store_camouflage_profile L now profile_key p c)) ps c))"

section \<open>What a sample holds\<close>

abbreviation small_record :: "nat \<Rightarrow> bool" where
  "small_record n \<equiv> n < MIN_NOISE_RESPONSE_RECORD_LEN"

text \<open>The leading run of records too small for the response is in both lists, up to four of them; there is one
  gap between any two records.\<close>

definition sampler_ok :: "sampler \<Rightarrow> bool" where
  "sampler_ok st \<longleftrightarrow>
     sl_prefix_app_data_sizes st = take MAX_CAMOUFLAGE_PREFIX_APP_DATA_RECORDS (takeWhile small_record (sl_app_data_sizes st)) \<and>
     (if sl_in_prefix_run st
      then list_all small_record (sl_app_data_sizes st) \<and> length (sl_app_data_sizes st) \<le> MAX_CAMOUFLAGE_PREFIX_APP_DATA_RECORDS
      else (\<exists>n\<in>set (sl_app_data_sizes st). \<not> small_record n) \<or>
        length (takeWhile small_record (sl_app_data_sizes st)) \<ge> MAX_CAMOUFLAGE_PREFIX_APP_DATA_RECORDS) \<and>
     length (sl_app_data_sizes st) \<le> MAX_CAMOUFLAGE_APP_DATA_RECORDS \<and>
     length (sl_early_app_data_gap_us st) = length (sl_app_data_sizes st) - 1 \<and>
     (sl_last_app_data_seen st = None \<longleftrightarrow> sl_app_data_sizes st = [])"

lemma takeWhile_snoc: "takeWhile P (xs @ [x]) = (if list_all P xs then xs @ (if P x then [x] else []) else takeWhile P xs)"
  by (induction xs) auto

lemma takeWhile_all: "list_all P xs \<Longrightarrow> takeWhile P xs = xs"
  by (simp add: list_all_iff)

lemma sampler_run:
  assumes "sampler_ok st" "sl_in_prefix_run st"
  shows "length (sl_app_data_sizes st) \<le> 4" "list_all small_record (sl_app_data_sizes st)"
    "sl_prefix_app_data_sizes st = sl_app_data_sizes st"
  using assms by (auto simp: sampler_ok_def MAX_CAMOUFLAGE_PREFIX_APP_DATA_RECORDS_def takeWhile_all)

lemma sampler_note_full:
  assumes "sampler_ok st" "length (sl_app_data_sizes st) \<ge> MAX_CAMOUFLAGE_APP_DATA_RECORDS"
  shows "sampler_ok (note_prefix len st)"
proof (cases "sl_in_prefix_run st")
  case True
  then show ?thesis using sampler_run(1) [OF assms(1)] assms(2) by (simp add: camouflage_const_defs)
qed (use assms in \<open>simp add: sampler_ok_def note_prefix_def\<close>)

lemma sampler_note:
  assumes ok: "sampler_ok st" and room: "length (sl_app_data_sizes st) < MAX_CAMOUFLAGE_APP_DATA_RECORDS"
  shows "sampler_ok (note_app_data now len (note_prefix len st))"
proof -
  let ?xs = "sl_app_data_sizes st" and ?st = "note_prefix len st"
  have rest: "length (sl_early_app_data_gap_us (note_app_data now len ?st)) = length (?xs @ [len]) - 1"
      "sl_last_app_data_seen (note_app_data now len ?st) \<noteq> None" "sl_app_data_sizes (note_app_data now len ?st) = ?xs @ [len]"
      "sl_prefix_app_data_sizes (note_app_data now len ?st) = sl_prefix_app_data_sizes ?st"
      "sl_in_prefix_run (note_app_data now len ?st) = sl_in_prefix_run ?st"
    using ok by (cases "?xs = []"; auto simp: sampler_ok_def note_app_data_def note_prefix_def split: option.splits)+
  have "sl_prefix_app_data_sizes ?st = take 4 (takeWhile small_record (?xs @ [len])) \<and>
     (if sl_in_prefix_run ?st then list_all small_record (?xs @ [len]) \<and> length (?xs @ [len]) \<le> 4
      else (\<exists>n\<in>set (?xs @ [len]). \<not> small_record n) \<or> length (takeWhile small_record (?xs @ [len])) \<ge> 4)"
  proof (cases "sl_in_prefix_run st")
    case True
    note run = sampler_run [OF ok True]
    show ?thesis
      using True run takeWhile_all [OF run(2)]
      by (auto simp: note_prefix_def takeWhile_snoc MAX_CAMOUFLAGE_PREFIX_APP_DATA_RECORDS_def)
  next
    case False
    then have old: "sl_prefix_app_data_sizes st = take 4 (takeWhile small_record ?xs)"
        "(\<exists>n\<in>set ?xs. \<not> small_record n) \<or> length (takeWhile small_record ?xs) \<ge> 4"
      using ok by (auto simp: sampler_ok_def MAX_CAMOUFLAGE_PREFIX_APP_DATA_RECORDS_def)
    show ?thesis
    proof (cases "list_all small_record ?xs")
      case True
      then show ?thesis using False old takeWhile_all [OF True] by (auto simp: note_prefix_def takeWhile_snoc list_all_iff)
    next
      case big: False
      then show ?thesis using False old by (auto simp: note_prefix_def takeWhile_snoc list_all_iff)
    qed
  qed
  then show ?thesis
    using rest room unfolding sampler_ok_def MAX_CAMOUFLAGE_PREFIX_APP_DATA_RECORDS_def rest by auto
qed

lemma sampler_ok_cong:
  assumes "sampler_ok st" "sl_prefix_app_data_sizes st' = sl_prefix_app_data_sizes st" "sl_in_prefix_run st' = sl_in_prefix_run st"
    "sl_app_data_sizes st' = sl_app_data_sizes st" "sl_early_app_data_gap_us st' = sl_early_app_data_gap_us st"
    "sl_last_app_data_seen st' = sl_last_app_data_seen st"
  shows "sampler_ok st'"
  using assms by (simp add: sampler_ok_def)

lemma sample_step_ok:
  assumes "sampler_ok st" "sample_step fast ex now typ len r st = Inr (stop, st')"
  shows "sampler_ok st'"
proof -
  let ?hello = "typ = 0x16 \<and> is_server_hello r"
  let ?st = "st\<lparr>sl_total_records := sl_total_records st + 1\<rparr>"
  let ?st1 = "if ?hello then ?st\<lparr>sl_found_server_hello := True, sl_server_hello_seen := Some now\<rparr> else ?st"
  let ?st2 = "if typ = 0x14 then ?st1\<lparr>sl_has_ccs := True\<rparr> else ?st1"
  have ok: "sampler_ok ?st" "sampler_ok ?st2" by (rule sampler_ok_cong [OF assms(1)]; simp)+
  have full: "sampler_ok (note_prefix len ?st2)" if "length (sl_app_data_sizes ?st2) \<ge> MAX_CAMOUFLAGE_APP_DATA_RECORDS"
    by (rule sampler_note_full [OF ok(2) that])
  have noted: "sampler_ok (note_app_data now len (note_prefix len ?st2))" if "length (sl_app_data_sizes ?st2) < MAX_CAMOUFLAGE_APP_DATA_RECORDS"
    by (rule sampler_note [OF ok(2) that])
  have same: "sl_app_data_sizes (note_prefix len x) = sl_app_data_sizes x" for x by (simp add: note_prefix_def)
  have vis: "sampler_ok (?st2\<lparr>sl_visible_server_record_count := v\<rparr>)"
      "sampler_ok (?st2\<lparr>sl_visible_server_record_count := v, sl_server_records := w\<rparr>)" for v w
    by (rule sampler_ok_cong [OF ok(2)]; simp)+
  show ?thesis
    using assms(2) ok(1) full noted vis unfolding sample_step_def Let_def same
    by (simp only: sum.inject prod.inject split: if_splits) auto
qed

lemma sample_loop_ok:
  "sampler_ok st \<Longrightarrow> sample_loop fast ex clock st rst s = Inr st' \<Longrightarrow> sampler_ok st'"
proof (induction fast ex clock st rst s arbitrary: st' rule: sample_loop.induct)
  case (1 fast ex clock st rst s)
  show ?case
  proof (cases "read_tls_record_bounded sample_limits rst s")
    case (Inl e)
    then show ?thesis using "1.prems" by (simp add: sample_loop.simps [of fast])
  next
    case (Inr x)
    obtain ty len r rst1 s1 where x: "x = ((ty, len), r, rst1, s1)" by (cases x) auto
    show ?thesis
    proof (cases "sample_step fast ex (clock (rs_records rst)) ty len r st")
      case (Inl e)
      then show ?thesis using "1.prems" Inr x by (simp add: sample_loop.simps [of fast])
    next
      case step: (Inr y)
      obtain stop st1 where y: "y = (stop, st1)" by (cases y)
      have "sampler_ok st1" using sample_step_ok "1.prems"(1) step y by blast
      then show ?thesis
        using "1.IH" [of x "fst x" "snd x"] "1.prems" Inr x step y
        by (cases stop) (simp_all add: sample_loop.simps [of fast ex clock st])
    qed
  qed
qed

lemma sample_shape:
  assumes "read_camouflage_server_records site clock fast ex = Inr (rs, p)"
  shows "cp_prefix_app_data_sizes p = take 4 (takeWhile small_record (cp_app_data_sizes p))"
    "length (cp_app_data_sizes p) \<le> 256" "rs = cp_server_records p"
proof -
  have new: "sampler_ok sampler_new" by (simp add: sampler_ok_def sampler_new_def)
  obtain s st where "sample_loop fast ex clock sampler_new \<lparr>rs_records = 0, rs_bytes = 0\<rparr> s = Inr st" "p = profile_of st" "rs = sl_server_records st"
    using assms by (auto simp: read_camouflage_server_records_def split: option.splits sum.splits if_splits)
  moreover from this have "sampler_ok st" using sample_loop_ok [OF new] by blast
  ultimately show "cp_prefix_app_data_sizes p = take 4 (takeWhile small_record (cp_app_data_sizes p))"
      "length (cp_app_data_sizes p) \<le> 256" "rs = cp_server_records p"
    by (simp_all add: sampler_ok_def profile_of_def camouflage_const_defs)
qed

section \<open>The cache holds sanitised profiles\<close>

abbreviation sanitised :: "camouflage_profile \<Rightarrow> bool" where
  "sanitised p \<equiv> sanitize_camouflage_profile p = p"

lemma push_keeps_pool:
  assumes "pool_ok ps"
  shows "pool_ok (push_profile_variant now ps p)"
proof (cases "replace_first (\<lambda>e. same_variant (pp_profile e) (sanitize_camouflage_profile p))
    \<lparr>pp_profile = sanitize_camouflage_profile p, pp_fetched_at = now\<rparr> ps")
  case (Some qs)
  then show ?thesis
    using replace_first_some [OF Some] assms sanitize_idem [of p] by (auto simp: push_profile_variant_def Let_def pool_ok_def list_all_iff)
next
  case None
  let ?qs = "ps @ [\<lparr>pp_profile = sanitize_camouflage_profile p, pp_fetched_at = now\<rparr>]"
  have all: "\<forall>e\<in>set ?qs. sanitised (pp_profile e)" using assms sanitize_idem [of p] by (auto simp: pool_ok_def list_all_iff)
  have "length (remove_at (oldest_idx ?qs) ?qs) = length ps"
    using length_remove_at [OF oldest_idx_bound [of ?qs]] by simp
  then show ?thesis
    using None assms all set_remove_at [of "oldest_idx ?qs" ?qs]
    by (auto simp: push_profile_variant_def Let_def pool_ok_def list_all_iff dest: subsetD)
qed

lemma sampled_is_sanitised: "sample_camouflage_profile draw ps = Some p \<Longrightarrow> sanitised p"
  by (auto simp: sample_camouflage_profile_def Let_def sanitize_idem split: if_splits)

definition cache_ok :: "('c \<Rightarrow> ('k \<times> pooled_profile list) list) \<Rightarrow> 'c \<Rightarrow> bool" where
  "cache_ok view c \<longleftrightarrow> list_all (\<lambda>e. pool_ok (snd e)) (view c)"

lemma set_promote: "set (promote k es) \<subseteq> set es"
  by (auto simp: promote_def without_def dest: map_of_SomeD split: option.splits)

lemma entry_cache_ok:
  assumes "lru_ok cap L view" "cache_ok view c" "get_cached_camouflage_profile_entry L draw k c = (r, c')"
  shows "cache_ok view c'" "r = Some p \<Longrightarrow> sanitised p"
proof -
  obtain e where g: "lru_get L k c = (e, c')" "r = (case e of None \<Rightarrow> None | Some pool \<Rightarrow> sample_camouflage_profile draw pool)"
    using assms(3) by (auto simp: get_cached_camouflage_profile_entry_def split: prod.splits)
  have "view c' = promote k (view c)" using lru_okD(4) [OF assms(1), of k c] g(1) by simp
  then show "cache_ok view c'" using assms(2) set_promote [of k "view c"] by (auto simp: cache_ok_def list_all_iff)
  show "r = Some p \<Longrightarrow> sanitised p" using g(2) by (auto dest: sampled_is_sanitised split: option.splits)
qed

lemma store_cache_ok:
  assumes "lru_ok cap L view" "cache_ok view c"
  shows "cache_ok view (store_camouflage_profile L now k p c)"
proof -
  obtain r c' where g: "lru_get L k c = (r, c')" by (cases "lru_get L k c")
  have r: "r = map_of (view c) k" "view c' = promote k (view c)" using lru_okD(3,4) [OF assms(1), of k c] g by simp_all
  have "pool_ok (case r of None \<Rightarrow> [] | Some ps \<Rightarrow> ps)"
  proof (cases r)
    case (Some ps)
    then have "(k, ps) \<in> set (view c)" using r(1) by (simp add: map_of_SomeD)
    then show ?thesis using assms(2) Some by (fastforce simp: cache_ok_def list_all_iff)
  qed (simp add: pool_ok_def)
  then have "pool_ok (push_profile_variant now (case r of None \<Rightarrow> [] | Some ps \<Rightarrow> ps) p)" by (rule push_keeps_pool)
  moreover have "\<forall>e\<in>set (view c'). pool_ok (snd e)"
    using assms(2) r(2) set_promote [of k "view c"] by (auto simp: cache_ok_def list_all_iff)
  ultimately show ?thesis
    using lru_okD(6) [OF assms(1), of k _ c']
    by (fastforce simp: store_camouflage_profile_def Let_def g cache_ok_def list_all_iff without_def dest: in_set_takeD)
qed

lemma lookup_cache_ok:
  assumes "lru_ok cap L view"
  shows "cache_ok view c \<Longrightarrow> pred_option sanitised best \<Longrightarrow> lookup_keys L draw keys best rank c = (r, c') \<Longrightarrow>
    cache_ok view c' \<and> pred_option sanitised r"
proof (induction keys arbitrary: best rank c)
  case (Cons key keys)
  obtain e c1 where e: "get_cached_camouflage_profile_entry L (draw (length keys)) key c = (e, c1)"
    by (cases "get_cached_camouflage_profile_entry L (draw (length keys)) key c")
  note ok = entry_cache_ok [OF assms Cons.prems(1) e]
  show ?case
  proof (cases e)
    case None
    then show ?thesis using Cons.IH [OF ok(1) Cons.prems(2)] Cons.prems(3) e by simp
  next
    case (Some p)
    then have p: "pred_option sanitised (Some p)" using ok(2) by simp
    show ?thesis
      using Cons.IH [OF ok(1) Cons.prems(2)] Cons.IH [OF ok(1) p] ok(1) p Cons.prems(3) e Some
      by (auto simp: Let_def split: if_splits)
  qed
qed simp

lemma merged_is_sanitised: "sanitised (merge_camouflage_profile c s)"
  by (simp add: merge_camouflage_profile_def Let_def sanitize_idem)

lemma best_from_list: "pick_best_camouflage_profile cs = Some p \<Longrightarrow> p \<in> set cs"
proof -
  have "fst (foldl (\<lambda>(best, best_rank) c.
      let rank = camouflage_profile_rank c in if rank > best_rank then (Some c, rank) else (best, best_rank)) (b, n) cs) = Some p \<Longrightarrow>
      b = Some p \<or> p \<in> set cs" for b n
    by (induction cs arbitrary: b n) (auto simp: Let_def split: if_splits)
  from this [of None 0] show "pick_best_camouflage_profile cs = Some p \<Longrightarrow> p \<in> set cs"
    by (simp add: pick_best_camouflage_profile_def)
qed

definition view_ok :: "fetch_view \<Rightarrow> bool" where
  "view_ok v \<longleftrightarrow> list_all (pred_option sanitised) [fv_cached v, fv_specific v, fv_family v, fv_probe v, fv_after_wait v]"

lemma view_okD:
  assumes "view_ok v" "Some q \<in> {fv_cached v, fv_specific v, fv_family v, fv_probe v, fv_after_wait v}"
  shows "sanitised q"
proof -
  have "pred_option sanitised (Some q)"
    using assms unfolding view_ok_def by (elim insertE emptyE) (simp_all only: list.pred_inject)
  then show ?thesis by simp
qed

lemma keep_if_some: "keep_if P x = Some a \<Longrightarrow> x = Some a"
  by (auto simp: keep_if_def split: option.splits if_splits)

text \<open>Whatever the lookups of one call observe, the flight that is replayed comes from a sanitised profile, with the
  sizes of that profile; and what is stored is sanitised as well.\<close>

lemma sampling_usable:
  assumes "view_ok v" "fetch_by_sampling v = (r, fx)"
  shows "r = Inr (rs, sizes, p) \<Longrightarrow> sanitised p \<and> sizes = cp_app_data_sizes p" "pred_option sanitised (fx_store fx)"
proof -
  have waste: "sanitize_waste_record_sizes (cp_app_data_sizes (merge_camouflage_profile c t)) = cp_app_data_sizes (merge_camouflage_profile c t)" for c t
    using sanitized_profile(4) [OF merged_is_sanitised [of c t]] by (simp add: sanitize_waste_record_sizes_def list_all_iff filter_id_conv)
  let ?base = "pick_refresh_base_profile (fv_specific v) (fv_family v)"
  let ?ex = "case map_option cp_app_data_sizes ?base of Some (x # _) \<Rightarrow> Some x | _ \<Rightarrow> None"
  have "(r = Inr (rs, sizes, p) \<longrightarrow> sanitised p \<and> sizes = cp_app_data_sizes p) \<and> pred_option sanitised (fx_store fx)"
  proof (cases "fv_sample v (?ex \<noteq> None) ?ex")
    case (Inl e)
    then have out: "r = (case keep_if (\<lambda>p. cp_server_records p \<noteq> []) (fv_cached v) of Some p \<Rightarrow> Inr (flight_of p) | None \<Rightarrow> Inl (SampleFailed e))"
        "fx_store fx = None"
      using assms(2) by (auto simp: fetch_by_sampling_def Let_def)
    have "pred_option sanitised (fv_cached v)" using assms(1) by (simp add: view_ok_def)
    then show ?thesis using out by (auto simp: flight_of_def dest: keep_if_some split: option.splits)
  next
    case (Inr y)
    obtain recs t where y: "y = (recs, t)" by (cases y)
    obtain q where "r = Inr (recs, cp_app_data_sizes q, q)" "fx_store fx = Some q" "sanitised q"
    proof (cases ?base)
      case None
      then show ?thesis
        using that [of "sanitize_camouflage_profile t"] assms(2) Inr y by (auto simp: fetch_by_sampling_def Let_def sanitize_idem)
    next
      case (Some base)
      show ?thesis
        using that [OF _ _ merged_is_sanitised] assms(2) Inr y Some by (force simp: fetch_by_sampling_def Let_def waste)
    qed
    then show ?thesis by auto
  qed
  then show "r = Inr (rs, sizes, p) \<Longrightarrow> sanitised p \<and> sizes = cp_app_data_sizes p" "pred_option sanitised (fx_store fx)" by simp_all
qed

lemma fetched_flight_usable:
  assumes "view_ok v" "fetch_camouflage_flight v = (r, fx)"
  shows "r = Inr (rs, sizes, p) \<Longrightarrow> sanitised p \<and> sizes = cp_app_data_sizes p" "pred_option sanitised (fx_store fx)"
proof -
  let ?cs = "filter is_complete_camouflage_profile
      (concat (map (\<lambda>c. case c of None \<Rightarrow> [] | Some p \<Rightarrow> [p]) [fv_specific v, fv_family v]))"
  have best: "sanitised q" if "pick_best_camouflage_profile ?cs = Some q" for q
    by (rule view_okD [OF assms(1)]) (use best_from_list [OF that] in \<open>auto split: option.splits\<close>)
  have kept: "sanitised q" if "Some q \<in> {fv_cached v, fv_probe v, fv_after_wait v}" for q
    by (rule view_okD [OF assms(1)]) (use that in auto)
  consider (flight) q where "r = Inr (flight_of q)" "fx = no_effect" "sanitised q" | (cool) "r = Inl CoolingDown" "fx = no_effect"
    | (sample) "fetch_by_sampling v = (r, fx)"
  proof (cases "pick_best_camouflage_profile ?cs")
    case (Some q)
    then show ?thesis using that(1) best [OF Some] assms(2) by (auto simp: fetch_camouflage_flight_def)
  next
    case None
    have c: "Some q = fv_cached v \<or> Some q = fv_probe v \<or> Some q = fv_after_wait v \<Longrightarrow> r = Inr (flight_of q) \<Longrightarrow> fx = no_effect \<Longrightarrow> thesis" for q
      using that(1) kept [of q] by simp
    let ?complete = "\<lambda>p. is_complete_camouflage_profile p \<and> fv_specific v = None \<and> fv_family v = None"
    let ?hello = "\<lambda>p :: camouflage_profile. cp_server_records p \<noteq> []"
    note fetch = assms(2) [unfolded fetch_camouflage_flight_def None option.case]
    show ?thesis
    proof (cases "keep_if ?complete (fv_probe v)")
      case (Some q)
      then show ?thesis using c [of q] keep_if_some [OF Some] fetch by simp
    next
      case probe: None
      show ?thesis
      proof (cases "fv_cooling_down v")
        case True
        then show ?thesis
          using c that(2) fetch probe keep_if_some [of ?hello "fv_cached v"] by (cases "keep_if ?hello (fv_cached v)") auto
      next
        case warm: False
        show ?thesis
        proof (cases "fv_refresh_leader v")
          case True
          then show ?thesis using warm that(3) fetch probe by simp
        next
          case False
          then show ?thesis
          proof (cases "keep_if ?hello (fv_after_wait v)")
            case None
            then have "(if fv_cooling_down_after v then (Inl CoolingDown, no_effect) else fetch_by_sampling v) = (r, fx)"
              using False warm fetch probe by simp
            then show ?thesis using that(2,3) by (cases "fv_cooling_down_after v") simp_all
          next
            case (Some q)
            then show ?thesis using False warm c [of q] keep_if_some [OF Some] fetch probe by simp
          qed
        qed
      qed
    qed
  qed
  then have "(r = Inr (rs, sizes, p) \<longrightarrow> sanitised p \<and> sizes = cp_app_data_sizes p) \<and> pred_option sanitised (fx_store fx)"
    by cases (use sampling_usable [OF assms(1), of r fx] in \<open>auto simp: flight_of_def no_effect_def\<close>)
  then show "r = Inr (rs, sizes, p) \<Longrightarrow> sanitised p \<and> sizes = cp_app_data_sizes p" "pred_option sanitised (fx_store fx)" by simp_all
qed

section \<open>The replay shows the sampled sizes\<close>

definition replayed_sizes :: "camouflage_profile \<Rightarrow> nat list" where
  "replayed_sizes p = cp_prefix_app_data_sizes p @ response_sizes (cp_app_data_sizes p)"

lemma junk_records_sizes: "map length (junk_records draw k ns) = map (\<lambda>n. TLS_RECORD_HEADER_LEN + n) ns"
  by (induction ns arbitrary: k) (simp_all add: app_record_raw length_raw junk_def TLS_RECORD_HEADER_LEN_def)

lemma flight_sizes:
  assumes "synthetic_flight H noise_write psk tag d hello server (cp_app_data_sizes p) p = Inr (rs, apps)"
    "hash_ok H" "length psk = 32" "length tag = 16" "noise_pair noise_write noise_read" "length (cp_app_data_sizes p) \<le> 256"
  shows "map length apps = map (\<lambda>n. TLS_RECORD_HEADER_LEN + n) (replayed_sizes p)"
proof -
  obtain noise_records where apps: "apps = junk_records (fd_junk d) 0 (cp_prefix_app_data_sizes p) @ noise_records"
      and build: "build_noise_response_sequence H noise_write psk tag (fd_junk d) (length (cp_prefix_app_data_sizes p))
        (response_sizes (cp_app_data_sizes p)) = Inr noise_records"
    by (rule flight_parts [OF assms(1)])
  obtain first ghosts where sizes: "response_sizes (cp_app_data_sizes p) = first # ghosts" "length ghosts \<le> length (cp_app_data_sizes p)"
    by (rule response_sizes_ok [of "cp_app_data_sizes p"])
  let ?c = "\<lparr>cs_found_server_hello = True, cs_ccs_records = 0, cs_handshake_records = 0, cs_app_data_probes = 0\<rparr>"
  obtain masked where "noise_records = app_record masked # junk_records (fd_junk d) (length (cp_prefix_app_data_sizes p)) ghosts"
      "length masked = first"
    by (rule response_record [where c = ?c, OF build [unfolded sizes(1)] assms(2-5)])
      (use sizes(2) assms(6) in \<open>simp_all add: client_const_defs\<close>)
  then show ?thesis
    by (simp add: apps replayed_sizes_def sizes(1) junk_records_sizes app_record_raw length_raw TLS_RECORD_HEADER_LEN_def)
qed

lemma sample_replayed:
  assumes "cp_prefix_app_data_sizes p = take 4 (takeWhile small_record (cp_app_data_sizes p))" "length (cp_app_data_sizes p) \<le> 256"
    "list_all record_size_ok (cp_app_data_sizes p)" "length (takeWhile small_record (cp_app_data_sizes p)) \<le> 4"
    "\<exists>n\<in>set (cp_app_data_sizes p). \<not> small_record n"
  shows "replayed_sizes (sanitize_camouflage_profile p) = cp_app_data_sizes p"
    "cp_app_data_sizes (sanitize_camouflage_profile p) = cp_app_data_sizes p"
proof -
  let ?xs = "cp_app_data_sizes p"
  have f: "filter record_size_ok ?xs = ?xs" "filter record_size_ok (takeWhile small_record ?xs) = takeWhile small_record ?xs"
    using assms(3) by (auto simp: list_all_iff filter_id_conv dest: set_takeWhileD)
  have p: "cp_prefix_app_data_sizes p = takeWhile small_record ?xs" using assms(1,4) by simp
  have ne: "dropWhile small_record ?xs \<noteq> []" using assms(5) by simp
  show "cp_app_data_sizes (sanitize_camouflage_profile p) = ?xs"
    using f assms(2) by (simp add: sanitize_camouflage_profile_def Let_def MAX_CAMOUFLAGE_APP_DATA_RECORDS_def)
  moreover have "cp_prefix_app_data_sizes (sanitize_camouflage_profile p) = takeWhile small_record ?xs"
    using f p assms(4) by (simp add: sanitize_camouflage_profile_def Let_def MAX_CAMOUFLAGE_PREFIX_APP_DATA_RECORDS_def)
  moreover have "response_sizes ?xs = dropWhile small_record ?xs"
    using f(1) ne by (simp add: response_sizes_def Let_def sanitize_waste_record_sizes_def del: dropWhile_eq_Nil_conv)
  ultimately show "replayed_sizes (sanitize_camouflage_profile p) = ?xs" by (simp add: replayed_sizes_def)
qed

text \<open>C6: A replayed flight shows the record sizes of the site it was sampled from. Take any complete sample of a site whose
  application-data records all have admissible sizes, begin with at most four records too small for the Noise response
  and contain one that is large enough. Then a flight made from that sample consists of application-data records of exactly
  those sizes in exactly that order, the response hidden in the first record that can hold it: an observer of sizes cannot tell it from the site.\<close>

theorem replay_mirrors_sample:
  assumes "read_camouflage_server_records site clock False None = Inr (rs, p)"
    "list_all record_size_ok (cp_app_data_sizes p)" "length (takeWhile small_record (cp_app_data_sizes p)) \<le> 4"
    "\<exists>n\<in>set (cp_app_data_sizes p). MIN_NOISE_RESPONSE_RECORD_LEN \<le> n" "q = sanitize_camouflage_profile p"
    "synthetic_flight H noise_write psk tag d hello rs (cp_app_data_sizes q) q = Inr (rs', apps)"
    "hash_ok H" "length psk = 32" "length tag = 16" "noise_pair noise_write noise_read"
  shows "map length apps = map (\<lambda>n. TLS_RECORD_HEADER_LEN + n) (cp_app_data_sizes p)"
proof -
  note shape = sample_shape [OF assms(1)]
  have big: "\<exists>n\<in>set (cp_app_data_sizes p). \<not> small_record n" using assms(4) by (simp add: not_less)
  note r = sample_replayed [OF shape(1,2) assms(2,3) big, folded assms(5)]
  have "length (cp_app_data_sizes q) \<le> 256" using r(2) shape(2) by simp
  then have "map length apps = map (\<lambda>n. TLS_RECORD_HEADER_LEN + n) (replayed_sizes q)"
    by (rule flight_sizes [OF assms(6-10)])
  then show ?thesis by (simp add: r(1))
qed

lemma sanitize_keeps:
  "list_all record_size_ok (cp_app_data_sizes d) \<Longrightarrow> length (cp_app_data_sizes d) \<le> 256 \<Longrightarrow>
    cp_app_data_sizes (sanitize_camouflage_profile d) = cp_app_data_sizes d"
  "list_all record_size_ok (cp_prefix_app_data_sizes d) \<Longrightarrow> length (cp_prefix_app_data_sizes d) \<le> 4 \<Longrightarrow>
    cp_prefix_app_data_sizes (sanitize_camouflage_profile d) = cp_prefix_app_data_sizes d"
  by (simp_all add: sanitize_camouflage_profile_def Let_def camouflage_const_defs list_all_iff)

text \<open>A fast sample stops at the first record when its size is the cached one. Merging it keeps the cached sizes but
  replaces the prefix by the one record that was seen, and the replay skips the other small records.\<close>

lemma fast_refresh_drops_records:
  assumes "daemon_refresh (Some c) sample = Some q" "cp_app_data_sizes c = a # b # ns" "sanitised c" "small_record a" "small_record b"
    "sample True (Some a) = Inr (rs, s)" "cp_app_data_sizes s = [a]" "cp_prefix_app_data_sizes s = [a]"
    "\<exists>n\<in>set ns. \<not> small_record n"
  shows "cp_app_data_sizes q = a # b # ns" "replayed_sizes q = a # dropWhile small_record ns"
proof -
  have all: "list_all record_size_ok (a # b # ns)" and len: "length (a # b # ns) \<le> 256"
    using assms(2) sanitized_profile(3,4) [OF assms(3)] by simp_all
  have filt: "filter record_size_ok ns = ns" using all by (simp add: list_all_iff filter_id_conv)
  have q: "q = merge_camouflage_profile c s" using assms(1,2,6) by (simp add: daemon_refresh_def)
  have sz: "cp_app_data_sizes (sanitize_camouflage_profile s) = [a]" "cp_prefix_app_data_sizes (sanitize_camouflage_profile s) = [a]"
    using all assms(7,8) sanitize_keeps [of s] by simp_all
  show sizes: "cp_app_data_sizes q = a # b # ns"
    unfolding q merge_camouflage_profile_def Let_def sz
    by (subst sanitize_keeps(1)) (use all len assms(2) in simp_all)
  have "cp_prefix_app_data_sizes q = [a]"
    unfolding q merge_camouflage_profile_def Let_def sz
    by (subst sanitize_keeps(2)) (use all assms(2) in simp_all)
  moreover have "response_sizes (a # b # ns) = dropWhile small_record ns"
  proof -
    have "sanitize_waste_record_sizes (a # b # ns) = a # b # ns" "dropWhile small_record (a # b # ns) = dropWhile small_record ns"
      using all filt assms(4,5) by (simp_all add: sanitize_waste_record_sizes_def)
    moreover have "dropWhile small_record ns \<noteq> []" using assms(9) by simp
    ultimately show ?thesis unfolding response_sizes_def Let_def by (simp only: if_False)
  qed
  ultimately show "replayed_sizes q = a # dropWhile small_record ns" by (simp add: replayed_sizes_def sizes)
qed

text \<open>A fast sample is also left at a later record that happens to have the expected first size, with the truncated
  list of sizes that it has then.\<close>

lemma fast_stops_at_later_record:
  assumes "sl_found_server_hello st" "sl_app_data_sizes st = first # ns" "length ns < 255" "sl_total_records st < 512"
  shows "\<exists>st'. sample_step True (Some e) now 0x17 e r st = Inr (True, st') \<and> sl_app_data_sizes st' = first # ns @ [e]"
  using assms
  by (simp add: sample_step_def Let_def note_prefix_def note_app_data_def MAX_CAMOUFLAGE_TOTAL_RECORDS_def camouflage_const_defs)

text \<open>A site that answers with a ServerHello and three records of 20, 60 and 17 bytes.\<close>

definition demo_site :: socket where
  "demo_site = (cp_server_records demo_profile @ concat (junk_records (\<lambda>_ _. 0xAB) 0 [20, 60, 17]), TimedOut)"

definition demo_sample :: camouflage_profile where
  "demo_sample = \<lparr>cp_server_records = cp_server_records demo_profile, cp_prefix_app_data_sizes = [20],
     cp_app_data_sizes = [20, 60, 17], cp_first_app_data_size = Some 20, cp_early_app_data_count = 3, cp_has_ccs = False,
     cp_visible_server_record_count = 1, cp_first_app_data_delay_us = 10, cp_early_app_data_gap_us = [10, 10]\<rparr>"

lemma sample_next:
  assumes "length b \<le> MAX_TLS_RECORD_PAYLOAD_LEN" "rs_records rst < MAX_CAMOUFLAGE_TOTAL_RECORDS"
    "rs_bytes rst + (5 + length b) \<le> MAX_CAMOUFLAGE_TOTAL_RECORD_BYTES"
  shows "sample_loop fast ex clock st rst (raw_record (t, v, w, b) @ rest, e) =
    (case sample_step fast ex (clock (rs_records rst)) t (length b) (raw_record (t, v, w, b)) st of
       Inl err \<Rightarrow> Inl err
     | Inr (True, st1) \<Rightarrow> Inr st1
     | Inr (False, st1) \<Rightarrow>
         sample_loop fast ex clock st1 \<lparr>rs_records = Suc (rs_records rst), rs_bytes = rs_bytes rst + (5 + length b)\<rparr> (rest, e))"
  using assms read_raw [of b rst sample_limits t v w rest e]
  by (subst sample_loop.simps) (simp add: sample_limits_def length_raw)

lemma sample_end: "sample_loop fast ex clock st rst ([], e) = Inr st"
  by (subst sample_loop.simps) (simp add: read_tls_record_bounded_def read_exact_def sample_limits_def)

lemma demo_sampled: "read_camouflage_server_records (Some demo_site) (\<lambda>n. 10 * n) False None = Inr (cp_server_records demo_profile, demo_sample)"
proof -
  define h :: bytes where "h = [2, 0, 0, 82, 3, 3] @ replicate 32 1 @ [2, 4, 4, 0x13, 1, 0, 0, 40] @ [0, 0x33, 0, 36, 0, 0x1D, 0, 32] @ replicate 32 8"
  let ?j = "\<lambda>n. replicate n 0xAB :: bytes"
  have p: "cp_server_records demo_profile = raw_record (0x16, 3, 3, h)" by (simp add: demo_profile_def h_def)
  have site: "demo_site = (raw_record (0x16, 3, 3, h) @ raw_record (0x17, 3, 3, ?j 20) @ raw_record (0x17, 3, 3, ?j 60) @ raw_record (0x17, 3, 3, ?j 17) @ [], TimedOut)"
    by (simp add: demo_site_def p app_record_raw junk_def map_replicate_const)
  have hello: "is_server_hello (raw_record (0x16, 3, 3, h))" "\<not> is_hello_retry_request (raw_record (0x16, 3, 3, h))" "length h = 86"
    unfolding h_def by code_simp+
  show ?thesis
    unfolding read_camouflage_server_records_def site option.case p demo_sample_def
    by (simp add: sample_next sample_next [where rest = "[]", simplified append_Nil2] sample_end sample_step_def hello Let_def note_prefix_def note_app_data_def sampler_new_def length_raw
        camouflage_const_defs MAX_CAMOUFLAGE_TOTAL_RECORDS_def MAX_CAMOUFLAGE_TOTAL_RECORD_BYTES_def MAX_CAMOUFLAGE_SERVER_RECORD_BYTES_def
        MAX_TLS_RECORD_PAYLOAD_LEN_def micros_between_def profile_of_def)
qed

lemma demo_sample_sanitised: "demo_sample = sanitize_camouflage_profile demo_sample"
  by (simp add: sanitize_camouflage_profile_def demo_sample_def record_size_ok_def camouflage_const_defs Let_def)

definition demo_sample_apps :: "bytes list" where
  "demo_sample_apps = junk_records (\<lambda>_ _. 0xFF) 0 [20] @ [app_record (replicate 48 0 @ make_control_payload 1 @ replicate 6 0)]
     @ junk_records (\<lambda>_ _. 0xFF) 1 [17]"

lemma demo_sample_flight:
  "synthetic_flight (\<lambda>_. replicate 32 0) demo_write (replicate 32 1) (replicate 16 2) demo_draws demo_hello (cp_server_records demo_profile)
     (cp_app_data_sizes demo_sample) demo_sample =
   Inr (concat (map raw_record demo_patched), demo_sample_apps)"
  by code_simp

theorem replay_mirrors_sample_witness: "map length demo_sample_apps = map (\<lambda>n. TLS_RECORD_HEADER_LEN + n) [20, 60, 17]"
  using replay_mirrors_sample [OF demo_sampled _ _ _ demo_sample_sanitised demo_sample_flight _ _ _ demo_noise]
  by (simp add: demo_sample_def record_size_ok_def camouflage_const_defs hash_ok_def)

end
