(* ===== verification/Spec2Isabelle.thy ===== *)
theory Spec2Isabelle
  imports Frame Pending ControlSize RecordLayer Window Replay Fingerprint Handshake Inbound Delivery Goaway Drain Pool Sampling
begin

text \<open>
  A verification development for kanotls, a tunnel that disguises itself as TLS 1.3.

  \<^bold>\<open>The program.\<close> A client and a server share a password. The client opens a TCP connection and
  sends a ClientHello copied from a browser in which the random and the session id carry a
  Noise handshake message, a masked counter and a MAC (\<^verbatim>\<open>tunnel/template.rs\<close>). The server
  authenticates it, rejects replays and otherwise relays the bytes to a real web site
  (\<^verbatim>\<open>tunnel/server\<close>). It answers with a replay of that site's TLS flight in which the Noise response is
  hidden (\<^verbatim>\<open>server/camouflage.rs\<close>). Both sides then exchange TLS-shaped records (\<^verbatim>\<open>tunnel/common.rs\<close>) whose
  sizes follow HTTP/2 (\<^verbatim>\<open>control_size.rs\<close>) and a traffic script (\<^verbatim>\<open>config/script.rs\<close>,
  \<^verbatim>\<open>session/shaper.rs\<close>). Inside the records run frames (\<^verbatim>\<open>session/frame.rs\<close>) that multiplex streams
  (\<^verbatim>\<open>session/session.rs\<close>) with buffering (\<^verbatim>\<open>pending.rs\<close>) and flow control (\<^verbatim>\<open>window.rs\<close>). The
  local applications reach the tunnel by SOCKS5 or HTTP CONNECT (\<^verbatim>\<open>crates/proto\<close>).

  \<^bold>\<open>Theories and what they show.\<close>
  \<^item> \<^verbatim>\<open>Prelude\<close>: machine types, big-endian conversion, slices, sums over maps, the interface of
    incremental decoders. \<^verbatim>\<open>Keyed_Queue\<close>: the interface of per-key queues. \<^verbatim>\<open>Net\<close>: textual IP
    addresses as in \<^verbatim>\<open>std::net\<close>.
  \<^item> \<^verbatim>\<open>Frame\<close> (\<^verbatim>\<open>frame.rs\<close>): encoding and decoding are inverse for every segmentation of the stream;
    splitting, coalescing and padding keep bytes and sizes.
  \<^item> \<^verbatim>\<open>Pending\<close> (\<^verbatim>\<open>pending.rs\<close>): the backlog refines one list per stream, and the byte accounts are exact.
  \<^item> \<^verbatim>\<open>Window\<close> (\<^verbatim>\<open>window.rs\<close>): the sender as a concurrent step relation never overcommits, the receiver
    loses no credit, and a sender can be left parked with credit.
  \<^item> \<^verbatim>\<open>ControlSize\<close>, \<^verbatim>\<open>RecordLayer\<close> (\<^verbatim>\<open>control_size.rs\<close>, \<^verbatim>\<open>common.rs\<close>): which sizes records have, and that
    the reader delivers exactly the payloads that were sealed, however the socket splits them.
  \<^item> \<^verbatim>\<open>Script\<close> (\<^verbatim>\<open>config/script.rs\<close>), \<^verbatim>\<open>Shaper\<close> (\<^verbatim>\<open>shaper.rs\<close>): accepted scripts are usable, and every size
    the shaper orders is one a record can have.
  \<^item> \<^verbatim>\<open>Writer\<close>, \<^verbatim>\<open>Drain\<close> (writer task of \<^verbatim>\<open>session.rs\<close>): a drain ends with the backlog written in order,
    and control records come only between whole frames.
  \<^item> \<^verbatim>\<open>Session\<close> (\<^verbatim>\<open>session.rs\<close>, \<^verbatim>\<open>server.rs\<close>, read half of \<^verbatim>\<open>stream.rs\<close>): the state of a session and one
    definition per operation. \<^verbatim>\<open>SessionBooks\<close>: the tables, reservations, accounts and limits stay
    consistent in every reachable state. \<^verbatim>\<open>Delivery\<close>: a stream delivers a prefix of what was sent, in
    order. \<^verbatim>\<open>Goaway\<close>: a stream above the announced mark was never processed by the peer.
  \<^item> \<^verbatim>\<open>Utils\<close>, \<^verbatim>\<open>ClientHello\<close>, \<^verbatim>\<open>Fingerprint\<close> (\<^verbatim>\<open>utils.rs\<close>): key derivation, the ClientHello scanners, their
    bounds and the stability of the fingerprint.
  \<^item> \<^verbatim>\<open>Template\<close>, \<^verbatim>\<open>Replay\<close>, \<^verbatim>\<open>Auth\<close>, \<^verbatim>\<open>Handshake\<close> (\<^verbatim>\<open>template.rs\<close>, \<^verbatim>\<open>replay.rs\<close>, \<^verbatim>\<open>auth.rs\<close>, \<^verbatim>\<open>server/mod.rs\<close>): a
    ClientHello the client builds is accepted, an accepted one proves the key, none is accepted twice.
  \<^item> \<^verbatim>\<open>Camouflage\<close>, \<^verbatim>\<open>Sampling\<close> (\<^verbatim>\<open>server/camouflage.rs\<close>, \<^verbatim>\<open>client.rs\<close>): how profiles of a real site are sampled, pooled,
    cached and chosen, the flight that replays them, and the client that reads it. A replay shows the
    sampled record sizes, and the client consumes exactly the flight.
  \<^item> \<^verbatim>\<open>Target\<close>, \<^verbatim>\<open>Inbound\<close> (\<^verbatim>\<open>crates/proto\<close>): target addresses and datagrams survive the wire, blocked
    destinations are the documented prefixes, client and server of SOCKS5 agree.
  \<^item> \<^verbatim>\<open>PoolBehavior\<close>, \<^verbatim>\<open>Pool\<close> (\<^verbatim>\<open>crates/pool\<close>): the seeded parameters stay in their ranges, streams go to the least
    loaded connection, and no interleaving of the tasks exceeds the limits or miscounts.

  \<^bold>\<open>State and effects.\<close> Every struct is a record, every operation a function from the state to the
  result and the new state; errors are values. Locks are atomic sections: what happens between two
  sections is a separate step, and the step relations of \<^verbatim>\<open>Window\<close>, \<^verbatim>\<open>SessionBooks\<close>, \<^verbatim>\<open>Delivery\<close> and \<^verbatim>\<open>Pool\<close>
  interleave them freely. Sockets are lists of events. Random draws, clocks and
  the outcome of \<^verbatim>\<open>try_lock\<close> are arguments. Floating-point numbers are rationals.

  \<^bold>\<open>Parameters.\<close> The AEAD and the Noise responder of \<^verbatim>\<open>snow\<close>, the hashes, the LRU map and the DNS resolver
  are arguments; what is needed of them is a named predicate (\<^const>\<open>aead_correct\<close>,
  \<^const>\<open>aead_total\<close>, \<^const>\<open>noise_pair\<close>, \<^const>\<open>lru_ok\<close>, \<^const>\<open>hash_ok\<close>), and every theorem that uses one has a concrete instance.

  \<^bold>\<open>Loops.\<close> No fuel is used: the loops of the decoders, the scanners, the samplers (over the list of
  draws), the cutting of control packets and the drain are total functions with a proved measure.

  \<^bold>\<open>Not modelled.\<close> The relaying of unauthenticated connections (\<^verbatim>\<open>server/fallback.rs\<close>), the gate on which
  concurrent samplers of one site wait and the jitter of the replayed pauses
  (\<^verbatim>\<open>server/camouflage.rs\<close>), the client's Flight 3 ghost (\<^verbatim>\<open>client.rs\<close>), the write half of a stream, the JSON
  configuration, the DNS cache, certificate handling, statistics, timers, and the process itself
  (\<^verbatim>\<open>kanotls/src\<close>): they are I/O, or wait on clocks and other tasks more than they compute.
\<close>

end
